(* ===== verification/Prelude.thy ===== *)
theory Prelude
  imports "HOL-Library.Word"
begin

text \<open>
  Shared vocabulary of the development: the machine integers of the C++ code, strings of
  bytes with the operations the code uses on them (\<open>size\<close>, \<open>substr\<close>), the failures a C++
  call can end in, and two interfaces used by several components: a machine whose
  operations preserve an invariant, and a codec whose decoder undoes its encoder.
\<close>

section \<open>Machine integers and strings of bytes\<close>

type_synonym byte = "8 word"
type_synonym u8 = "8 word"
type_synonym u16 = "16 word"
type_synonym u32 = "32 word"
type_synonym u64 = "64 word"

text \<open>
  \<open>size_t\<close> is 64 bits wide on the platforms the code targets. A \<open>std::string\<close> is a list of
  bytes; \<open>size_of\<close> is its \<open>size()\<close>.
\<close>

definition size_of :: "'a list \<Rightarrow> u64" where
  "size_of xs = of_nat (length xs)"

text \<open>
  Ways a call can fail: an exception that the code throws (with its message), a failed
  \<open>assert\<close>, or undefined behaviour of C++.
\<close>

datatype failure = Thrown string | AssertFailed | UndefinedBehaviour

text \<open>
  \<open>std::string::substr(pos, n)\<close>: throws \<open>out_of_range\<close> when \<open>pos > size()\<close>, otherwise the
  at most \<open>n\<close> bytes from \<open>pos\<close> on.
\<close>

definition substr :: "u64 \<Rightarrow> u64 \<Rightarrow> byte list \<Rightarrow> failure + byte list" where
  "substr pos n s =
     (if size_of s < pos then Inl (Thrown ''out_of_range'')
      else Inr (take (unat n) (drop (unat pos) s)))"

named_theorems size_simps \<open>reading machine sizes as natural numbers\<close>

lemma unat_size_of [size_simps]: "length xs < 2 ^ 64 \<Longrightarrow> unat (size_of xs) = length xs"
  by (simp add: size_of_def unat_of_nat take_bit_nat_eq_self)

lemma unat_size_of_le: "unat (size_of xs) \<le> length xs"
  by (simp add: size_of_def unat_of_nat take_bit_nat_less_eq_self)

lemma size_of_Nil [simp]: "size_of [] = 0"
  by (simp add: size_of_def)

lemma size_of_append [size_simps]: "size_of (xs @ ys) = size_of xs + size_of ys"
  by (simp add: size_of_def)

lemma unat_of_nat_u64 [size_simps]: "n < 2 ^ 64 \<Longrightarrow> unat (of_nat n :: u64) = n"
  by (simp add: unat_of_nat take_bit_nat_eq_self)

lemma unat_add_u64 [size_simps]:
  "unat a + unat b < 2 ^ 64 \<Longrightarrow> unat (a + b :: u64) = unat a + unat b"
  by (simp add: unat_word_ariths)

lemma unat_sub_u64 [size_simps]: "b \<le> a \<Longrightarrow> unat (a - b :: u64) = unat a - unat b"
  by (rule unat_sub)

lemma unat_lt_u64: "unat (a :: u64) < 2 ^ 64"
  using unsigned_less [of a] by simp

lemma unat_lt_u32: "unat (a :: u32) < 2 ^ 32"
  using unsigned_less [of a] by simp

lemma unat_lt_u16: "unat (a :: u16) < 2 ^ 16"
  using unsigned_less [of a] by simp

lemma unat_lt_u8: "unat (a :: u8) < 2 ^ 8"
  using unsigned_less [of a] by simp

lemma unat_eqI_u64: "unat (a :: u64) = n \<Longrightarrow> a = of_nat n"
  by auto

lemma sint_of_nat_u64: "m < 2 ^ 63 \<Longrightarrow> sint (of_nat m :: u64) = int m"
  by (simp add: signed_of_nat signed_take_bit_int_eq_self)

lemma min_of_nat_u64:
  assumes "n < 2 ^ 64"
  shows "min (of_nat n) (a :: u64) = of_nat (min n (unat a))"
  using assms by (auto simp: min_def word_le_nat_alt size_simps)

lemma take_min_length [simp]:
  "take (min (length xs) n) xs = take n xs"
  "take (min n (length xs)) xs = take n xs"
  by (simp_all add: min_def)

section \<open>Machines with an invariant\<close>

text \<open>
  Several components are a state with a set of operations, each of which keeps the
  component's invariant. What follows for whole runs is proved once.
\<close>

fun run :: "('op \<Rightarrow> 's \<Rightarrow> 's) \<Rightarrow> 'op list \<Rightarrow> 's \<Rightarrow> 's" where
  "run step [] s = s"
| "run step (x # xs) s = run step xs (step x s)"

lemma run_append: "run step (xs @ ys) s = run step ys (run step xs s)"
  by (induction xs arbitrary: s) auto

locale machine =
  fixes step :: "'op \<Rightarrow> 's \<Rightarrow> 's"
    and inv :: "'s \<Rightarrow> bool"
  assumes step_inv: "inv s \<Longrightarrow> inv (step x s)"
begin

lemma run_inv: "inv s \<Longrightarrow> inv (run step xs s)"
  by (induction xs arbitrary: s) (auto simp: step_inv)

end

text \<open>
  A machine with an observation that only grows: a quantity that no operation decreases
  is not decreased by a run.
\<close>

locale monotone_machine = machine step inv
  for step :: "'op \<Rightarrow> 's \<Rightarrow> 's" and inv :: "'s \<Rightarrow> bool" +
  fixes level :: "'s \<Rightarrow> nat"
  assumes step_level: "inv s \<Longrightarrow> level s \<le> level (step x s)"
begin

lemma run_level: "inv s \<Longrightarrow> level s \<le> level (run step xs s)"
proof (induction xs arbitrary: s)
  case Nil
  show ?case by simp
next
  case (Cons x xs)
  have "level s \<le> level (step x s)" using Cons.prems by (rule step_level)
  also have "\<dots> \<le> level (run step xs (step x s))"
    using step_inv [OF Cons.prems] by (rule Cons.IH)
  finally show ?case by simp
qed

end

end
