(* ===== verification/ByteStream.thy ===== *)
theory ByteStream
  imports Prelude
begin

text \<open>
  \<open>libsponge/byte_stream.{hh,cc}\<close>: the bounded in-order byte stream. The record has the
  class's members; each operation takes the state and returns the new one.
\<close>

section \<open>State and operations\<close>

record byte_stream =
  bs_buffer :: "byte list"
  bs_capacity :: u64
  bs_input_ended :: bool
  bs_error :: bool
  bs_bytes_written :: u64
  bs_bytes_read :: u64

definition bs_new :: "u64 \<Rightarrow> byte_stream" where
  "bs_new capacity =
     \<lparr>bs_buffer = [], bs_capacity = capacity, bs_input_ended = False, bs_error = False,
      bs_bytes_written = 0, bs_bytes_read = 0\<rparr>"

definition bs_buffer_size :: "byte_stream \<Rightarrow> u64" where
  "bs_buffer_size s = size_of (bs_buffer s)"

definition bs_remaining_capacity :: "byte_stream \<Rightarrow> u64" where
  "bs_remaining_capacity s = bs_capacity s - size_of (bs_buffer s)"

definition bs_buffer_empty :: "byte_stream \<Rightarrow> bool" where
  "bs_buffer_empty s \<longleftrightarrow> bs_buffer s = []"

definition bs_eof :: "byte_stream \<Rightarrow> bool" where
  "bs_eof s \<longleftrightarrow> bs_input_ended s \<and> bs_buffer_empty s"

text \<open>\<open>data.substr(0, n)\<close> with \<open>n \<le> data.size()\<close> is the first \<open>n\<close> bytes.\<close>

definition bs_write :: "byte list \<Rightarrow> byte_stream \<Rightarrow> u64 \<times> byte_stream" where
  "bs_write data s =
     (if bs_input_ended s \<or> bs_error s then (0, s)
      else
        let available_space = bs_remaining_capacity s;
            bytes_to_write = min (size_of data) available_space
        in (bytes_to_write,
            s\<lparr>bs_buffer := bs_buffer s @ take (unat bytes_to_write) data,
              bs_bytes_written := bs_bytes_written s + bytes_to_write\<rparr>))"

definition bs_peek_output :: "u64 \<Rightarrow> byte_stream \<Rightarrow> byte list" where
  "bs_peek_output len s =
     (let bytes_to_peek = min len (bs_buffer_size s)
      in take (unat bytes_to_peek) (bs_buffer s))"

definition bs_pop_output :: "u64 \<Rightarrow> byte_stream \<Rightarrow> byte_stream" where
  "bs_pop_output len s =
     (let bytes_to_pop = min len (bs_buffer_size s)
      in s\<lparr>bs_buffer := drop (unat bytes_to_pop) (bs_buffer s),
           bs_bytes_read := bs_bytes_read s + bytes_to_pop\<rparr>)"

definition bs_read :: "u64 \<Rightarrow> byte_stream \<Rightarrow> byte list \<times> byte_stream" where
  "bs_read len s = (bs_peek_output len s, bs_pop_output len s)"

definition bs_end_input :: "byte_stream \<Rightarrow> byte_stream" where
  "bs_end_input s = s\<lparr>bs_input_ended := True\<rparr>"

definition bs_set_error :: "byte_stream \<Rightarrow> byte_stream" where
  "bs_set_error s = s\<lparr>bs_error := True\<rparr>"

section \<open>The invariant and the operations read on natural numbers\<close>

definition bs_ok :: "byte_stream \<Rightarrow> bool" where
  "bs_ok s \<longleftrightarrow> length (bs_buffer s) \<le> unat (bs_capacity s) \<and>
     bs_bytes_written s = bs_bytes_read s + size_of (bs_buffer s)"

abbreviation bs_room :: "byte_stream \<Rightarrow> nat" where
  "bs_room s \<equiv> unat (bs_capacity s) - length (bs_buffer s)"

lemma bs_okD:
  assumes "bs_ok s"
  shows "length (bs_buffer s) \<le> unat (bs_capacity s)"
    and "length (bs_buffer s) < 2 ^ 64"
    and "bs_bytes_written s = bs_bytes_read s + size_of (bs_buffer s)"
  using assms unat_lt_u64 [of "bs_capacity s"] by (auto simp: bs_ok_def)

lemma bs_ok_new [simp]: "bs_ok (bs_new c)"
  by (simp add: bs_ok_def bs_new_def)

lemma unat_remaining:
  assumes "bs_ok s"
  shows "unat (bs_remaining_capacity s) = bs_room s"
proof -
  have "size_of (bs_buffer s) \<le> bs_capacity s"
    using bs_okD [OF assms] by (simp add: word_le_nat_alt unat_size_of)
  then show ?thesis
    using bs_okD [OF assms] by (simp add: bs_remaining_capacity_def size_simps)
qed

lemma bs_write_ended [simp]: "bs_input_ended s \<Longrightarrow> bs_write d s = (0, s)"
  and bs_write_error [simp]: "bs_error s \<Longrightarrow> bs_write d s = (0, s)"
  by (simp_all add: bs_write_def)

text \<open>How many bytes a write accepts, as a natural number.\<close>

definition accepted :: "byte list \<Rightarrow> byte_stream \<Rightarrow> nat" where
  "accepted d s =
     (if bs_input_ended s \<or> bs_error s then 0 else min (unat (size_of d)) (bs_room s))"

lemma accepted_le: "accepted d s \<le> length d" "accepted d s \<le> bs_room s" "accepted d s < 2 ^ 64"
  using unat_size_of_le [of d] unat_lt_u64 [of "bs_capacity s"] by (auto simp: accepted_def)

lemma accepted_fits:
  "length d < 2 ^ 64 \<Longrightarrow> \<not> bs_input_ended s \<Longrightarrow> \<not> bs_error s \<Longrightarrow>
     accepted d s = min (length d) (bs_room s)"
  by (simp add: accepted_def size_simps)

lemma unat_accepted [simp]: "unat (of_nat (accepted d s) :: u64) = accepted d s"
  using accepted_le(3) [of d s] by (simp add: size_simps)

lemma bs_write_eq:
  assumes "bs_ok s"
  shows "bs_write d s =
     (of_nat (accepted d s),
      s\<lparr>bs_buffer := bs_buffer s @ take (accepted d s) d,
        bs_bytes_written := bs_bytes_written s + of_nat (accepted d s)\<rparr>)"
proof (cases "bs_input_ended s \<or> bs_error s")
  case True
  then show ?thesis by (auto simp: accepted_def)
next
  case False
  have "unat (min (size_of d) (bs_remaining_capacity s)) = accepted d s"
    using False by (auto simp: accepted_def min_def word_le_nat_alt unat_remaining [OF assms])
  then have "min (size_of d) (bs_remaining_capacity s) = of_nat (accepted d s)"
    by (rule unat_eqI_u64)
  then show ?thesis
    using False by (simp add: bs_write_def Let_def)
qed

lemma bs_write_ok:
  assumes "bs_ok s"
  shows "bs_ok (snd (bs_write d s))"
  using assms accepted_le [of d s]
  by (auto simp: bs_write_eq [OF assms] bs_ok_def size_of_def min_def)

lemma unat_min_buffer:
  assumes "bs_ok s"
  shows "unat (min len (bs_buffer_size s)) = min (unat len) (length (bs_buffer s))"
  using bs_okD [OF assms]
  by (auto simp: bs_buffer_size_def min_def word_le_nat_alt unat_size_of)

lemma bs_peek_eq:
  "bs_ok s \<Longrightarrow> bs_peek_output len s = take (unat len) (bs_buffer s)"
  by (simp add: bs_peek_output_def Let_def unat_min_buffer)

lemma bs_pop_eq:
  assumes "bs_ok s"
  shows "bs_pop_output len s =
     s\<lparr>bs_buffer := drop (unat len) (bs_buffer s),
       bs_bytes_read := bs_bytes_read s + of_nat (min (unat len) (length (bs_buffer s)))\<rparr>"
proof -
  have "min len (bs_buffer_size s) = of_nat (min (unat len) (length (bs_buffer s)))"
    using unat_min_buffer [OF assms, of len] by (rule unat_eqI_u64)
  moreover have "drop (min (unat len) (length (bs_buffer s))) (bs_buffer s)
      = drop (unat len) (bs_buffer s)"
    by (simp add: min_def)
  ultimately show ?thesis
    unfolding bs_pop_output_def Let_def unat_min_buffer [OF assms]
    by (simp del: of_nat_min)
qed

lemma bs_pop_ok:
  assumes "bs_ok s"
  shows "bs_ok (bs_pop_output len s)"
  using assms
  by (auto simp: bs_pop_eq bs_ok_def size_of_def min_def of_nat_diff not_le simp flip: of_nat_add)

lemma bs_end_ok [simp]: "bs_ok (bs_end_input s) = bs_ok s"
  by (simp add: bs_end_input_def bs_ok_def)

lemma bs_set_error_ok [simp]: "bs_ok (bs_set_error s) = bs_ok s"
  by (simp add: bs_set_error_def bs_ok_def)

lemma bs_read_eq:
  "bs_ok s \<Longrightarrow> bs_read len s =
     (take (unat len) (bs_buffer s),
      s\<lparr>bs_buffer := drop (unat len) (bs_buffer s),
        bs_bytes_read := bs_bytes_read s + of_nat (min (unat len) (length (bs_buffer s)))\<rparr>)"
  by (simp add: bs_read_def bs_peek_eq bs_pop_eq del: of_nat_min)

section \<open>Runs of operations: a bounded queue of bytes\<close>

datatype bs_op = Write "byte list" | Read u64 | Pop u64 | EndInput | SetError

fun bs_step :: "bs_op \<Rightarrow> byte_stream \<Rightarrow> byte_stream" where
  "bs_step (Write d) s = snd (bs_write d s)"
| "bs_step (Read n) s = snd (bs_read n s)"
| "bs_step (Pop n) s = bs_pop_output n s"
| "bs_step EndInput s = bs_end_input s"
| "bs_step SetError s = bs_set_error s"

text \<open>
  The bytes one operation takes in (those the write reports as accepted) and the bytes it
  removes at the output side; over a run they are concatenated.
\<close>

fun bs_in :: "bs_op \<Rightarrow> byte_stream \<Rightarrow> byte list" where
  "bs_in (Write d) s = take (unat (fst (bs_write d s))) d"
| "bs_in _ s = []"

fun bs_out :: "bs_op \<Rightarrow> byte_stream \<Rightarrow> byte list" where
  "bs_out (Read n) s = fst (bs_read n s)"
| "bs_out (Pop n) s = bs_peek_output n s"
| "bs_out _ s = []"

fun bs_ins :: "bs_op list \<Rightarrow> byte_stream \<Rightarrow> byte list" where
  "bs_ins [] s = []"
| "bs_ins (x # xs) s = bs_in x s @ bs_ins xs (bs_step x s)"

fun bs_outs :: "bs_op list \<Rightarrow> byte_stream \<Rightarrow> byte list" where
  "bs_outs [] s = []"
| "bs_outs (x # xs) s = bs_out x s @ bs_outs xs (bs_step x s)"

lemma bs_step_ok: "bs_ok s \<Longrightarrow> bs_ok (bs_step x s)"
  by (cases x) (auto simp: bs_write_ok bs_pop_ok bs_read_def)

interpretation stream: machine bs_step bs_ok
  by unfold_locales (rule bs_step_ok)

lemma bs_step_conserves:
  "bs_ok s \<Longrightarrow> bs_buffer s @ bs_in x s = bs_out x s @ bs_buffer (bs_step x s)"
  by (cases x) (simp_all add: bs_write_eq bs_read_eq bs_peek_eq bs_pop_eq bs_end_input_def
      bs_set_error_def del: of_nat_min)

lemma bs_run_conserves:
  "bs_ok s \<Longrightarrow> bs_buffer s @ bs_ins xs s = bs_outs xs s @ bs_buffer (run bs_step xs s)"
proof (induction xs arbitrary: s)
  case Nil
  show ?case by simp
next
  case (Cons x xs)
  have "bs_buffer s @ bs_ins (x # xs) s = bs_out x s @ bs_buffer (bs_step x s) @ bs_ins xs (bs_step x s)"
    using bs_step_conserves [OF Cons.prems, of x] by simp
  also have "\<dots> = bs_outs (x # xs) s @ bs_buffer (run bs_step (x # xs) s)"
    using Cons.IH [OF bs_step_ok [OF Cons.prems, of x]] by simp
  finally show ?case .
qed

lemma bs_step_capacity [simp]: "bs_capacity (bs_step x s) = bs_capacity s"
  by (cases x) (auto simp: bs_write_def bs_read_def bs_pop_output_def Let_def bs_end_input_def bs_set_error_def)

lemma bs_run_capacity [simp]: "bs_capacity (run bs_step xs s) = bs_capacity s"
  by (induction xs arbitrary: s) auto

lemma bs_step_closed: "bs_input_ended s \<or> bs_error s \<Longrightarrow> bs_in x s = [] \<and> (bs_input_ended (bs_step x s) \<or> bs_error (bs_step x s))"
  by (cases x) (auto simp: bs_read_def bs_pop_output_def Let_def bs_end_input_def bs_set_error_def)

lemma bs_run_closed: "bs_input_ended s \<or> bs_error s \<Longrightarrow> bs_ins xs s = []"
  using bs_step_closed by (induction xs arbitrary: s) fastforce+

lemma bs_step_written:
  "bs_ok s \<Longrightarrow> bs_bytes_written (bs_step x s) = bs_bytes_written s + size_of (bs_in x s)"
  by (cases x)
    (use accepted_le(1) in \<open>auto simp: bs_write_eq bs_read_def bs_pop_eq bs_end_input_def
      bs_set_error_def size_of_def min_absorb2\<close>)

lemma bs_run_written:
  "bs_ok s \<Longrightarrow> bs_bytes_written (run bs_step xs s) = bs_bytes_written s + size_of (bs_ins xs s)"
  by (induction xs arbitrary: s) (auto simp: bs_step_written bs_step_ok size_of_append)

text \<open>C17: Over any sequence of writes, reads, pops, \<open>end_input\<close> and \<open>set_error\<close> on a fresh
  stream, the bytes accepted are exactly the bytes delivered followed by the bytes still
  buffered (nothing is lost, duplicated or reordered), the buffer never exceeds the
  capacity, and the two counters are the numbers of bytes accepted and delivered.\<close>

theorem byte_stream_is_bounded_fifo:
  fixes ops :: "bs_op list" and cap :: u64
  defines "s \<equiv> run bs_step ops (bs_new cap)"
  shows "bs_ins ops (bs_new cap) = bs_outs ops (bs_new cap) @ bs_buffer s
     \<and> length (bs_buffer s) \<le> unat cap
     \<and> bs_bytes_written s = size_of (bs_ins ops (bs_new cap))
     \<and> bs_bytes_read s = size_of (bs_outs ops (bs_new cap))"
proof -
  have ok: "bs_ok s"
    unfolding s_def by (rule stream.run_inv) simp
  have flow: "bs_ins ops (bs_new cap) = bs_outs ops (bs_new cap) @ bs_buffer s"
    using bs_run_conserves [OF bs_ok_new, of cap ops] by (simp add: s_def bs_new_def)
  have written: "bs_bytes_written s = size_of (bs_ins ops (bs_new cap))"
    using bs_run_written [OF bs_ok_new, of ops cap] by (simp add: s_def bs_new_def)
  have "bs_bytes_read s + size_of (bs_buffer s)
      = size_of (bs_outs ops (bs_new cap)) + size_of (bs_buffer s)"
    using written bs_okD(3) [OF ok] flow by (simp add: size_of_append)
  moreover have "length (bs_buffer s) \<le> unat cap"
    using bs_okD(1) [OF ok] by (simp add: s_def) (simp add: bs_new_def)
  ultimately show ?thesis using flow written by simp
qed

text \<open>Once the input has ended or the stream has failed, no operation accepts another
  byte; and when the reader sees end of file, it has been given every byte accepted.\<close>

theorem byte_stream_eof_delivers_all:
  fixes ops :: "bs_op list" and cap :: u64
  assumes "bs_eof (run bs_step ops (bs_new cap))"
  shows "bs_outs ops (bs_new cap) = bs_ins ops (bs_new cap)
     \<and> bs_ins (ops @ later) (bs_new cap) = bs_ins ops (bs_new cap)"
proof -
  let ?s = "run bs_step ops (bs_new cap)"
  have "bs_ins (xs @ ys) s = bs_ins xs s @ bs_ins ys (run bs_step xs s)" for xs ys s
    by (induction xs arbitrary: s) auto
  moreover have "bs_ins later ?s = []"
    using assms by (intro bs_run_closed) (simp add: bs_eof_def)
  moreover have "bs_buffer ?s = []"
    using assms by (simp add: bs_eof_def bs_buffer_empty_def)
  ultimately show ?thesis
    using bs_run_conserves [OF bs_ok_new, of cap ops] by (simp add: bs_new_def)
qed

theorem byte_stream_eof_delivers_all_witness:
  "bs_outs [Write [1, 2, 3], Read 1, EndInput, Read 5] (bs_new 2) =
     bs_ins [Write [1, 2, 3], Read 1, EndInput, Read 5] (bs_new 2)"
proof -
  have "bs_eof (run bs_step [Write [1, 2, 3], Read 1, EndInput, Read 5] (bs_new 2))"
    by code_simp
  from byte_stream_eof_delivers_all [OF this, of "[]"] show ?thesis by simp
qed

end
