(* ===== verification/StdMap.thy ===== *)
theory StdMap
  imports Prelude "HOL-Library.Multiset"
begin

text \<open>
  \<open>std::map\<close>: a list of pairs in strictly increasing order of the keys. An iterator is a
  position in the list, \<open>end()\<close> its length; \<open>erase(it)\<close> returns the position of the
  following element, which is the same number. The interface the components use is the
  locale \<open>ordered_map\<close>, interpreted on this representation.
\<close>

section \<open>Representation and operations\<close>

type_synonym ('k, 'v) std_map = "('k \<times> 'v) list"

definition sm_ok :: "('k::linorder, 'v) std_map \<Rightarrow> bool" where
  "sm_ok m \<longleftrightarrow> sorted_wrt (<) (map fst m)"

definition sm_find :: "'k \<Rightarrow> ('k, 'v) std_map \<Rightarrow> 'v option" where
  "sm_find k m = map_of m k"

text \<open>\<open>m[k] = v\<close>\<close>

fun sm_assign :: "'k::linorder \<Rightarrow> 'v \<Rightarrow> ('k, 'v) std_map \<Rightarrow> ('k, 'v) std_map" where
  "sm_assign k v [] = [(k, v)]"
| "sm_assign k v ((a, b) # m) =
     (if k < a then (k, v) # (a, b) # m
      else if k = a then (k, v) # m
      else (a, b) # sm_assign k v m)"

text \<open>\<open>m.insert(make_pair(k, v))\<close>: an existing element is kept.\<close>

definition sm_insert :: "'k::linorder \<Rightarrow> 'v \<Rightarrow> ('k, 'v) std_map \<Rightarrow> ('k, 'v) std_map" where
  "sm_insert k v m = (if sm_find k m = None then sm_assign k v m else m)"

definition sm_erase :: "'k \<Rightarrow> ('k, 'v) std_map \<Rightarrow> ('k, 'v) std_map" where
  "sm_erase k m = filter (\<lambda>p. fst p \<noteq> k) m"

definition sm_lower_bound :: "'k::linorder \<Rightarrow> ('k, 'v) std_map \<Rightarrow> nat" where
  "sm_lower_bound k m = length (takeWhile (\<lambda>p. fst p < k) m)"

definition sm_upper_bound :: "'k::linorder \<Rightarrow> ('k, 'v) std_map \<Rightarrow> nat" where
  "sm_upper_bound k m = length (takeWhile (\<lambda>p. fst p \<le> k) m)"

definition sm_erase_at :: "nat \<Rightarrow> ('k, 'v) std_map \<Rightarrow> ('k, 'v) std_map" where
  "sm_erase_at n m = take n m @ drop (Suc n) m"

text \<open>
  A loop over the whole map that erases an element or replaces its value, as in
  \<open>for (it = m.begin(); it != m.end();)\<close> with \<open>it = m.erase(it)\<close> or an update and \<open>++it\<close>.
\<close>

fun sm_sweep :: "('v \<Rightarrow> 'v option) \<Rightarrow> ('k, 'v) std_map \<Rightarrow> ('k, 'v) std_map" where
  "sm_sweep f [] = []"
| "sm_sweep f ((k, v) # m) =
     (case f v of None \<Rightarrow> sm_sweep f m | Some w \<Rightarrow> (k, w) # sm_sweep f m)"

section \<open>The interface\<close>

locale ordered_map =
  fixes find :: "'k \<Rightarrow> 'm \<Rightarrow> 'v option"
    and assign :: "'k \<Rightarrow> 'v \<Rightarrow> 'm \<Rightarrow> 'm"
    and insert :: "'k \<Rightarrow> 'v \<Rightarrow> 'm \<Rightarrow> 'm"
    and erase :: "'k \<Rightarrow> 'm \<Rightarrow> 'm"
    and ok :: "'m \<Rightarrow> bool"
  assumes assign_ok: "ok m \<Longrightarrow> ok (assign k v m)"
    and insert_ok: "ok m \<Longrightarrow> ok (insert k v m)"
    and erase_ok: "ok m \<Longrightarrow> ok (erase k m)"
    and find_assign: "ok m \<Longrightarrow> find j (assign k v m) = (if j = k then Some v else find j m)"
    and find_insert: "ok m \<Longrightarrow>
      find j (insert k v m) = (if j = k \<and> find k m = None then Some v else find j m)"
    and find_erase: "ok m \<Longrightarrow> find j (erase k m) = (if j = k then None else find j m)"
    and find_ext: "ok m \<Longrightarrow> ok m' \<Longrightarrow> (\<And>j. find j m = find j m') \<Longrightarrow> m = m'"
begin

lemmas ok_intros = assign_ok insert_ok erase_ok

lemma assign_assign: "ok m \<Longrightarrow> assign k v (assign k w m) = assign k v m"
  by (rule find_ext) (simp_all add: find_assign assign_ok)

lemma assign_commute: "ok m \<Longrightarrow> j \<noteq> k \<Longrightarrow> assign k v (assign j w m) = assign j w (assign k v m)"
  by (rule find_ext) (simp_all add: find_assign assign_ok)

lemma erase_assign: "ok m \<Longrightarrow> erase k (assign k v m) = erase k m"
  by (rule find_ext) (simp_all add: find_assign find_erase ok_intros)

lemma erase_absent: "ok m \<Longrightarrow> find k m = None \<Longrightarrow> erase k m = m"
  by (rule find_ext) (simp_all add: find_erase ok_intros)

lemma insert_absent: "ok m \<Longrightarrow> find k m = None \<Longrightarrow> insert k v m = assign k v m"
  by (rule find_ext) (simp_all add: find_assign find_insert ok_intros)

lemma insert_present: "ok m \<Longrightarrow> find k m = Some w \<Longrightarrow> insert k v m = m"
  by (rule find_ext) (auto simp: find_insert ok_intros)

end

section \<open>The representation provides the interface\<close>

lemma sm_ok_Nil [simp]: "sm_ok []"
  by (simp add: sm_ok_def)

lemma sm_ok_Cons: "sm_ok ((a, b) # m) \<longleftrightarrow> (\<forall>p \<in> set m. a < fst p) \<and> sm_ok m"
  by (auto simp: sm_ok_def)

lemma sm_find_simps [simp]:
  "sm_find k [] = None"
  "sm_find k ((a, b) # m) = (if k = a then Some b else sm_find k m)"
  by (simp_all add: sm_find_def)

lemma sm_find_absent:
  fixes m :: "('k::linorder, 'v) std_map"
  shows "\<forall>p \<in> set m. k < fst p \<Longrightarrow> sm_find k m = None"
  by (force simp: sm_find_def map_of_eq_None_iff)

lemma set_sm_assign: "p \<in> set (sm_assign k v m) \<Longrightarrow> p = (k, v) \<or> p \<in> set m"
  by (induction k v m rule: sm_assign.induct) (auto split: if_splits)

lemma sm_assign_ok: "sm_ok m \<Longrightarrow> sm_ok (sm_assign k v m)"
proof (induction k v m rule: sm_assign.induct)
  case (1 k v)
  show ?case by (simp add: sm_ok_Cons)
next
  case (2 k v a b m)
  then show ?case
    by (auto simp: sm_ok_Cons dest!: set_sm_assign)
qed

lemma sm_find_assign: "sm_ok m \<Longrightarrow> sm_find j (sm_assign k v m) = (if j = k then Some v else sm_find j m)"
  by (induction k v m rule: sm_assign.induct) (auto simp: sm_ok_Cons)

lemma sm_erase_ok: "sm_ok m \<Longrightarrow> sm_ok (sm_erase k m)"
  by (induction m) (auto simp: sm_ok_Cons sm_erase_def)

lemma sm_find_erase: "sm_find j (sm_erase k m) = (if j = k then None else sm_find j m)"
  by (induction m) (auto simp: sm_erase_def)

lemma sm_ok_distinct: "sm_ok m \<Longrightarrow> distinct (map fst m)"
  by (auto simp: sm_ok_def strict_sorted_iff)

lemma sm_find_in: "sm_ok m \<Longrightarrow> (sm_find k m = Some v) = ((k, v) \<in> set m)"
  by (simp add: sm_find_def sm_ok_distinct)

lemma sm_ext:
  assumes "sm_ok m" "sm_ok m'" "\<And>j. sm_find j m = sm_find j m'"
  shows "m = m'"
proof (rule map_sorted_distinct_set_unique)
  show same: "set m = set m'"
    using assms by (auto simp flip: sm_find_in)
  show "inj_on fst (set m \<union> set m')"
    using sm_ok_distinct [OF assms(1)] by (simp add: same distinct_map)
qed (use assms in \<open>simp_all add: sm_ok_def strict_sorted_iff\<close>)

interpretation sm: ordered_map sm_find sm_assign sm_insert sm_erase sm_ok
  by unfold_locales
    (auto simp: sm_assign_ok sm_erase_ok sm_insert_def sm_find_assign sm_find_erase intro: sm_ext)

section \<open>Sweeping\<close>

lemma set_sm_sweep: "p \<in> set (sm_sweep f m) \<Longrightarrow> \<exists>v. (fst p, v) \<in> set m \<and> f v = Some (snd p)"
  by (induction f m rule: sm_sweep.induct) (auto split: option.splits)

lemma sm_sweep_ok: "sm_ok m \<Longrightarrow> sm_ok (sm_sweep f m)"
proof (induction f m rule: sm_sweep.induct)
  case (2 f k v m)
  then show ?case by (auto simp: sm_ok_Cons split: option.splits dest!: set_sm_sweep)
qed simp

lemma sm_find_sweep: "sm_ok m \<Longrightarrow> sm_find k (sm_sweep f m) = Option.bind (sm_find k m) f"
proof (induction f m rule: sm_sweep.induct)
  case (2 f a v m)
  then have "sm_find a m = None" by (auto simp: sm_ok_Cons intro!: sm_find_absent)
  with 2 show ?case by (auto simp: sm_ok_Cons split: option.splits)
qed simp

lemma sm_sweep_sweep: "sm_sweep g (sm_sweep f m) = sm_sweep (\<lambda>v. Option.bind (f v) g) m"
  by (induction f m rule: sm_sweep.induct) (auto split: option.splits)

lemma sm_sweep_cong:
  assumes "\<And>v. f v = g v"
  shows "sm_sweep f m = sm_sweep g m"
proof -
  have "f = g" using assms by (rule ext)
  then show ?thesis by simp
qed

section \<open>Maps of queues\<close>

text \<open>\<open>m[k].push(x)\<close> on a map of queues, and all that is queued.\<close>

definition sm_push :: "'k::linorder \<Rightarrow> 'a \<Rightarrow> ('k, 'a list) std_map \<Rightarrow> ('k, 'a list) std_map" where
  "sm_push k x m = sm_assign k ((case sm_find k m of None \<Rightarrow> [] | Some q \<Rightarrow> q) @ [x]) m"

definition queued :: "('k, 'a list) std_map \<Rightarrow> 'a multiset" where
  "queued m = mset (concat (map snd m))"

lemma queued_simps [simp]: "queued [] = {#}" "queued ((k, q) # m) = mset q + queued m"
  by (simp_all add: queued_def)

lemma sm_push_ok: "sm_ok m \<Longrightarrow> sm_ok (sm_push k x m)"
  by (simp add: sm_push_def sm.assign_ok)

lemma sm_find_push:
  "sm_ok m \<Longrightarrow> sm_find j (sm_push k x m) =
     (if j = k then Some ((case sm_find k m of None \<Rightarrow> [] | Some q \<Rightarrow> q) @ [x]) else sm_find j m)"
  by (simp add: sm_push_def sm.find_assign)

lemma queued_assign:
  "sm_ok m \<Longrightarrow> queued (sm_assign k v m) + mset (case sm_find k m of None \<Rightarrow> [] | Some q \<Rightarrow> q)
     = queued m + mset v"
proof (induction k v m rule: sm_assign.induct)
  case (2 k v a b m)
  have "sm_find k m = None" if "k < a"
    using that 2(2) by (force simp: sm_ok_Cons intro!: sm_find_absent)
  with 2 show ?case by (auto simp: sm_ok_Cons ac_simps)
qed simp

lemma queued_push: "sm_ok m \<Longrightarrow> queued (sm_push k x m) = queued m + {#x#}"
  using queued_assign [of m k "(case sm_find k m of None \<Rightarrow> [] | Some q \<Rightarrow> q) @ [x]"]
  by (simp add: sm_push_def)

lemma queued_erase:
  assumes "sm_ok m" "sm_find k m = Some q"
  shows "queued m = mset q + queued (sm_erase k m)"
  using assms
proof (induction m)
  case (Cons p m)
  obtain a b where p: "p = (a, b)" by (cases p)
  have "sm_erase a m = m"
    using Cons.prems(1) p by (auto simp: sm_ok_Cons sm_erase_def intro!: filter_True)
  with Cons p show ?case by (auto simp: sm_ok_Cons sm_erase_def)
qed simp

section \<open>Appending in key order, and positions\<close>

lemma sm_assign_last: "\<forall>p \<in> set m. fst p < k \<Longrightarrow> sm_assign k v m = m @ [(k, v)]"
  by (induction m) auto

lemma sm_assign_first: "\<forall>p \<in> set m. k < fst p \<Longrightarrow> sm_assign k v m = (k, v) # m"
  by (cases m) auto

lemma sm_insert_first: "\<forall>p \<in> set m. k < fst p \<Longrightarrow> sm_insert k v m = (k, v) # m"
  by (simp add: sm_insert_def sm_find_absent sm_assign_first)

lemma sm_assign_between:
  "\<forall>p \<in> set m. fst p < k \<Longrightarrow> \<forall>p \<in> set m'. k < fst p \<Longrightarrow>
     sm_assign k v (m @ m') = m @ (k, v) # m'"
  by (induction m) (auto simp: sm_assign_first)

lemma sm_insert_between:
  assumes "\<forall>p \<in> set m. fst p < k" "\<forall>p \<in> set m'. k < fst p"
  shows "sm_insert k v (m @ m') = m @ (k, v) # m'"
proof -
  have "sm_find k (m @ m') = None"
    using assms by (force simp: sm_find_def map_of_eq_None_iff)
  then show ?thesis using assms by (simp add: sm_insert_def sm_assign_between)
qed

lemma sm_lower_bound_append:
  "\<forall>p \<in> set m. fst p < k \<Longrightarrow> \<forall>p \<in> set m'. \<not> fst p < k \<Longrightarrow> sm_lower_bound k (m @ m') = length m"
  by (cases m') (auto simp: sm_lower_bound_def takeWhile_eq_all_conv [THEN iffD2])

lemma sm_upper_bound_append:
  "\<forall>p \<in> set m. fst p \<le> k \<Longrightarrow> \<forall>p \<in> set m'. \<not> fst p \<le> k \<Longrightarrow> sm_upper_bound k (m @ m') = length m"
  by (cases m') (auto simp: sm_upper_bound_def takeWhile_eq_all_conv [THEN iffD2])

lemma sm_erase_at_append [simp]: "sm_erase_at (length m) (m @ p # m') = m @ m'"
  by (simp add: sm_erase_at_def)

end
