(* ===== verification/StreamReassembler.thy ===== *)
theory StreamReassembler
  imports ByteStream StdMap
begin

text \<open>
  \<open>libsponge/stream_reassembler.{hh,cc}\<close>: assembling possibly overlapping, out-of-order
  substrings into the in-order output stream. \<open>push_substring\<close> is split where the code
  has its steps: the new start index, the loop over the stored substrings that follow, the
  window check, the store or write of the new data, the assembling loop and the end of the
  stream.
\<close>

section \<open>State and operations\<close>

record reassembler =
  re_strs :: "(u64, byte list) std_map"
  re_next :: u64
  re_num :: u64
  re_eof :: u64
  re_output :: byte_stream
  re_capacity :: u64

definition re_new :: "u64 \<Rightarrow> reassembler" where
  "re_new capacity =
     \<lparr>re_strs = [], re_next = 0, re_num = 0, re_eof = - 1, re_output = bs_new capacity,
      re_capacity = capacity\<rparr>"

definition re_unassembled_bytes :: "reassembler \<Rightarrow> u64" where
  "re_unassembled_bytes r = re_num r"

definition re_empty :: "reassembler \<Rightarrow> bool" where
  "re_empty r \<longleftrightarrow> re_num r = 0"

text \<open>Where the part of the new substring that is not yet known starts (lines 71 to 95).\<close>

definition re_new_idx :: "u64 \<Rightarrow> reassembler \<Rightarrow> u64" where
  "re_new_idx index r =
     (let strs = re_strs r;
          pos = sm_upper_bound index strs;
          pos_iter = (if pos \<noteq> 0 then pos - 1 else pos)
      in if pos_iter < length strs \<and> fst (strs ! pos_iter) \<le> index then
           (let up_idx = fst (strs ! pos_iter);
                up_end = up_idx + size_of (snd (strs ! pos_iter))
            in if index < up_end then up_end else index)
         else if index < re_next r then re_next r
         else index)"

text \<open>
  The loop over the stored substrings from \<open>new_idx\<close> on (lines 115 to 134): those the new
  data covers are erased, one it overlaps in part cuts the new data. \<open>data_size\<close> is a
  signed \<open>ssize_t\<close>, kept as its 64-bit pattern.
\<close>

function re_trim ::
    "u64 \<Rightarrow> u64 \<Rightarrow> u64 \<Rightarrow> nat \<Rightarrow> (u64, byte list) std_map \<Rightarrow> u64 \<times> u64 \<times> (u64, byte list) std_map"
  where
  "re_trim new_idx data_size num pos_iter strs =
     (if pos_iter < length strs \<and> new_idx \<le> fst (strs ! pos_iter) then
        (let data_end_pos = new_idx + data_size;
             (idx, str) = strs ! pos_iter
         in if idx < data_end_pos then
              (if data_end_pos < idx + size_of str then (idx - new_idx, num, strs)
               else re_trim new_idx data_size (num - size_of str) pos_iter
                      (sm_erase_at pos_iter strs))
            else (data_size, num, strs))
      else (data_size, num, strs))"
  by pat_completeness auto
termination
  by (relation "measure (\<lambda>(_, _, _, pos, strs). length strs - pos)") (auto simp: sm_erase_at_def)

declare re_trim.simps [simp del]

text \<open>Writing or storing the remaining new data (lines 145 to 163).\<close>

definition re_store ::
    "byte list \<Rightarrow> u64 \<Rightarrow> u64 \<Rightarrow> u64 \<Rightarrow> reassembler \<Rightarrow> failure + reassembler" where
  "re_store data data_start_pos data_size new_idx r =
     (if 0 < sint data_size then
        (case substr data_start_pos data_size data of
           Inl e \<Rightarrow> Inl e
         | Inr new_data \<Rightarrow>
             if new_idx = re_next r then
               (let (write_byte, out) = bs_write new_data (re_output r);
                    r' = r\<lparr>re_output := out, re_next := re_next r + write_byte\<rparr>
                in if write_byte < size_of new_data then
                     (case substr write_byte (size_of new_data - write_byte) new_data of
                        Inl e \<Rightarrow> Inl e
                      | Inr data_to_store \<Rightarrow>
                          Inr (r'\<lparr>re_num := re_num r' + size_of data_to_store,
                                 re_strs := sm_insert (re_next r') data_to_store (re_strs r')\<rparr>))
                   else Inr r')
             else
               (case substr 0 (size_of new_data) new_data of
                  Inl e \<Rightarrow> Inl e
                | Inr data_to_store \<Rightarrow>
                    Inr (r\<lparr>re_num := re_num r + size_of data_to_store,
                          re_strs := sm_insert new_idx data_to_store (re_strs r)\<rparr>)))
      else Inr r)"

text \<open>
  The assembling loop (lines 166 to 188). The iterator is always at the first stored
  substring: each round erases it or leaves the loop.
\<close>

fun re_assemble :: "(u64, byte list) std_map \<Rightarrow> reassembler \<Rightarrow> failure + reassembler" where
  "re_assemble [] r = Inr r"
| "re_assemble ((idx, str) # rest) r =
     (if \<not> re_next r \<le> idx then Inl AssertFailed
      else if idx = re_next r then
        (let (write_num, out) = bs_write str (re_output r);
             r' = r\<lparr>re_output := out, re_next := re_next r + write_num\<rparr>
         in if write_num < size_of str then
              (case substr write_num (- 1) str of
                 Inl e \<Rightarrow> Inl e
               | Inr tail_str \<Rightarrow>
                   Inr (r'\<lparr>re_num := re_num r' + (size_of str - write_num) - size_of str,
                          re_strs := sm_erase idx (sm_insert (re_next r') tail_str (re_strs r'))\<rparr>))
            else re_assemble rest (r'\<lparr>re_num := re_num r' - size_of str, re_strs := rest\<rparr>))
      else Inr r)"

definition re_finish :: "byte list \<Rightarrow> u64 \<Rightarrow> bool \<Rightarrow> reassembler \<Rightarrow> reassembler" where
  "re_finish data index eof r =
     (let r' = (if eof then r\<lparr>re_eof := index + size_of data\<rparr> else r)
      in if re_eof r' \<le> re_next r' then r'\<lparr>re_output := bs_end_input (re_output r')\<rparr> else r')"

definition re_push :: "byte list \<Rightarrow> u64 \<Rightarrow> bool \<Rightarrow> reassembler \<Rightarrow> failure + reassembler" where
  "re_push data index eof r =
     (let new_idx = re_new_idx index r;
          data_start_pos = new_idx - index;
          (data_size, num, strs) =
            re_trim new_idx (size_of data - data_start_pos) (re_num r)
              (sm_lower_bound new_idx (re_strs r)) (re_strs r);
          r1 = r\<lparr>re_num := num, re_strs := strs\<rparr>;
          first_unacceptable_idx = re_next r1 + re_capacity r1 - bs_buffer_size (re_output r1)
      in if first_unacceptable_idx \<le> new_idx then Inr r1
         else
           (case re_store data data_start_pos data_size new_idx r1 of
              Inl e \<Rightarrow> Inl e
            | Inr r2 \<Rightarrow>
                (case re_assemble (re_strs r2) r2 of
                   Inl e \<Rightarrow> Inl e
                 | Inr r3 \<Rightarrow> Inr (re_finish data index eof r3))))"

section \<open>The invariant\<close>

text \<open>
  The stored substrings are non-empty, in order and disjoint, and start at \<open>lo\<close> or later.
  Positions stay below \<open>2^63\<close>, so that no end index wraps around.
\<close>

fun pieces_ok :: "nat \<Rightarrow> (u64, byte list) std_map \<Rightarrow> bool" where
  "pieces_ok lo [] = True"
| "pieces_ok lo ((i, d) # m) =
     (lo \<le> unat i \<and> d \<noteq> [] \<and> unat i + length d < 2 ^ 63 \<and> pieces_ok (unat i + length d) m)"

abbreviation re_read :: "reassembler \<Rightarrow> nat" where
  "re_read r \<equiv> unat (bs_bytes_read (re_output r))"

text \<open>The first index that does not fit the window: \<open>bytes_read + capacity\<close>.\<close>

abbreviation re_limit :: "reassembler \<Rightarrow> nat" where
  "re_limit r \<equiv> re_read r + unat (re_capacity r)"

definition re_ok :: "reassembler \<Rightarrow> bool" where
  "re_ok r \<longleftrightarrow> bs_ok (re_output r) \<and> bs_capacity (re_output r) = re_capacity r
     \<and> re_next r = bs_bytes_written (re_output r)
     \<and> unat (re_next r) = re_read r + length (bs_buffer (re_output r))
     \<and> pieces_ok (unat (re_next r)) (re_strs r)
     \<and> (\<forall>p \<in> set (re_strs r). unat (fst p) \<le> re_limit r)
     \<and> re_limit r < 2 ^ 62"

lemma pieces_ok_mono: "pieces_ok lo m \<Longrightarrow> lo' \<le> lo \<Longrightarrow> pieces_ok lo' m"
  by (cases m) auto

text \<open>Where the last of the substrings \<open>A\<close> ends.\<close>

fun pend :: "nat \<Rightarrow> (u64, byte list) std_map \<Rightarrow> nat" where
  "pend lo [] = lo"
| "pend lo ((i, d) # m) = pend (unat i + length d) m"

lemma pend_append [simp]: "pend lo (A @ B) = pend (pend lo A) B"
  by (induction lo A rule: pend.induct) auto

lemma pieces_ok_append [simp]:
  "pieces_ok lo (A @ B) \<longleftrightarrow> pieces_ok lo A \<and> pieces_ok (pend lo A) B"
  by (induction lo A rule: pieces_ok.induct) auto

lemma pend_ge: "pieces_ok lo m \<Longrightarrow> lo \<le> pend lo m"
  by (induction lo m rule: pieces_ok.induct) auto

lemma pieces_ok_in:
  assumes "pieces_ok lo m" "(i, d) \<in> set m"
  shows "lo \<le> unat i \<and> d \<noteq> [] \<and> unat i + length d < 2 ^ 63 \<and> unat i + length d \<le> pend lo m"
  using assms by (induction lo m rule: pieces_ok.induct) (auto dest: pend_ge)

lemma pieces_ok_head: "pieces_ok lo ((i, d) # m) \<Longrightarrow> (j, e) \<in> set m \<Longrightarrow> unat i + length d \<le> unat j"
  by (auto dest: pieces_ok_in)

lemma pieces_ok_start_less:
  assumes "pieces_ok lo m" "(i, d) \<in> set m"
  shows "unat i < pend lo m"
  using pieces_ok_in [OF assms] by (cases d) auto

lemma pieces_ok_sm_ok: "pieces_ok lo m \<Longrightarrow> sm_ok m"
proof (induction lo m rule: pieces_ok.induct)
  case (1 lo)
  show ?case by simp
next
  case (2 lo i d m)
  have "i < fst p" if "p \<in> set m" for p
    using pieces_ok_in [of "unat i + length d" m "fst p" "snd p"] 2 that
    by (cases d) (auto simp: word_less_nat_alt)
  with 2 show ?case by (simp add: sm_ok_Cons)
qed

section \<open>The new start index\<close>

lemma unat_piece_end:
  assumes "pieces_ok lo m" "(i, d) \<in> set m"
  shows "unat (i + size_of d) = unat i + length d"
  using pieces_ok_in [OF assms] by (simp add: size_simps)

lemma re_new_idx_split:
  assumes "re_ok r"
  obtains A B where "re_strs r = A @ B"
    and "pend (unat (re_next r)) A \<le> unat (re_new_idx index r)"
    and "\<forall>(i, d) \<in> set B. re_new_idx index r \<le> i"
    and "index \<le> re_new_idx index r" "re_next r \<le> re_new_idx index r"
    and "re_new_idx index r = index \<or> (A = [] \<and> re_new_idx index r = re_next r)
       \<or> (\<exists>A' i d. A = A' @ [(i, d)] \<and> i \<le> index \<and> unat (re_new_idx index r) = unat i + length d)"
proof -
  define A B where "A = takeWhile (\<lambda>p. fst p \<le> index) (re_strs r)"
    and "B = dropWhile (\<lambda>p. fst p \<le> index) (re_strs r)"
  have strs: "re_strs r = A @ B" by (simp add: A_def B_def)
  have pieces: "pieces_ok (unat (re_next r)) (A @ B)"
    using assms unfolding re_ok_def strs by blast
  have len: "sm_upper_bound index (re_strs r) = length A"
    by (simp add: sm_upper_bound_def A_def)
  have B_above: "index < i" if "(i, d) \<in> set B" for i d
  proof (cases B)
    case Nil
    with that show ?thesis by simp
  next
    case (Cons p B')
    obtain j e where p: "p = (j, e)" by (cases p)
    have "index < j"
      using hd_dropWhile [of "\<lambda>p. fst p \<le> index" "re_strs r"] Cons p by (simp flip: B_def)
    moreover have "j \<le> i"
      using that Cons p pieces pieces_ok_head [of "unat j" j e B' i d] by (auto simp: word_le_nat_alt)
    ultimately show ?thesis by simp
  qed
  have B_next: "re_next r \<le> i" if "(i, d) \<in> set B" for i d
    using pieces_ok_in [OF pieces, of i d] that by (simp add: word_le_nat_alt)
  show ?thesis
  proof (cases A rule: rev_cases)
    case Nil
    have "\<not> (0 < length (re_strs r) \<and> fst (re_strs r ! 0) \<le> index)"
      using B_above [of "fst (hd B)" "snd (hd B)"] Nil strs by (cases B) auto
    then have new: "re_new_idx index r = (if index < re_next r then re_next r else index)"
      by (auto simp: re_new_idx_def Let_def len Nil)
    have "\<forall>(i, d) \<in> set B. re_new_idx index r \<le> i"
      using B_above B_next by (fastforce simp: new)
    with that [of A B] strs Nil show ?thesis
      by (cases "index < re_next r") (auto simp: new not_less word_le_nat_alt word_less_nat_alt)
  next
    case (snoc A' p)
    obtain i d where p: "p = (i, d)" by (cases p)
    have "(i, d) \<in> set (A @ B)" "(i, d) \<in> set A" using snoc p by auto
    note in_piece = pieces_ok_in [OF pieces this(1)] and
      up_end = unat_piece_end [OF pieces this(1)]
    have "i \<le> index"
      using \<open>(i, d) \<in> set A\<close> set_takeWhileD unfolding A_def by fastforce
    have at: "re_strs r ! length A' = (i, d)"
      by (simp add: strs snoc p nth_append)
    have new: "re_new_idx index r = (if index < i + size_of d then i + size_of d else index)"
      using \<open>i \<le> index\<close> by (simp add: re_new_idx_def Let_def len snoc at) (simp add: strs snoc)
    have "re_new_idx index r \<le> j" if "(j, e) \<in> set B" for j e
    proof -
      have "unat i + length d \<le> unat j"
        using pieces_ok_in [of "pend (unat (re_next r)) A" B j e] pieces that snoc p
        by simp
      then show ?thesis using B_above [OF that] up_end
        by (auto simp: new word_le_nat_alt word_less_nat_alt)
    qed
    then have "\<forall>(j, e) \<in> set B. re_new_idx index r \<le> j" by auto
    moreover have "index \<le> re_new_idx index r" by (auto simp: new)
    moreover have "re_next r \<le> re_new_idx index r"
      using in_piece \<open>i \<le> index\<close> up_end by (auto simp: new word_le_nat_alt)
    moreover have "pend (unat (re_next r)) A \<le> unat (re_new_idx index r)"
      using up_end in_piece by (auto simp: new snoc p word_less_nat_alt)
    ultimately show ?thesis
      using that [of A B] strs snoc p \<open>i \<le> index\<close> up_end
      by (cases "index < i + size_of d") (auto simp: new)
  qed
qed

lemma re_lower_bound:
  assumes "pieces_ok lo (A @ B)" "pend lo A \<le> unat n" "\<forall>(i, d) \<in> set B. n \<le> i"
  shows "sm_lower_bound n (A @ B) = length A"
proof (rule sm_lower_bound_append)
  show "\<forall>p \<in> set A. fst p < n"
    using assms pieces_ok_start_less by (fastforce simp: word_less_nat_alt)
  show "\<forall>p \<in> set B. \<not> fst p < n"
    using assms(3) by (fastforce simp: not_less)
qed

section \<open>The overlap loop\<close>

definition total :: "(u64, byte list) std_map \<Rightarrow> nat" where
  "total m = sum_list (map (length \<circ> snd) m)"

lemma total_simps [simp]:
  "total [] = 0" "total ((i, d) # m) = length d + total m" "total (A @ B) = total A + total B"
  by (simp_all add: total_def)

lemma re_trim_end: "re_trim n ds num (length A) A = (ds, num, A)"
  by (subst re_trim.simps) simp

lemma re_trim_disjoint:
  assumes "\<forall>(i, d) \<in> set B. n \<le> i" "unat (n + ds) \<le> unat n"
  shows "re_trim n ds num (length A) (A @ B) = (ds, num, A @ B)"
  using assms by (cases B) (auto simp: re_trim.simps word_less_nat_alt word_le_nat_alt)

text \<open>
  With \<open>k\<close> new bytes from \<open>n\<close> on: the substrings \<open>B1\<close> the new data covers go, the next one
  may cut the data to \<open>k'\<close> bytes.
\<close>

lemma re_trim_covers:
  assumes "pieces_ok (unat n) B" "unat n + k < 2 ^ 63"
  shows "\<exists>k' B1 B2. B = B1 @ B2 \<and> k' \<le> k
     \<and> re_trim n (of_nat k) num (length A) (A @ B) = (of_nat k', num - of_nat (total B1), A @ B2)
     \<and> (\<forall>(i, d) \<in> set B1. unat i + length d \<le> unat n + k) \<and> pieces_ok (unat n + k') B2
     \<and> (k' < k \<longrightarrow> (\<exists>i d B3. B2 = (i, d) # B3 \<and> unat i = unat n + k' \<and> unat n + k < unat i + length d))"
  using assms
proof (induction B arbitrary: num)
  case Nil
  show ?case by (rule exI [of _ k]) (simp add: re_trim_end)
next
  case (Cons p B)
  obtain i d where p: "p = (i, d)" by (cases p)
  from Cons.prems have i: "unat n \<le> unat i" "d \<noteq> []" "unat i + length d < 2 ^ 63"
    and B: "pieces_ok (unat i + length d) B" by (simp_all add: p)
  have "n \<le> i" using i by (simp add: word_le_nat_alt)
  have e: "unat (n + of_nat k) = unat n + k" using Cons.prems(2) by (simp add: size_simps)
  have pe: "unat (i + size_of d) = unat i + length d" using i by (simp add: size_simps)
  consider "unat n + k \<le> unat i" | "unat i < unat n + k" "unat n + k < unat i + length d"
    | "unat i < unat n + k" "unat i + length d \<le> unat n + k"
    by linarith
  then show ?case
  proof cases
    case 1
    then have "pieces_ok (unat n + k) (p # B)" using Cons.prems(1) by (auto simp: p)
    moreover have "re_trim n (of_nat k) num (length A) (A @ p # B) = (of_nat k, num, A @ p # B)"
      using 1 e by (subst re_trim.simps) (simp add: p word_less_nat_alt)
    ultimately show ?thesis by (intro exI [of _ k] exI [of _ "[]"] exI [of _ "p # B"]) simp
  next
    case 2
    have "re_trim n (of_nat k) num (length A) (A @ p # B) = (i - n, num, A @ p # B)"
      using 2 e pe \<open>n \<le> i\<close> by (subst re_trim.simps) (simp add: p word_less_nat_alt)
    moreover have "i - n = of_nat (unat i - unat n)"
      using \<open>n \<le> i\<close> by (intro unat_eqI_u64 unat_sub_u64)
    ultimately have trim: "re_trim n (of_nat k) num (length A) (A @ p # B)
        = (of_nat (unat i - unat n), num - of_nat (total []), A @ p # B)" by simp
    have "pieces_ok (unat i) (p # B)" using i B by (simp add: p)
    moreover have k': "unat n + (unat i - unat n) = unat i" using i(1) by simp
    ultimately have pieces: "pieces_ok (unat n + (unat i - unat n)) (p # B)" by simp
    show ?thesis
    proof (intro exI conjI)
      show "p # B = [] @ p # B" by simp
      show "unat i - unat n \<le> k" using 2 by simp
      show "re_trim n (of_nat k) num (length A) (A @ p # B)
        = (of_nat (unat i - unat n), num - of_nat (total []), A @ p # B)" by (rule trim)
      show "pieces_ok (unat n + (unat i - unat n)) (p # B)" by (rule pieces)
      show "unat i - unat n < k \<longrightarrow> (\<exists>j e B3. p # B = (j, e) # B3
          \<and> unat j = unat n + (unat i - unat n) \<and> unat n + k < unat j + length e)"
        using 2(2) k' p by auto
    qed simp
  next
    case 3
    have "pieces_ok (unat n) B" using B i by (auto intro: pieces_ok_mono)
    from Cons.IH [OF this Cons.prems(2), of "num - size_of d"] obtain k' B1 B2 where
      "B = B1 @ B2" "k' \<le> k"
      "re_trim n (of_nat k) (num - size_of d) (length A) (A @ B)
         = (of_nat k', num - size_of d - of_nat (total B1), A @ B2)"
      "\<forall>(i, d) \<in> set B1. unat i + length d \<le> unat n + k" "pieces_ok (unat n + k') B2"
      "k' < k \<longrightarrow> (\<exists>i d B3. B2 = (i, d) # B3 \<and> unat i = unat n + k' \<and> unat n + k < unat i + length d)"
      by blast
    moreover have "re_trim n (of_nat k) num (length A) (A @ p # B)
        = re_trim n (of_nat k) (num - size_of d) (length A) (A @ B)"
      using 3 e pe \<open>n \<le> i\<close> by (subst re_trim.simps) (simp add: p word_less_nat_alt)
    ultimately show ?thesis
      using 3(2) p
      by (intro exI [of _ k'] exI [of _ "p # B1"] exI [of _ B2]) (auto simp: size_of_def)
  qed
qed

section \<open>Signed sizes\<close>

lemma sint_minus_of_nat_u64: "m < 2 ^ 63 \<Longrightarrow> sint (- of_nat m :: u64) = - int m"
proof -
  assume m: "m < 2 ^ 63"
  have "(- of_nat m :: u64) = of_int (- int m)" by simp
  then have "sint (- of_nat m :: u64) = signed_take_bit 63 (- int m)"
    by (simp only: signed_of_int) simp
  also have "\<dots> = - int m"
    using m by (intro signed_take_bit_int_eq_self) auto
  finally show ?thesis .
qed

text \<open>
  What the first two steps of \<open>push_substring\<close> leave: \<open>A\<close> before the new data, \<open>B1\<close> covered
  by it, \<open>B2\<close> after it.
\<close>

abbreviation re_trimmed :: "byte list \<Rightarrow> u64 \<Rightarrow> reassembler \<Rightarrow> u64 \<times> u64 \<times> (u64, byte list) std_map" where
  "re_trimmed data index r \<equiv>
     (let n = re_new_idx index r
      in re_trim n (size_of data - (n - index)) (re_num r) (sm_lower_bound n (re_strs r)) (re_strs r))"

lemma re_okD:
  assumes "re_ok r"
  shows "bs_ok (re_output r)" "bs_capacity (re_output r) = re_capacity r"
    "re_next r = bs_bytes_written (re_output r)"
    "unat (re_next r) = re_read r + length (bs_buffer (re_output r))"
    "pieces_ok (unat (re_next r)) (re_strs r)" "unat (re_next r) \<le> re_limit r" "re_limit r < 2 ^ 62"
    "length (bs_buffer (re_output r)) \<le> unat (re_capacity r)"
    and "p \<in> set (re_strs r) \<Longrightarrow> unat (fst p) \<le> re_limit r"
  using assms bs_okD(1) [of "re_output r"] by (auto simp: re_ok_def)

lemma re_new_idx_bound:
  assumes "re_ok r"
  shows "re_new_idx index r = index \<or> unat (re_new_idx index r) < 2 ^ 63"
proof -
  obtain A B where strs: "re_strs r = A @ B" and
    n: "re_new_idx index r = index \<or> (A = [] \<and> re_new_idx index r = re_next r)
       \<or> (\<exists>A' i d. A = A' @ [(i, d)] \<and> i \<le> index \<and> unat (re_new_idx index r) = unat i + length d)"
    by (rule re_new_idx_split [OF assms, of index]) blast
  have "unat i + length d < 2 ^ 63" if "A = A' @ [(i, d)]" for A' i d
    using pieces_ok_in [OF re_okD(5) [OF assms], of i d] that strs by simp
  with n show ?thesis
    using re_okD(6,7) [OF assms] by auto
qed

lemma re_prepare:
  assumes "re_ok r" "length data < 2 ^ 62" and n: "n = re_new_idx index r" "unat n < 2 ^ 62"
  obtains A B1 B2 ds where "re_strs r = A @ B1 @ B2"
    and "re_trimmed data index r = (ds, re_num r - of_nat (total B1), A @ B2)"
    and "pend (unat (re_next r)) A \<le> unat n" "pieces_ok (unat (re_next r)) A"
    and "unat index + length data \<le> unat n \<Longrightarrow> B1 = [] \<and> \<not> 0 < sint ds \<and> pieces_ok (unat n) B2"
    and "unat n < unat index + length data \<Longrightarrow>
      \<exists>k'. ds = of_nat k' \<and> unat n + k' \<le> unat index + length data \<and> pieces_ok (unat n + k') B2
         \<and> (\<forall>(i, d) \<in> set B1. unat n \<le> unat i \<and> unat i + length d \<le> unat index + length data)
         \<and> (unat n + k' < unat index + length data \<longrightarrow> (\<exists>i d B3. B2 = (i, d) # B3
              \<and> unat i = unat n + k' \<and> unat index + length data < unat i + length d))"
proof -
  obtain A B where strs: "re_strs r = A @ B" and A: "pend (unat (re_next r)) A \<le> unat n"
    and B: "\<forall>(i, d) \<in> set B. n \<le> i" and ge: "index \<le> n"
    by (rule re_new_idx_split [OF assms(1), of index]) (auto simp: n)
  have pieces: "pieces_ok (unat (re_next r)) A" "pieces_ok (pend (unat (re_next r)) A) B"
    using re_okD(5) [OF assms(1)] by (auto simp: strs)
  have Bn: "pieces_ok (unat n) B"
  proof (cases B)
    case Nil
    then show ?thesis by simp
  next
    case (Cons p B')
    then show ?thesis using pieces(2) B by (cases p) (auto simp: word_le_nat_alt)
  qed
  have pos: "sm_lower_bound n (re_strs r) = length A"
    unfolding strs using pieces A B by (intro re_lower_bound) auto
  let ?ds = "size_of data - (n - index)"
  have le: "unat index \<le> unat n" using ge by (simp add: word_le_nat_alt)
  show ?thesis
  proof (cases "unat index + length data \<le> unat n")
    case True
    then obtain m where m: "unat n = unat index + length data + m"
      by (auto simp: le_iff_add)
    have "n = of_nat (unat index + length data + m)" by (simp flip: m)
    then have ds: "?ds = - of_nat m" by (simp add: size_of_def)
    have "sint ?ds = - int m"
      unfolding ds using n(2) m by (intro sint_minus_of_nat_u64) simp
    moreover have "unat (n + ?ds) \<le> unat n"
    proof -
      have "n + ?ds = index + size_of data" by simp
      also have "unat \<dots> = unat index + length data"
        using True n(2) by (simp add: size_simps)
      finally show ?thesis using True by simp
    qed
    from re_trim_disjoint [OF B this, of "re_num r" A]
    have "re_trimmed data index r = (?ds, re_num r, A @ B)"
      unfolding Let_def n(1) [symmetric] pos by (simp only: strs)
    ultimately show ?thesis
      using that [of A "[]" B ?ds] strs A pieces Bn True by simp
  next
    case False
    define k where "k = unat index + length data - unat n"
    have k: "unat n + k = unat index + length data" "unat n + k < 2 ^ 63"
      using False le assms(2) n(2) by (auto simp: k_def)
    have "index + size_of data = of_nat (unat index + length data)" by (simp add: size_of_def)
    then have ds: "?ds = of_nat k" unfolding k(1) [symmetric] by (simp add: algebra_simps)
    obtain k' B1 B2 where
      "B = B1 @ B2" "k' \<le> k"
      "re_trim n (of_nat k) (re_num r) (length A) (A @ B) = (of_nat k', re_num r - of_nat (total B1), A @ B2)"
      "\<forall>(i, d) \<in> set B1. unat i + length d \<le> unat n + k" "pieces_ok (unat n + k') B2"
      "k' < k \<longrightarrow> (\<exists>i d B3. B2 = (i, d) # B3 \<and> unat i = unat n + k' \<and> unat n + k < unat i + length d)"
      using re_trim_covers [OF Bn k(2), of "re_num r" A] by (elim exE conjE) (rule that)
    note trim = this
    show ?thesis
    proof (rule that [of A B1 B2 "of_nat k'"])
      show "re_trimmed data index r = (of_nat k', re_num r - of_nat (total B1), A @ B2)"
        unfolding Let_def n(1) [symmetric] pos ds using trim(3) by (simp only: strs)
      show "\<exists>k''. (of_nat k' :: u64) = of_nat k'' \<and> unat n + k'' \<le> unat index + length data
         \<and> pieces_ok (unat n + k'') B2
         \<and> (\<forall>(i, d) \<in> set B1. unat n \<le> unat i \<and> unat i + length d \<le> unat index + length data)
         \<and> (unat n + k'' < unat index + length data \<longrightarrow> (\<exists>i d B3. B2 = (i, d) # B3
              \<and> unat i = unat n + k'' \<and> unat index + length data < unat i + length d))"
        using trim(2,4,5,6) B unfolding trim(1) k(1) [symmetric]
        by (intro exI [of _ k']) (auto simp: word_le_nat_alt)
    qed (use strs trim A pieces False in auto)
  qed
qed

section \<open>What the stored and delivered bytes satisfy\<close>

text \<open>
  Safety and content are proved together: \<open>Q i d\<close> is a property of a substring \<open>d\<close> at index
  \<open>i\<close> that parts and joins of substrings inherit. With \<open>Q\<close> always true it gives safety for
  arbitrary input; with \<open>Q i d\<close> saying that \<open>d\<close> is what the peer's stream holds at \<open>i\<close> it
  gives correctness.
\<close>

locale excerpts =
  fixes Q :: "nat \<Rightarrow> byte list \<Rightarrow> bool"
  assumes sub: "Q i d \<Longrightarrow> k \<le> length d \<Longrightarrow> Q (i + k) (take l (drop k d))"
    and join: "Q i d \<Longrightarrow> Q (i + length d) e \<Longrightarrow> Q i (d @ e)"
begin

lemma prefix: "Q i d \<Longrightarrow> Q i (take l d)"
  using sub [of i d 0 l] by simp

lemma suffix: "Q i d \<Longrightarrow> k \<le> length d \<Longrightarrow> Q (i + k) (drop k d)"
  using sub [of i d k "length d"] by simp

end

definition re_holds :: "(nat \<Rightarrow> byte list \<Rightarrow> bool) \<Rightarrow> reassembler \<Rightarrow> bool" where
  "re_holds Q r \<longleftrightarrow> Q (re_read r) (bs_buffer (re_output r))
     \<and> (\<forall>p \<in> set (re_strs r). Q (unat (fst p)) (snd p))"

text \<open>What pushing leaves alone.\<close>

definition re_frame :: "reassembler \<Rightarrow> reassembler \<Rightarrow> bool" where
  "re_frame r r' \<longleftrightarrow> re_capacity r' = re_capacity r \<and> re_eof r' = re_eof r
     \<and> bs_bytes_read (re_output r') = bs_bytes_read (re_output r)
     \<and> bs_input_ended (re_output r') = bs_input_ended (re_output r)
     \<and> bs_error (re_output r') = bs_error (re_output r)
     \<and> re_next r \<le> re_next r'"

lemma re_frame_refl [simp]: "re_frame r r"
  by (simp add: re_frame_def)

lemma re_frame_trans: "re_frame r r' \<Longrightarrow> re_frame r' r'' \<Longrightarrow> re_frame r r''"
  by (auto simp: re_frame_def)

text \<open>Writing \<open>d\<close>, which starts at the next index, to the output.\<close>

abbreviation re_write :: "byte list \<Rightarrow> reassembler \<Rightarrow> reassembler" where
  "re_write d r \<equiv> r\<lparr>re_output := snd (bs_write d (re_output r)),
      re_next := re_next r + fst (bs_write d (re_output r))\<rparr>"

lemma re_write_effect:
  assumes "re_ok r"
  shows "unat (re_next (re_write d r)) = unat (re_next r) + accepted d (re_output r)"
    and "bs_buffer (re_output (re_write d r)) = bs_buffer (re_output r) @ take (accepted d (re_output r)) d"
    and "re_frame r (re_write d r)"
    and "pieces_ok (unat (re_next (re_write d r))) m \<Longrightarrow> \<forall>p \<in> set m. unat (fst p) \<le> re_limit r \<Longrightarrow>
      re_ok ((re_write d r)\<lparr>re_num := num, re_strs := m\<rparr>)"
proof -
  note ok = re_okD [OF assms]
  let ?a = "accepted d (re_output r)"
  have eq: "bs_write d (re_output r) = (of_nat ?a, (re_output r)\<lparr>bs_buffer := bs_buffer (re_output r) @ take ?a d,
        bs_bytes_written := bs_bytes_written (re_output r) + of_nat ?a\<rparr>)"
    by (rule bs_write_eq [OF ok(1)])
  have "unat (re_next r) + ?a < 2 ^ 64"
    using accepted_le(2) [of d "re_output r"] ok by simp
  then show next': "unat (re_next (re_write d r)) = unat (re_next r) + ?a"
    by (simp add: eq unat_add_u64)
  have "re_next r \<le> re_next (re_write d r)"
    using next' by (simp only: word_le_nat_alt)
  then show "re_frame r (re_write d r)" by (simp add: eq re_frame_def)
  show "bs_buffer (re_output (re_write d r)) = bs_buffer (re_output r) @ take ?a d"
    by (simp add: eq)
  assume m: "pieces_ok (unat (re_next (re_write d r))) m" "\<forall>p \<in> set m. unat (fst p) \<le> re_limit r"
  have "length (bs_buffer (re_output r) @ take ?a d) = length (bs_buffer (re_output r)) + ?a"
    using accepted_le(1) [of d "re_output r"] by simp
  then show "re_ok ((re_write d r)\<lparr>re_num := num, re_strs := m\<rparr>)"
    unfolding re_ok_def using m ok next' bs_write_ok [OF ok(1), of d]
    by (simp add: eq)
qed

context excerpts
begin

lemma write_holds:
  assumes "re_ok r" "re_holds Q r" "Q (unat (re_next r)) d"
  shows "Q (re_read (re_write d r)) (bs_buffer (re_output (re_write d r)))"
proof -
  have "re_read (re_write d r) = re_read r"
    using re_write_effect(3) [OF assms(1), of d] by (simp add: re_frame_def)
  then show ?thesis
    using assms prefix [OF assms(3)] re_okD(4) [OF assms(1)]
    by (simp only: re_write_effect(2) [OF assms(1)]) (simp add: re_holds_def join)
qed

end

section \<open>The assembling loop\<close>

lemma size_less_iff: "length d < 2 ^ 64 \<Longrightarrow> a < 2 ^ 64 \<Longrightarrow> of_nat a < size_of d \<longleftrightarrow> a < length d"
  by (simp add: word_less_nat_alt size_simps)

text \<open>One round: the first stored substring starts at the next index.\<close>

lemma re_assemble_round:
  assumes "re_ok r" "re_strs r = (re_next r, d) # rest"
  defines "a \<equiv> accepted d (re_output r)"
  shows "re_assemble ((re_next r, d) # rest) r =
     (if a < length d then
        Inr ((re_write d r)\<lparr>re_num := re_num r + (size_of d - of_nat a) - size_of d,
               re_strs := (if a = 0 then rest else (re_next (re_write d r), drop a d) # rest)\<rparr>)
      else re_assemble rest ((re_write d r)\<lparr>re_num := re_num r - size_of d, re_strs := rest\<rparr>))"
proof -
  have pieces: "pieces_ok (unat (re_next r)) ((re_next r, d) # rest)"
    using re_okD(5) [OF assms(1)] assms(2) by simp
  have len: "length d < 2 ^ 64" using pieces by simp
  have fst_a: "fst (bs_write d (re_output r)) = of_nat a"
    using re_okD(1) [OF assms(1)] by (simp add: bs_write_eq a_def)
  have next': "unat (re_next (re_write d r)) = unat (re_next r) + a"
    unfolding a_def by (rule re_write_effect(1) [OF assms(1)])
  have a_lt: "a < 2 ^ 64" unfolding a_def by (rule accepted_le(3))
  have more: "(of_nat a < size_of d) = (a < length d)"
    by (rule size_less_iff [OF len a_lt])
  have sub: "substr (of_nat a) (- 1) d = Inr (drop a d)" if "a < length d"
  proof -
    have "\<not> size_of d < of_nat a" using that len a_lt by (simp add: word_less_nat_alt size_simps)
    moreover have "unat (- 1 :: u64) \<ge> length d"
      using len by (simp add: unsigned_minus_1_eq_mask mask_eq_exp_minus_1)
    ultimately show ?thesis using a_lt by (simp add: substr_def size_simps)
  qed
  have "sm_erase (re_next r) (sm_insert (re_next (re_write d r)) (drop a d) ((re_next r, d) # rest))
      = (if a = 0 then rest else (re_next (re_write d r), drop a d) # rest)" if "a < length d"
  proof (cases "a = 0")
    case True
    then have "re_next (re_write d r) = re_next r" by (simp add: fst_a)
    moreover have "sm_erase (re_next r) rest = rest"
      using pieces_ok_sm_ok [OF pieces] by (auto simp: sm_erase_def sm_ok_Cons intro!: filter_True)
    ultimately show ?thesis using True by (simp add: sm_insert_def) (simp add: sm_erase_def)
  next
    case False
    have "sm_insert (re_next (re_write d r)) (drop a d) ([(re_next r, d)] @ rest)
        = [(re_next r, d)] @ (re_next (re_write d r), drop a d) # rest"
    proof (rule sm_insert_between)
      show "\<forall>p \<in> set [(re_next r, d)]. fst p < re_next (re_write d r)"
        using False next' by (simp only: word_less_nat_alt) simp
      have "unat (re_next r) + a < unat i" if "(i, e) \<in> set rest" for i e
        using pieces \<open>a < length d\<close> pieces_ok_in [of "unat (re_next r) + length d" rest, OF _ that]
        by simp
      then show "\<forall>p \<in> set rest. re_next (re_write d r) < fst p"
        by (simp only: word_less_nat_alt next') auto
    qed
    moreover have "sm_erase (re_next r) rest = rest"
      using pieces_ok_sm_ok [OF pieces] by (auto simp: sm_erase_def sm_ok_Cons intro!: filter_True)
    moreover have "re_next (re_write d r) \<noteq> re_next r"
      using False next' by (metis add_cancel_right_right)
    ultimately show ?thesis using False by (simp add: sm_erase_def)
  qed
  then show ?thesis
    by (simp add: split_beta fst_a more sub assms(2) Let_def)
qed

context excerpts
begin

lemma assemble_ok:
  assumes "re_ok r" "re_holds Q r" "re_strs r = m"
  shows "\<exists>r'. re_assemble m r = Inr r' \<and> re_ok r' \<and> re_holds Q r' \<and> re_frame r r'"
  using assms
proof (induction m arbitrary: r)
  case Nil
  then show ?case by simp
next
  case (Cons p rest)
  obtain i d where p: "p = (i, d)" by (cases p)
  note ok = re_okD [OF Cons.prems(1)]
  have pieces: "pieces_ok (unat (re_next r)) ((i, d) # rest)"
    using ok(5) Cons.prems(3) p by simp
  then have le: "re_next r \<le> i" by (simp add: word_le_nat_alt)
  show ?case
  proof (cases "i = re_next r")
    case False
    with le Cons.prems p show ?thesis by auto
  next
    case True
    define a where "a = accepted d (re_output r)"
    let ?w = "re_write d r"
    have strs: "re_strs r = (re_next r, d) # rest" using Cons.prems(3) p True by simp
    note round = re_assemble_round [OF Cons.prems(1) strs, folded a_def]
    have Qd: "Q (unat (re_next r)) d" and Qrest: "\<forall>p \<in> set rest. Q (unat (fst p)) (snd p)"
      using Cons.prems(2) strs by (auto simp: re_holds_def)
    have next': "unat (re_next ?w) = unat (re_next r) + a"
      unfolding a_def by (rule re_write_effect(1) [OF Cons.prems(1)])
    have starts: "\<forall>p \<in> set rest. unat (fst p) \<le> re_limit r"
      using ok(9) strs by simp
    have out: "Q (re_read ?w) (bs_buffer (re_output ?w))"
      using Cons.prems(1,2) Qd by (rule write_holds)
    have frame: "re_frame r ?w" by (rule re_write_effect(3) [OF Cons.prems(1)])
    have "pieces_ok (unat (re_next ?w)) rest" if "a \<le> length d"
      unfolding next' using pieces that True by (auto elim!: pieces_ok_mono)
    then have ok_rest: "re_ok (?w\<lparr>re_num := num, re_strs := rest\<rparr>)" if "a \<le> length d" for num
      using that starts by (intro re_write_effect(4) [OF Cons.prems(1)]) auto
    have rest: "re_holds Q (?w\<lparr>re_num := num, re_strs := rest\<rparr>)" for num
      using out Qrest by (simp add: re_holds_def)
    consider "a = 0" "a < length d" | "0 < a" "a < length d" | "a = length d"
      using accepted_le(1) [of d "re_output r"] unfolding a_def by linarith
    then show ?thesis
    proof cases
      case 1
      let ?r = "?w\<lparr>re_num := re_num r + (size_of d - of_nat a) - size_of d, re_strs := rest\<rparr>"
      have "re_assemble (p # rest) r = Inr ?r"
        unfolding p True round using 1 by (simp only: if_True simp_thms)
      moreover have "re_frame r ?r" using frame by (simp add: re_frame_def)
      moreover have "re_ok ?r" using 1 by (intro ok_rest) simp
      ultimately show ?thesis using rest by blast
    next
      case 2
      have "re_ok (?w\<lparr>re_num := num, re_strs := (re_next ?w, drop a d) # rest\<rparr>)" for num
      proof (rule re_write_effect(4) [OF Cons.prems(1)])
        have "unat (re_next ?w) \<le> re_limit r"
          using accepted_le(2) [of d "re_output r"] ok next' unfolding a_def by simp
        with starts show "\<forall>p \<in> set ((re_next ?w, drop a d) # rest). unat (fst p) \<le> re_limit r"
          by simp
        show "pieces_ok (unat (re_next ?w)) ((re_next ?w, drop a d) # rest)"
          using pieces 2 by (simp only: pieces_ok.simps next') (simp add: True)
      qed
      moreover have "re_holds Q (?w\<lparr>re_num := num, re_strs := (re_next ?w, drop a d) # rest\<rparr>)" for num
        using out Qrest suffix [OF Qd, of a] 2 by (auto simp: re_holds_def simp flip: next')
      moreover let ?r = "?w\<lparr>re_num := re_num r + (size_of d - of_nat a) - size_of d,
          re_strs := (re_next ?w, drop a d) # rest\<rparr>"
      from 2 have "a \<noteq> 0" by simp
      with 2 have "re_assemble (p # rest) r = Inr ?r"
        unfolding p True round by (simp only: if_True if_False)
      moreover have "re_frame r ?r" using frame by (simp add: re_frame_def)
      ultimately show ?thesis by blast
    next
      case 3
      let ?r = "?w\<lparr>re_num := re_num r - size_of d, re_strs := rest\<rparr>"
      have "re_frame r ?r" using frame by (simp add: re_frame_def)
      moreover from Cons.IH [OF ok_rest rest, of "re_num r - size_of d"] 3
      obtain r' where "re_assemble rest ?r = Inr r'" "re_ok r'" "re_holds Q r'" "re_frame ?r r'"
        by auto
      ultimately show ?thesis
        using round 3 p True by (auto intro: re_frame_trans)
    qed
  qed
qed

end

section \<open>Writing or storing the new data\<close>

lemma re_store_nothing: "\<not> 0 < sint ds \<Longrightarrow> re_store data start ds n r = Inr r"
  by (simp add: re_store_def)

lemma pieces_before_next: "pieces_ok lo A \<Longrightarrow> pend lo A \<le> lo \<Longrightarrow> A = []"
  by (cases A) (use pieces_ok_in [of lo A "fst (hd A)" "snd (hd A)"] in
      \<open>auto simp flip: length_greater_0_conv\<close>)

lemma re_store_eq:
  assumes ok: "re_ok r" and strs: "re_strs r = A @ B" "pend (unat (re_next r)) A \<le> unat n"
    "pieces_ok (unat n + k) B"
    and n: "unat n = unat index + j" "j + k \<le> length data" "re_next r \<le> n"
    and k: "0 < k" "length data < 2 ^ 62"
  defines "nd \<equiv> take k (drop j data)"
  shows "re_store data (n - index) (of_nat k) n r = Inr
     (if n = re_next r then
        (if accepted nd (re_output r) < k then
           (re_write nd r)\<lparr>re_num := re_num r + of_nat (k - accepted nd (re_output r)),
              re_strs := (re_next (re_write nd r), drop (accepted nd (re_output r)) nd) # B\<rparr>
         else re_write nd r)
      else r\<lparr>re_num := re_num r + of_nat k, re_strs := A @ (n, nd) # B\<rparr>)"
proof -
  let ?a = "accepted nd (re_output r)"
  have len: "length nd = k" using n by (simp add: nd_def)
  have size: "size_of nd = of_nat k" by (simp add: size_of_def len)
  have k_lt: "k < 2 ^ 62" "j < 2 ^ 62" using n k by auto
  have "n - index = of_nat j"
  proof -
    have "index \<le> n" using n(1) by (simp add: word_le_nat_alt)
    then have "unat (n - index) = j" using n(1) by (simp add: unat_sub_u64)
    then show ?thesis by (rule unat_eqI_u64)
  qed
  then have sub: "substr (n - index) (of_nat k) data = Inr nd"
    using n(2) k k_lt by (simp add: substr_def word_less_nat_alt size_simps nd_def)
  have pos: "0 < sint (of_nat k :: u64)" using k(1) k_lt by (simp add: sint_of_nat_u64)
  have above: "\<forall>p \<in> set B. unat n + k \<le> unat (fst p)"
    using strs(3) pieces_ok_in [of "unat n + k" B] by fastforce
  show ?thesis
  proof (cases "n = re_next r")
    case True
    have A: "A = []"
      using re_okD(5) [OF ok] strs(1,2) True by (intro pieces_before_next) auto
    have next': "unat (re_next (re_write nd r)) = unat n + ?a"
      using re_write_effect(1) [OF ok, of nd] True by simp
    have fst_a: "fst (bs_write nd (re_output r)) = of_nat ?a"
      using re_okD(1) [OF ok] by (simp add: bs_write_eq)
    have more: "(of_nat ?a < size_of nd) = (?a < k)"
      using size_less_iff [of nd ?a] len k_lt accepted_le(3) [of nd] by simp
    show ?thesis
    proof (cases "?a < k")
      case short: True
      have "size_of nd - of_nat ?a = of_nat (k - ?a)" using short by (simp add: size of_nat_diff)
      moreover have "unat (of_nat (k - ?a) :: u64) = k - ?a"
        using k_lt by (intro unat_of_nat_u64) simp
      then have "substr (of_nat ?a) (of_nat (k - ?a)) nd = Inr (drop ?a nd)"
        using short k_lt by (simp add: substr_def word_less_nat_alt size_simps len del: of_nat_diff)
      moreover have "sm_insert (re_next (re_write nd r)) (drop ?a nd) B
          = (re_next (re_write nd r), drop ?a nd) # B"
      proof (rule sm_insert_first)
        have "unat n + ?a < unat (fst p)" if "p \<in> set B" for p
          using above that short by fastforce
        then show "\<forall>p \<in> set B. re_next (re_write nd r) < fst p"
          unfolding word_less_nat_alt next' by blast
      qed
      moreover have "size_of (drop ?a nd) = of_nat (k - ?a)" by (simp add: size_of_def len)
      ultimately show ?thesis
        using pos sub more True short strs(1) A
        by (simp add: re_store_def split_beta Let_def fst_a)
    next
      case False
      then show ?thesis
        using pos sub more True by (simp add: re_store_def split_beta Let_def fst_a)
    qed
  next
    case False
    have "substr 0 (size_of nd) nd = Inr nd"
      using k_lt by (simp add: substr_def size size_simps len)
    moreover have "sm_insert n nd (A @ B) = A @ (n, nd) # B"
    proof (rule sm_insert_between)
      have "pieces_ok (unat (re_next r)) A" using re_okD(5) [OF ok] strs(1) by simp
      then show "\<forall>p \<in> set A. fst p < n"
        using strs(2) pieces_ok_start_less by (fastforce simp: word_less_nat_alt)
      show "\<forall>p \<in> set B. n < fst p"
        using above k(1) by (fastforce simp: word_less_nat_alt)
    qed
    ultimately show ?thesis
      using pos sub False strs(1) by (simp add: re_store_def size)
  qed
qed

context excerpts
begin

lemma store_ok:
  assumes ok: "re_ok r" and strs: "re_strs r = A @ B" "pend (unat (re_next r)) A \<le> unat n"
    "pieces_ok (unat n + k) B"
    and n: "unat n = unat index + j" "j + k \<le> length data" "re_next r \<le> n"
    and k: "0 < k" "length data < 2 ^ 62"
    and window: "unat n \<le> re_limit r"
    and Q: "re_holds Q r" "Q (unat index) data"
  shows "\<exists>r'. re_store data (n - index) (of_nat k) n r = Inr r' \<and> re_ok r' \<and> re_holds Q r'
    \<and> re_frame r r'"
proof -
  define nd where "nd = take k (drop j data)"
  let ?a = "accepted nd (re_output r)" and ?w = "re_write nd r"
  note eq = re_store_eq [OF ok strs n k, folded nd_def]
  have len: "length nd = k" using n by (simp add: nd_def)
  have Qn: "Q (unat n) nd"
    using sub [OF Q(2), of j k] n by (simp add: nd_def)
  have QAB: "\<forall>p \<in> set (A @ B). Q (unat (fst p)) (snd p)"
    using Q(1) strs(1) by (simp add: re_holds_def)
  have starts: "\<forall>p \<in> set (A @ B). unat (fst p) \<le> re_limit r"
    using re_okD(9) [OF ok] strs(1) by simp
  note okr = re_okD [OF ok]
  have k_lt: "k < 2 ^ 62" using n k by auto
  show ?thesis
  proof (cases "n = re_next r")
    case True
    have A: "A = []"
      using okr(5) strs(1,2) True by (intro pieces_before_next) auto
    have next': "unat (re_next ?w) = unat n + ?a"
      using re_write_effect(1) [OF ok, of nd] True by simp
    have out: "Q (re_read ?w) (bs_buffer (re_output ?w))"
      using ok Q(1) Qn True by (intro write_holds) simp_all
    have frame: "re_frame r ?w" by (rule re_write_effect(3) [OF ok])
    have lim: "unat (re_next ?w) \<le> re_limit r"
      using accepted_le(2) [of nd "re_output r"] okr next' True by simp
    show ?thesis
    proof (cases "?a < k")
      case short: True
      let ?r = "?w\<lparr>re_num := re_num r + of_nat (k - ?a), re_strs := (re_next ?w, drop ?a nd) # B\<rparr>"
      have "pieces_ok (unat (re_next ?w)) ((re_next ?w, drop ?a nd) # B)"
        unfolding pieces_ok.simps next'
        using short strs(3) len k_lt okr(6,7) True by simp
      then have "re_ok ?r"
        using starts lim by (intro re_write_effect(4) [OF ok]) auto
      moreover have "Q (unat (re_next ?w)) (drop ?a nd)"
        unfolding next' using suffix [OF Qn, of ?a] short len by simp
      then have "re_holds Q ?r"
        using out QAB by (simp add: re_holds_def)
      moreover have "re_frame r ?r" using frame by (simp add: re_frame_def)
      moreover have "re_store data (n - index) (of_nat k) n r = Inr ?r"
        unfolding eq using True short by (simp only: simp_thms if_True)
      ultimately show ?thesis by blast
    next
      case False
      then have a: "?a = k" using accepted_le(1) [of nd "re_output r"] len by simp
      have same: "?w\<lparr>re_num := re_num ?w, re_strs := B\<rparr> = ?w"
        using strs(1) A by simp
      have "re_ok (?w\<lparr>re_num := re_num ?w, re_strs := B\<rparr>)"
        using strs(3) starts by (intro re_write_effect(4) [OF ok]) (simp_all only: next' a, simp)
      moreover have "re_holds Q ?w"
        using out QAB strs(1) by (simp add: re_holds_def)
      moreover have "re_store data (n - index) (of_nat k) n r = Inr ?w"
        unfolding eq using True False by (simp only: simp_thms if_True if_False)
      ultimately show ?thesis
        unfolding same using frame by blast
    qed
  next
    case False
    let ?r = "r\<lparr>re_num := re_num r + of_nat k, re_strs := A @ (n, nd) # B\<rparr>"
    have "pieces_ok (unat (re_next r)) (A @ (n, nd) # B)"
      using okr(5,7) strs window k(1) k_lt len by auto
    then have "re_ok ?r"
      using okr starts window by (simp add: re_ok_def)
    moreover have "re_holds Q ?r" using Q(1) QAB Qn by (simp add: re_holds_def)
    moreover have "re_frame r ?r" by (simp add: re_frame_def)
    moreover have "re_store data (n - index) (of_nat k) n r = Inr ?r"
      unfolding eq using False by (simp only: if_False)
    ultimately show ?thesis by blast
  qed
qed

end

section \<open>Pushing a substring\<close>

lemma unat_first_unacceptable:
  assumes "re_ok r"
  shows "unat (re_next r + re_capacity r - bs_buffer_size (re_output r)) = re_limit r"
proof -
  note ok = re_okD [OF assms]
  have buf: "unat (bs_buffer_size (re_output r)) = length (bs_buffer (re_output r))"
    using ok by (simp add: bs_buffer_size_def unat_size_of)
  have sum: "unat (re_next r + re_capacity r) = unat (re_next r) + unat (re_capacity r)"
    using ok by (intro unat_add_u64) simp
  have le: "bs_buffer_size (re_output r) \<le> re_next r + re_capacity r"
    using ok buf sum by (simp add: word_le_nat_alt)
  show ?thesis
    unfolding unat_sub_u64 [OF le] buf sum ok(4) by simp
qed

text \<open>Dropping stored substrings keeps the invariant.\<close>

lemma re_ok_drop:
  assumes "re_ok r" "re_strs r = A @ B1 @ B2"
  shows "re_ok (r\<lparr>re_num := num, re_strs := A @ B2\<rparr>)"
proof -
  have "pieces_ok (pend (unat (re_next r)) A) B2"
    using assms re_okD(5) [OF assms(1)] by (auto elim!: pieces_ok_mono dest: pend_ge)
  then show ?thesis
    using assms unfolding re_ok_def by auto
qed

lemma re_finish_frame:
  "re_ok r \<Longrightarrow> re_ok (re_finish data index eof r)"
  "re_holds Q r \<Longrightarrow> re_holds Q (re_finish data index eof r)"
  "re_capacity (re_finish data index eof r) = re_capacity r"
  "bs_bytes_read (re_output (re_finish data index eof r)) = bs_bytes_read (re_output r)"
  "bs_error (re_output (re_finish data index eof r)) = bs_error (re_output r)"
  "re_next (re_finish data index eof r) = re_next r"
  "re_eof (re_finish data index eof r) = (if eof then index + size_of data else re_eof r)"
  by (auto simp: re_finish_def Let_def re_ok_def re_holds_def bs_end_input_def bs_ok_def)

text \<open>The state after the overlap loop, with the new data reduced to \<open>k\<close> bytes at \<open>n\<close>.\<close>

lemma re_trimmed_far:
  assumes "re_ok r" "2 ^ 62 \<le> unat (re_new_idx index r)"
  shows "re_trimmed data index r = (size_of data - (re_new_idx index r - index), re_num r, re_strs r)"
proof -
  obtain A B where strs: "re_strs r = A @ B" and A: "pend (unat (re_next r)) A \<le> unat (re_new_idx index r)"
    and B: "\<forall>(i, d) \<in> set B. re_new_idx index r \<le> i"
    by (rule re_new_idx_split [OF assms(1), of index])
  have "B = []"
  proof (cases B)
    case (Cons p B')
    then have "unat (fst p) \<le> re_limit r" "re_new_idx index r \<le> fst p"
      using re_okD(9) [OF assms(1), of p] strs B by auto
    then show ?thesis
      using re_okD(7) [OF assms(1)] assms(2) by (simp add: word_le_nat_alt)
  qed simp
  moreover have "sm_lower_bound (re_new_idx index r) (re_strs r) = length A"
    unfolding strs using re_okD(5) [OF assms(1)] A B by (intro re_lower_bound) (auto simp: strs)
  ultimately show ?thesis by (simp add: Let_def re_trim_end strs)
qed

lemma re_push_eq:
  assumes "re_trimmed data index r = (ds, num, strs)"
  defines "r1 \<equiv> r\<lparr>re_num := num, re_strs := strs\<rparr>" and "n \<equiv> re_new_idx index r"
  shows "re_push data index eof r =
     (if re_next r1 + re_capacity r1 - bs_buffer_size (re_output r1) \<le> n then Inr r1
      else case re_store data (n - index) ds n r1 of
          Inl e \<Rightarrow> Inl e
        | Inr r2 \<Rightarrow> (case re_assemble (re_strs r2) r2 of Inl e \<Rightarrow> Inl e
            | Inr r3 \<Rightarrow> Inr (re_finish data index eof r3)))"
  using assms(1) unfolding re_push_def r1_def n_def by (simp add: Let_def)

lemma re_first_unacceptable_iff:
  assumes "re_ok r"
  shows "re_next r + re_capacity r - bs_buffer_size (re_output r) \<le> n \<longleftrightarrow> re_limit r \<le> unat n"
  unfolding word_le_nat_alt unat_first_unacceptable [OF assms] ..

context excerpts
begin

lemma push_ok:
  assumes ok: "re_ok r" and Q: "re_holds Q r" "data \<noteq> [] \<Longrightarrow> Q (unat index) data" and len: "length data < 2 ^ 62"
  shows "\<exists>r'. re_push data index eof r = Inr r' \<and> re_ok r' \<and> re_holds Q r'
    \<and> (\<exists>r3. re_frame r r3 \<and> (r' = r3 \<or> r' = re_finish data index eof r3))"
proof (cases "2 ^ 62 \<le> unat (re_new_idx index r)")
  case True
  let ?r = "r\<lparr>re_num := re_num r, re_strs := re_strs r\<rparr>"
  have "re_limit ?r \<le> unat (re_new_idx index r)"
    using re_okD(7) [OF ok] True by simp
  then have "re_push data index eof r = Inr ?r"
    using re_push_eq [OF re_trimmed_far [OF ok True]] re_first_unacceptable_iff [of ?r] ok by simp
  then have "re_push data index eof r = Inr r" by simp
  with ok Q re_frame_refl [of r] show ?thesis by blast
next
  case False
  define n where "n = re_new_idx index r"
  have n: "unat n < 2 ^ 62" using False by (simp add: n_def)
  obtain A B1 B2 ds where strs: "re_strs r = A @ B1 @ B2"
    and trim: "re_trimmed data index r = (ds, re_num r - of_nat (total B1), A @ B2)"
    and A: "pend (unat (re_next r)) A \<le> unat n"
    and none: "unat index + length data \<le> unat n \<Longrightarrow> B1 = [] \<and> \<not> 0 < sint ds \<and> pieces_ok (unat n) B2"
    and some: "unat n < unat index + length data \<Longrightarrow>
      \<exists>k'. ds = of_nat k' \<and> unat n + k' \<le> unat index + length data \<and> pieces_ok (unat n + k') B2"
    by (rule re_prepare [OF ok len n_def n]) blast
  define r1 where "r1 = r\<lparr>re_num := re_num r - of_nat (total B1), re_strs := A @ B2\<rparr>"
  have ok1: "re_ok r1" unfolding r1_def by (rule re_ok_drop [OF ok strs])
  have Q1: "re_holds Q r1" using Q(1) strs by (auto simp: re_holds_def r1_def)
  have frame1: "re_frame r r1" by (simp add: re_frame_def r1_def)
  note eq = re_push_eq [OF trim, of eof, folded r1_def n_def,
      unfolded re_first_unacceptable_iff [OF ok1, of n]]
  show ?thesis
  proof (cases "re_limit r1 \<le> unat n")
    case True
    then show ?thesis using eq ok1 Q1 frame1 by auto
  next
    case inside: False
    obtain B where "index \<le> n" "re_next r \<le> n"
      by (rule re_new_idx_split [OF ok, of index, folded n_def]) blast
    then have j: "unat n = unat index + (unat n - unat index)" and next1: "re_next r1 \<le> n"
      by (auto simp: word_le_nat_alt r1_def)
    have "\<exists>r2. re_store data (n - index) ds n r1 = Inr r2 \<and> re_ok r2 \<and> re_holds Q r2 \<and> re_frame r1 r2"
    proof (cases "0 < sint ds")
      case True
      then obtain k' where k': "ds = of_nat k'" "unat n + k' \<le> unat index + length data"
        "pieces_ok (unat n + k') B2"
        using none some by fastforce
      have "0 < k'" using True k'(1) by (cases k') auto
      have "data \<noteq> []" using k'(2) \<open>0 < k'\<close> j by auto
      note Qd = Q(2) [OF this]
      show ?thesis
        unfolding k'(1)
      proof (rule store_ok [OF ok1 _ _ k'(3) j _ next1 \<open>0 < k'\<close> len _ Q1 Qd])
        show "re_strs r1 = A @ B2" "pend (unat (re_next r1)) A \<le> unat n"
          using A by (simp_all add: r1_def)
        show "unat n - unat index + k' \<le> length data" using j k'(2) by linarith
        show "unat n \<le> re_limit r1" using inside by simp
      qed
    qed (use ok1 Q1 re_store_nothing in simp)
    then obtain r2 where r2: "re_store data (n - index) ds n r1 = Inr r2" "re_ok r2" "re_holds Q r2"
      "re_frame r1 r2" by blast
    obtain r3 where r3: "re_assemble (re_strs r2) r2 = Inr r3" "re_ok r3" "re_holds Q r3"
      "re_frame r2 r3" using assemble_ok [OF r2(2,3) refl] by blast
    have "re_frame r r3" using frame1 r2(4) r3(4) by (blast intro: re_frame_trans)
    moreover have "re_push data index eof r = Inr (re_finish data index eof r3)"
      using eq inside r2(1) r3(1) by simp
    ultimately show ?thesis
      using re_finish_frame(1) [OF r3(2)] re_finish_frame(2) [OF r3(3)] by blast
  qed
qed

end

section \<open>Runs of pushes and reads\<close>

datatype re_op = RePush "byte list" u64 bool | ReRead u64

text \<open>The bytes delivered so far are kept beside the state.\<close>

fun re_step :: "re_op \<Rightarrow> byte list \<times> reassembler \<Rightarrow> failure + byte list \<times> reassembler" where
  "re_step (RePush data index eof) (del, r) =
     (case re_push data index eof r of Inl e \<Rightarrow> Inl e | Inr r' \<Rightarrow> Inr (del, r'))"
| "re_step (ReRead n) (del, r) =
     (let (d, out) = bs_read n (re_output r) in Inr (del @ d, r\<lparr>re_output := out\<rparr>))"

fun re_run :: "re_op list \<Rightarrow> byte list \<times> reassembler \<Rightarrow> failure + byte list \<times> reassembler" where
  "re_run [] s = Inr s"
| "re_run (x # xs) s = (case re_step x s of Inl e \<Rightarrow> Inl e | Inr s' \<Rightarrow> re_run xs s')"

fun re_asked :: "re_op list \<Rightarrow> nat" where
  "re_asked [] = 0"
| "re_asked (ReRead n # xs) = unat n + re_asked xs"
| "re_asked (RePush _ _ _ # xs) = re_asked xs"

lemma re_read_ok:
  assumes "re_ok r" "re_read r + min (unat n) (length (bs_buffer (re_output r))) + unat (re_capacity r) < 2 ^ 62"
  defines "r' \<equiv> r\<lparr>re_output := snd (bs_read n (re_output r))\<rparr>"
  shows "re_ok r'" "re_read r' = re_read r + min (unat n) (length (bs_buffer (re_output r)))"
proof -
  note ok = re_okD [OF assms(1)]
  let ?b = "bs_buffer (re_output r)"
  have eq: "snd (bs_read n (re_output r)) = (re_output r)\<lparr>bs_buffer := drop (unat n) ?b,
      bs_bytes_read := bs_bytes_read (re_output r) + of_nat (min (unat n) (length ?b))\<rparr>"
    unfolding bs_read_eq [OF ok(1)] snd_conv ..
  have "unat (of_nat (min (unat n) (length ?b)) :: u64) = min (unat n) (length ?b)"
    using assms(2) by (intro unat_of_nat_u64) simp
  then show read: "re_read r' = re_read r + min (unat n) (length ?b)"
    unfolding r'_def using assms(2) by (simp add: eq unat_add_u64 del: of_nat_min)
  have out: "bs_ok (re_output r')"
    unfolding r'_def using bs_pop_ok [OF ok(1)] by (simp add: bs_read_def)
  have fields: "bs_buffer (re_output r') = drop (unat n) ?b" "re_capacity r' = re_capacity r"
    "bs_capacity (re_output r') = re_capacity r" "re_next r' = re_next r" "re_strs r' = re_strs r"
    "bs_bytes_written (re_output r') = re_next r"
    using ok(2,3) unfolding r'_def by (simp_all add: eq)
  have "unat (re_next r) = re_read r' + length (drop (unat n) ?b)"
    using ok(4) unfolding read by simp
  moreover have "unat (fst p) \<le> re_limit r'" if "p \<in> set (re_strs r)" for p
    using ok(9) [OF that] unfolding read fields by simp
  ultimately show "re_ok r'"
    unfolding re_ok_def fields using out ok(5) assms(2) by (simp only: read fields) simp
qed

context excerpts
begin

lemma run_ok:
  assumes "re_ok r" "re_holds Q r" "Q 0 (del @ bs_buffer (re_output r))" "length del = re_read r"
    and "\<And>d i e. RePush d i e \<in> set ops \<Longrightarrow> Q (unat i) d \<and> length d < 2 ^ 62"
    and "\<And>d. Q 0 d \<Longrightarrow> length d \<le> length del + re_asked ops \<Longrightarrow> length d + unat (re_capacity r) < 2 ^ 62"
  shows "\<exists>del' r'. re_run ops (del, r) = Inr (del', r') \<and> re_ok r' \<and> re_holds Q r'
    \<and> Q 0 (del' @ bs_buffer (re_output r')) \<and> length del' = re_read r' \<and> re_capacity r' = re_capacity r"
  using assms
proof (induction ops arbitrary: r del)
  case Nil
  then show ?case by simp
next
  case (Cons x ops)
  show ?case
  proof (cases x)
    case (RePush d i e)
    then have d: "Q (unat i) d" "length d < 2 ^ 62" using Cons.prems(5) by auto
    obtain r' r3 where r': "re_push d i e r = Inr r'" "re_ok r'" "re_holds Q r'"
      "re_frame r r3" "r' = r3 \<or> r' = re_finish d i e r3"
      using push_ok [OF Cons.prems(1,2) d, of e] by blast
    have same: "re_capacity r' = re_capacity r" "re_read r' = re_read r"
      using r'(4,5) by (auto simp: re_frame_def re_finish_frame)
    have "Q 0 (take (length del) (del @ bs_buffer (re_output r)))"
      using Cons.prems(3) by (rule prefix)
    then have "Q 0 (del @ bs_buffer (re_output r'))"
      using r'(3) Cons.prems(4) same join [of 0 del] by (simp add: re_holds_def)
    then have "\<exists>del' r''. re_run ops (del, r') = Inr (del', r'') \<and> re_ok r''
      \<and> re_holds Q r'' \<and> Q 0 (del' @ bs_buffer (re_output r'')) \<and> length del' = re_read r''
      \<and> re_capacity r'' = re_capacity r'"
      using Cons.prems(4-6) RePush same by (intro Cons.IH [OF r'(2,3)]) auto
    then show ?thesis using r'(1) RePush same by simp
  next
    case (ReRead n)
    let ?b = "bs_buffer (re_output r)"
    let ?r = "r\<lparr>re_output := snd (bs_read n (re_output r))\<rparr>"
    note ok = re_okD [OF Cons.prems(1)]
    have "Q 0 (take (length del + min (unat n) (length ?b)) (del @ ?b))"
      using Cons.prems(3) by (rule prefix)
    then have "Q 0 (del @ take (unat n) ?b)" by simp
    from Cons.prems(6) [OF this]
    have bound: "re_read r + min (unat n) (length ?b) + unat (re_capacity r) < 2 ^ 62"
      using Cons.prems(4) ReRead by (simp add: min.commute)
    note r' = re_read_ok [OF Cons.prems(1) bound]
    have out: "fst (bs_read n (re_output r)) = take (unat n) ?b"
      "bs_buffer (snd (bs_read n (re_output r))) = drop (unat n) ?b"
      unfolding bs_read_eq [OF ok(1)] by simp_all
    have "Q (re_read r + min (unat n) (length ?b)) (take (length ?b) (drop (min (unat n) (length ?b)) ?b))"
      using Cons.prems(2) by (intro sub) (simp_all add: re_holds_def)
    moreover have "take (length ?b) (drop (min (unat n) (length ?b)) ?b) = drop (unat n) ?b"
      by (auto simp: min_def)
    ultimately have holds: "re_holds Q ?r"
      using Cons.prems(2) r'(2) by (simp add: re_holds_def out)
    have "re_step x (del, r) = Inr (del @ take (unat n) ?b, ?r)"
      using ReRead out by (simp add: split_beta)
    moreover have "\<exists>del' r'. re_run ops (del @ take (unat n) ?b, ?r) = Inr (del', r') \<and> re_ok r'
      \<and> re_holds Q r' \<and> Q 0 (del' @ bs_buffer (re_output r')) \<and> length del' = re_read r'
      \<and> re_capacity r' = re_capacity ?r"
    proof (rule Cons.IH [OF r'(1) holds])
      show "Q 0 ((del @ take (unat n) ?b) @ bs_buffer (re_output ?r))"
        using Cons.prems(3) by (simp add: out)
      show "length (del @ take (unat n) ?b) = re_read ?r"
        unfolding r'(2) using Cons.prems(4) by simp
      show "length d + unat (re_capacity ?r) < 2 ^ 62"
        if "Q 0 d" "length d \<le> length (del @ take (unat n) ?b) + re_asked ops" for d
        using Cons.prems(6) [OF that(1)] that(2) ReRead by simp
    qed (use Cons.prems(5) in auto)
    ultimately show ?thesis by simp
  qed
qed

end

section \<open>Arbitrary input, and pieces of one stream\<close>

interpretation anything: excerpts "\<lambda>_ _. True"
  by unfold_locales simp_all

text \<open>\<open>d\<close> is what the stream \<open>S\<close> holds from index \<open>i\<close> on.\<close>

definition excerpt :: "byte list \<Rightarrow> nat \<Rightarrow> byte list \<Rightarrow> bool" where
  "excerpt S i d \<longleftrightarrow> i + length d \<le> length S \<and> take (length d) (drop i S) = d"

lemma excerpt_sub:
  assumes "excerpt S i d" "k \<le> length d"
  shows "excerpt S (i + k) (take l (drop k d))"
proof -
  let ?m = "length (take l (drop k d))"
  have "take l (drop k d) = take ?m (drop k (take (length d) (drop i S)))"
    using assms(1) by (simp add: excerpt_def min_def)
  also have "\<dots> = take ?m (drop (i + k) S)"
    by (simp add: drop_take min_def ac_simps)
  finally show ?thesis using assms by (auto simp: excerpt_def)
qed

lemma excerpt_join:
  "excerpt S i d \<Longrightarrow> excerpt S (i + length d) e \<Longrightarrow> excerpt S i (d @ e)"
  by (simp add: excerpt_def take_add add.commute add.left_commute)

interpretation pieces_of: excerpts "excerpt S" for S
  by unfold_locales (rule excerpt_sub, assumption+, rule excerpt_join)

lemma re_new_ok:
  assumes "unat cap < 2 ^ 62"
  shows "re_ok (re_new cap)"
  using assms by (simp add: re_new_def re_ok_def bs_new_def bs_ok_def)

lemma re_new_start:
  "re_holds Q (re_new cap) = Q 0 []" "bs_buffer (re_output (re_new cap)) = []"
  "re_read (re_new cap) = 0" "re_capacity (re_new cap) = cap"
  by (simp_all add: re_new_def re_holds_def bs_new_def)

section \<open>Properties\<close>

text \<open>No sequence of pushes and reads makes the reassembler throw or fail its assertion,
  whatever the indices and bytes pushed (overlapping, conflicting, out of the window, at the
  end of the index space); the output buffer stays within the capacity, and the stored
  substrings stay disjoint, non-empty, in order, after the assembled prefix, and start
  within the window.\<close>

theorem reassembler_never_fails:
  assumes "\<And>d i e. RePush d i e \<in> set ops \<Longrightarrow> length d < 2 ^ 62"
    and "re_asked ops + unat cap < 2 ^ 62"
  shows "\<exists>del r. re_run ops ([], re_new cap) = Inr (del, r)
     \<and> length (bs_buffer (re_output r)) \<le> unat cap
     \<and> pieces_ok (unat (re_next r)) (re_strs r)
     \<and> (\<forall>p \<in> set (re_strs r). unat (fst p) \<le> length del + unat cap)"
proof -
  obtain del r where "re_run ops ([], re_new cap) = Inr (del, r)" "re_ok r"
    "length del = re_read r" "re_capacity r = cap"
    using anything.run_ok [of "re_new cap" "[]" ops] assms re_new_ok [of cap]
    by (auto simp: re_new_start)
  then show ?thesis using re_okD [of r] by auto
qed

theorem reassembler_never_fails_witness:
  "\<exists>del r. re_run [RePush [1, 2] 3 False, RePush [9, 9, 9] 1 True, ReRead 2, RePush [7] (- 1) False]
     ([], re_new 4) = Inr (del, r) \<and> length (bs_buffer (re_output r)) \<le> 4"
  using reassembler_never_fails [of "[RePush [1, 2] 3 False, RePush [9, 9, 9] 1 True, ReRead 2,
      RePush [7] (- 1) False]" 4] by fastforce

text \<open>
  A reassembler that follows the stream \<open>S\<close>: what it holds are excerpts of \<open>S\<close>, the end it
  has been told, if any, is the end of \<open>S\<close>, and it has ended its output only at that end.
\<close>

definition re_tracks :: "byte list \<Rightarrow> reassembler \<Rightarrow> bool" where
  "re_tracks S r \<longleftrightarrow> re_ok r \<and> re_holds (excerpt S) r
     \<and> (re_eof r = - 1 \<or> unat (re_eof r) = length S)
     \<and> (bs_input_ended (re_output r) \<longrightarrow> unat (re_next r) = length S)"

lemma re_tracksD:
  assumes "re_tracks S r"
  shows "re_ok r" "re_holds (excerpt S) r" "unat (re_next r) \<le> length S"
  using assms re_okD(4) [of r] by (auto simp: re_tracks_def re_holds_def excerpt_def)

lemma unat_minus_one: "unat (- 1 :: u64) = 2 ^ 64 - 1"
  by (simp add: unsigned_minus_1_eq_mask mask_eq_exp_minus_1)

lemma re_finish_tracks:
  assumes "re_tracks S r" "eof \<Longrightarrow> unat index + length data = length S" "length S < 2 ^ 62"
  shows "re_tracks S (re_finish data index eof r)"
proof -
  note tr = re_tracksD [OF assms(1)]
  have small: "\<not> (- 1 :: u64) \<le> re_next r"
    unfolding word_le_nat_alt unat_minus_one using re_okD(6,7) [OF tr(1)] by simp
  have end_pos: "unat (index + size_of data) = length S" if eof
  proof -
    have len: "unat (size_of data) = length data"
      using assms(2) [OF that] assms(3) by (intro unat_size_of) simp
    then show ?thesis
      using assms(2) [OF that] assms(3) by (subst unat_add_u64) simp_all
  qed
  have "re_eof (re_finish data index eof r) = - 1 \<or> unat (re_eof (re_finish data index eof r)) = length S"
    using assms(1) end_pos by (simp add: re_finish_def Let_def re_tracks_def)
  moreover have "bs_input_ended (re_output (re_finish data index eof r)) \<longrightarrow> unat (re_next r) = length S"
    using assms(1) end_pos small tr(3)
    by (auto simp: re_finish_def Let_def re_tracks_def bs_end_input_def word_le_nat_alt split: if_splits)
  moreover have "re_next (re_finish data index eof r) = re_next r"
    by (simp add: re_finish_def Let_def)
  ultimately show ?thesis
    using re_finish_frame(1) [OF tr(1)] re_finish_frame(2) [OF tr(2)] by (simp add: re_tracks_def)
qed

lemma push_tracks:
  assumes "re_tracks S r" "data \<noteq> [] \<longrightarrow> excerpt S (unat index) data" "length data < 2 ^ 62" "eof \<longrightarrow> unat index + length data = length S"
    and "length S < 2 ^ 62"
  shows "\<exists>r'. re_push data index eof r = Inr r' \<and> re_tracks S r' \<and> re_capacity r' = re_capacity r
    \<and> re_read r' = re_read r \<and> bs_error (re_output r') = bs_error (re_output r) \<and> re_next r \<le> re_next r'
    \<and> (bs_input_ended (re_output r') \<longrightarrow> bs_input_ended (re_output r) \<or> eof \<or> re_eof r \<noteq> - 1)
    \<and> (re_eof r' = re_eof r \<or> eof)
    \<and> (bs_input_ended (re_output r) \<longrightarrow> bs_input_ended (re_output r'))"
proof -
  note tr = re_tracksD [OF assms(1)]
  from pieces_of.push_ok [OF tr(1,2) assms(2) [rule_format] assms(3), of eof] obtain r' r3 where
    r': "re_push data index eof r = Inr r'" "re_ok r'" "re_holds (excerpt S) r'" "re_frame r r3"
    "r' = r3 \<or> r' = re_finish data index eof r3" by blast
  have same: "re_ok (re_finish data index eof r3) \<longleftrightarrow> re_ok r3"
    "re_holds (excerpt S) (re_finish data index eof r3) \<longleftrightarrow> re_holds (excerpt S) r3"
    by (auto simp: re_finish_def Let_def re_ok_def re_holds_def bs_end_input_def bs_ok_def)
  have ok3: "re_ok r3" "re_holds (excerpt S) r3" using r'(2,3,5) same by auto
  have "unat (re_next r3) \<le> length S"
    using ok3 re_okD(4) [OF ok3(1)] by (auto simp: re_holds_def excerpt_def)
  then have r3: "re_tracks S r3"
    using ok3 assms(1) r'(4) by (auto simp: re_tracks_def re_frame_def word_le_nat_alt)
  have "bs_input_ended (re_output (re_finish data index eof r3)) \<longrightarrow>
      bs_input_ended (re_output r3) \<or> eof \<or> re_eof r3 \<noteq> - 1"
    using re_okD(6,7) [OF ok3(1)] unat_minus_one
    by (auto simp: re_finish_def Let_def word_le_nat_alt)
  moreover have "re_tracks S r'"
    using r'(5) r3 re_finish_tracks [OF r3 assms(4) [rule_format] assms(5)] by auto
  moreover have "bs_input_ended (re_output r3) \<longrightarrow> bs_input_ended (re_output r')"
    using r'(5) by (auto simp: re_finish_def Let_def bs_end_input_def)
  ultimately show ?thesis
    using r'(1,4,5) by (elim disjE) (simp_all add: re_frame_def re_finish_frame)
qed

lemma read_tracks:
  fixes n :: u64
  assumes "re_tracks S r" "length S + unat (re_capacity r) < 2 ^ 62"
  defines "r' \<equiv> r\<lparr>re_output := snd (bs_read n (re_output r))\<rparr>"
  shows "re_tracks S r'" "re_read r' = re_read r + min (unat n) (length (bs_buffer (re_output r)))"
    and "bs_buffer (re_output r) = fst (bs_read n (re_output r)) @ bs_buffer (re_output r')"
proof -
  note tr = re_tracksD [OF assms(1)]
  note ok = re_okD [OF tr(1)]
  let ?b = "bs_buffer (re_output r)"
  have bound: "re_read r + min (unat n) (length ?b) + unat (re_capacity r) < 2 ^ 62"
    using tr(3) ok(4) assms(2) by simp
  note read = re_read_ok [OF tr(1) bound, folded r'_def]
  show "re_read r' = re_read r + min (unat n) (length ?b)" by (rule read(2))
  have out: "bs_buffer (re_output r') = drop (unat n) ?b" "fst (bs_read n (re_output r)) = take (unat n) ?b"
    unfolding r'_def bs_read_eq [OF ok(1)] by simp_all
  then show "?b = fst (bs_read n (re_output r)) @ bs_buffer (re_output r')" by simp
  have "excerpt S (re_read r + min (unat n) (length ?b)) (take (length ?b) (drop (min (unat n) (length ?b)) ?b))"
    using tr(2) by (intro excerpt_sub) (simp_all add: re_holds_def)
  moreover have "take (length ?b) (drop (min (unat n) (length ?b)) ?b) = drop (unat n) ?b"
    by (auto simp: min_def)
  ultimately have "re_holds (excerpt S) r'"
    using tr(2) read(2) by (simp add: re_holds_def out) (simp add: r'_def)
  moreover have "bs_input_ended (re_output r') = bs_input_ended (re_output r)"
    unfolding r'_def bs_read_eq [OF ok(1)] by simp
  ultimately show "re_tracks S r'"
    using assms(1) read(1) by (simp add: re_tracks_def) (simp add: r'_def)
qed

lemma re_new_tracks: "unat cap < 2 ^ 62 \<Longrightarrow> re_tracks S (re_new cap)"
  using re_new_ok [of cap]
  by (simp add: re_tracks_def re_new_start excerpt_def) (simp add: re_new_def bs_new_def)

lemma re_run_tracks:
  assumes "re_tracks S r" "excerpt S 0 (del @ bs_buffer (re_output r))" "length del = re_read r"
    and "\<And>d i e. RePush d i e \<in> set ops \<Longrightarrow>
      excerpt S (unat i) d \<and> (e \<longrightarrow> unat i + length d = length S)"
    and "length S + unat (re_capacity r) < 2 ^ 62"
  shows "\<exists>del' r'. re_run ops (del, r) = Inr (del', r') \<and> re_tracks S r'
    \<and> excerpt S 0 (del' @ bs_buffer (re_output r')) \<and> length del' = re_read r'"
  using assms
proof (induction ops arbitrary: r del)
  case Nil
  then show ?case by simp
next
  case (Cons x ops)
  show ?case
  proof (cases x)
    case (RePush d i e)
    then have piece: "excerpt S (unat i) d" "e \<longrightarrow> unat i + length d = length S"
      using Cons.prems(4) by auto
    then have "length d < 2 ^ 62" "length S < 2 ^ 62"
      using Cons.prems(5) by (simp_all add: excerpt_def)
    with piece have piece: "d \<noteq> [] \<longrightarrow> excerpt S (unat i) d" "length d < 2 ^ 62"
      "e \<longrightarrow> unat i + length d = length S" "length S < 2 ^ 62" by simp_all
    from push_tracks [OF Cons.prems(1) piece] obtain r' where
      r': "re_push d i e r = Inr r'" "re_tracks S r'" "re_capacity r' = re_capacity r" "re_read r' = re_read r"
      by blast
    have "excerpt S 0 (take (length del) (del @ bs_buffer (re_output r)))"
      using Cons.prems(2) by (rule pieces_of.prefix)
    then have "excerpt S 0 (del @ bs_buffer (re_output r'))"
      using re_tracksD(2) [OF r'(2)] r'(4) Cons.prems(3) excerpt_join [of S 0 del] by (simp add: re_holds_def)
    then have "\<exists>del' r''. re_run ops (del, r') = Inr (del', r'') \<and> re_tracks S r''
      \<and> excerpt S 0 (del' @ bs_buffer (re_output r'')) \<and> length del' = re_read r''"
      using Cons.prems(3-5) r'(3,4) by (intro Cons.IH [OF r'(2)]) auto
    then show ?thesis using r'(1) RePush by simp
  next
    case (ReRead n)
    note read = read_tracks [OF Cons.prems(1,5), of n]
    let ?r = "r\<lparr>re_output := snd (bs_read n (re_output r))\<rparr>" and ?d = "fst (bs_read n (re_output r))"
    have "length ?d = min (unat n) (length (bs_buffer (re_output r)))"
      using bs_read_eq [OF re_okD(1) [OF re_tracksD(1) [OF Cons.prems(1)]], of n] by simp
    then have "\<exists>del' r'. re_run ops (del @ ?d, ?r) = Inr (del', r') \<and> re_tracks S r'
      \<and> excerpt S 0 (del' @ bs_buffer (re_output r')) \<and> length del' = re_read r'"
      using read(2,3) Cons.prems(2-5) by (intro Cons.IH [OF read(1)]) auto
    then show ?thesis using ReRead by (simp add: split_beta)
  qed
qed

text \<open>C5: Whatever pieces of a stream \<open>S\<close> arrive, in whatever order and however they overlap,
  the bytes delivered to the reader followed by those waiting in the output buffer are a
  prefix of \<open>S\<close>, its length is the next index the reassembler waits for, and the output is
  ended only when that prefix is all of \<open>S\<close>.\<close>

theorem reassembler_delivers_prefix:
  assumes "\<And>d i e. RePush d i e \<in> set ops \<Longrightarrow>
      excerpt S (unat i) d \<and> (e \<longrightarrow> unat i + length d = length S)"
    and "length S + unat cap < 2 ^ 62"
  shows "\<exists>del r. re_run ops ([], re_new cap) = Inr (del, r)
     \<and> del @ bs_buffer (re_output r) = take (unat (re_next r)) S
     \<and> (bs_input_ended (re_output r) \<longrightarrow> del @ bs_buffer (re_output r) = S)
     \<and> (\<forall>(i, d) \<in> set (re_strs r). excerpt S (unat i) d)"
proof -
  have "\<exists>del r. re_run ops ([], re_new cap) = Inr (del, r) \<and> re_tracks S r
    \<and> excerpt S 0 (del @ bs_buffer (re_output r)) \<and> length del = re_read r"
    using assms re_new_tracks [of cap S]
    by (intro re_run_tracks) (simp_all add: re_new_start excerpt_def)
  then obtain del r where run: "re_run ops ([], re_new cap) = Inr (del, r)" "re_tracks S r"
    "excerpt S 0 (del @ bs_buffer (re_output r))" "length del = re_read r"
    by blast
  have "length (del @ bs_buffer (re_output r)) = unat (re_next r)"
    using re_okD(4) [OF re_tracksD(1) [OF run(2)]] run(4) by simp
  then have "del @ bs_buffer (re_output r) = take (unat (re_next r)) S"
    using run(3) by (simp add: excerpt_def)
  then show ?thesis using run(1,2) by (auto simp: re_tracks_def re_holds_def)
qed

theorem reassembler_delivers_prefix_witness:
  "\<exists>del r. re_run [RePush [3, 4] 2 True, RePush [1, 2, 3] 0 False, ReRead 2] ([], re_new 3)
     = Inr (del, r) \<and> del @ bs_buffer (re_output r) = take (unat (re_next r)) [1, 2, 3, 4]"
proof -
  have "excerpt [1, 2, 3, 4] (unat i) d \<and> (e \<longrightarrow> unat i + length d = length [1, 2, 3, 4 :: byte])"
    if "RePush d i e \<in> set [RePush [3, 4] 2 True, RePush [1, 2, 3] 0 False, ReRead 2]" for d i e
    using that by (auto simp: excerpt_def)
  from reassembler_delivers_prefix [where cap = 3, OF this] show ?thesis by fastforce
qed

text \<open>
  A full output buffer: the assembling loop cannot write anything, its \<open>insert\<close> of the rest
  finds the key taken and does nothing, and the substring is erased all the same; the
  counter keeps what was lost.
\<close>

lemma reassembler_loses_stored_piece:
  "case re_push [1, 2, 3, 4] 0 False (re_new 2) of
     Inl _ \<Rightarrow> False | Inr r \<Rightarrow> re_strs r = [] \<and> re_num r = 2 \<and> re_next r = 2"
  by (simp add: re_push_def re_new_def re_new_idx_def re_trim.simps re_store_def re_finish_def bs_new_def
      bs_write_def bs_remaining_capacity_def bs_buffer_size_def sm_insert_def sm_erase_def substr_def
      size_of_def sm_upper_bound_def sm_lower_bound_def Let_def bs_end_input_def)

end
