(* ===== verification/Buffers.thy ===== *)
theory Buffers
  imports Prelude
begin

text \<open>
  \<open>libsponge/util/buffer.{hh,cc}\<close>: read-only strings that lose bytes at the front
  (\<open>Buffer\<close>), queues of them (\<open>BufferList\<close>) and of plain views (\<open>BufferViewList\<close>). A
  \<open>shared_ptr\<close> to an immutable string is the string itself, or \<open>None\<close>. The other theories
  use a buffer only through the bytes it exposes; the refinement lemmas below justify that.
\<close>

section \<open>Buffer\<close>

record buffer =
  buf_storage :: "byte list option"
  buf_starting_offset :: u64

definition buf_empty :: buffer where
  "buf_empty = \<lparr>buf_storage = None, buf_starting_offset = 0\<rparr>"

definition buf_new :: "byte list \<Rightarrow> buffer" where
  "buf_new str = \<lparr>buf_storage = Some str, buf_starting_offset = 0\<rparr>"

definition buf_str :: "buffer \<Rightarrow> byte list" where
  "buf_str b = (case buf_storage b of None \<Rightarrow> [] | Some s \<Rightarrow> drop (unat (buf_starting_offset b)) s)"

definition buf_at :: "u64 \<Rightarrow> buffer \<Rightarrow> failure + byte" where
  "buf_at n b =
     (if n < size_of (buf_str b) then Inr (buf_str b ! unat n) else Inl (Thrown ''out_of_range''))"

definition buf_size :: "buffer \<Rightarrow> u64" where
  "buf_size b = size_of (buf_str b)"

definition buf_remove_prefix :: "u64 \<Rightarrow> buffer \<Rightarrow> failure + buffer" where
  "buf_remove_prefix n b =
     (if size_of (buf_str b) < n then Inl (Thrown ''Buffer::remove_prefix'')
      else
        let b' = b\<lparr>buf_starting_offset := buf_starting_offset b + n\<rparr>
        in case buf_storage b' of
             None \<Rightarrow> Inr b'
           | Some s \<Rightarrow>
               Inr (if buf_starting_offset b' = size_of s then b'\<lparr>buf_storage := None\<rparr> else b'))"

section \<open>BufferList and BufferViewList\<close>

type_synonym buffer_list = "buffer list"

definition bl_append :: "buffer_list \<Rightarrow> buffer_list \<Rightarrow> buffer_list" where
  "bl_append other self = self @ other"

definition bl_to_buffer :: "buffer_list \<Rightarrow> failure + buffer" where
  "bl_to_buffer bl =
     (case bl of [] \<Rightarrow> Inr buf_empty | [b] \<Rightarrow> Inr b
      | _ \<Rightarrow> Inl (Thrown ''BufferList: please use concatenate() to combine a multi-Buffer BufferList into one Buffer''))"

definition bl_concatenate :: "buffer_list \<Rightarrow> byte list" where
  "bl_concatenate bl = foldl (\<lambda>ret buf. ret @ buf_str buf) [] bl"

definition bl_size :: "buffer_list \<Rightarrow> u64" where
  "bl_size bl = foldl (\<lambda>ret buf. ret + buf_size buf) 0 bl"

fun bl_remove_prefix :: "u64 \<Rightarrow> buffer_list \<Rightarrow> failure + buffer_list" where
  "bl_remove_prefix n [] =
     (if 0 < n then Inl (Thrown ''BufferList::remove_prefix'') else Inr [])"
| "bl_remove_prefix n (b # bl) =
     (if 0 < n then
        if n < size_of (buf_str b) then
          (case buf_remove_prefix n b of Inl e \<Rightarrow> Inl e | Inr b' \<Rightarrow> Inr (b' # bl))
        else bl_remove_prefix (n - size_of (buf_str b)) bl
      else Inr (b # bl))"

definition bv_new :: "buffer_list \<Rightarrow> byte list list" where
  "bv_new buffers = map buf_str buffers"

fun bv_remove_prefix :: "u64 \<Rightarrow> byte list list \<Rightarrow> failure + byte list list" where
  "bv_remove_prefix n [] =
     (if 0 < n then Inl (Thrown ''BufferListView::remove_prefix'') else Inr [])"
| "bv_remove_prefix n (v # vs) =
     (if 0 < n then
        if n < size_of v then Inr (drop (unat n) v # vs)
        else bv_remove_prefix (n - size_of v) vs
      else Inr (v # vs))"

definition bv_size :: "byte list list \<Rightarrow> u64" where
  "bv_size vs = foldl (\<lambda>ret v. ret + size_of v) 0 vs"

text \<open>Each \<open>iovec\<close> is a view with its length.\<close>

definition bv_as_iovecs :: "byte list list \<Rightarrow> (byte list \<times> u64) list" where
  "bv_as_iovecs vs = map (\<lambda>x. (x, size_of x)) vs"

section \<open>Buffers as byte lists\<close>

definition buf_ok :: "buffer \<Rightarrow> bool" where
  "buf_ok b \<longleftrightarrow> (case buf_storage b of None \<Rightarrow> True
     | Some s \<Rightarrow> length s < 2 ^ 64 \<and> unat (buf_starting_offset b) \<le> length s)"

lemma buf_new_ok [simp]: "length s < 2 ^ 64 \<Longrightarrow> buf_ok (buf_new s)"
  by (simp add: buf_ok_def buf_new_def)

lemma buf_new_str [simp]: "buf_str (buf_new s) = s" "buf_str buf_empty = []" "buf_ok buf_empty"
  by (simp_all add: buf_str_def buf_new_def buf_empty_def buf_ok_def)

lemma buf_str_length: "buf_ok b \<Longrightarrow> length (buf_str b) < 2 ^ 64"
  by (auto simp: buf_ok_def buf_str_def split: option.splits)

lemma unat_buf_size: "buf_ok b \<Longrightarrow> unat (size_of (buf_str b)) = length (buf_str b)"
  by (rule unat_size_of [OF buf_str_length])

lemma buf_remove_prefix_refines:
  assumes "buf_ok b"
  shows "if unat n \<le> length (buf_str b)
         then \<exists>b'. buf_remove_prefix n b = Inr b' \<and> buf_ok b' \<and> buf_str b' = drop (unat n) (buf_str b)
         else buf_remove_prefix n b = Inl (Thrown ''Buffer::remove_prefix'')"
proof -
  have less: "size_of (buf_str b) < n \<longleftrightarrow> \<not> unat n \<le> length (buf_str b)"
    using unat_buf_size [OF assms] by (auto simp: word_less_nat_alt)
  show ?thesis
  proof (cases "buf_storage b")
    case None
    then show ?thesis
      using less by (auto simp: buf_remove_prefix_def buf_ok_def buf_str_def Let_def)
  next
    case (Some s)
    with assms have s: "length s < 2 ^ 64" "unat (buf_starting_offset b) \<le> length s"
      by (simp_all add: buf_ok_def)
    show ?thesis
    proof (cases "unat n \<le> length (buf_str b)")
      case True
      then have le: "unat (buf_starting_offset b) + unat n \<le> length s"
        using s Some by (simp add: buf_str_def)
      then have off: "unat (buf_starting_offset b + n) = unat (buf_starting_offset b) + unat n"
        using s(1) by (intro unat_add_u64) simp
      have "buf_starting_offset b + n = size_of s \<longleftrightarrow> unat (buf_starting_offset b) + unat n = length s"
        using off s(1) by (simp add: word_unat_eq_iff unat_size_of)
      then show ?thesis
        using True less le off s Some
        by (auto simp: buf_remove_prefix_def buf_ok_def buf_str_def Let_def drop_drop add.commute)
    qed (use less in \<open>simp add: buf_remove_prefix_def\<close>)
  qed
qed

lemma bl_concatenate_eq: "bl_concatenate bl = concat (map buf_str bl)"
proof -
  have "foldl (\<lambda>ret buf. ret @ buf_str buf) acc bl = acc @ concat (map buf_str bl)" for acc
    by (induction bl arbitrary: acc) auto
  then show ?thesis by (simp add: bl_concatenate_def)
qed

lemma bl_size_eq: "bl_size bl = size_of (concat (map buf_str bl))"
proof -
  have "foldl (\<lambda>ret buf. ret + buf_size buf) acc bl = acc + size_of (concat (map buf_str bl))" for acc
    by (induction bl arbitrary: acc) (auto simp: buf_size_def size_of_append)
  then show ?thesis by (simp add: bl_size_def)
qed

lemma bl_view_remove_prefix:
  assumes "\<forall>b \<in> set bl. buf_ok b"
  shows "case bv_remove_prefix n (map buf_str bl) of
      Inl _ \<Rightarrow> bl_remove_prefix n bl = Inl (Thrown ''BufferList::remove_prefix'')
    | Inr vs \<Rightarrow> \<exists>bl'. bl_remove_prefix n bl = Inr bl' \<and> map buf_str bl' = vs \<and> (\<forall>b \<in> set bl'. buf_ok b)"
  using assms
proof (induction bl arbitrary: n)
  case (Cons b bl)
  have b: "buf_ok b" using Cons.prems by simp
  have less: "n < size_of (buf_str b) \<longleftrightarrow> unat n < length (buf_str b)"
    using unat_buf_size [OF b] by (simp add: word_less_nat_alt)
  show ?case
  proof (cases "0 < n \<and> \<not> n < size_of (buf_str b)")
    case True
    then show ?thesis
      using Cons.IH [of "n - size_of (buf_str b)"] Cons.prems by (auto split: sum.splits)
  next
    case False
    then show ?thesis
      using buf_remove_prefix_refines [OF b, of n] Cons.prems less by auto
  qed
qed simp

lemma bv_size_eq: "bv_size vs = size_of (concat vs)"
proof -
  have "foldl (\<lambda>ret v. ret + size_of v) acc vs = acc + size_of (concat vs)" for acc
    by (induction vs arbitrary: acc) (auto simp: size_of_append)
  then show ?thesis by (simp add: bv_size_def)
qed

lemma bv_remove_prefix_eq:
  assumes "\<forall>v \<in> set vs. length v < 2 ^ 64"
  shows "if unat n \<le> length (concat vs)
    then \<exists>vs'. bv_remove_prefix n vs = Inr vs' \<and> concat vs' = drop (unat n) (concat vs)
    else \<exists>e. bv_remove_prefix n vs = Inl e"
  using assms
proof (induction vs arbitrary: n)
  case (Cons v vs)
  have v: "unat (size_of v) = length v" using Cons.prems by (simp add: unat_size_of)
  consider "n = 0" | "0 < n" "n < size_of v" | "0 < n" "\<not> n < size_of v" by (auto simp: word_gt_0)
  then show ?case
  proof cases
    case 3
    then have le: "size_of v \<le> n" by simp
    have "unat (n - size_of v) = unat n - length v" using unat_sub [OF le] v by simp
    moreover have "length v \<le> unat n" using le v by (simp add: word_le_nat_alt)
    ultimately show ?thesis
      using Cons.IH [of "n - size_of v"] Cons.prems 3 by (auto split: if_splits)
  qed (use v in \<open>auto simp: word_less_nat_alt\<close>)
qed (simp add: word_gt_0 unat_eq_zero)

text \<open>Discarding a prefix of a list of buffers removes exactly the first \<open>n\<close> of the bytes
  that \<open>concatenate\<close> would return, across buffer boundaries, and throws exactly when the
  list holds fewer; \<open>size\<close> is the size of what \<open>concatenate\<close> returns.\<close>

theorem buffer_list_remove_prefix:
  assumes "\<forall>b \<in> set bl. buf_ok b"
  shows "(if unat n \<le> length (bl_concatenate bl)
          then \<exists>bl'. bl_remove_prefix n bl = Inr bl' \<and> bl_concatenate bl' = drop (unat n) (bl_concatenate bl)
          else bl_remove_prefix n bl = Inl (Thrown ''BufferList::remove_prefix''))
      \<and> bl_size bl = size_of (bl_concatenate bl)"
proof -
  have "\<forall>v \<in> set (map buf_str bl). length v < 2 ^ 64"
    using assms buf_str_length by auto
  from bv_remove_prefix_eq [OF this, of n] bl_view_remove_prefix [OF assms, of n]
  show ?thesis by (auto simp: bl_concatenate_eq bl_size_eq split: if_splits)
qed

theorem buffer_list_remove_prefix_witness:
  "bl_remove_prefix 6 [buf_new [1, 2], buf_empty, buf_new [3, 4, 5]]
     = Inl (Thrown ''BufferList::remove_prefix'')"
  using buffer_list_remove_prefix [of "[buf_new [1, 2], buf_empty, buf_new [3, 4, 5]]" 6]
  by (simp add: bl_concatenate_eq)

end
