(* ===== verification/Wire.thy ===== *)
theory Wire
  imports Buffers "HOL-Library.State_Monad"
begin

text \<open>
  \<open>libsponge/util/parser.{hh,cc}\<close>: reading and writing integers in network byte order.
  Parsing threads the parser through the code of a header, so it is a state monad; the
  buffer is the list of bytes it exposes. What every header's parser promises about what
  its serializer wrote is the locale \<open>codec\<close>.
\<close>

unbundle bit_operations_syntax

section \<open>Parse results\<close>

datatype parse_result = NoError | BadChecksum | PacketTooShort | WrongIPVersion
  | HeaderTooShort | TruncatedPacket | Unsupported

text \<open>
  The table of names has six entries: the seventh constant, \<open>Unsupported\<close>, reads past its
  end.
\<close>

definition parse_result_index :: "parse_result \<Rightarrow> nat" where
  "parse_result_index r = (case r of NoError \<Rightarrow> 0 | BadChecksum \<Rightarrow> 1 | PacketTooShort \<Rightarrow> 2
     | WrongIPVersion \<Rightarrow> 3 | HeaderTooShort \<Rightarrow> 4 | TruncatedPacket \<Rightarrow> 5 | Unsupported \<Rightarrow> 6)"

definition as_string :: "parse_result \<Rightarrow> failure + string" where
  "as_string r =
     (let names = [''NoError'', ''BadChecksum'', ''PacketTooShort'', ''WrongIPVersion'',
                   ''HeaderTooShort'', ''TruncatedPacket''];
          i = parse_result_index r
      in if i < length names then Inr (names ! i) else Inl UndefinedBehaviour)"

lemma as_string_undefined: "as_string r = Inl UndefinedBehaviour \<longleftrightarrow> r = Unsupported"
  by (cases r) (simp_all add: as_string_def parse_result_index_def)

section \<open>NetParser\<close>

record net_parser =
  np_buffer :: "byte list"
  np_error :: parse_result

type_synonym 'a parser = "(net_parser, 'a) state"

definition np_new :: "byte list \<Rightarrow> net_parser" where
  "np_new buffer = \<lparr>np_buffer = buffer, np_error = NoError\<rparr>"

definition np_get_error :: "parse_result parser" where
  "np_get_error = State (\<lambda>p. (np_error p, p))"

definition np_get_buffer :: "byte list parser" where
  "np_get_buffer = State (\<lambda>p. (np_buffer p, p))"

definition np_check_size :: "u64 \<Rightarrow> unit parser" where
  "np_check_size n = State (\<lambda>p.
     ((), if size_of (np_buffer p) < n then p\<lparr>np_error := PacketTooShort\<rparr> else p))"

text \<open>
  The buffer's \<open>remove_prefix\<close> is reached after the size check only, where it does not
  throw.
\<close>

definition np_parse_int :: "nat \<Rightarrow> 'a::len word parser" where
  "np_parse_int len = do {
     np_check_size (of_nat len);
     State (\<lambda>p.
       if np_error p \<noteq> NoError then (0, p)
       else (foldl (\<lambda>ret b. push_bit 8 ret + ucast b) 0 (take len (np_buffer p)),
             p\<lparr>np_buffer := drop len (np_buffer p)\<rparr>))
   }"

definition np_u32 :: "u32 parser" where "np_u32 = np_parse_int 4"
definition np_u16 :: "u16 parser" where "np_u16 = np_parse_int 2"
definition np_u8 :: "u8 parser" where "np_u8 = np_parse_int 1"

definition np_remove_prefix :: "u64 \<Rightarrow> unit parser" where
  "np_remove_prefix n = do {
     np_check_size n;
     State (\<lambda>p. ((), if np_error p \<noteq> NoError then p
                     else p\<lparr>np_buffer := drop (unat n) (np_buffer p)\<rparr>))
   }"

section \<open>NetUnparser\<close>

definition nu_unparse_int :: "nat \<Rightarrow> byte list \<Rightarrow> 'a::len word \<Rightarrow> byte list" where
  "nu_unparse_int len s val =
     foldl (\<lambda>s i. s @ [ucast (drop_bit ((len - i - 1) * 8) val AND 0xff)]) s [0..<len]"

definition nu_u32 :: "byte list \<Rightarrow> u32 \<Rightarrow> byte list" where "nu_u32 s val = nu_unparse_int 4 s val"
definition nu_u16 :: "byte list \<Rightarrow> u16 \<Rightarrow> byte list" where "nu_u16 s val = nu_unparse_int 2 s val"
definition nu_u8 :: "byte list \<Rightarrow> u8 \<Rightarrow> byte list" where "nu_u8 s val = nu_unparse_int 1 s val"

section \<open>Integers in network byte order\<close>

text \<open>The bytes one integer is written as.\<close>

definition net_bytes :: "nat \<Rightarrow> 'a::len word \<Rightarrow> byte list" where
  "net_bytes len val = map (\<lambda>i. ucast (drop_bit ((len - i - 1) * 8) val)) [0..<len]"

lemma length_net_bytes [simp]: "length (net_bytes len val) = len"
  by (simp add: net_bytes_def)

lemma ucast_and_ff: "(ucast (w AND 0xff) :: byte) = ucast (w :: 'a::len word)"
proof -
  have ff: "(0xff :: 'a word) = mask 8" by (simp add: mask_eq_exp_minus_1)
  show ?thesis
    unfolding ff by (intro bit_word_eqI) (auto simp: bit_simps dest: bit_imp_le_length)
qed

lemma nu_unparse_int_eq: "nu_unparse_int len s val = s @ net_bytes len val"
proof -
  have "foldl (\<lambda>s i. s @ [ucast (drop_bit ((len - i - 1) * 8) val AND 0xff)]) s is
      = s @ map (\<lambda>i. ucast (drop_bit ((len - i - 1) * 8) val)) is" for s :: "byte list" and "is"
    by (induction "is" arbitrary: s) (simp_all add: ucast_and_ff)
  then show ?thesis by (simp add: nu_unparse_int_def net_bytes_def)
qed

lemma nu_eqs [simp]:
  "nu_u32 s v32 = s @ net_bytes 4 v32" "nu_u16 s v16 = s @ net_bytes 2 v16"
  "nu_u8 s v8 = s @ [v8]"
  by (simp_all add: nu_u32_def nu_u16_def nu_u8_def nu_unparse_int_eq) (simp add: net_bytes_def)

lemma push_drop_byte: "push_bit 8 (drop_bit 8 w) + ucast (ucast w :: byte) = (w :: 'a::len word)"
proof -
  have "ucast (ucast w :: byte) = take_bit 8 w"
    by (rule bit_word_eqI) (auto simp: bit_simps)
  then show ?thesis by (simp add: bits_ident)
qed

lemma foldl_net_bytes:
  assumes "LENGTH('a) \<le> len * 8" "n \<le> len"
  shows "foldl (\<lambda>ret (b :: byte). push_bit 8 ret + ucast b) 0
      (map (\<lambda>i. ucast (drop_bit ((len - i - 1) * 8) val)) [0..<n])
    = drop_bit ((len - n) * 8) (val :: 'a::len word)"
  using assms(2)
proof (induction n)
  case 0
  have "drop_bit (len * 8) val = 0"
    using assms(1) by (intro bit_word_eqI) (auto simp: bit_simps dest: bit_imp_le_length)
  then show ?case by simp
next
  case (Suc n)
  define k where "k = (len - Suc n) * 8"
  have k: "(len - n) * 8 = 8 + k" "(len - n - 1) * 8 = k" using Suc.prems by (auto simp: k_def)
  note IH = Suc.IH [OF Suc_leD [OF Suc.prems], unfolded k]
  have "foldl (\<lambda>ret (b :: byte). push_bit 8 ret + ucast b) 0
      (map (\<lambda>i. ucast (drop_bit ((len - i - 1) * 8) val)) [0..<Suc n])
    = push_bit 8 (drop_bit (8 + k) val) + ucast (ucast (drop_bit k val) :: byte)"
    unfolding upt_Suc using IH k by (simp del: upt_Suc diff_Suc_1 diff_Suc_eq_diff_pred)
  also have "drop_bit (8 + k) val = drop_bit 8 (drop_bit k val)" by (simp add: drop_bit_drop_bit)
  also have "push_bit 8 (drop_bit 8 (drop_bit k val)) + ucast (ucast (drop_bit k val) :: byte)
      = drop_bit k val" by (rule push_drop_byte)
  finally show ?case by (simp add: k_def)
qed

text \<open>Running a parser on a sufficiently long buffer with no error so far.\<close>

abbreviation good :: "byte list \<Rightarrow> net_parser" where
  "good s \<equiv> \<lparr>np_buffer = s, np_error = NoError\<rparr>"

lemma size_of_less_of_nat:
  assumes "length s < 2 ^ 64" "n \<le> length s"
  shows "\<not> size_of s < of_nat n"
  using assms by (simp add: not_less word_le_nat_alt unat_size_of unat_of_nat_u64)

lemma np_parse_int_written:
  assumes "LENGTH('a) \<le> len * 8" "length rest + len < 2 ^ 64"
  shows "run_state (np_parse_int len) (good (net_bytes len (val :: 'a::len word) @ rest)) = (val, good rest)"
proof -
  have "\<not> size_of (net_bytes len val @ rest) < of_nat len"
    using assms(2) by (intro size_of_less_of_nat) simp_all
  then show ?thesis
    using foldl_net_bytes [OF assms(1) order_refl, of val]
    by (simp add: np_parse_int_def np_check_size_def) (simp add: net_bytes_def)
qed

section \<open>Codecs\<close>

text \<open>
  \<open>dec\<close> undoes \<open>enc\<close> in front of any bytes that \<open>fits\<close> allows, and leaves those bytes.
\<close>

locale codec =
  fixes enc :: "'a \<Rightarrow> byte list" and dec :: "'a parser" and fits :: "'a \<Rightarrow> byte list \<Rightarrow> bool"
  assumes dec_enc: "fits x rest \<Longrightarrow> run_state dec (good (enc x @ rest)) = (x, good rest)"
begin

lemma unambiguous:
  assumes "fits x r" "fits y s" "enc x @ r = enc y @ s"
  shows "x = y \<and> r = s"
proof -
  have "run_state dec (good (enc x @ r)) = run_state dec (good (enc y @ s))"
    by (simp only: assms(3))
  then have "(x, good r) = (y, good s)"
    by (simp only: dec_enc [OF assms(1)] dec_enc [OF assms(2)])
  then show ?thesis by simp
qed

lemma bind_dec_enc:
  assumes "fits x rest"
  shows "run_state (dec \<bind> f) (good (enc x @ rest)) = run_state (f x) (good rest)"
  by (simp add: dec_enc [OF assms])

end

abbreviation short_rest :: "'a \<Rightarrow> byte list \<Rightarrow> bool" where
  "short_rest x rest \<equiv> length rest < 2 ^ 63"

interpretation u32_codec: codec "net_bytes 4" np_u32 short_rest
  by unfold_locales (simp add: np_u32_def np_parse_int_written)

interpretation u16_codec: codec "net_bytes 2" np_u16 short_rest
  by unfold_locales (simp add: np_u16_def np_parse_int_written)

interpretation u8_codec: codec "\<lambda>b. [b]" np_u8 short_rest
proof unfold_locales
  fix x :: u8 and rest :: "byte list"
  assume "length rest < 2 ^ 63"
  then have "run_state (np_parse_int 1) (good (net_bytes 1 x @ rest)) = (x, good rest)"
    by (intro np_parse_int_written) simp_all
  moreover have "net_bytes 1 x = [x]" by (simp add: net_bytes_def)
  ultimately show "run_state np_u8 (good ([x] @ rest)) = (x, good rest)"
    unfolding np_u8_def by simp
qed

text \<open>Rewrite rules that run a parser along the bytes a serializer wrote.\<close>

lemma np_u32_written: "length rest < 2 ^ 63 \<Longrightarrow> run_state np_u32 (good (net_bytes 4 v @ rest)) = (v, good rest)"
  by (rule u32_codec.dec_enc)

lemma np_u16_written: "length rest < 2 ^ 63 \<Longrightarrow> run_state np_u16 (good (net_bytes 2 v @ rest)) = (v, good rest)"
  by (rule u16_codec.dec_enc)

lemma np_u8_written: "length rest < 2 ^ 63 \<Longrightarrow> run_state np_u8 (good (v # rest)) = (v, good rest)"
  using u8_codec.dec_enc [of rest v] by simp

lemmas np_written = np_u32_written np_u16_written np_u8_written

lemma np_remove_prefix_good:
  assumes "length s < 2 ^ 64" "unat n \<le> length s"
  shows "run_state (np_remove_prefix n) (good s) = ((), good (drop (unat n) s))"
  using size_of_less_of_nat [OF assms] by (simp add: np_remove_prefix_def np_check_size_def)

text \<open>Once the parser has failed nothing is read any more.\<close>

lemma np_failed [simp]:
  assumes "np_error p = PacketTooShort"
  shows "run_state np_u32 p = (0, p)" "run_state np_u16 p = (0, p)" "run_state np_u8 p = (0, p)"
    "run_state (np_remove_prefix n) p = ((), p)"
proof -
  have same: "p\<lparr>np_error := PacketTooShort\<rparr> = p" using assms by (cases p) simp
  have "run_state (np_parse_int len :: 'a::len word parser) p = (0, p)" for len
    using assms same by (simp add: np_parse_int_def np_check_size_def)
  then show "run_state np_u32 p = (0, p)" "run_state np_u16 p = (0, p)" "run_state np_u8 p = (0, p)"
    by (simp_all add: np_u32_def np_u16_def np_u8_def)
  show "run_state (np_remove_prefix n) p = ((), p)"
    using assms same by (simp add: np_remove_prefix_def np_check_size_def)
qed

end
