(* ===== verification/Checksum.thy ===== *)
theory Checksum
  imports Wire
begin

text \<open>
  \<open>InternetChecksum\<close> of \<open>libsponge/util/util.{hh,cc}\<close>: the ones' complement sum of 16-bit
  words, kept in 32 bits and folded at the end.
\<close>

section \<open>Definitions\<close>

record internet_checksum =
  ic_sum :: u32
  ic_parity :: bool

definition ic_new :: "u32 \<Rightarrow> internet_checksum" where
  "ic_new initial_sum = \<lparr>ic_sum = initial_sum, ic_parity = False\<rparr>"

definition ic_add_byte :: "internet_checksum \<Rightarrow> byte \<Rightarrow> internet_checksum" where
  "ic_add_byte c b =
     (let val = ucast b :: u16;
          val = (if \<not> ic_parity c then push_bit 8 val else val)
      in \<lparr>ic_sum = ic_sum c + ucast val, ic_parity = \<not> ic_parity c\<rparr>)"

definition ic_add :: "byte list \<Rightarrow> internet_checksum \<Rightarrow> internet_checksum" where
  "ic_add data c = foldl ic_add_byte c data"

lemma unat_and_ffff: "unat (x AND 0xffff :: u32) = unat x mod 2 ^ 16"
proof -
  have ff: "(0xffff :: u32) = mask 16" by (simp add: mask_eq_exp_minus_1)
  show ?thesis
    unfolding ff take_bit_eq_mask [symmetric] unsigned_take_bit_eq by (simp add: take_bit_eq_mod)
qed

lemma unat_fold_step:
  "unat (drop_bit 16 x + (x AND 0xffff) :: u32) = unat x div 2 ^ 16 + unat x mod 2 ^ 16"
proof -
  have hi: "unat (drop_bit 16 x) = unat x div 2 ^ 16"
    by (simp only: unat_drop_bit_eq) (rule drop_bit_eq_div)
  have "unat x div 2 ^ 16 < 2 ^ 16" using unat_lt_u32 [of x] by (simp add: less_mult_imp_div_less)
  then have "unat x div 2 ^ 16 + unat x mod 2 ^ 16 < 2 ^ 32"
    using mod_less_divisor [of "2 ^ 16" "unat x"] by simp
  then show ?thesis by (simp add: unat_word_ariths hi unat_and_ffff)
qed

function ic_fold :: "u32 \<Rightarrow> u32" where
  "ic_fold ret = (if 0xffff < ret then ic_fold (drop_bit 16 ret + (ret AND 0xffff)) else ret)"
  by pat_completeness auto
termination
proof (relation "measure unat")
  fix ret :: u32
  assume "0xffff < ret"
  then have "65535 < unat ret" by (simp add: word_less_nat_alt)
  moreover have "unat ret = unat ret div 65536 * 65536 + unat ret mod 65536" by simp
  ultimately have "unat ret div 65536 + unat ret mod 65536 < unat ret" by linarith
  then show "(drop_bit 16 ret + (ret AND 0xffff), ret) \<in> measure unat"
    unfolding in_measure unat_fold_step by simp
qed simp

declare ic_fold.simps [simp del]

definition ic_value :: "internet_checksum \<Rightarrow> u16" where
  "ic_value c = ucast (NOT (ic_fold (ic_sum c)))"

section \<open>The sum and its folding, on natural numbers\<close>

text \<open>What the bytes add to the sum, \<open>low\<close> telling whether the first one is a low byte.\<close>

fun weight :: "bool \<Rightarrow> byte list \<Rightarrow> nat" where
  "weight low [] = 0"
| "weight low (b # bs) = (if low then unat b else 256 * unat b) + weight (\<not> low) bs"

lemma weight_append: "weight p (a @ b) = weight p a + weight (p \<noteq> odd (length a)) b"
  by (induction p a rule: weight.induct) auto

lemma weight_bound:
  "weight p d \<le> (if p then 255 + 65535 * (length d div 2) else 65535 * (Suc (length d) div 2))"
proof (induction p d rule: weight.induct)
  case (2 p b bs)
  have "unat b \<le> 255" using unat_lt_u8 [of b] by simp
  with 2 show ?case by (cases p) auto
qed simp

lemma unat_byte_value:
  "unat (ucast (if \<not> p then push_bit 8 (ucast b :: u16) else ucast b) :: u32)
     = (if p then unat b else 256 * unat (b :: byte))"
proof -
  have b: "unat b < 256" using unat_lt_u8 [of b] by simp
  have 1: "unat (ucast b :: u16) = unat b"
    using b by (simp add: unsigned_ucast_eq take_bit_eq_mod)
  have 2: "unat (push_bit 8 (ucast b :: u16)) = 256 * unat b"
    using b by (simp add: push_bit_eq_mult unat_word_ariths 1)
  have "unat (ucast (w :: u16) :: u32) = unat w" for w
    using unat_lt_u16 [of w] by (simp add: unsigned_ucast_eq take_bit_eq_mod)
  then show ?thesis by (simp add: 1 2)
qed

lemma ic_add_sum:
  assumes "unat (ic_sum c) + weight (ic_parity c) data < 2 ^ 32"
  shows "unat (ic_sum (ic_add data c)) = unat (ic_sum c) + weight (ic_parity c) data"
  using assms
proof (induction data arbitrary: c)
  case Nil
  then show ?case by (simp add: ic_add_def)
next
  case (Cons b data)
  have sum: "unat (ic_sum (ic_add_byte c b)) = unat (ic_sum c) + (if ic_parity c then unat b else 256 * unat b)"
    using Cons.prems unat_byte_value [of "ic_parity c" b]
    by (simp add: ic_add_byte_def Let_def unat_word_ariths)
  have "ic_parity (ic_add_byte c b) = (\<not> ic_parity c)"
    by (simp add: ic_add_byte_def Let_def)
  with sum Cons.IH [of "ic_add_byte c b"] Cons.prems show ?case
    by (simp add: ic_add_def)
qed

lemma ic_add_append: "ic_add (a @ b) c = ic_add b (ic_add a c)"
  by (simp add: ic_add_def)

lemma fold_mod:
  fixes n :: nat
  assumes "0 < n"
  shows "0 < n div 65536 + n mod 65536"
    and "(n div 65536 + n mod 65536) mod 65535 = n mod 65535"
proof -
  have n: "n = 65535 * (n div 65536) + (n div 65536 + n mod 65536)" by simp
  show "0 < n div 65536 + n mod 65536" using assms n by linarith
  have "n mod 65535 = (65535 * (n div 65536) + (n div 65536 + n mod 65536)) mod 65535"
    using n by simp
  then show "(n div 65536 + n mod 65536) mod 65535 = n mod 65535"
    by (simp only: mod_mult_self4)
qed

lemma unat_ic_fold:
  "unat (ic_fold r) \<le> 65535 \<and> unat (ic_fold r) mod 65535 = unat r mod 65535
     \<and> (0 < unat r \<longrightarrow> 0 < unat (ic_fold r)) \<and> (r = 0 \<longrightarrow> ic_fold r = 0)"
proof (induction r rule: ic_fold.induct)
  case (1 ret)
  show ?case
  proof (cases "0xffff < ret")
    case True
    then have pos: "0 < unat ret" by (simp add: word_less_nat_alt)
    have "unat (drop_bit 16 ret + (ret AND 0xffff)) = unat ret div 65536 + unat ret mod 65536"
      using unat_fold_step [of ret] by simp
    with 1 [OF True] fold_mod [OF pos] True show ?thesis
      by (subst (1 2 3 4) ic_fold.simps) auto
  next
    case False
    then have "unat ret \<le> 65535" by (simp add: word_less_nat_alt not_less)
    with False show ?thesis by (subst (1 2 3 4) ic_fold.simps) simp
  qed
qed

lemma unat_ic_value: "unat (ic_value c) = 65535 - unat (ic_fold (ic_sum c))"
proof -
  let ?f = "ic_fold (ic_sum c)"
  have le: "unat ?f \<le> 65535" using unat_ic_fold by blast
  have "NOT ?f = - 1 - ?f" by (simp add: not_eq_complement)
  moreover have "unat (- 1 - ?f) = unat (- 1 :: u32) - unat ?f"
    by (rule unat_sub) (simp add: word_order.extremum)
  moreover have "unat (- 1 :: u32) = 2 ^ 32 - 1"
    by (simp add: unsigned_minus_1_eq_mask mask_eq_exp_minus_1)
  ultimately have "unat (NOT ?f) = 2 ^ 32 - 1 - unat ?f" by simp
  then have "unat (ic_value c) = (2 ^ 32 - 1 - unat ?f) mod 2 ^ 16"
    unfolding ic_value_def by (simp add: unsigned_ucast_eq take_bit_eq_mod)
  also have "2 ^ 32 - 1 - unat ?f = (65535 - unat ?f) + 65535 * 2 ^ 16"
    using le by simp
  also have "(65535 - unat ?f + 65535 * 2 ^ 16) mod 2 ^ 16 = (65535 - unat ?f) mod 2 ^ 16"
    by (rule mod_mult_self1)
  also have "\<dots> = 65535 - unat ?f" by simp
  finally show ?thesis .
qed

lemma ic_value_zero_iff: "ic_value c = 0 \<longleftrightarrow> 0 < unat (ic_sum c) \<and> unat (ic_sum c) mod 65535 = 0"
proof -
  let ?f = "unat (ic_fold (ic_sum c))"
  have "ic_value c = 0 \<longleftrightarrow> ?f = 65535"
    using unat_ic_value [of c] unat_ic_fold [of "ic_sum c"] by (auto simp: unat_eq_zero [symmetric])
  also have "\<dots> \<longleftrightarrow> 0 < ?f \<and> ?f mod 65535 = 0"
    using unat_ic_fold [of "ic_sum c"] by (auto elim!: dvdE simp: mod_eq_0_iff_dvd dest: dvd_imp_le)
  also have "\<dots> \<longleftrightarrow> 0 < unat (ic_sum c) \<and> unat (ic_sum c) mod 65535 = 0"
    using unat_ic_fold [of "ic_sum c"] by (auto simp: unat_gt_0)
  finally show ?thesis .
qed

section \<open>Inserting and checking a checksum\<close>

abbreviation checksum :: "u32 \<Rightarrow> byte list \<Rightarrow> u16" where
  "checksum initial data \<equiv> ic_value (ic_add data (ic_new initial))"

lemma checksum_sum:
  assumes "unat initial + weight False data < 2 ^ 32"
  shows "unat (ic_sum (ic_add data (ic_new initial))) = unat initial + weight False data"
  using ic_add_sum [of "ic_new initial" data] assms by (simp add: ic_new_def)

lemma weight_net_bytes: "weight False (net_bytes 2 (v :: u16)) = unat v"
proof -
  have hi: "unat (ucast (drop_bit 8 v) :: byte) = unat v div 256"
  proof -
    have "unat (drop_bit 8 v) = unat v div 256"
      by (simp only: unat_drop_bit_eq) (simp add: drop_bit_eq_div)
    then show ?thesis
      using unat_lt_u16 [of v] by (simp add: unsigned_ucast_eq take_bit_eq_mod)
  qed
  have lo: "unat (ucast v :: byte) = unat v mod 256"
    by (simp add: unsigned_ucast_eq take_bit_eq_mod)
  have "net_bytes 2 v = [ucast (drop_bit 8 v), ucast v]"
    by (simp add: net_bytes_def upt_rec)
  then show ?thesis using hi lo by simp
qed

text \<open>Filling a zeroed checksum field at an even position makes the check succeed.\<close>

lemma checksum_inserted:
  assumes "even (length pre)"
    and "unat initial + weight False (pre @ [0, 0] @ post) + 65535 < 2 ^ 32"
  shows "checksum initial (pre @ net_bytes 2 (checksum initial (pre @ [0, 0] @ post)) @ post) = 0"
proof -
  let ?z = "pre @ [0, 0] @ post" and ?v = "checksum initial (pre @ [0, 0] @ post)"
  let ?s = "unat initial + weight False ?z" and ?d = "pre @ net_bytes 2 ?v @ post"
  let ?f = "unat (ic_fold (ic_sum (ic_add ?z (ic_new initial))))"
  have v: "unat ?v = 65535 - ?f" by (rule unat_ic_value)
  have f: "?f \<le> 65535" "?f mod 65535 = ?s mod 65535"
    using unat_ic_fold [of "ic_sum (ic_add ?z (ic_new initial))"] checksum_sum [of initial ?z] assms(2)
    by simp_all
  have "weight False ?d = weight False ?z + unat ?v"
    using assms(1) by (simp add: weight_append weight_net_bytes)
  then have sum: "unat (ic_sum (ic_add ?d (ic_new initial))) = ?s + unat ?v"
    using checksum_sum [of initial ?d] assms(2) f(1) v by simp
  have "(?s + unat ?v) mod 65535 = (?s mod 65535 + unat ?v) mod 65535" by (simp add: mod_simps)
  also have "\<dots> = (?f + unat ?v) mod 65535" by (simp only: f(2) [symmetric] mod_add_left_eq)
  also have "\<dots> = 0" using f(1) by (simp only: v) simp
  finally have "(?s + unat ?v) mod 65535 = 0" .
  moreover have "0 < ?s + unat ?v"
  proof (cases "?s = 0")
    case True
    then have "ic_sum (ic_add ?z (ic_new initial)) = 0"
      using checksum_sum [of initial ?z] assms(2) by (simp add: unat_eq_zero)
    then have "?f = 0" using unat_ic_fold by simp
    then show ?thesis using v by simp
  qed simp
  ultimately show ?thesis by (simp only: ic_value_zero_iff sum simp_thms)
qed

lemma weight_small:
  assumes "length d \<le> 70000"
  shows "weight p d < 2 ^ 32 - 2 ^ 24"
proof -
  have "weight p d \<le> 255 + 65535 * (Suc (length d) div 2)"
    using weight_bound [of p d] by (auto split: if_splits)
  moreover have "Suc (length d) div 2 \<le> 35001" using assms by simp
  ultimately show ?thesis by simp
qed

lemma int_dvd_diff:
  fixes x y n :: nat
  assumes "x mod n = y mod n"
  shows "int n dvd int x - int y"
proof -
  have "int x mod int n = int y mod int n" using assms by (simp flip: of_nat_mod)
  then show ?thesis by (simp only: mod_eq_dvd_iff)
qed

text \<open>C32: A datagram whose checksum verifies no longer verifies when any single byte of it is
  changed (for data of up to 65535 bytes).\<close>

theorem checksum_detects_corrupt_byte:
  assumes "checksum initial (pre @ [b] @ post) = 0" and "b' \<noteq> b"
    and "length (pre @ [b] @ post) \<le> 65535" and "unat initial < 2 ^ 24"
  shows "checksum initial (pre @ [b'] @ post) \<noteq> 0"
proof
  assume bad: "checksum initial (pre @ [b'] @ post) = 0"
  let ?s = "\<lambda>x. unat initial + weight False (pre @ [x] @ post)"
  have fits: "?s x < 2 ^ 32" for x
    using weight_small [of "pre @ [x] @ post" False] assms(3,4) by simp
  define rest where "rest = unat initial + weight False pre + weight (odd (length pre) = False) post"
  have s: "?s x = rest + (if odd (length pre) then unat x else 256 * unat x)" for x
    unfolding rest_def by (simp add: weight_append)
  have "?s b mod 65535 = 0" "?s b' mod 65535 = 0"
    using assms(1) bad unfolding ic_value_zero_iff by (simp_all only: checksum_sum [OF fits])
  then have "?s b mod 65535 = ?s b' mod 65535" by simp
  then have dvd: "(65535 :: int) dvd int (?s b) - int (?s b')"
    using int_dvd_diff [of "?s b" 65535 "?s b'"] by simp
  have range: "rest \<le> ?s x \<and> ?s x \<le> rest + 65280" for x
    using unat_lt_u8 [of x] unfolding s by simp
  have small: "\<bar>int (?s b) - int (?s b')\<bar> < 65535"
    using range [of b] range [of b'] by linarith
  have "unat b \<noteq> unat b'" using assms(2) by (simp add: word_unat_eq_iff)
  then have "?s b \<noteq> ?s b'" unfolding s by simp
  then have ne: "int (?s b) - int (?s b') \<noteq> 0" by simp
  have "\<bar>65535 :: int\<bar> \<le> \<bar>int (?s b) - int (?s b')\<bar>" by (rule dvd_imp_le_int [OF ne dvd])
  then show False using small by linarith
qed

theorem checksum_detects_corrupt_byte_witness:
  "checksum 0 [0x12, 0x35, 0xED, 0xCB] \<noteq> 0"
proof -
  have "checksum 0 ([0x12] @ [0x34] @ [0xED, 0xCB]) = 0"
    by (simp add: ic_value_zero_iff checksum_sum)
  then have "checksum 0 ([0x12] @ [0x35] @ [0xED, 0xCB]) \<noteq> 0"
    by (rule checksum_detects_corrupt_byte) simp_all
  then show ?thesis by simp
qed

end
