(* ===== verification/WrappingInt.thy ===== *)
theory WrappingInt
  imports Prelude
begin

text \<open>
  \<open>libsponge/wrapping_integers.{hh,cc}\<close>: 32-bit sequence numbers relative to an initial
  sequence number, and their conversion from and to 64-bit absolute ones.
\<close>

unbundle bit_operations_syntax

section \<open>Definitions\<close>

datatype wrapping_int32 = WrappingInt32 (raw_value: u32)

definition wrap :: "u64 \<Rightarrow> wrapping_int32 \<Rightarrow> wrapping_int32" where
  "wrap n isn = WrappingInt32 (ucast n + raw_value isn)"

definition unwrap :: "wrapping_int32 \<Rightarrow> wrapping_int32 \<Rightarrow> u64 \<Rightarrow> u64" where
  "unwrap n isn checkpoint =
     (let offset = raw_value n - raw_value isn;
          t = (checkpoint AND 0xFFFFFFFF00000000) OR ucast offset;
          shift = push_bit 32 1
      in if checkpoint < t then
           (if drop_bit 1 shift < t - checkpoint then (if shift \<le> t then t - shift else t)
            else t)
         else if drop_bit 1 shift < checkpoint - t then t + shift
         else t)"

definition wi_diff :: "wrapping_int32 \<Rightarrow> wrapping_int32 \<Rightarrow> int" where
  "wi_diff a b = sint (raw_value a - raw_value b)"

definition wi_plus :: "wrapping_int32 \<Rightarrow> u32 \<Rightarrow> wrapping_int32" where
  "wi_plus a b = WrappingInt32 (raw_value a + b)"

definition wi_minus :: "wrapping_int32 \<Rightarrow> u32 \<Rightarrow> wrapping_int32" where
  "wi_minus a b = wi_plus a (- b)"

section \<open>The conversions read on natural numbers\<close>

lemma unat_ucast_32: "unat (ucast (x :: u64) :: u32) = unat x mod 2 ^ 32"
  by (simp add: unsigned_ucast_eq take_bit_eq_mod)

lemma unat_ucast_64: "unat (ucast (x :: u32) :: u64) = unat x"
  using unat_lt_u32 [of x] by (simp add: unsigned_ucast_eq take_bit_eq_mod)

lemma high_mask: "(0xFFFFFFFF00000000 :: u64) = NOT (mask 32)"
  by (simp add: mask_eq_exp_minus_1)

lemma unat_high_low:
  "unat ((c AND 0xFFFFFFFF00000000) OR ucast (off :: u32) :: u64)
     = unat c div 2 ^ 32 * 2 ^ 32 + unat off"
proof -
  have split: "(c AND 0xFFFFFFFF00000000) OR ucast off = push_bit 32 (drop_bit 32 c) + ucast off"
  proof -
    have "(c AND 0xFFFFFFFF00000000) = push_bit 32 (drop_bit 32 c)"
      unfolding high_mask by (rule bit_word_eqI) (auto simp: bit_simps)
    moreover have "push_bit 32 (drop_bit 32 c) AND (ucast off :: u64) = 0"
      by (rule bit_word_eqI) (auto simp: bit_simps dest: bit_imp_le_length)
    ultimately show ?thesis by (simp add: disjunctive_add_eq_or)
  qed
  have le: "unat c div 2 ^ 32 * 2 ^ 32 \<le> 2 ^ 64 - 2 ^ 32"
    using unat_lt_u64 [of c] by simp
  have "unat (push_bit 32 (drop_bit 32 c) :: u64) = unat c div 2 ^ 32 * 2 ^ 32"
    using le by (simp add: push_bit_eq_mult unat_word_ariths unat_drop_bit_eq drop_bit_eq_div)
  then show ?thesis
    unfolding split using le unat_lt_u32 [of off]
    by (simp add: unat_word_ariths unat_ucast_64)
qed

text \<open>What \<open>unwrap\<close> computes, on natural numbers.\<close>

definition unwrap_nat :: "nat \<Rightarrow> nat \<Rightarrow> nat" where
  "unwrap_nat off c =
     (let t = c div 2 ^ 32 * 2 ^ 32 + off
      in if c < t then (if 2 ^ 31 < t - c \<and> 2 ^ 32 \<le> t then t - 2 ^ 32 else t)
         else if 2 ^ 31 < c - t then (t + 2 ^ 32) mod 2 ^ 64 else t)"

lemma unat_unwrap:
  "unat (unwrap n isn c) = unwrap_nat (unat (raw_value n - raw_value isn)) (unat c)"
proof -
  let ?t = "(c AND 0xFFFFFFFF00000000) OR ucast (raw_value n - raw_value isn) :: u64"
  let ?shift = "4294967296 :: u64"
  have t: "unat ?t = unat c div 2 ^ 32 * 2 ^ 32 + unat (raw_value n - raw_value isn)"
    by (rule unat_high_low)
  have shift: "push_bit 32 (1 :: u64) = ?shift" "drop_bit 1 ?shift = 2147483648"
    by simp_all
  have sub: "a \<le> b \<Longrightarrow> unat (b - a) = unat b - unat a" for a b :: u64
    by (rule unat_sub)
  have cmp: "(2147483648 < b - a) = (2 ^ 31 < unat b - unat a)" if "a \<le> b" for a b :: u64
    using that by (simp add: word_less_nat_alt sub)
  have sh: "(?shift \<le> a) = (2 ^ 32 \<le> unat a)" for a :: u64
    by (simp add: word_le_nat_alt)
  show ?thesis
    unfolding unwrap_def unwrap_nat_def Let_def shift t [symmetric]
    by (auto simp: cmp sh sub word_less_nat_alt [symmetric] unat_word_ariths(1) not_less
        dest: less_imp_le)
qed

lemma raw_offset: "unat (raw_value (wrap v isn) - raw_value isn) = unat v mod 2 ^ 32"
  by (simp add: wrap_def unat_ucast_32)

lemma wrap_eq_iff: "wrap v isn = n \<longleftrightarrow> unat v mod 2 ^ 32 = unat (raw_value n - raw_value isn)"
proof -
  have "wrap v isn = n \<longleftrightarrow> (ucast v :: u32) = raw_value n - raw_value isn"
    by (cases n) (auto simp: wrap_def)
  then show ?thesis
    by (simp add: word_unat_eq_iff unat_ucast_32)
qed

lemma pick_mod:
  fixes t :: nat
  assumes "t mod 2 ^ 32 = off"
  shows "(if a then (if b \<and> 2 ^ 32 \<le> t then t - 2 ^ 32 else t)
          else if d then (t + 2 ^ 32) mod 2 ^ 64 else t) mod 2 ^ 32 = off"
proof -
  have "(t + 2 ^ 32) mod 2 ^ 64 mod 2 ^ 32 = off"
    using assms by (simp add: mod_mod_cancel)
  moreover have "(t - 2 ^ 32) mod 2 ^ 32 = off" if "2 ^ 32 \<le> t"
    using that assms by (simp add: le_mod_geq)
  ultimately show ?thesis using assms by simp
qed

lemma unwrap_nat_mod:
  assumes "off < 2 ^ 32"
  shows "unwrap_nat off c mod 2 ^ 32 = off"
  unfolding unwrap_nat_def Let_def by (rule pick_mod) (use assms in simp)

text \<open>Both properties below compare multiples of \<open>2^32\<close>: linear once the quotients are named.\<close>

lemma unwrap_nat_eq:
  assumes "off < 2 ^ 32" "r < 2 ^ 32" "q * 2 ^ 32 + r < 2 ^ 64"
  shows "unwrap_nat off (q * 2 ^ 32 + r) =
     (let t = q * 2 ^ 32 + off
      in if r < off then (if 2 ^ 31 < off - r \<and> 0 < q then t - 2 ^ 32 else t)
         else if 2 ^ 31 < r - off then (t + 2 ^ 32) mod 2 ^ 64 else t)"
proof -
  have "(q * 2 ^ 32 + r) div 2 ^ 32 = q" using assms(2) by simp
  moreover have "2 ^ 32 \<le> q * 2 ^ 32 + off \<longleftrightarrow> 0 < q" using assms(1) by (cases q) auto
  ultimately show ?thesis by (simp add: unwrap_nat_def Let_def)
qed

text \<open>
  The result lies within half a period of the checkpoint, or it is below the first
  period boundary, where there is no smaller candidate.
\<close>

lemma unwrap_nat_close:
  assumes "off < 2 ^ 32" "r < 2 ^ 32" "q * 2 ^ 32 + r < 2 ^ 64 - 2 ^ 31"
  obtains k where "unwrap_nat off (q * 2 ^ 32 + r) = k * 2 ^ 32 + off"
    and "\<bar>int (k * 2 ^ 32 + off) - int (q * 2 ^ 32 + r)\<bar> \<le> 2 ^ 31 \<or> (k = 0 \<and> q = 0 \<and> r < off)"
proof -
  have lt: "q * 2 ^ 32 + r < 2 ^ 64" using assms(3) by simp
  note eq = unwrap_nat_eq [OF assms(1,2) lt]
  consider "r < off" "2 ^ 31 < off - r" "0 < q" | "r < off" "q = 0"
    | "\<bar>int off - int r\<bar> \<le> 2 ^ 31" | "\<not> r < off" "2 ^ 31 < r - off"
    by (cases "r < off"; cases "q = 0"; cases "2 ^ 31 < off - r"; cases "2 ^ 31 < r - off") auto
  then show ?thesis
  proof cases
    case 1
    then obtain k where "q = Suc k" by (cases q) auto
    with 1 that [of k] eq assms(1) show ?thesis by (simp add: Let_def)
  next
    case 2
    with that [of 0] eq show ?thesis by (simp add: Let_def)
  next
    case 3
    then have "\<not> 2 ^ 31 < off - r" "\<not> 2 ^ 31 < r - off" by auto
    with that [of q] eq 3 show ?thesis by (simp add: Let_def)
  next
    case 4
    then have "q * 2 ^ 32 + off + 2 ^ 32 < 2 ^ 64" using assms(3) by simp
    with 4 that [of "Suc q"] eq assms(2) show ?thesis by (simp add: Let_def)
  qed
qed

lemma unwrap_nat_nearest:
  assumes "off < 2 ^ 32" "r < 2 ^ 32" "q * 2 ^ 32 + r < 2 ^ 64 - 2 ^ 31"
  shows "\<bar>int (unwrap_nat off (q * 2 ^ 32 + r)) - int (q * 2 ^ 32 + r)\<bar>
      \<le> \<bar>int (p * 2 ^ 32 + off) - int (q * 2 ^ 32 + r)\<bar>"
proof -
  obtain k where k: "unwrap_nat off (q * 2 ^ 32 + r) = k * 2 ^ 32 + off"
    and near: "\<bar>int (k * 2 ^ 32 + off) - int (q * 2 ^ 32 + r)\<bar> \<le> 2 ^ 31 \<or> (k = 0 \<and> q = 0 \<and> r < off)"
    by (rule unwrap_nat_close [OF assms])
  consider "p = k" | "p < k" | "k < p" by linarith
  then show ?thesis
  proof cases
    case 1
    then show ?thesis unfolding k by simp
  next
    case 2
    then have "p * 2 ^ 32 + 2 ^ 32 \<le> k * 2 ^ 32" by simp
    with near 2 show ?thesis unfolding k by auto
  next
    case 3
    then have "k * 2 ^ 32 + 2 ^ 32 \<le> p * 2 ^ 32" by simp
    with near assms(2) show ?thesis unfolding k by auto
  qed
qed

text \<open>Near the checkpoint the absolute number is recovered.\<close>

lemma unwrap_wrap_near:
  assumes "\<bar>int (unat v) - int (unat checkpoint)\<bar> < 2 ^ 31"
  shows "unwrap (wrap v isn) isn checkpoint = v"
proof -
  define q r where "q = unat checkpoint div 2 ^ 32" and "r = unat checkpoint mod 2 ^ 32"
  define p off where "p = unat v div 2 ^ 32" and "off = unat v mod 2 ^ 32"
  have c: "unat checkpoint = q * 2 ^ 32 + r" "r < 2 ^ 32"
    and v: "unat v = p * 2 ^ 32 + off" "off < 2 ^ 32"
    by (simp_all add: q_def r_def p_def off_def)
  have lt: "q * 2 ^ 32 + r < 2 ^ 64" "p * 2 ^ 32 + off < 2 ^ 64"
    using unat_lt_u64 [of checkpoint] unat_lt_u64 [of v] c v by simp_all
  have close: "\<bar>int (p * 2 ^ 32 + off) - int (q * 2 ^ 32 + r)\<bar> < 2 ^ 31"
    using assms c v by simp
  note eq = unwrap_nat_eq [OF v(2) c(2) lt(1)]
  consider "p = q" | "p = Suc q" | "q = Suc p"
    using close c(2) v(2) by simp arith
  then have "unwrap_nat off (q * 2 ^ 32 + r) = p * 2 ^ 32 + off"
  proof cases
    case 1
    then have "\<not> 2 ^ 31 < off - r" "\<not> 2 ^ 31 < r - off" using close by auto
    with 1 show ?thesis unfolding eq Let_def by simp
  next
    case 2
    then have "2 ^ 31 < r - off" "\<not> r < off" using close c(2) by auto
    with 2 lt(2) show ?thesis unfolding eq Let_def by simp
  next
    case 3
    then have "2 ^ 31 < off - r" "r < off" "0 < q" using close v(2) by auto
    with 3 show ?thesis unfolding eq Let_def by simp
  qed
  then have "unwrap_nat (unat v mod 2 ^ 32) (unat checkpoint) = unat v"
    unfolding c(1) off_def [symmetric] by (simp only: v(1))
  then have "unat (unwrap (wrap v isn) isn checkpoint) = unat v"
    by (simp add: unat_unwrap raw_offset)
  then show ?thesis by (simp add: word_unat_eq_iff)
qed

section \<open>Properties\<close>

text \<open>Unwrapping never changes the sequence number: whatever the checkpoint, the
  absolute number returned wraps back to the 32-bit number it came from.\<close>

theorem wrap_unwrap: "wrap (unwrap n isn checkpoint) isn = n"
  using unwrap_nat_mod [OF unat_lt_u32, of "raw_value n - raw_value isn" "unat checkpoint"]
  by (simp add: wrap_eq_iff unat_unwrap)

text \<open>Wrapping loses nothing near the checkpoint: an absolute number less than \<open>2^31\<close>
  away from the checkpoint is recovered exactly from its 32-bit form.\<close>

theorem unwrap_wrap:
  assumes "\<bar>int (unat v) - int (unat checkpoint)\<bar> < 2 ^ 31"
  shows "unwrap (wrap v isn) isn checkpoint = v"
  using assms by (rule unwrap_wrap_near)

theorem unwrap_wrap_witness:
  "unwrap (wrap 0x100000005 (WrappingInt32 0xFFFFFFFE)) (WrappingInt32 0xFFFFFFFE) 0xFFFFFFF0
     = 0x100000005"
  by (rule unwrap_wrap) simp

lemma unwrap_closest:
  assumes "unat checkpoint < 2 ^ 64 - 2 ^ 31" and "wrap v isn = n"
  shows "\<bar>int (unat (unwrap n isn checkpoint)) - int (unat checkpoint)\<bar>
       \<le> \<bar>int (unat v) - int (unat checkpoint)\<bar>"
proof -
  define q r where "q = unat checkpoint div 2 ^ 32" and "r = unat checkpoint mod 2 ^ 32"
  define p off where "p = unat v div 2 ^ 32" and "off = unat v mod 2 ^ 32"
  have c: "unat checkpoint = q * 2 ^ 32 + r" "r < 2 ^ 32"
    and v: "unat v = p * 2 ^ 32 + off" "off < 2 ^ 32"
    by (simp_all add: q_def r_def p_def off_def)
  have lt: "q * 2 ^ 32 + r < 2 ^ 64 - 2 ^ 31"
    using assms(1) c by simp
  have n: "unat (raw_value n - raw_value isn) = off"
    using assms(2) by (simp add: wrap_eq_iff off_def)
  have "\<bar>int (unwrap_nat off (q * 2 ^ 32 + r)) - int (q * 2 ^ 32 + r)\<bar>
      \<le> \<bar>int (p * 2 ^ 32 + off) - int (q * 2 ^ 32 + r)\<bar>"
    using unwrap_nat_nearest [OF v(2) c(2) lt] .
  then show ?thesis
    by (simp only: unat_unwrap n c(1) v(1))
qed

text \<open>C18: Unwrapping gives the closest number. The absolute number returned wraps back to the
  32-bit number that it came from, whatever the checkpoint. For a checkpoint below
  \<open>2^64 - 2^31\<close> it is as close to the checkpoint as any number that wraps to the same one, so
  that a number less than \<open>2^31\<close> away from the checkpoint is returned exactly (there without
  a bound).\<close>

theorem unwrap_nearest:
  "wrap (unwrap n isn checkpoint) isn = n
   \<and> (unat checkpoint < 2 ^ 64 - 2 ^ 31 \<longrightarrow> (\<forall>v. wrap v isn = n \<longrightarrow>
        \<bar>int (unat (unwrap n isn checkpoint)) - int (unat checkpoint)\<bar> \<le> \<bar>int (unat v) - int (unat checkpoint)\<bar>))
   \<and> (\<forall>v. wrap v isn = n \<and> \<bar>int (unat v) - int (unat checkpoint)\<bar> < 2 ^ 31 \<longrightarrow> unwrap n isn checkpoint = v)"
  using wrap_unwrap unwrap_closest unwrap_wrap by blast

theorem unwrap_nearest_witness:
  "unwrap (WrappingInt32 7) (WrappingInt32 2) 0x2FFFFFFFF = 0x300000005
   \<and> \<bar>int (unat (unwrap (WrappingInt32 7) (WrappingInt32 2) 0x2FFFFFFFF)) - int (unat (0x2FFFFFFFF :: u64))\<bar>
     \<le> \<bar>int (unat (0x200000005 :: u64)) - int (unat (0x2FFFFFFFF :: u64))\<bar>"
proof -
  have "wrap 0x300000005 (WrappingInt32 2) = WrappingInt32 7" "wrap 0x200000005 (WrappingInt32 2) = WrappingInt32 7"
    by (simp_all add: wrap_def)
  then show ?thesis
    using unwrap_nearest [of "WrappingInt32 7" "WrappingInt32 2" "0x2FFFFFFFF"]
    by (intro conjI) (auto simp: unat_numeral)
qed

text \<open>
  The bound on the checkpoint is needed: near the end of the 64-bit range the addition of a
  period wraps around, and the number returned is as far away as it can be.
\<close>

lemma unwrap_wraps_around: "unwrap isn isn (- 1) = 0"
  by (simp_all add: unwrap_def wrap_def)

end
