(* ===== verification/TcpSegment.thy ===== *)
theory TcpSegment
  imports Checksum WrappingInt
begin

text \<open>
  \<open>libsponge/tcp_helpers/tcp_header.{hh,cc}\<close> and \<open>tcp_segment.{hh,cc}\<close>: TCP headers and
  segments, their parsers and serializers.
\<close>

section \<open>Headers\<close>

record tcp_header =
  th_sport :: u16
  th_dport :: u16
  th_seqno :: wrapping_int32
  th_ackno :: wrapping_int32
  th_doff :: u8
  th_urg :: bool
  th_ack :: bool
  th_psh :: bool
  th_rst :: bool
  th_syn :: bool
  th_fin :: bool
  th_win :: u16
  th_cksum :: u16
  th_uptr :: u16

definition tcp_header_new :: tcp_header where
  "tcp_header_new =
     \<lparr>th_sport = 0, th_dport = 0, th_seqno = WrappingInt32 0, th_ackno = WrappingInt32 0,
      th_doff = 20 div 4, th_urg = False, th_ack = False, th_psh = False, th_rst = False,
      th_syn = False, th_fin = False, th_win = 0, th_cksum = 0, th_uptr = 0\<rparr>"

definition tcp_header_parse :: "(parse_result \<times> tcp_header) parser" where
  "tcp_header_parse = do {
     sport \<leftarrow> np_u16;
     dport \<leftarrow> np_u16;
     seqno \<leftarrow> np_u32;
     ackno \<leftarrow> np_u32;
     off_b \<leftarrow> np_u8;
     fl_b \<leftarrow> np_u8;
     win \<leftarrow> np_u16;
     cksum \<leftarrow> np_u16;
     uptr \<leftarrow> np_u16;
     let h = \<lparr>th_sport = sport, th_dport = dport, th_seqno = WrappingInt32 seqno,
              th_ackno = WrappingInt32 ackno, th_doff = drop_bit 4 off_b,
              th_urg = (fl_b AND 0x20 \<noteq> 0), th_ack = (fl_b AND 0x10 \<noteq> 0),
              th_psh = (fl_b AND 0x08 \<noteq> 0), th_rst = (fl_b AND 0x04 \<noteq> 0),
              th_syn = (fl_b AND 0x02 \<noteq> 0), th_fin = (fl_b AND 0x01 \<noteq> 0),
              th_win = win, th_cksum = cksum, th_uptr = uptr\<rparr>
     in if th_doff h < 5 then State_Monad.return (HeaderTooShort, h)
        else do {
          np_remove_prefix (ucast (th_doff h) * 4 - 20);
          error \<leftarrow> np_get_error;
          State_Monad.return (error, h)
        }
   }"

text \<open>The flags byte, and \<open>std::string::resize\<close>, which pads with zero bytes.\<close>

definition tcp_flags :: "tcp_header \<Rightarrow> u8" where
  "tcp_flags h =
     (if th_urg h then 0x20 else 0) OR (if th_ack h then 0x10 else 0) OR
     (if th_psh h then 0x08 else 0) OR (if th_rst h then 0x04 else 0) OR
     (if th_syn h then 0x02 else 0) OR (if th_fin h then 0x01 else 0)"

definition resize :: "nat \<Rightarrow> byte list \<Rightarrow> byte list" where
  "resize n s = (if length s \<le> n then s @ replicate (n - length s) 0 else take n s)"

definition tcp_header_serialize :: "tcp_header \<Rightarrow> failure + byte list" where
  "tcp_header_serialize h =
     (if th_doff h < 5 then Inl (Thrown ''TCP header too short'')
      else
        let ret = [];
            ret = nu_u16 ret (th_sport h);
            ret = nu_u16 ret (th_dport h);
            ret = nu_u32 ret (raw_value (th_seqno h));
            ret = nu_u32 ret (raw_value (th_ackno h));
            ret = nu_u8 ret (push_bit 4 (th_doff h));
            ret = nu_u8 ret (tcp_flags h);
            ret = nu_u16 ret (th_win h);
            ret = nu_u16 ret (th_cksum h);
            ret = nu_u16 ret (th_uptr h)
        in Inr (resize (4 * unat (th_doff h)) ret))"

text \<open>\<open>operator==\<close>, which leaves the ports and the checksum out.\<close>

definition tcp_header_eq :: "tcp_header \<Rightarrow> tcp_header \<Rightarrow> bool" where
  "tcp_header_eq a b \<longleftrightarrow>
     th_seqno a = th_seqno b \<and> th_ackno a = th_ackno b \<and> th_doff a = th_doff b \<and>
     th_urg a = th_urg b \<and> th_ack a = th_ack b \<and> th_psh a = th_psh b \<and> th_rst a = th_rst b \<and>
     th_syn a = th_syn b \<and> th_fin a = th_fin b \<and> th_win a = th_win b \<and> th_uptr a = th_uptr b"

section \<open>Segments\<close>

record tcp_segment =
  ts_header :: tcp_header
  ts_payload :: "byte list"

definition tcp_segment_new :: tcp_segment where
  "tcp_segment_new = \<lparr>ts_header = tcp_header_new, ts_payload = []\<rparr>"

text \<open>
  The result of parsing is read from the parser, not from the header's \<open>parse\<close>. A segment
  with a bad checksum is left as it was.
\<close>

definition tcp_segment_parse :: "byte list \<Rightarrow> u32 \<Rightarrow> tcp_segment \<Rightarrow> parse_result \<times> tcp_segment" where
  "tcp_segment_parse buffer datagram_layer_checksum seg =
     (if ic_value (ic_add buffer (ic_new datagram_layer_checksum)) \<noteq> 0 then (BadChecksum, seg)
      else
        let ((_, h), p) = run_state tcp_header_parse (np_new buffer)
        in (np_error p, \<lparr>ts_header = h, ts_payload = np_buffer p\<rparr>))"

definition tcp_segment_serialize :: "tcp_segment \<Rightarrow> u32 \<Rightarrow> failure + byte list list" where
  "tcp_segment_serialize seg datagram_layer_checksum =
     (let header_out = (ts_header seg)\<lparr>th_cksum := 0\<rparr>;
          check = ic_new datagram_layer_checksum
      in case tcp_header_serialize header_out of
           Inl e \<Rightarrow> Inl e
         | Inr bytes \<Rightarrow>
             (let check = ic_add (ts_payload seg) (ic_add bytes check);
                  header_out = header_out\<lparr>th_cksum := ic_value check\<rparr>
              in case tcp_header_serialize header_out of
                   Inl e \<Rightarrow> Inl e
                 | Inr bytes \<Rightarrow> Inr [bytes, ts_payload seg]))"

definition length_in_sequence_space :: "tcp_segment \<Rightarrow> u64" where
  "length_in_sequence_space seg =
     size_of (ts_payload seg) + (if th_syn (ts_header seg) then 1 else 0)
       + (if th_fin (ts_header seg) then 1 else 0)"

section \<open>The bytes of a header\<close>

definition tcp_header_ok :: "tcp_header \<Rightarrow> bool" where
  "tcp_header_ok h \<longleftrightarrow> 5 \<le> th_doff h \<and> th_doff h \<le> 15"

text \<open>The header up to the checksum and after it.\<close>

definition tcp_pre :: "tcp_header \<Rightarrow> byte list" where
  "tcp_pre h = net_bytes 2 (th_sport h) @ net_bytes 2 (th_dport h)
     @ net_bytes 4 (raw_value (th_seqno h)) @ net_bytes 4 (raw_value (th_ackno h))
     @ [push_bit 4 (th_doff h), tcp_flags h] @ net_bytes 2 (th_win h)"

definition tcp_post :: "tcp_header \<Rightarrow> byte list" where
  "tcp_post h = net_bytes 2 (th_uptr h) @ replicate (4 * unat (th_doff h) - 20) 0"

lemma tcp_doff_nat:
  assumes "tcp_header_ok h"
  shows "5 \<le> unat (th_doff h)" "unat (th_doff h) \<le> 15"
  using assms by (simp_all add: tcp_header_ok_def word_le_nat_alt)

lemma tcp_header_bytes:
  assumes "tcp_header_ok h"
  shows "tcp_header_serialize h = Inr (tcp_pre h @ net_bytes 2 (th_cksum h) @ tcp_post h)"
proof -
  have "\<not> th_doff h < 5" using assms by (simp add: tcp_header_ok_def not_less)
  then show ?thesis
    using tcp_doff_nat [OF assms]
    by (simp add: tcp_header_serialize_def Let_def resize_def tcp_pre_def tcp_post_def)
qed

lemma tcp_header_too_short: "th_doff h < 5 \<Longrightarrow> tcp_header_serialize h = Inl (Thrown ''TCP header too short'')"
  by (simp add: tcp_header_serialize_def)

lemma tcp_doff_bits:
  assumes "d \<le> (15 :: u8)"
  shows "drop_bit 4 (push_bit 4 d) = d"
proof -
  have "unat d \<le> 15" using assms by (simp add: word_le_nat_alt)
  then have "take_bit 4 d = d"
    by (simp add: word_unat_eq_iff unsigned_take_bit_eq take_bit_nat_eq_self)
  then have "bit d n \<Longrightarrow> n < 4" for n
    using bit_take_bit_iff [of 4 d n] by simp
  then show ?thesis
    by (intro bit_word_eqI) (auto simp: bit_simps)
qed

lemma tcp_flag_bits:
  "tcp_flags h AND 0x20 \<noteq> 0 \<longleftrightarrow> th_urg h" "tcp_flags h AND 0x10 \<noteq> 0 \<longleftrightarrow> th_ack h"
  "tcp_flags h AND 0x08 \<noteq> 0 \<longleftrightarrow> th_psh h" "tcp_flags h AND 0x04 \<noteq> 0 \<longleftrightarrow> th_rst h"
  "tcp_flags h AND 0x02 \<noteq> 0 \<longleftrightarrow> th_syn h" "tcp_flags h AND 0x01 \<noteq> 0 \<longleftrightarrow> th_fin h"
  by (cases "th_urg h"; cases "th_ack h"; cases "th_psh h"; cases "th_rst h"; cases "th_syn h";
      cases "th_fin h"; simp add: tcp_flags_def)+

section \<open>Parsing what was serialized\<close>

lemma tcp_skip: "tcp_header_ok h \<Longrightarrow> unat (ucast (th_doff h) * 4 - 20 :: u64) = 4 * unat (th_doff h) - 20"
proof -
  assume "tcp_header_ok h"
  note d = tcp_doff_nat [OF this]
  have u: "unat (ucast (th_doff h) :: u64) = unat (th_doff h)"
    using d by (simp add: unsigned_ucast_eq take_bit_nat_eq_self)
  then have m: "unat (ucast (th_doff h) * 4 :: u64) = unat (th_doff h) * 4"
    using d by (simp add: unat_word_ariths)
  have "(20 :: u64) \<le> ucast (th_doff h) * 4" using d by (simp add: word_le_nat_alt m)
  from unat_sub [OF this] show ?thesis by (simp add: m)
qed

lemma tcp_header_parse_bytes:
  assumes "tcp_header_ok h" "length rest < 2 ^ 62"
  shows "run_state tcp_header_parse (good (tcp_pre h @ net_bytes 2 (th_cksum h) @ tcp_post h @ rest))
    = ((NoError, h), good rest)"
proof -
  have doff: "drop_bit 4 (push_bit 4 (th_doff h)) = th_doff h"
    using assms(1) by (intro tcp_doff_bits) (simp add: tcp_header_ok_def)
  have "\<not> th_doff h < 5" using assms(1) by (simp add: tcp_header_ok_def not_less)
  moreover have "run_state (np_remove_prefix (ucast (th_doff h) * 4 - 20))
      (good (replicate (4 * unat (th_doff h) - 20) 0 @ rest)) = ((), good rest)"
    using tcp_doff_nat [OF assms(1)] tcp_skip [OF assms(1)] assms(2)
    by (subst np_remove_prefix_good) simp_all
  ultimately show ?thesis
    using assms(2) tcp_doff_nat [OF assms(1)]
    by (simp add: tcp_header_parse_def tcp_pre_def tcp_post_def np_written doff tcp_flag_bits
        np_get_error_def)
qed

text \<open>The TCP header as a codec; the result of \<open>parse\<close> is checked with the header.\<close>

abbreviation tcp_header_fits :: "parse_result \<times> tcp_header \<Rightarrow> byte list \<Rightarrow> bool" where
  "tcp_header_fits x rest \<equiv> fst x = NoError \<and> tcp_header_ok (snd x) \<and> length rest < 2 ^ 62"

definition tcp_header_enc :: "parse_result \<times> tcp_header \<Rightarrow> byte list" where
  "tcp_header_enc x = (case tcp_header_serialize (snd x) of Inl _ \<Rightarrow> [] | Inr s \<Rightarrow> s)"

interpretation tcp_codec: codec tcp_header_enc tcp_header_parse tcp_header_fits
proof unfold_locales
  fix x :: "parse_result \<times> tcp_header" and rest
  assume fits: "tcp_header_fits x rest"
  obtain h where x: "x = (NoError, h)" using fits by (cases x) auto
  show "run_state tcp_header_parse (good (tcp_header_enc x @ rest)) = (x, good rest)"
    using fits tcp_header_parse_bytes [of h rest]
    by (simp add: x tcp_header_enc_def tcp_header_bytes)
qed

text \<open>Every TCP header that can be serialized (data offset 5 to 15) is read back field by
  field, the options skipped and the bytes after it left alone.\<close>

theorem tcp_header_roundtrip:
  assumes "5 \<le> th_doff h" "th_doff h \<le> 15" "length rest < 2 ^ 62"
  shows "\<exists>s. tcp_header_serialize h = Inr s \<and> length s = 4 * unat (th_doff h)
     \<and> run_state tcp_header_parse (np_new (s @ rest)) = ((NoError, h), np_new rest)"
proof -
  have ok: "tcp_header_ok h" using assms by (simp add: tcp_header_ok_def)
  have "length (tcp_pre h @ net_bytes 2 (th_cksum h) @ tcp_post h) = 4 * unat (th_doff h)"
    using tcp_doff_nat [OF ok] by (simp add: tcp_pre_def tcp_post_def)
  then show ?thesis
    using tcp_header_bytes [OF ok] tcp_codec.dec_enc [of "(NoError, h)" rest] ok assms(3)
    by (simp add: np_new_def tcp_header_enc_def)
qed

theorem tcp_header_roundtrip_witness:
  "\<exists>s. tcp_header_serialize (tcp_header_new\<lparr>th_doff := 7, th_syn := True, th_win := 0x1234\<rparr>) = Inr s
     \<and> length s = 28"
  using tcp_header_roundtrip [of "tcp_header_new\<lparr>th_doff := 7, th_syn := True, th_win := 0x1234\<rparr>" "[]"]
  by (auto simp: tcp_header_new_def)

section \<open>Segments on the wire\<close>

lemma tcp_pre_cksum [simp]:
  "tcp_pre (h\<lparr>th_cksum := c\<rparr>) = tcp_pre h" "tcp_post (h\<lparr>th_cksum := c\<rparr>) = tcp_post h"
  "tcp_header_ok (h\<lparr>th_cksum := c\<rparr>) = tcp_header_ok h"
  by (simp_all add: tcp_pre_def tcp_post_def tcp_flags_def tcp_header_ok_def)

lemma net_bytes_0: "net_bytes 2 (0 :: u16) = [0, 0]"
  by (simp add: net_bytes_def upt_rec)

lemma even_tcp_pre: "even (length (tcp_pre h))" "length (tcp_pre h) = 16"
  by (simp_all add: tcp_pre_def)

lemma tcp_segment_bytes:
  assumes "tcp_header_ok h"
  shows "tcp_segment_serialize \<lparr>ts_header = h, ts_payload = d\<rparr> pseudo =
    Inr [tcp_pre h @ net_bytes 2 (checksum pseudo (tcp_pre h @ [0, 0] @ tcp_post h @ d)) @ tcp_post h, d]"
  using assms
  by (simp add: tcp_segment_serialize_def tcp_header_bytes Let_def net_bytes_0 ic_add_append [symmetric])

lemma tcp_segment_roundtrip_full:
  assumes "5 \<le> th_doff h" "th_doff h \<le> 15" "length d \<le> 65535" "unat pseudo < 2 ^ 20"
  shows "\<exists>bufs c. tcp_segment_serialize \<lparr>ts_header = h, ts_payload = d\<rparr> pseudo = Inr bufs
     \<and> length (concat bufs) = 4 * unat (th_doff h) + length d
     \<and> (\<forall>seg0. tcp_segment_parse (concat bufs) pseudo seg0
         = (NoError, \<lparr>ts_header = h\<lparr>th_cksum := c\<rparr>, ts_payload = d\<rparr>))"
proof -
  have ok: "tcp_header_ok h" using assms by (simp add: tcp_header_ok_def)
  let ?z = "tcp_pre h @ [0, 0] @ tcp_post h @ d"
  let ?c = "checksum pseudo ?z"
  let ?h = "h\<lparr>th_cksum := ?c\<rparr>"
  have "length ?z \<le> 70000"
    using assms(3) tcp_doff_nat [OF ok] by (simp add: even_tcp_pre tcp_post_def)
  from weight_small [OF this, of False]
  have "checksum pseudo (tcp_pre h @ net_bytes 2 ?c @ tcp_post h @ d) = 0"
    using assms(4) even_tcp_pre(1) by (intro checksum_inserted) simp_all
  moreover have "run_state tcp_header_parse (good (tcp_pre h @ net_bytes 2 ?c @ tcp_post h @ d))
      = ((NoError, ?h), good d)"
    using tcp_header_parse_bytes [of ?h d] ok assms(3) by simp
  ultimately have "tcp_segment_parse (concat [tcp_pre h @ net_bytes 2 ?c @ tcp_post h, d]) pseudo seg0
      = (NoError, \<lparr>ts_header = ?h, ts_payload = d\<rparr>)" for seg0
    by (simp add: tcp_segment_parse_def np_new_def)
  moreover have "length (concat [tcp_pre h @ net_bytes 2 ?c @ tcp_post h, d]) = 4 * unat (th_doff h) + length d"
    using tcp_doff_nat [OF ok] by (simp add: tcp_pre_def tcp_post_def)
  ultimately show ?thesis
    using tcp_segment_bytes [OF ok] by blast
qed

text \<open>C29: A segment put on the wire is accepted by the receiving end: its checksum verifies,
  and header and payload come back as they were (the checksum field filled in), for every
  header with a valid data offset and every payload an IP datagram can carry.\<close>

theorem tcp_segment_roundtrip:
  assumes "5 \<le> th_doff h" "th_doff h \<le> 15" "length d \<le> 65535" "unat pseudo < 2 ^ 20"
  shows "\<exists>bufs c. tcp_segment_serialize \<lparr>ts_header = h, ts_payload = d\<rparr> pseudo = Inr bufs
     \<and> tcp_segment_parse (concat bufs) pseudo seg0
         = (NoError, \<lparr>ts_header = h\<lparr>th_cksum := c\<rparr>, ts_payload = d\<rparr>)"
  using tcp_segment_roundtrip_full [OF assms] by blast

theorem tcp_segment_roundtrip_witness:
  "\<exists>bufs c. tcp_segment_serialize \<lparr>ts_header = tcp_header_new, ts_payload = [1, 2, 3]\<rparr> 77 = Inr bufs
     \<and> tcp_segment_parse (concat bufs) 77 tcp_segment_new
         = (NoError, \<lparr>ts_header = tcp_header_new\<lparr>th_cksum := c\<rparr>, ts_payload = [1, 2, 3]\<rparr>)"
  by (rule tcp_segment_roundtrip) (simp_all add: tcp_header_new_def)

text \<open>
  A header whose data offset is too small is refused by the header's \<open>parse\<close>; the segment's
  \<open>parse\<close> does not look at that result.
\<close>

lemma tcp_segment_parse_ignores_short_header:
  "case tcp_segment_parse
       [0, 0, 0, 0, 0, 0, 0, 0, 0, 0, 0, 0, 0x10, 0, 0, 0, 0xEF, 0xFF, 0, 0] 0 tcp_segment_new of
     (r, seg) \<Rightarrow> r = NoError \<and> th_doff (ts_header seg) = 1"
  by code_simp

end
