(* ===== verification/TcpReceiver.thy ===== *)
theory TcpReceiver
  imports StreamReassembler TcpSegment
begin

text \<open>
  \<open>libsponge/tcp_receiver.{hh,cc}\<close>: turning TCP segments into pushes to the reassembler, and
  the acknowledgment number and window that go back to the peer.
\<close>

section \<open>State and operations\<close>

record tcp_receiver =
  tr_reassembler :: reassembler
  tr_capacity :: u64
  tr_isn :: "wrapping_int32 option"
  tr_fin_received :: bool

definition tr_new :: "u64 \<Rightarrow> tcp_receiver" where
  "tr_new capacity =
     \<lparr>tr_reassembler = re_new capacity, tr_capacity = capacity, tr_isn = None, tr_fin_received = False\<rparr>"

definition stream_out :: "tcp_receiver \<Rightarrow> byte_stream" where
  "stream_out r = re_output (tr_reassembler r)"

definition tr_unassembled_bytes :: "tcp_receiver \<Rightarrow> u64" where
  "tr_unassembled_bytes r = re_unassembled_bytes (tr_reassembler r)"

text \<open>From \<open>isn\<close>, the stream index of a segment's payload (lines 28 to 45).\<close>

definition stream_index_of :: "tcp_segment \<Rightarrow> wrapping_int32 \<Rightarrow> tcp_receiver \<Rightarrow> u64" where
  "stream_index_of seg isn r =
     (let checkpoint = bs_bytes_written (stream_out r) + 1;
          absolute_seqno = unwrap (th_seqno (ts_header seg)) isn checkpoint
      in if th_syn (ts_header seg) then absolute_seqno else absolute_seqno - 1)"

definition tr_segment_received :: "tcp_segment \<Rightarrow> tcp_receiver \<Rightarrow> failure + tcp_receiver" where
  "tr_segment_received seg r =
     (let isn = (case tr_isn r of
                   Some isn \<Rightarrow> Some isn
                 | None \<Rightarrow> if th_syn (ts_header seg) then Some (th_seqno (ts_header seg)) else None)
      in case isn of
           None \<Rightarrow> Inr r
         | Some isn \<Rightarrow>
             (let r = r\<lparr>tr_isn := Some isn\<rparr>;
                  stream_index = stream_index_of seg isn r;
                  payload = ts_payload seg
              in case re_push payload stream_index (th_fin (ts_header seg)) (tr_reassembler r) of
                   Inl e \<Rightarrow> Inl e
                 | Inr re \<Rightarrow>
                     Inr (r\<lparr>tr_reassembler := re,
                            tr_fin_received := tr_fin_received r \<or> th_fin (ts_header seg)\<rparr>)))"

definition tr_ackno :: "tcp_receiver \<Rightarrow> wrapping_int32 option" where
  "tr_ackno r =
     (case tr_isn r of
        None \<Rightarrow> None
      | Some isn \<Rightarrow>
          (let stream_index = bs_bytes_written (stream_out r);
               absolute_seqno = stream_index + 1;
               absolute_seqno = (if tr_fin_received r \<and> bs_input_ended (stream_out r)
                                 then absolute_seqno + 1 else absolute_seqno)
           in Some (wrap absolute_seqno isn)))"

definition tr_window_size :: "tcp_receiver \<Rightarrow> u64" where
  "tr_window_size r =
     (let bytes_in_buffer = bs_bytes_written (stream_out r) - bs_bytes_read (stream_out r)
      in tr_capacity r - bytes_in_buffer)"

section \<open>The segments of one stream\<close>

text \<open>
  \<open>seg\<close> is a segment of the connection whose first sequence number is \<open>isn\<close> and whose
  stream is \<open>S\<close>: its payload starts at stream index \<open>i\<close>, a SYN comes before index 0, a FIN
  after the last byte. A segment that carries nothing may have any sequence number.
\<close>

definition carries_nothing :: "tcp_segment \<Rightarrow> bool" where
  "carries_nothing seg \<longleftrightarrow>
     ts_payload seg = [] \<and> \<not> th_syn (ts_header seg) \<and> \<not> th_fin (ts_header seg)"

definition stream_segment :: "byte list \<Rightarrow> wrapping_int32 \<Rightarrow> tcp_segment \<Rightarrow> nat \<Rightarrow> bool" where
  "stream_segment S isn seg i \<longleftrightarrow> excerpt S i (ts_payload seg)
     \<and> (if th_syn (ts_header seg) then i = 0 \<and> th_seqno (ts_header seg) = wrap 0 isn
        else th_seqno (ts_header seg) = wrap (of_nat (i + 1)) isn)
     \<and> (th_fin (ts_header seg) \<longrightarrow> i + length (ts_payload seg) = length S)"

text \<open>
  \<open>next\<close> is the first index not yet assembled when the segment arrives; 32-bit sequence
  numbers identify positions less than \<open>2^31\<close> from it.
\<close>

definition segment_at :: "byte list \<Rightarrow> wrapping_int32 \<Rightarrow> nat \<Rightarrow> tcp_segment \<Rightarrow> nat \<Rightarrow> bool" where
  "segment_at S isn next seg i \<longleftrightarrow>
     carries_nothing seg \<or> (stream_segment S isn seg i \<and> \<bar>int i - int next\<bar> < 2 ^ 31 - 1)"

abbreviation tr_next :: "tcp_receiver \<Rightarrow> nat" where
  "tr_next r \<equiv> unat (re_next (tr_reassembler r))"

definition tr_ok :: "byte list \<Rightarrow> wrapping_int32 \<Rightarrow> tcp_receiver \<Rightarrow> bool" where
  "tr_ok S isn r \<longleftrightarrow> re_tracks S (tr_reassembler r) \<and> tr_capacity r = re_capacity (tr_reassembler r)
     \<and> (tr_isn r = Some isn \<or> (tr_isn r = None \<and> re_next (tr_reassembler r) = 0
          \<and> bs_buffer (stream_out r) = []))
     \<and> (re_eof (tr_reassembler r) \<noteq> - 1 \<or> bs_input_ended (stream_out r) \<longrightarrow> tr_fin_received r)"

lemma wrap_0 [simp]: "wrap 0 isn = isn"
  by (simp add: wrap_def)

lemma stream_index_correct:
  assumes "segment_at S isn (tr_next r) seg i" "length S < 2 ^ 62" "re_ok (tr_reassembler r)"
    and full: "\<not> carries_nothing seg"
  shows "stream_index_of seg isn r = of_nat i"
proof -
  let ?next = "tr_next r"
  have next_lt: "?next < 2 ^ 62" using re_okD(6,7) [OF assms(3)] by simp
  have i: "i \<le> length S" and near: "\<bar>int i - int ?next\<bar> < 2 ^ 31 - 1"
    using assms(1) full by (auto simp: segment_at_def stream_segment_def excerpt_def)
  have cp: "unat (re_next (tr_reassembler r) + 1) = ?next + 1"
    using next_lt by (subst unat_add_u64) simp_all
  have written: "bs_bytes_written (stream_out r) = re_next (tr_reassembler r)"
    using re_okD(3) [OF assms(3)] by (simp add: stream_out_def)
  obtain k where k: "?next = k" by blast
  show ?thesis
  proof (cases "th_syn (ts_header seg)")
    case True
    then have "i = 0" "th_seqno (ts_header seg) = wrap 0 isn"
      using assms(1) full by (auto simp: segment_at_def stream_segment_def)
    moreover have "unwrap (wrap 0 isn) isn (re_next (tr_reassembler r) + 1) = 0"
    proof (rule unwrap_wrap_near)
      show "\<bar>int (unat (0 :: u64)) - int (unat (re_next (tr_reassembler r) + 1))\<bar> < 2 ^ 31"
        using near \<open>i = 0\<close> unfolding cp k by simp
    qed
    ultimately show ?thesis using True by (simp add: stream_index_of_def written)
  next
    case False
    have "unat (of_nat (i + 1) :: u64) = i + 1"
      using i assms(2) by (intro unat_of_nat_u64) simp
    then have "unwrap (wrap (of_nat (i + 1)) isn) isn (re_next (tr_reassembler r) + 1) = of_nat (i + 1)"
      using near by (intro unwrap_wrap_near) (simp only: cp)
    then show ?thesis
      using False assms(1) full
      by (auto simp: stream_index_of_def written segment_at_def stream_segment_def)
  qed
qed

text \<open>One segment.\<close>

lemma segment_received_ok:
  assumes "tr_ok S isn r" "segment_at S isn (tr_next r) seg i" "length S < 2 ^ 62"
  shows "\<exists>r'. tr_segment_received seg r = Inr r' \<and> tr_ok S isn r' \<and> tr_capacity r' = tr_capacity r
    \<and> re_read (tr_reassembler r') = re_read (tr_reassembler r)
    \<and> (tr_isn r' = None \<longleftrightarrow> tr_isn r = None \<and> \<not> th_syn (ts_header seg))
    \<and> tr_next r \<le> tr_next r' \<and> (bs_input_ended (stream_out r) \<longrightarrow> bs_input_ended (stream_out r'))
    \<and> (tr_fin_received r' \<longrightarrow> tr_fin_received r \<or> th_fin (ts_header seg))"
proof (cases "tr_isn r = None \<and> \<not> th_syn (ts_header seg)")
  case True
  then show ?thesis using assms(1) by (simp add: tr_segment_received_def)
next
  case False
  have isn: "(case tr_isn r of Some j \<Rightarrow> Some j
      | None \<Rightarrow> if th_syn (ts_header seg) then Some (th_seqno (ts_header seg)) else None) = Some isn"
    using False assms(1,2)
    by (auto simp: tr_ok_def segment_at_def stream_segment_def carries_nothing_def split: option.split)
  have tracks: "re_tracks S (tr_reassembler r)" using assms(1) by (simp add: tr_ok_def)
  let ?idx = "stream_index_of seg isn (r\<lparr>tr_isn := Some isn\<rparr>)"
  have push: "ts_payload seg \<noteq> [] \<longrightarrow> excerpt S (unat ?idx) (ts_payload seg)"
    "length (ts_payload seg) < 2 ^ 62"
    "th_fin (ts_header seg) \<longrightarrow> unat ?idx + length (ts_payload seg) = length S"
  proof -
    have idx: "unat ?idx = i" "excerpt S i (ts_payload seg)"
      "th_fin (ts_header seg) \<Longrightarrow> i + length (ts_payload seg) = length S"
      if "\<not> carries_nothing seg"
    proof -
      show "excerpt S i (ts_payload seg)"
        "th_fin (ts_header seg) \<Longrightarrow> i + length (ts_payload seg) = length S"
        using assms(2) that by (auto simp: segment_at_def stream_segment_def)
      then have "unat (of_nat i :: u64) = i"
        using assms(3) by (intro unat_of_nat_u64) (simp add: excerpt_def)
      moreover have "?idx = of_nat i"
        using that assms re_tracksD(1) [OF tracks] by (intro stream_index_correct) auto
      ultimately show "unat ?idx = i" by simp
    qed
    then show "ts_payload seg \<noteq> [] \<longrightarrow> excerpt S (unat ?idx) (ts_payload seg)"
      "th_fin (ts_header seg) \<longrightarrow> unat ?idx + length (ts_payload seg) = length S"
      by (simp_all add: carries_nothing_def)
    show "length (ts_payload seg) < 2 ^ 62"
      using idx(2) assms(3) by (cases "ts_payload seg = []") (auto simp: excerpt_def carries_nothing_def)
  qed
  from push_tracks [OF tracks push assms(3)]
  obtain re where
    re: "re_push (ts_payload seg) ?idx (th_fin (ts_header seg)) (tr_reassembler r) = Inr re"
      "re_tracks S re" "re_capacity re = re_capacity (tr_reassembler r)"
      "re_read re = re_read (tr_reassembler r)"
      "bs_input_ended (re_output re) \<longrightarrow> bs_input_ended (re_output (tr_reassembler r))
         \<or> th_fin (ts_header seg) \<or> re_eof (tr_reassembler r) \<noteq> - 1"
      "re_eof re = re_eof (tr_reassembler r) \<or> th_fin (ts_header seg)"
      "re_next (tr_reassembler r) \<le> re_next re"
      "bs_input_ended (re_output (tr_reassembler r)) \<longrightarrow> bs_input_ended (re_output re)"
    by (elim exE conjE) (rule that)
  let ?r = "r\<lparr>tr_isn := Some isn, tr_reassembler := re,
      tr_fin_received := tr_fin_received r \<or> th_fin (ts_header seg)\<rparr>"
  have "tr_segment_received seg r = Inr ?r"
    unfolding tr_segment_received_def isn Let_def option.case using re(1) by simp
  moreover have "tr_ok S isn ?r"
    using assms(1) re by (auto simp: tr_ok_def stream_out_def)
  moreover have "\<not> (tr_isn r = None \<and> \<not> th_syn (ts_header seg))" using False .
  ultimately show ?thesis using re(4,7,8) by (simp add: stream_out_def word_le_nat_alt)
qed

section \<open>What is acknowledged and advertised\<close>

lemma tr_ackno_eq:
  assumes "tr_ok S isn r"
  shows "tr_ackno r = (if tr_isn r = None then None
    else Some (wrap (of_nat (tr_next r + 1 + (if bs_input_ended (stream_out r) then 1 else 0))) isn))"
proof -
  have "bs_bytes_written (stream_out r) = re_next (tr_reassembler r)"
    using assms re_okD(3) [OF re_tracksD(1), of S "tr_reassembler r"]
    by (simp add: tr_ok_def stream_out_def)
  then show ?thesis
    using assms by (auto simp: tr_ackno_def tr_ok_def Let_def algebra_simps)
qed

lemma tr_window_eq:
  assumes "re_ok (tr_reassembler r)" "tr_capacity r = re_capacity (tr_reassembler r)"
  shows "unat (tr_window_size r) = unat (tr_capacity r) - length (bs_buffer (stream_out r))"
proof -
  note ok = re_okD [OF assms(1)]
  have "bs_bytes_written (stream_out r) - bs_bytes_read (stream_out r) = size_of (bs_buffer (stream_out r))"
    using bs_okD(3) [OF ok(1)] by (simp add: stream_out_def)
  moreover have len: "unat (size_of (bs_buffer (stream_out r))) = length (bs_buffer (stream_out r))"
    using ok by (intro unat_size_of) (simp add: stream_out_def)
  moreover have "size_of (bs_buffer (stream_out r)) \<le> tr_capacity r"
    using ok(8) len assms(2) by (simp add: word_le_nat_alt stream_out_def)
  ultimately show ?thesis by (simp add: tr_window_size_def unat_sub_u64)
qed

section \<open>Runs of segments and reads\<close>

datatype rx_op = RxSegment tcp_segment | RxRead u64

fun rx_step :: "rx_op \<Rightarrow> byte list \<times> tcp_receiver \<Rightarrow> failure + byte list \<times> tcp_receiver" where
  "rx_step (RxSegment seg) (del, r) =
     (case tr_segment_received seg r of Inl e \<Rightarrow> Inl e | Inr r' \<Rightarrow> Inr (del, r'))"
| "rx_step (RxRead n) (del, r) =
     (let (d, out) = bs_read n (stream_out r)
      in Inr (del @ d, r\<lparr>tr_reassembler := (tr_reassembler r)\<lparr>re_output := out\<rparr>\<rparr>))"

fun rx_run :: "rx_op list \<Rightarrow> byte list \<times> tcp_receiver \<Rightarrow> failure + byte list \<times> tcp_receiver" where
  "rx_run [] s = Inr s"
| "rx_run (x # xs) s = (case rx_step x s of Inl e \<Rightarrow> Inl e | Inr s' \<Rightarrow> rx_run xs s')"

text \<open>Every segment of the run is one of the peer's, near the next index when it arrives.\<close>

fun honest_run :: "byte list \<Rightarrow> wrapping_int32 \<Rightarrow> rx_op list \<Rightarrow> byte list \<times> tcp_receiver \<Rightarrow> bool" where
  "honest_run S isn [] s = True"
| "honest_run S isn (x # xs) s =
     ((case x of RxSegment seg \<Rightarrow> \<exists>i. segment_at S isn (tr_next (snd s)) seg i | RxRead _ \<Rightarrow> True)
      \<and> (case rx_step x s of Inl _ \<Rightarrow> True | Inr s' \<Rightarrow> honest_run S isn xs s'))"

definition has_syn :: "rx_op list \<Rightarrow> bool" where
  "has_syn ops \<longleftrightarrow> (\<exists>x \<in> set ops. case x of RxSegment seg \<Rightarrow> th_syn (ts_header seg) | RxRead _ \<Rightarrow> False)"

lemma rx_run_tracks:
  assumes "tr_ok S isn r" "excerpt S 0 (del @ bs_buffer (stream_out r))"
    "length del = re_read (tr_reassembler r)"
    and "honest_run S isn ops (del, r)" "length S + unat (tr_capacity r) < 2 ^ 62"
  shows "\<exists>del' r'. rx_run ops (del, r) = Inr (del', r') \<and> tr_ok S isn r'
    \<and> excerpt S 0 (del' @ bs_buffer (stream_out r')) \<and> length del' = re_read (tr_reassembler r')
    \<and> tr_capacity r' = tr_capacity r \<and> (tr_isn r' = None \<longleftrightarrow> tr_isn r = None \<and> \<not> has_syn ops)"
  using assms
proof (induction ops arbitrary: r del)
  case Nil
  then show ?case by (simp add: has_syn_def)
next
  case (Cons x ops)
  let ?goal = "\<lambda>del r ops. \<exists>del' r'. rx_run ops (del, r) = Inr (del', r') \<and> tr_ok S isn r'
    \<and> excerpt S 0 (del' @ bs_buffer (stream_out r')) \<and> length del' = re_read (tr_reassembler r')
    \<and> tr_capacity r' = tr_capacity r \<and> (tr_isn r' = None \<longleftrightarrow> tr_isn r = None \<and> \<not> has_syn ops)"
  show ?case
  proof (cases x)
    case (RxSegment seg)
    then obtain j where seg: "segment_at S isn (tr_next r) seg j" using Cons.prems(4) by auto
    have "length S < 2 ^ 62" using Cons.prems(5) by simp
    from segment_received_ok [OF Cons.prems(1) seg this] obtain r' where
      r': "tr_segment_received seg r = Inr r'" "tr_ok S isn r'" "tr_capacity r' = tr_capacity r"
      "re_read (tr_reassembler r') = re_read (tr_reassembler r)"
      "tr_isn r' = None \<longleftrightarrow> tr_isn r = None \<and> \<not> th_syn (ts_header seg)"
      by (elim exE conjE) (rule that)
    have "excerpt S 0 (take (length del) (del @ bs_buffer (stream_out r)))"
      using Cons.prems(2) by (rule pieces_of.prefix)
    moreover have "excerpt S (length del) (bs_buffer (stream_out r'))"
      using r'(2,4) Cons.prems(3) re_tracksD(2) by (force simp: tr_ok_def re_holds_def stream_out_def)
    ultimately have "excerpt S 0 (del @ bs_buffer (stream_out r'))"
      by (intro excerpt_join) simp_all
    then have "?goal del r' ops"
      using r' Cons.prems(3-5) RxSegment by (intro Cons.IH [OF r'(2)]) simp_all
    then show ?thesis using r' RxSegment by (auto simp: has_syn_def)
  next
    case (RxRead n)
    let ?re = "tr_reassembler r"
    let ?r = "r\<lparr>tr_reassembler := ?re\<lparr>re_output := snd (bs_read n (re_output ?re))\<rparr>\<rparr>"
    let ?d = "fst (bs_read n (re_output ?re))"
    have tracks: "re_tracks S ?re" and cap: "length S + unat (re_capacity ?re) < 2 ^ 62"
      using Cons.prems(1,5) by (auto simp: tr_ok_def)
    note read = read_tracks [OF tracks cap, of n]
    note ok = re_okD [OF re_tracksD(1) [OF tracks]]
    have "length ?d = min (unat n) (length (bs_buffer (re_output ?re)))"
      using bs_read_eq [OF ok(1), of n] by simp
    then have len: "length (del @ ?d) = re_read (tr_reassembler ?r)"
      using read(2) Cons.prems(3) by simp
    have "bs_input_ended (re_output (tr_reassembler ?r)) = bs_input_ended (re_output ?re)"
      using bs_read_eq [OF ok(1), of n] by simp
    moreover have "bs_buffer (re_output ?re) = [] \<longrightarrow> bs_buffer (re_output (tr_reassembler ?r)) = []"
      using read(3) by simp
    ultimately have "tr_ok S isn ?r"
      using Cons.prems(1) read(1) by (auto simp: tr_ok_def stream_out_def)
    moreover have "excerpt S 0 ((del @ ?d) @ bs_buffer (stream_out ?r))"
      using Cons.prems(2) read(3) by (simp add: stream_out_def)
    moreover have "honest_run S isn ops (del @ ?d, ?r)"
      using Cons.prems(4) RxRead by (simp add: stream_out_def split_beta)
    ultimately have "?goal (del @ ?d) ?r ops"
      using len Cons.prems(5) by (intro Cons.IH) simp_all
    then show ?thesis using RxRead by (simp add: stream_out_def split_beta has_syn_def)
  qed
qed

text \<open>C6: Whatever segments of the peer's stream arrive, in whatever order, overlapping or
  repeated, the receiver delivers and buffers exactly a prefix of that stream. It
  acknowledges the SYN, that prefix and, once it is the whole stream and the FIN has come,
  the FIN, and nothing before the SYN; and it advertises exactly the room that is left.\<close>

theorem receiver_delivers_and_acknowledges:
  assumes "honest_run S isn ops ([], tr_new cap)" and "length S + unat cap < 2 ^ 62"
  shows "\<exists>del r. rx_run ops ([], tr_new cap) = Inr (del, r)
     \<and> del @ bs_buffer (stream_out r) = take (tr_next r) S
     \<and> tr_ackno r = (if \<not> has_syn ops then None
         else Some (wrap (of_nat (tr_next r + 1 + (if bs_input_ended (stream_out r) then 1 else 0))) isn))
     \<and> (bs_input_ended (stream_out r) \<longrightarrow> tr_next r = length S)
     \<and> unat (tr_window_size r) = unat cap - length (bs_buffer (stream_out r))"
proof -
  have start: "tr_ok S isn (tr_new cap)"
    using assms(2) re_new_tracks [of cap S]
    by (simp add: tr_ok_def tr_new_def stream_out_def) (simp add: re_new_def bs_new_def)
  have fresh: "bs_buffer (stream_out (tr_new cap)) = []" "re_read (tr_reassembler (tr_new cap)) = 0"
    "tr_capacity (tr_new cap) = cap" "tr_isn (tr_new cap) = None"
    by (simp_all add: tr_new_def stream_out_def re_new_start)
  obtain del r where run: "rx_run ops ([], tr_new cap) = Inr (del, r)" "tr_ok S isn r"
    "excerpt S 0 (del @ bs_buffer (stream_out r))" "length del = re_read (tr_reassembler r)"
    "tr_capacity r = cap" "tr_isn r = None \<longleftrightarrow> \<not> has_syn ops"
    using rx_run_tracks [OF start _ _ assms(1)] assms(2) by (auto simp: fresh excerpt_def)
  have tracks: "re_tracks S (tr_reassembler r)" "tr_capacity r = re_capacity (tr_reassembler r)"
    using run(2) by (simp_all add: tr_ok_def)
  note ok = re_tracksD(1) [OF tracks(1)]
  have "length (del @ bs_buffer (stream_out r)) = tr_next r"
    using re_okD(4) [OF ok] run(4) by (simp add: stream_out_def)
  then have "del @ bs_buffer (stream_out r) = take (tr_next r) S"
    using run(3) by (simp add: excerpt_def)
  moreover have "bs_input_ended (stream_out r) \<longrightarrow> tr_next r = length S"
    using tracks(1) by (simp add: re_tracks_def stream_out_def)
  ultimately show ?thesis
    using run(1,5,6) tr_ackno_eq [OF run(2)] tr_window_eq [OF ok tracks(2)] by auto
qed

theorem receiver_delivers_and_acknowledges_witness:
  "\<exists>del r. rx_run [RxSegment \<lparr>ts_header = tcp_header_new\<lparr>th_syn := True, th_fin := True,
         th_seqno := WrappingInt32 0xFFFFFFFE\<rparr>, ts_payload = [7, 8, 9]\<rparr>, RxRead 2] ([], tr_new 5) = Inr (del, r)
     \<and> del @ bs_buffer (stream_out r) = take (tr_next r) [7, 8, 9]"
proof -
  let ?seg = "\<lparr>ts_header = tcp_header_new\<lparr>th_syn := True, th_fin := True,
      th_seqno := WrappingInt32 0xFFFFFFFE\<rparr>, ts_payload = [7, 8, 9]\<rparr>"
  have "segment_at [7, 8, 9] (WrappingInt32 0xFFFFFFFE) (tr_next (tr_new 5)) ?seg 0"
    by (simp add: segment_at_def stream_segment_def excerpt_def tr_new_def re_new_def)
  then have "honest_run [7, 8, 9] (WrappingInt32 0xFFFFFFFE) [RxSegment ?seg, RxRead 2] ([], tr_new 5)"
    by (auto split: sum.split)
  from receiver_delivers_and_acknowledges [OF this] show ?thesis by fastforce
qed

section \<open>Arbitrary segments\<close>

fun rx_asked :: "rx_op list \<Rightarrow> nat" where
  "rx_asked [] = 0"
| "rx_asked (RxRead n # xs) = unat n + rx_asked xs"
| "rx_asked (RxSegment _ # xs) = rx_asked xs"

lemma segment_received_safe:
  assumes "re_ok (tr_reassembler r)" "length (ts_payload seg) < 2 ^ 62"
  shows "\<exists>r'. tr_segment_received seg r = Inr r' \<and> re_ok (tr_reassembler r') \<and> tr_capacity r' = tr_capacity r
    \<and> re_capacity (tr_reassembler r') = re_capacity (tr_reassembler r)
    \<and> re_read (tr_reassembler r') = re_read (tr_reassembler r)
    \<and> (tr_isn r' \<noteq> None \<longleftrightarrow> tr_isn r \<noteq> None \<or> th_syn (ts_header seg))"
proof -
  have push: "\<exists>re. re_push (ts_payload seg) i e (tr_reassembler r) = Inr re \<and> re_ok re
    \<and> re_capacity re = re_capacity (tr_reassembler r) \<and> re_read re = re_read (tr_reassembler r)" for i e
  proof -
    from anything.push_ok [OF assms(1) _ _ assms(2), of i e] obtain re r3 where
      "re_push (ts_payload seg) i e (tr_reassembler r) = Inr re" "re_ok re" "re_frame (tr_reassembler r) r3"
      "re = r3 \<or> re = re_finish (ts_payload seg) i e r3"
      by (auto simp: re_holds_def)
    then show ?thesis by (auto simp: re_frame_def re_finish_frame)
  qed
  define isn where "isn = (case tr_isn r of Some isn \<Rightarrow> Some isn
    | None \<Rightarrow> if th_syn (ts_header seg) then Some (th_seqno (ts_header seg)) else None)"
  have iff: "isn \<noteq> None \<longleftrightarrow> tr_isn r \<noteq> None \<or> th_syn (ts_header seg)"
    by (simp add: isn_def split: option.split)
  show ?thesis
  proof (cases isn)
    case None
    then show ?thesis
      using assms(1) iff by (simp add: tr_segment_received_def isn_def [symmetric])
  next
    case (Some j)
    obtain re where "re_push (ts_payload seg) (stream_index_of seg j (r\<lparr>tr_isn := Some j\<rparr>))
        (th_fin (ts_header seg)) (tr_reassembler r) = Inr re" "re_ok re"
      "re_capacity re = re_capacity (tr_reassembler r)" "re_read re = re_read (tr_reassembler r)"
      using push by blast
    then show ?thesis
      using iff by (simp add: tr_segment_received_def isn_def [symmetric] Some Let_def)
  qed
qed

lemma rx_run_safe:
  assumes "re_ok (tr_reassembler r)" "tr_capacity r = re_capacity (tr_reassembler r)"
    and "\<And>seg. RxSegment seg \<in> set ops \<Longrightarrow> length (ts_payload seg) < 2 ^ 62"
    and "re_read (tr_reassembler r) + rx_asked ops + unat (tr_capacity r) < 2 ^ 62"
  shows "\<exists>del' r'. rx_run ops (del, r) = Inr (del', r') \<and> re_ok (tr_reassembler r')
    \<and> tr_capacity r' = re_capacity (tr_reassembler r') \<and> tr_capacity r' = tr_capacity r
    \<and> (tr_isn r' \<noteq> None \<longleftrightarrow> tr_isn r \<noteq> None \<or> has_syn ops)"
  using assms
proof (induction ops arbitrary: r del)
  case Nil
  then show ?case by (simp add: has_syn_def)
next
  case (Cons x ops)
  show ?case
  proof (cases x)
    case (RxSegment seg)
    then have "length (ts_payload seg) < 2 ^ 62" using Cons.prems(3) by simp
    from segment_received_safe [OF Cons.prems(1) this] obtain r' where
      r': "tr_segment_received seg r = Inr r'" "re_ok (tr_reassembler r')" "tr_capacity r' = tr_capacity r"
      "re_capacity (tr_reassembler r') = re_capacity (tr_reassembler r)"
      "re_read (tr_reassembler r') = re_read (tr_reassembler r)"
      "tr_isn r' \<noteq> None \<longleftrightarrow> tr_isn r \<noteq> None \<or> th_syn (ts_header seg)"
      by (elim exE conjE) (rule that)
    have "\<exists>del' r''. rx_run ops (del, r') = Inr (del', r'') \<and> re_ok (tr_reassembler r'')
      \<and> tr_capacity r'' = re_capacity (tr_reassembler r'') \<and> tr_capacity r'' = tr_capacity r'
      \<and> (tr_isn r'' \<noteq> None \<longleftrightarrow> tr_isn r' \<noteq> None \<or> has_syn ops)"
      using r' Cons.prems(2-4) RxSegment by (intro Cons.IH [OF r'(2)]) simp_all
    then show ?thesis using r' RxSegment by (auto simp: has_syn_def)
  next
    case (RxRead n)
    let ?re = "tr_reassembler r"
    let ?r = "r\<lparr>tr_reassembler := ?re\<lparr>re_output := snd (bs_read n (re_output ?re))\<rparr>\<rparr>"
    have bound: "re_read ?re + min (unat n) (length (bs_buffer (re_output ?re))) + unat (re_capacity ?re) < 2 ^ 62"
      using Cons.prems(2,4) RxRead by simp
    note read = re_read_ok [OF Cons.prems(1) bound]
    have "\<exists>del' r''. rx_run ops (del @ fst (bs_read n (re_output ?re)), ?r) = Inr (del', r'')
      \<and> re_ok (tr_reassembler r'') \<and> tr_capacity r'' = re_capacity (tr_reassembler r'')
      \<and> tr_capacity r'' = tr_capacity ?r \<and> (tr_isn r'' \<noteq> None \<longleftrightarrow> tr_isn ?r \<noteq> None \<or> has_syn ops)"
      using read Cons.prems(2-4) RxRead by (intro Cons.IH) simp_all
    then show ?thesis using RxRead by (simp add: stream_out_def split_beta has_syn_def)
  qed
qed

text \<open>No sequence of segments, forged or not, makes the receiver throw or fail an
  assertion; it has an acknowledgment number exactly when some segment carried a SYN, never
  buffers more than its capacity, and never advertises more than its capacity.\<close>

theorem receiver_never_fails:
  assumes "\<And>seg. RxSegment seg \<in> set ops \<Longrightarrow> length (ts_payload seg) < 2 ^ 62"
    and "rx_asked ops + unat cap < 2 ^ 62"
  shows "\<exists>del r. rx_run ops ([], tr_new cap) = Inr (del, r)
     \<and> (tr_ackno r \<noteq> None \<longleftrightarrow> has_syn ops)
     \<and> unat (tr_window_size r) + length (bs_buffer (stream_out r)) = unat cap"
proof -
  have "\<exists>del' r'. rx_run ops ([], tr_new cap) = Inr (del', r') \<and> re_ok (tr_reassembler r')
    \<and> tr_capacity r' = re_capacity (tr_reassembler r') \<and> tr_capacity r' = tr_capacity (tr_new cap)
    \<and> (tr_isn r' \<noteq> None \<longleftrightarrow> tr_isn (tr_new cap) \<noteq> None \<or> has_syn ops)"
    using assms re_new_ok [of cap] by (intro rx_run_safe) (simp_all add: tr_new_def re_new_start)
  then obtain del r where run: "rx_run ops ([], tr_new cap) = Inr (del, r)" "re_ok (tr_reassembler r)"
    "tr_capacity r = re_capacity (tr_reassembler r)" "tr_capacity r = cap" "tr_isn r \<noteq> None \<longleftrightarrow> has_syn ops"
    by (auto simp: tr_new_def)
  have "length (bs_buffer (stream_out r)) \<le> unat cap"
    using re_okD(8) [OF run(2)] run(3,4) by (simp add: stream_out_def)
  moreover have "tr_ackno r \<noteq> None \<longleftrightarrow> tr_isn r \<noteq> None"
    by (simp add: tr_ackno_def Let_def split: option.split)
  ultimately show ?thesis
    using run tr_window_eq [OF run(2,3)] by auto
qed

theorem receiver_never_fails_witness:
  "\<exists>del r. rx_run [RxSegment tcp_segment_new, RxSegment \<lparr>ts_header = tcp_header_new\<lparr>th_syn := True\<rparr>,
       ts_payload = [1, 2, 3]\<rparr>, RxRead 1] ([], tr_new 2) = Inr (del, r) \<and> tr_ackno r \<noteq> None"
proof -
  let ?ops = "[RxSegment tcp_segment_new, RxSegment \<lparr>ts_header = tcp_header_new\<lparr>th_syn := True\<rparr>,
      ts_payload = [1, 2, 3]\<rparr>, RxRead 1]"
  have "length (ts_payload seg) < 2 ^ 62" if "RxSegment seg \<in> set ?ops" for seg
    using that by (auto simp: tcp_segment_new_def)
  from receiver_never_fails [where cap = 2 and ops = ?ops, OF this]
  obtain del r where "rx_run ?ops ([], tr_new 2) = Inr (del, r)" "tr_ackno r \<noteq> None \<longleftrightarrow> has_syn ?ops"
    by (auto simp del: rx_run.simps)
  moreover have "has_syn ?ops" by (simp add: has_syn_def)
  ultimately show ?thesis by blast
qed

end
