(* ===== verification/TcpSender.thy ===== *)
theory TcpSender
  imports TcpReceiver
begin

text \<open>
  \<open>libsponge/tcp_sender.{hh,cc}\<close>: cutting the outgoing stream into segments that fit the
  peer's window, keeping those not yet acknowledged, and retransmitting the oldest.
\<close>

section \<open>State and operations\<close>

record tcp_sender =
  sn_isn :: wrapping_int32
  sn_segments_out :: "tcp_segment list"
  sn_initial_retransmission_timeout :: u32
  sn_stream :: byte_stream
  sn_next_seqno :: u64
  sn_ackno :: u64
  sn_window_size :: u16
  sn_outstanding_segments :: "(u64, tcp_segment) std_map"
  sn_rto :: u32
  sn_timer :: u32
  sn_timer_running :: bool
  sn_consecutive_retransmissions :: u32
  sn_syn_sent :: bool
  sn_fin_sent :: bool

text \<open>The configured initial sequence number, or a random one: a parameter here.\<close>

definition sn_new :: "u64 \<Rightarrow> u16 \<Rightarrow> wrapping_int32 option \<Rightarrow> wrapping_int32 \<Rightarrow> tcp_sender" where
  "sn_new capacity retx_timeout fixed_isn random =
     \<lparr>sn_isn = (case fixed_isn of Some i \<Rightarrow> i | None \<Rightarrow> random), sn_segments_out = [],
      sn_initial_retransmission_timeout = ucast retx_timeout, sn_stream = bs_new capacity,
      sn_next_seqno = 0, sn_ackno = 0, sn_window_size = 1, sn_outstanding_segments = [],
      sn_rto = ucast retx_timeout, sn_timer = 0, sn_timer_running = False,
      sn_consecutive_retransmissions = 0, sn_syn_sent = False, sn_fin_sent = False\<rparr>"

definition MAX_PAYLOAD_SIZE :: u64 where "MAX_PAYLOAD_SIZE = 1000"

definition sn_bytes_in_flight :: "tcp_sender \<Rightarrow> u64" where
  "sn_bytes_in_flight s =
     foldl (\<lambda>total p. total + length_in_sequence_space (snd p)) 0 (sn_outstanding_segments s)"

text \<open>Starting the timer when nothing is outstanding, and tracking and queueing a segment.\<close>

definition sn_track :: "u64 \<Rightarrow> tcp_segment \<Rightarrow> tcp_sender \<Rightarrow> tcp_sender" where
  "sn_track seg_size seg s =
     (let s = (if sn_outstanding_segments s = [] then s\<lparr>sn_timer := 0, sn_timer_running := True\<rparr> else s);
          seg_start = sn_next_seqno s
      in s\<lparr>sn_next_seqno := sn_next_seqno s + seg_size,
           sn_outstanding_segments := sm_assign seg_start seg (sn_outstanding_segments s),
           sn_segments_out := sn_segments_out s @ [seg]\<rparr>)"

text \<open>One round of the sending loop; the result says whether the loop goes on.\<close>

definition sn_fill_round :: "u64 \<Rightarrow> tcp_sender \<Rightarrow> bool \<times> tcp_sender" where
  "sn_fill_round window_right s =
     (if \<not> sn_syn_sent s then
        let seg = tcp_segment_new\<lparr>ts_header := tcp_header_new
                    \<lparr>th_syn := True, th_seqno := wrap (sn_next_seqno s) (sn_isn s)\<rparr>\<rparr>
        in (True, sn_track 1 seg (s\<lparr>sn_syn_sent := True\<rparr>))
      else
        let available = window_right - sn_next_seqno s;
            payload_size = min (min available MAX_PAYLOAD_SIZE) (bs_buffer_size (sn_stream s))
        in if payload_size = 0 \<and> bs_eof (sn_stream s) \<and> \<not> sn_fin_sent s then
             (if sn_next_seqno s < window_right then
                let seg = tcp_segment_new\<lparr>ts_header := tcp_header_new
                            \<lparr>th_seqno := wrap (sn_next_seqno s) (sn_isn s), th_fin := True\<rparr>\<rparr>
                in (False, sn_track 1 seg (s\<lparr>sn_fin_sent := True\<rparr>))
              else (False, s))
           else if payload_size = 0 then (False, s)
           else
             let (payload, stream) = bs_read payload_size (sn_stream s);
                 s = s\<lparr>sn_stream := stream\<rparr>;
                 seg = tcp_segment_new\<lparr>ts_header := tcp_header_new
                         \<lparr>th_seqno := wrap (sn_next_seqno s) (sn_isn s)\<rparr>, ts_payload := payload\<rparr>;
                 fin = (\<not> sn_fin_sent s \<and> bs_eof (sn_stream s)
                        \<and> sn_next_seqno s + length_in_sequence_space seg < window_right);
                 seg = (if fin then seg\<lparr>ts_header := (ts_header seg)\<lparr>th_fin := True\<rparr>\<rparr> else seg);
                 s = (if fin then s\<lparr>sn_fin_sent := True\<rparr> else s)
             in (\<not> th_fin (ts_header seg), sn_track (length_in_sequence_space seg) seg s))"

subsection \<open>The loop ends\<close>

lemma sn_track_simps [simp]:
  "sn_next_seqno (sn_track n seg s) = sn_next_seqno s + n"
  "sn_segments_out (sn_track n seg s) = sn_segments_out s @ [seg]"
  "sn_outstanding_segments (sn_track n seg s) = sm_assign (sn_next_seqno s) seg (sn_outstanding_segments s)"
  "sn_stream (sn_track n seg s) = sn_stream s" "sn_isn (sn_track n seg s) = sn_isn s"
  "sn_ackno (sn_track n seg s) = sn_ackno s" "sn_window_size (sn_track n seg s) = sn_window_size s"
  "sn_syn_sent (sn_track n seg s) = sn_syn_sent s" "sn_fin_sent (sn_track n seg s) = sn_fin_sent s"
  "sn_rto (sn_track n seg s) = sn_rto s"
  "sn_initial_retransmission_timeout (sn_track n seg s) = sn_initial_retransmission_timeout s"
  "sn_consecutive_retransmissions (sn_track n seg s) = sn_consecutive_retransmissions s"
  by (simp_all add: sn_track_def Let_def)

text \<open>What a read of at most \<open>n\<close> bytes returns is as long as asked, when there is as much.\<close>

lemma length_bs_read:
  assumes "n \<le> bs_buffer_size b"
  shows "length (fst (bs_read n b)) = unat n"
proof -
  have "unat n \<le> length (bs_buffer b)"
    using assms unat_size_of_le [of "bs_buffer b"] by (simp add: bs_buffer_size_def word_le_nat_alt)
  then show ?thesis using assms by (simp add: bs_read_def bs_peek_output_def Let_def min_absorb1)
qed

text \<open>A round moves the next sequence number forward, and not beyond the window.\<close>

lemma sn_fill_round_progress:
  assumes "sn_next_seqno s < window_right" "sn_fill_round window_right s = (True, s')"
  shows "sn_next_seqno s < sn_next_seqno s' \<and> sn_next_seqno s' \<le> window_right"
proof (cases "sn_syn_sent s")
  case False
  then have "sn_next_seqno s' = sn_next_seqno s + 1"
    using assms(2) by (auto simp: sn_fill_round_def Let_def)
  moreover have "unat (sn_next_seqno s + 1) = unat (sn_next_seqno s) + 1"
    using assms(1) unat_lt_u64 [of window_right] unat_add_u64 [of "sn_next_seqno s" 1]
    by (simp add: word_less_nat_alt)
  ultimately show ?thesis using assms(1) by (simp add: word_less_nat_alt word_le_nat_alt)
next
  case True
  let ?n = "min (min (window_right - sn_next_seqno s) MAX_PAYLOAD_SIZE) (bs_buffer_size (sn_stream s))"
  have n0: "?n \<noteq> 0" using True assms(2) by (auto simp: sn_fill_round_def Let_def split: if_splits)
  have len: "length (fst (bs_read ?n (sn_stream s))) = unat ?n"
    by (rule length_bs_read) simp
  then have size: "size_of (fst (bs_read ?n (sn_stream s))) = ?n"
    by (simp add: size_of_def del: of_nat_min)
  have next': "sn_next_seqno s' = sn_next_seqno s + ?n"
    using True n0 assms(2) size
    by (auto simp: sn_fill_round_def Let_def split_beta length_in_sequence_space_def
        tcp_segment_new_def tcp_header_new_def split: if_splits)
  have "?n \<le> window_right - sn_next_seqno s"
    by (rule order_trans [OF min.cobounded1 min.cobounded1])
  then have "unat ?n \<le> unat (window_right - sn_next_seqno s)"
    by (simp only: word_le_nat_alt)
  also have "\<dots> = unat window_right - unat (sn_next_seqno s)"
    using assms(1) by (intro unat_sub_u64) simp
  finally have le: "unat (sn_next_seqno s) + unat ?n \<le> unat window_right"
    using assms(1) by (simp add: word_less_nat_alt)
  then have "unat (sn_next_seqno s + ?n) = unat (sn_next_seqno s) + unat ?n"
    using unat_lt_u64 [of window_right] by (intro unat_add_u64) simp
  moreover have "0 < unat ?n" using n0 by (simp add: unat_gt_0)
  ultimately show ?thesis
    unfolding next' word_less_nat_alt word_le_nat_alt using le by simp
qed

function sn_fill_loop :: "u64 \<Rightarrow> tcp_sender \<Rightarrow> tcp_sender" where
  "sn_fill_loop window_right s =
     (if sn_next_seqno s < window_right then
        (let (continue, s') = sn_fill_round window_right s
         in if continue then sn_fill_loop window_right s' else s')
      else s)"
  by pat_completeness auto
termination
proof (relation "measure (\<lambda>(right, s). unat right - unat (sn_next_seqno s))")
  fix right s x continue s'
  assume "sn_next_seqno s < right" "x = sn_fill_round right s" "(continue, s') = x" continue
  then show "((right, s'), right, s) \<in> measure (\<lambda>(right, s). unat right - unat (sn_next_seqno s))"
    using sn_fill_round_progress [of s right s'] by (auto simp: word_less_nat_alt word_le_nat_alt)
qed simp

declare sn_fill_loop.simps [simp del]

definition fill_window :: "tcp_sender \<Rightarrow> tcp_sender" where
  "fill_window s =
     (let effective_window = (if sn_window_size s = 0 then 1 else sn_window_size s);
          window_right = sn_ackno s + ucast effective_window
      in sn_fill_loop window_right s)"

definition ack_received :: "wrapping_int32 \<Rightarrow> u16 \<Rightarrow> tcp_sender \<Rightarrow> tcp_sender" where
  "ack_received ackno window_size s =
     (let absolute_ackno = unwrap ackno (sn_isn s) (sn_ackno s)
      in if sn_next_seqno s < absolute_ackno then s
         else
           let s = s\<lparr>sn_window_size := window_size\<rparr>;
               left = filter (\<lambda>(seg_start, seg).
                        \<not> seg_start + length_in_sequence_space seg \<le> absolute_ackno)
                        (sn_outstanding_segments s);
               acked_something = (left \<noteq> sn_outstanding_segments s);
               s = s\<lparr>sn_outstanding_segments := left\<rparr>;
               s = (if acked_something then
                      s\<lparr>sn_timer := 0, sn_rto := sn_initial_retransmission_timeout s,
                        sn_consecutive_retransmissions := 0\<rparr>
                    else s);
               s = (if sn_ackno s < absolute_ackno then s\<lparr>sn_ackno := absolute_ackno\<rparr> else s);
               s = fill_window s
           in if sn_outstanding_segments s = [] then s\<lparr>sn_timer_running := False\<rparr> else s)"

text \<open>\<open>_timer\<close> is an \<open>unsigned int\<close>: adding a \<open>size_t\<close> keeps its low 32 bits.\<close>

definition sn_tick :: "u64 \<Rightarrow> tcp_sender \<Rightarrow> tcp_sender" where
  "sn_tick ms_since_last_tick s =
     (if sn_timer_running s then
        let s = s\<lparr>sn_timer := ucast (ucast (sn_timer s) + ms_since_last_tick)\<rparr>
        in if sn_rto s \<le> sn_timer s then
             (case sn_outstanding_segments s of
                [] \<Rightarrow> s
              | (_, seg) # _ \<Rightarrow>
                  let s = s\<lparr>sn_timer := 0, sn_segments_out := sn_segments_out s @ [seg]\<rparr>
                  in if 0 < sn_window_size s
                     then s\<lparr>sn_rto := sn_rto s * 2,
                            sn_consecutive_retransmissions := sn_consecutive_retransmissions s + 1\<rparr>
                     else s\<lparr>sn_consecutive_retransmissions := sn_consecutive_retransmissions s + 1\<rparr>)
           else s
      else s)"

definition send_empty_segment :: "tcp_sender \<Rightarrow> tcp_sender" where
  "send_empty_segment s = s\<lparr>sn_segments_out := sn_segments_out s @
     [tcp_segment_new\<lparr>ts_header := tcp_header_new\<lparr>th_seqno := wrap (sn_next_seqno s) (sn_isn s)\<rparr>\<rparr>]\<rparr>"

definition next_seqno :: "tcp_sender \<Rightarrow> wrapping_int32" where
  "next_seqno s = wrap (sn_next_seqno s) (sn_isn s)"

section \<open>The invariant\<close>

text \<open>Segments in a row, in sequence space, from \<open>lo\<close> to \<open>hi\<close>.\<close>

abbreviation seq_len :: "tcp_segment \<Rightarrow> nat" where
  "seq_len seg \<equiv> unat (length_in_sequence_space seg)"

fun chain :: "nat \<Rightarrow> (u64, tcp_segment) std_map \<Rightarrow> nat \<Rightarrow> bool" where
  "chain lo [] hi \<longleftrightarrow> lo = hi"
| "chain lo ((k, seg) # m) hi \<longleftrightarrow> unat k = lo \<and> 0 < seq_len seg \<and> chain (lo + seq_len seg) m hi"

lemma chain_le: "chain lo m hi \<Longrightarrow> lo \<le> hi"
  by (induction lo m hi rule: chain.induct) auto

lemma chain_append: "chain lo (m @ m') hi \<longleftrightarrow> (\<exists>mid. chain lo m mid \<and> chain mid m' hi)"
  by (induction lo m hi rule: chain.induct) auto

lemma chain_in: "chain lo m hi \<Longrightarrow> (k, seg) \<in> set m \<Longrightarrow> lo \<le> unat k \<and> unat k + seq_len seg \<le> hi"
  by (induction lo m hi rule: chain.induct) (auto dest: chain_le)

lemma chain_keys: "chain lo m hi \<Longrightarrow> p \<in> set m \<Longrightarrow> unat (fst p) < hi"
  by (induction lo m hi rule: chain.induct) (auto dest: chain_le)

lemma chain_assign:
  assumes "chain lo m (unat k)" "0 < seq_len seg"
  shows "sm_assign k seg m = m @ [(k, seg)]" "chain lo (sm_assign k seg m) (unat k + seq_len seg)"
proof -
  show eq: "sm_assign k seg m = m @ [(k, seg)]"
    using chain_keys [OF assms(1)] by (intro sm_assign_last) (simp add: word_less_nat_alt)
  show "chain lo (sm_assign k seg m) (unat k + seq_len seg)"
    unfolding eq chain_append using assms by auto
qed

abbreviation sn_read :: "tcp_sender \<Rightarrow> nat" where
  "sn_read s \<equiv> unat (bs_bytes_read (sn_stream s))"

text \<open>
  What an emitted segment is, \<open>W\<close> being all the bytes written to the stream so far: a
  segment of the part already sent.
\<close>

definition emitted_ok :: "byte list \<Rightarrow> tcp_sender \<Rightarrow> tcp_segment \<Rightarrow> bool" where
  "emitted_ok W s seg \<longleftrightarrow> length (ts_payload seg) \<le> 1000
     \<and> (th_fin (ts_header seg) \<longrightarrow> sn_fin_sent s) \<and> \<not> th_ack (ts_header seg)
     \<and> (carries_nothing seg \<or> (\<exists>i. stream_segment (take (sn_read s) W) (sn_isn s) seg i))"

text \<open>A sender that has sent the same or more bytes, and more only before the FIN.\<close>

definition sent_more :: "tcp_sender \<Rightarrow> tcp_sender \<Rightarrow> bool" where
  "sent_more s s' \<longleftrightarrow> sn_isn s' = sn_isn s \<and> sn_read s \<le> sn_read s'
     \<and> (sn_fin_sent s \<longrightarrow> sn_fin_sent s' \<and> sn_read s' = sn_read s)"

lemma sent_more_refl [simp]: "sent_more s s"
  by (simp add: sent_more_def)

lemma sent_more_trans: "sent_more s s' \<Longrightarrow> sent_more s' s'' \<Longrightarrow> sent_more s s''"
  by (auto simp: sent_more_def)

lemma excerpt_append: "excerpt W i p \<Longrightarrow> excerpt (W @ d) i p"
  by (auto simp: excerpt_def)

lemma stream_segment_append:
  "stream_segment W isn seg i \<Longrightarrow> d = [] \<or> \<not> th_fin (ts_header seg) \<Longrightarrow> stream_segment (W @ d) isn seg i"
  by (auto simp: stream_segment_def excerpt_append split del: if_split)

lemma sent_prefix_grows:
  assumes "sent_more s s'" "take (sn_read s) W' = take (sn_read s) W"
  obtains d where "take (sn_read s') W' = take (sn_read s) W @ d"
    "sn_fin_sent s \<longrightarrow> d = []"
proof
  let ?d = "take (sn_read s' - sn_read s) (drop (sn_read s) W')"
  have "take (sn_read s') W' = take (sn_read s) W' @ ?d"
    using assms(1) unfolding sent_more_def by (metis le_add_diff_inverse take_add)
  then show "take (sn_read s') W' = take (sn_read s) W @ ?d" unfolding assms(2) .
  show "sn_fin_sent s \<longrightarrow> ?d = []" using assms(1) by (simp add: sent_more_def)
qed

lemma emitted_ok_mono:
  assumes "emitted_ok W s seg" "sent_more s s'" "take (sn_read s) W' = take (sn_read s) W"
  shows "emitted_ok W' s' seg"
proof -
  obtain d where d: "take (sn_read s') W' = take (sn_read s) W @ d" "sn_fin_sent s \<longrightarrow> d = []"
    using sent_prefix_grows [OF assms(2,3)] .
  have "d = [] \<or> \<not> th_fin (ts_header seg)"
    using assms(1) d(2) by (auto simp: emitted_ok_def)
  then show ?thesis
    using assms(1,2) stream_segment_append unfolding emitted_ok_def d(1) sent_more_def by fastforce
qed

definition sn_ok :: "byte list \<Rightarrow> tcp_sender \<Rightarrow> bool" where
  "sn_ok W s \<longleftrightarrow> bs_ok (sn_stream s) \<and> length W < 2 ^ 62
     \<and> bs_buffer (sn_stream s) = drop (sn_read s) W \<and> sn_read s \<le> length W
     \<and> unat (sn_next_seqno s) = of_bool (sn_syn_sent s) + sn_read s + of_bool (sn_fin_sent s)
     \<and> (\<not> sn_syn_sent s \<longrightarrow> sn_read s = 0 \<and> \<not> sn_fin_sent s \<and> sn_outstanding_segments s = [])
     \<and> (sn_fin_sent s \<longrightarrow> bs_input_ended (sn_stream s) \<and> bs_buffer (sn_stream s) = [])
     \<and> (\<exists>lo. chain lo (sn_outstanding_segments s) (unat (sn_next_seqno s)) \<and> lo \<le> unat (sn_ackno s))
     \<and> sn_ackno s \<le> sn_next_seqno s
     \<and> (\<forall>k seg. (k, seg) \<in> set (sn_outstanding_segments s) \<longrightarrow>
            unat (sn_ackno s) < unat k + seq_len seg \<and> emitted_ok W s seg
            \<and> (k = 0 \<longrightarrow> seq_len seg = 1))
     \<and> (\<forall>seg \<in> set (sn_segments_out s). emitted_ok W s seg)"

lemma sn_okD:
  assumes "sn_ok W s"
  shows "bs_ok (sn_stream s)" "length W < 2 ^ 62" "bs_buffer (sn_stream s) = drop (sn_read s) W"
    "sn_read s \<le> length W"
    "unat (sn_next_seqno s) = of_bool (sn_syn_sent s) + sn_read s + of_bool (sn_fin_sent s)"
    "\<not> sn_syn_sent s \<longrightarrow> sn_read s = 0 \<and> \<not> sn_fin_sent s \<and> sn_outstanding_segments s = []"
    "sn_fin_sent s \<longrightarrow> bs_input_ended (sn_stream s) \<and> bs_buffer (sn_stream s) = []"
    "\<exists>lo. chain lo (sn_outstanding_segments s) (unat (sn_next_seqno s)) \<and> lo \<le> unat (sn_ackno s)"
    "sn_ackno s \<le> sn_next_seqno s"
    "\<forall>k seg. (k, seg) \<in> set (sn_outstanding_segments s) \<longrightarrow>
       unat (sn_ackno s) < unat k + seq_len seg \<and> emitted_ok W s seg \<and> (k = 0 \<longrightarrow> seq_len seg = 1)"
    "\<forall>seg \<in> set (sn_segments_out s). emitted_ok W s seg"
  using assms unfolding sn_ok_def by - (elim conjE, assumption)+

text \<open>Sending a new segment: what the three kinds of segments have in common.\<close>

lemma sn_track_ok:
  assumes ok: "sn_ok W s" and seg: "0 < seq_len seg" "sz = length_in_sequence_space seg"
    and s': "sn_outstanding_segments s' = sn_outstanding_segments s" "sn_next_seqno s' = sn_next_seqno s"
    "sn_ackno s' = sn_ackno s" "sn_segments_out s' = sn_segments_out s" "sn_isn s' = sn_isn s"
    and grow: "sn_read s \<le> sn_read s'" "sn_fin_sent s \<longrightarrow> sn_fin_sent s' \<and> sn_read s' = sn_read s"
    and emit: "emitted_ok W s' seg" and stream: "bs_ok (sn_stream s')"
    "bs_buffer (sn_stream s') = drop (sn_read s') W" "sn_read s' \<le> length W"
    and flags: "sn_syn_sent s'" "unat (sn_next_seqno s) + seq_len seg
        = 1 + sn_read s' + of_bool (sn_fin_sent s')"
    "sn_fin_sent s' \<longrightarrow> bs_input_ended (sn_stream s') \<and> bs_buffer (sn_stream s') = []"
    and first: "sn_next_seqno s = 0 \<longrightarrow> seq_len seg = 1"
  shows "sn_ok W (sn_track sz seg s')"
proof -
  note old = sn_okD [OF ok]
  have next': "unat (sn_next_seqno s + sz) = unat (sn_next_seqno s) + seq_len seg"
    unfolding seg(2) using old(2) flags(2) stream(3) by (intro unat_add_u64) simp
  obtain lo where lo: "chain lo (sn_outstanding_segments s) (unat (sn_next_seqno s))" "lo \<le> unat (sn_ackno s)"
    using old(8) by blast
  note new = chain_assign [OF lo(1) seg(1)]
  have same: "emitted_ok W (sn_track sz seg s') x = emitted_ok W s' x" for x
    by (simp add: emitted_ok_def)
  have emitted: "emitted_ok W s' x" if "emitted_ok W s x" for x
    by (rule emitted_ok_mono [OF that]) (simp_all add: sent_more_def grow s'(5))
  show ?thesis
    unfolding sn_ok_def sn_track_simps s' same new(1)
  proof (intro conjI)
    show "unat (sn_next_seqno s + sz) = of_bool (sn_syn_sent s') + sn_read s' + of_bool (sn_fin_sent s')"
      unfolding next' using flags(1,2) by simp
    show "\<exists>lo. chain lo (sn_outstanding_segments s @ [(sn_next_seqno s, seg)]) (unat (sn_next_seqno s + sz))
        \<and> lo \<le> unat (sn_ackno s)"
      using new lo(2) next' by auto
    show "sn_ackno s \<le> sn_next_seqno s + sz"
      using old(9) by (simp add: word_le_nat_alt next')
    have "unat (sn_ackno s) < unat (sn_next_seqno s) + seq_len seg"
      using old(9) seg(1) by (simp add: word_le_nat_alt)
    then show "\<forall>k seg'. (k, seg') \<in> set (sn_outstanding_segments s @ [(sn_next_seqno s, seg)]) \<longrightarrow>
        unat (sn_ackno s) < unat k + seq_len seg' \<and> emitted_ok W s' seg' \<and> (k = 0 \<longrightarrow> seq_len seg' = 1)"
      using old(10) emitted emit first by auto
    show "\<forall>x \<in> set (sn_segments_out s @ [seg]). emitted_ok W s' x"
      using old(11) emitted emit by auto
  qed (use old(2) stream flags in simp_all)
qed


lemma bs_input_ended_read [simp]: "bs_input_ended (snd (bs_read n b)) = bs_input_ended b"
  by (simp add: bs_read_def bs_pop_output_def Let_def)

text \<open>The segment carrying \<open>n\<close> bytes of the stream.\<close>

definition data_segment :: "u64 \<Rightarrow> bool \<Rightarrow> tcp_sender \<Rightarrow> tcp_segment" where
  "data_segment n fin s = tcp_segment_new\<lparr>ts_header := tcp_header_new
     \<lparr>th_seqno := wrap (sn_next_seqno s) (sn_isn s), th_fin := fin\<rparr>,
     ts_payload := fst (bs_read n (sn_stream s))\<rparr>"

text \<open>The four ways a round ends.\<close>

lemma sn_fill_round_cases:
  assumes "sn_next_seqno s < window_right" "sn_fill_round window_right s = (c, s')"
  obtains (syn) seg where "\<not> sn_syn_sent s" "c"
      "seg = tcp_segment_new\<lparr>ts_header := tcp_header_new
         \<lparr>th_syn := True, th_seqno := wrap (sn_next_seqno s) (sn_isn s)\<rparr>\<rparr>"
      "s' = sn_track 1 seg (s\<lparr>sn_syn_sent := True\<rparr>)"
  | (fin) seg where "sn_syn_sent s" "\<not> c" "bs_eof (sn_stream s)" "\<not> sn_fin_sent s"
      "seg = tcp_segment_new\<lparr>ts_header := tcp_header_new
         \<lparr>th_seqno := wrap (sn_next_seqno s) (sn_isn s), th_fin := True\<rparr>\<rparr>"
      "s' = sn_track 1 seg (s\<lparr>sn_fin_sent := True\<rparr>)"
  | (idle) "sn_syn_sent s" "\<not> c" "bs_buffer_size (sn_stream s) = 0" "s' = s"
      "bs_eof (sn_stream s) \<longrightarrow> sn_fin_sent s"
  | (data) n fin where "sn_syn_sent s" "c \<longleftrightarrow> \<not> fin" "0 < n" "n \<le> window_right - sn_next_seqno s"
      "n \<le> 1000" "n \<le> bs_buffer_size (sn_stream s)"
      "fin \<longleftrightarrow> \<not> sn_fin_sent s \<and> bs_eof (snd (bs_read n (sn_stream s)))
         \<and> sn_next_seqno s + n < window_right"
      "s' = sn_track (length_in_sequence_space (data_segment n fin s)) (data_segment n fin s)
         (s\<lparr>sn_stream := snd (bs_read n (sn_stream s)), sn_fin_sent := sn_fin_sent s \<or> fin\<rparr>)"
proof -
  let ?n = "min (min (window_right - sn_next_seqno s) MAX_PAYLOAD_SIZE) (bs_buffer_size (sn_stream s))"
  let ?fin = "\<not> sn_fin_sent s \<and> bs_eof (snd (bs_read ?n (sn_stream s)))
     \<and> sn_next_seqno s + ?n < window_right"
  consider "\<not> sn_syn_sent s" | "sn_syn_sent s" "?n = 0" "bs_eof (sn_stream s) \<and> \<not> sn_fin_sent s"
    | "sn_syn_sent s" "?n = 0" "\<not> (bs_eof (sn_stream s) \<and> \<not> sn_fin_sent s)" | "sn_syn_sent s" "?n \<noteq> 0"
    by blast
  then show thesis
  proof cases
    case 1
    then show thesis using assms(2) syn by (auto simp: sn_fill_round_def Let_def)
  next
    case 2
    then show thesis using assms fin by (auto simp: sn_fill_round_def Let_def)
  next
    case 3
    have "window_right - sn_next_seqno s \<noteq> 0" using assms(1) by auto
    then have "bs_buffer_size (sn_stream s) = 0"
      using 3(2) by (auto simp: min_def MAX_PAYLOAD_SIZE_def split: if_splits)
    then show thesis using 3 assms(2) idle by (auto simp: sn_fill_round_def Let_def)
  next
    case 4
    have size: "size_of (fst (bs_read ?n (sn_stream s))) = ?n"
      using length_bs_read [of ?n "sn_stream s"] by (simp add: size_of_def del: of_nat_min)
    have len: "length_in_sequence_space (data_segment ?n False s) = ?n"
      using size by (simp add: length_in_sequence_space_def data_segment_def
          tcp_segment_new_def tcp_header_new_def)
    have round: "sn_fill_round window_right s = (\<not> ?fin,
       sn_track (length_in_sequence_space (data_segment ?n ?fin s)) (data_segment ?n ?fin s)
         (s\<lparr>sn_stream := snd (bs_read ?n (sn_stream s)), sn_fin_sent := sn_fin_sent s \<or> ?fin\<rparr>))"
    proof -
      have form: "(let seg = data_segment ?n False s;
           fin = (\<not> sn_fin_sent s \<and> bs_eof (snd (bs_read ?n (sn_stream s)))
             \<and> sn_next_seqno s + length_in_sequence_space seg < window_right);
           seg = (if fin then seg\<lparr>ts_header := (ts_header seg)\<lparr>th_fin := True\<rparr>\<rparr> else seg);
           s' = s\<lparr>sn_stream := snd (bs_read ?n (sn_stream s))\<rparr>;
           s' = (if fin then s'\<lparr>sn_fin_sent := True\<rparr> else s')
         in (\<not> th_fin (ts_header seg), sn_track (length_in_sequence_space seg) seg s'))
       = (\<not> ?fin, sn_track (length_in_sequence_space (data_segment ?n ?fin s)) (data_segment ?n ?fin s)
         (s\<lparr>sn_stream := snd (bs_read ?n (sn_stream s)), sn_fin_sent := sn_fin_sent s \<or> ?fin\<rparr>))"
        unfolding Let_def len
        by (cases s) (auto simp: data_segment_def tcp_segment_new_def tcp_header_new_def)
      show ?thesis
        using 4 unfolding form [symmetric]
        by (simp add: sn_fill_round_def Let_def split_beta data_segment_def
            tcp_segment_new_def tcp_header_new_def cong: if_cong)
    qed
    show thesis
    proof (rule data [of "?fin" "?n"])
      show "?n \<le> window_right - sn_next_seqno s"
        by (rule order_trans [OF min.cobounded1 min.cobounded1])
      show "?n \<le> 1000"
        unfolding MAX_PAYLOAD_SIZE_def [symmetric] by (rule order_trans [OF min.cobounded1 min.cobounded2])
      show "0 < ?n" using 4(2) unfolding word_gt_0 by (rule not_sym)
    qed (use 4 assms(2) in \<open>simp_all add: round\<close>)
  qed
qed


lemma stream_segmentI:
  "excerpt W i (ts_payload seg) \<Longrightarrow> \<not> th_syn (ts_header seg) \<Longrightarrow>
   th_seqno (ts_header seg) = wrap (of_nat (i + 1)) isn \<Longrightarrow>
   (th_fin (ts_header seg) \<Longrightarrow> i + length (ts_payload seg) = length W) \<Longrightarrow> stream_segment W isn seg i"
  by (simp add: stream_segment_def)

text \<open>Once the SYN is sent and the FIN is not, the next sequence number is one past the bytes read.\<close>

lemma sn_next_is:
  assumes "sn_ok W s" "sn_syn_sent s" "\<not> sn_fin_sent s"
  shows "sn_next_seqno s = of_nat (sn_read s + 1)"
  using sn_okD(5) [OF assms(1)] assms(2,3) by (intro unat_eqI_u64) simp

lemma sn_fill_round_ok:
  assumes ok: "sn_ok W s" and lt: "sn_next_seqno s < window_right"
    and round: "sn_fill_round window_right s = (c, s')"
  shows "sn_ok W s'"
  using lt round
proof (cases rule: sn_fill_round_cases)
  case (syn seg)
  note old = sn_okD [OF ok]
  have zero: "sn_read s = 0" "\<not> sn_fin_sent s" using old(6) syn(1) by simp_all
  then have next0: "sn_next_seqno s = 0" using old(5) syn(1) by (simp add: unat_eq_0)
  have "stream_segment (take (sn_read s) W) (sn_isn s) seg 0"
    by (simp add: stream_segment_def excerpt_def syn(3) next0 tcp_segment_new_def tcp_header_new_def)
  then have "emitted_ok W (s\<lparr>sn_syn_sent := True\<rparr>) seg"
    unfolding emitted_ok_def by (auto simp: syn(3) tcp_segment_new_def tcp_header_new_def)
  moreover have "length_in_sequence_space seg = 1"
    by (simp add: syn(3) length_in_sequence_space_def tcp_segment_new_def tcp_header_new_def)
  ultimately show ?thesis
    unfolding syn(4) using old(1,3,4) zero next0 by (intro sn_track_ok [OF ok]) simp_all
next
  case (fin seg)
  note old = sn_okD [OF ok]
  have empty: "bs_buffer (sn_stream s) = []" and ended: "bs_input_ended (sn_stream s)"
    using fin(3) by (simp_all add: bs_eof_def bs_buffer_empty_def)
  then have read: "sn_read s = length W" using old(3,4) by simp
  have next_pos: "sn_next_seqno s \<noteq> 0" using old(5) fin(1) by (auto simp: unat_eq_0 [symmetric])
  have "stream_segment (take (sn_read s) W) (sn_isn s) seg (sn_read s)"
    using sn_next_is [OF ok fin(1,4)]
    by (intro stream_segmentI)
      (simp_all add: fin(5) read excerpt_def tcp_segment_new_def tcp_header_new_def)
  then have "emitted_ok W (s\<lparr>sn_fin_sent := True\<rparr>) seg"
    unfolding emitted_ok_def using ended by (auto simp: fin(5) tcp_segment_new_def tcp_header_new_def)
  moreover have "length_in_sequence_space seg = 1"
    by (simp add: fin(5) length_in_sequence_space_def tcp_segment_new_def tcp_header_new_def)
  ultimately show ?thesis
    unfolding fin(6) using old fin(1,4) empty ended next_pos by (intro sn_track_ok [OF ok]) simp_all
next
  case idle
  then show ?thesis using ok by simp
next
  case (data n fin)
  note old = sn_okD [OF ok]
  note sok = old(1)
  have len: "unat n \<le> length (bs_buffer (sn_stream s))"
    using data(6) unat_size_of_le [of "bs_buffer (sn_stream s)"]
    by (simp add: bs_buffer_size_def word_le_nat_alt)
  have pos: "0 < unat n" using data(3) by (simp add: unat_gt_0)
  have buf: "bs_buffer (sn_stream s) \<noteq> []" using len pos by auto
  then have nofin: "\<not> sn_fin_sent s" using old(7) by blast
  let ?st = "snd (bs_read n (sn_stream s))"
  have fits: "sn_read s + unat n \<le> length W" using len old(3,4) by simp
  have read': "unat (bs_bytes_read ?st) = sn_read s + unat n"
    using len fits old(2) by (simp add: bs_read_eq [OF sok] min_absorb1 unat_add_u64)
  have buf': "bs_buffer ?st = drop (unat (bs_bytes_read ?st)) W"
    unfolding read' using old(3) by (simp add: bs_read_eq [OF sok] add.commute)
  have payload: "fst (bs_read n (sn_stream s)) = take (unat n) (drop (sn_read s) W)"
    using old(3) by (simp add: bs_read_eq [OF sok])
  have plen: "length (fst (bs_read n (sn_stream s))) = unat n"
    unfolding payload using fits by simp
  have finW: "sn_read s + unat n = length W \<and> bs_input_ended (sn_stream s) \<and> bs_buffer ?st = []" if fin
    using that data(7) fits buf' read' by (auto simp: bs_eof_def bs_buffer_empty_def)
  let ?seg = "data_segment n fin s"
  let ?s = "s\<lparr>sn_stream := ?st, sn_fin_sent := sn_fin_sent s \<or> fin\<rparr>"
  have flags: "\<not> th_syn (ts_header ?seg)" "\<not> th_ack (ts_header ?seg)" "th_fin (ts_header ?seg) = fin"
    "ts_payload ?seg = fst (bs_read n (sn_stream s))"
    by (simp_all add: data_segment_def tcp_segment_new_def tcp_header_new_def)
  have seqlen: "seq_len ?seg = unat n + of_bool fin"
  proof -
    have "length_in_sequence_space ?seg = n + of_bool fin"
      using plen by (simp add: length_in_sequence_space_def flags size_of_def)
    moreover have "unat (n + of_bool fin) = unat n + unat (of_bool fin :: u64)"
      using fits old(2) by (intro unat_add_u64) simp
    ultimately show ?thesis by simp
  qed
  have "stream_segment (take (sn_read ?s) W) (sn_isn ?s) ?seg (sn_read s)"
  proof (rule stream_segmentI)
    show "excerpt (take (sn_read ?s) W) (sn_read s) (ts_payload ?seg)"
      unfolding flags payload using read' fits by (simp add: excerpt_def drop_take)
    show "th_seqno (ts_header ?seg) = wrap (of_nat (sn_read s + 1)) (sn_isn ?s)"
      unfolding sn_next_is [OF ok data(1) nofin, symmetric]
      by (simp add: data_segment_def tcp_segment_new_def tcp_header_new_def)
    show "sn_read s + length (ts_payload ?seg) = length (take (sn_read ?s) W)" if "th_fin (ts_header ?seg)"
      using that finW plen read' unfolding flags by simp
  qed (simp add: flags)
  moreover have "unat n \<le> 1000" using data(5) by (simp add: word_le_nat_alt)
  ultimately have "emitted_ok W ?s ?seg"
    unfolding emitted_ok_def using plen by (auto simp: flags)
  then show ?thesis
    unfolding data(8)
  proof (intro sn_track_ok [OF ok])
    show "bs_ok (sn_stream ?s)" using bs_pop_ok [OF sok] by (simp add: bs_read_def)
    show "unat (sn_next_seqno s) + seq_len ?seg = 1 + sn_read ?s + of_bool (sn_fin_sent ?s)"
      using old(5) data(1) nofin read' by (simp add: seqlen)
    show "sn_fin_sent ?s \<longrightarrow> bs_input_ended (sn_stream ?s) \<and> bs_buffer (sn_stream ?s) = []"
      using nofin finW by simp
    show "sn_next_seqno s = 0 \<longrightarrow> seq_len ?seg = 1"
      using old(5) data(1) by (auto simp: unat_eq_0 [symmetric])
  qed (use buf' read' fits data(1) seqlen pos nofin in simp_all)
qed


text \<open>The loop, one round at a time: its equations and its induction rule.\<close>

lemma sn_fill_loop_step:
  "sn_next_seqno s < window_right \<Longrightarrow> sn_fill_round window_right s = (c, s') \<Longrightarrow>
   sn_fill_loop window_right s = (if c then sn_fill_loop window_right s' else s')"
  by (simp add: sn_fill_loop.simps [of window_right s])

lemma sn_fill_loop_stop: "window_right \<le> sn_next_seqno s \<Longrightarrow> sn_fill_loop window_right s = s"
  by (subst sn_fill_loop.simps) (simp add: not_less [symmetric])

lemma sn_fill_loop_induct:
  assumes "\<And>s. (\<And>s'. sn_next_seqno s < window_right \<Longrightarrow>
      sn_fill_round window_right s = (True, s') \<Longrightarrow> P s') \<Longrightarrow> P s"
  shows "P s"
proof -
  have "right = window_right \<longrightarrow> P s" for right
    by (induction right s rule: sn_fill_loop.induct) (metis assms)
  then show ?thesis by simp
qed

text \<open>What every round keeps, the loop keeps.\<close>

lemma sn_fill_loop_inv:
  assumes keeps: "\<And>s c s'. P s \<Longrightarrow> sn_next_seqno s < window_right \<Longrightarrow>
      sn_fill_round window_right s = (c, s') \<Longrightarrow> P s'"
  shows "P s \<Longrightarrow> P (sn_fill_loop window_right s)"
proof (induction s rule: sn_fill_loop_induct [where window_right = window_right])
  case (1 s)
  show ?case
  proof (cases "sn_next_seqno s < window_right")
    case True
    obtain c s' where round: "sn_fill_round window_right s = (c, s')" by fastforce
    have "P s'" by (rule keeps [OF 1(2) True round])
    then show ?thesis using 1(1) True round by (cases c) (simp_all add: sn_fill_loop_step)
  next
    case False
    then show ?thesis using 1(2) by (simp add: sn_fill_loop_stop not_less)
  qed
qed

lemma sn_fill_round_sent_more:
  assumes "sn_ok W s" "sn_next_seqno s < window_right" "sn_fill_round window_right s = (c, s')"
  shows "sent_more s s'"
  using assms(2,3)
proof (cases rule: sn_fill_round_cases)
  case (data n fin)
  note old = sn_okD [OF assms(1)]
  have len: "unat n \<le> length (bs_buffer (sn_stream s))"
    using data(6) unat_size_of_le [of "bs_buffer (sn_stream s)"]
    by (simp add: bs_buffer_size_def word_le_nat_alt)
  then have "sn_read s + unat n < 2 ^ 64" using old(2-4) by simp
  then have "sn_read s' = sn_read s + unat n"
    using len by (simp add: data(8) bs_read_eq [OF old(1)] min_absorb1 unat_add_u64)
  moreover have "\<not> sn_fin_sent s" using len data(3) old(7) by (auto simp: word_gt_0 unat_eq_0)
  ultimately show ?thesis by (simp add: data(8) sent_more_def)
qed (auto simp: sent_more_def)

lemma sn_fill_loop_ok: "sn_ok W s \<Longrightarrow> sn_ok W (sn_fill_loop window_right s)"
  by (rule sn_fill_loop_inv [where P = "sn_ok W", OF sn_fill_round_ok])

text \<open>A round stays within the window.\<close>

lemma sn_fill_round_window:
  assumes ok: "sn_ok W s" and "sn_next_seqno s < window_right" "sn_fill_round window_right s = (c, s')"
  shows "sn_next_seqno s' \<le> window_right"
proof -
  have one: "sn_next_seqno s + 1 \<le> window_right"
    using assms(2) by (rule inc_le)
  show ?thesis
    using assms(2,3)
  proof (cases rule: sn_fill_round_cases)
    case (data n fin)
    have len: "length_in_sequence_space (data_segment n fin s) = n + of_bool fin"
      using length_bs_read [OF data(6)]
      by (simp add: length_in_sequence_space_def data_segment_def tcp_segment_new_def
          tcp_header_new_def size_of_def)
    have nat: "unat n \<le> unat window_right - unat (sn_next_seqno s)"
      using data(4) unat_sub_u64 [OF less_imp_le [OF assms(2)]] by (simp add: word_le_nat_alt)
    then have sum: "unat (sn_next_seqno s + n) = unat (sn_next_seqno s) + unat n"
      using assms(2) unat_lt_u64 [of window_right] by (intro unat_add_u64) (simp add: word_less_nat_alt)
    show ?thesis
    proof (cases fin)
      case True
      then have "sn_next_seqno s + n < window_right" using data(7) by simp
      then show ?thesis
        unfolding data(8) sn_track_simps len using inc_le True by (simp add: add.assoc [symmetric])
    next
      case False
      then show ?thesis
        unfolding data(8) sn_track_simps len using nat sum assms(2)
        by (simp add: word_le_nat_alt word_less_nat_alt)
    qed
  qed (use one assms(2) in simp_all)
qed

lemma sn_fill_loop_window:
  "sn_ok W s \<Longrightarrow> sn_next_seqno (sn_fill_loop window_right s) \<le> max window_right (sn_next_seqno s)"
  using sn_fill_loop_inv [where P = "\<lambda>s'. sn_ok W s' \<and>
      sn_next_seqno s' \<le> max window_right (sn_next_seqno s)" and s = s and window_right = window_right]
    sn_fill_round_ok sn_fill_round_window by (metis (no_types, lifting) max.coboundedI1 max.cobounded2)

text \<open>The loop stops because the window is full or because there is nothing left to send.\<close>

definition nothing_to_send :: "tcp_sender \<Rightarrow> bool" where
  "nothing_to_send s \<longleftrightarrow> sn_syn_sent s \<and> bs_buffer (sn_stream s) = []
     \<and> (bs_input_ended (sn_stream s) \<longrightarrow> sn_fin_sent s)"

lemma sn_fill_round_stops:
  assumes "sn_ok W s" "sn_next_seqno s < window_right" "sn_fill_round window_right s = (False, s')"
  shows "nothing_to_send s'"
  using assms(2,3)
proof (cases rule: sn_fill_round_cases)
  case idle
  have "bs_buffer (sn_stream s) = []"
    using idle(3) sn_okD(1) [OF assms(1)] bs_okD(2) unat_size_of
    by (fastforce simp: bs_buffer_size_def)
  then show ?thesis using idle by (simp add: nothing_to_send_def bs_eof_def bs_buffer_empty_def)
qed (auto simp: nothing_to_send_def bs_eof_def bs_buffer_empty_def)

lemma sn_fill_loop_stops:
  "sn_ok W s \<Longrightarrow> window_right \<le> sn_next_seqno (sn_fill_loop window_right s)
    \<or> nothing_to_send (sn_fill_loop window_right s)"
proof (induction s rule: sn_fill_loop_induct [where window_right = window_right])
  case (1 s)
  show ?case
  proof (cases "sn_next_seqno s < window_right")
    case True
    obtain c s' where round: "sn_fill_round window_right s = (c, s')" by fastforce
    have "sn_ok W s'" using 1(2) True round by (rule sn_fill_round_ok)
    then show ?thesis
      using 1(1) sn_fill_round_stops [OF 1(2) True] True round
      by (cases c) (simp_all add: sn_fill_loop_step)
  next
    case False
    then show ?thesis by (simp add: sn_fill_loop_stop not_less)
  qed
qed


lemma fill_window_ok: "sn_ok W s \<Longrightarrow> sn_ok W (fill_window s)"
  by (simp add: fill_window_def sn_fill_loop_ok)

lemma fill_window_sent_more:
  assumes "sn_ok W s"
  shows "sent_more s (fill_window s)"
proof -
  have "sn_ok W t' \<and> sent_more s t'"
    if "sn_ok W t \<and> sent_more s t" "sn_next_seqno t < right" "sn_fill_round right t = (c, t')"
    for t c t' right
    using that sn_fill_round_ok sn_fill_round_sent_more sent_more_trans by blast
  then have "sn_ok W (fill_window s) \<and> sent_more s (fill_window s)"
    unfolding fill_window_def Let_def by (rule sn_fill_loop_inv) (use assms in simp_all)
  then show ?thesis by blast
qed

text \<open>Members the invariant does not read.\<close>

lemma sn_ok_bookkeeping [simp]:
  "sn_ok W (s\<lparr>sn_timer := t\<rparr>) = sn_ok W s"
  "sn_ok W (s\<lparr>sn_rto := o'\<rparr>) = sn_ok W s"
  "sn_ok W (s\<lparr>sn_consecutive_retransmissions := n\<rparr>) = sn_ok W s"
  "sn_ok W (s\<lparr>sn_timer_running := b\<rparr>) = sn_ok W s"
  "sn_ok W (s\<lparr>sn_window_size := w\<rparr>) = sn_ok W s"
  by (simp_all add: sn_ok_def emitted_ok_def)

text \<open>Acknowledged segments leave from the front, the others stay in a row.\<close>

abbreviation unacked :: "u64 \<Rightarrow> (u64, tcp_segment) std_map \<Rightarrow> (u64, tcp_segment) std_map" where
  "unacked A m \<equiv> filter (\<lambda>(seg_start, seg). \<not> seg_start + length_in_sequence_space seg \<le> A) m"

lemma seg_end:
  "chain lo m hi \<Longrightarrow> hi < 2 ^ 64 \<Longrightarrow> (k, seg) \<in> set m \<Longrightarrow>
     unat (k + length_in_sequence_space seg) = unat k + seq_len seg"
  by (drule (1) chain_in, intro unat_add_u64) simp

lemma unacked_all:
  assumes "chain lo m hi" "hi < 2 ^ 64" "\<And>k seg. (k, seg) \<in> set m \<Longrightarrow> unat A < unat k + seq_len seg"
  shows "unacked A m = m"
  using assms seg_end [OF assms(1,2)] by (intro filter_True) (fastforce simp: word_le_nat_alt)

lemma chain_unacked:
  assumes "chain lo m hi" "hi < 2 ^ 64" "lo \<le> unat A" "unat A \<le> hi"
  shows "\<exists>lo'. chain lo' (unacked A m) hi \<and> lo' \<le> unat A"
  using assms
proof (induction lo m hi rule: chain.induct)
  case (2 lo k seg m hi)
  have e: "unat (k + length_in_sequence_space seg) = lo + seq_len seg"
    using seg_end [OF 2(2,3), of k seg] 2(2) by simp
  show ?case
  proof (cases "lo + seq_len seg \<le> unat A")
    case True
    then show ?thesis using 2 e by (simp add: word_le_nat_alt)
  next
    case False
    have "unacked A m = m"
    proof (rule unacked_all)
      show "chain (lo + seq_len seg) m hi" using 2(2) by simp
      then show "unat A < unat k' + seq_len seg'" if "(k', seg') \<in> set m" for k' seg'
        using False chain_in [OF _ that] by fastforce
    qed (rule 2(3))
    then show ?thesis using 2 e False by (auto simp: word_le_nat_alt)
  qed
qed auto

text \<open>An acknowledgment before the window is filled again.\<close>

definition take_ack :: "u64 \<Rightarrow> tcp_sender \<Rightarrow> tcp_sender" where
  "take_ack A s = s\<lparr>sn_outstanding_segments := unacked A (sn_outstanding_segments s),
     sn_ackno := (if sn_ackno s < A then A else sn_ackno s)\<rparr>"

lemma take_ack_ok:
  assumes ok: "sn_ok W s" and A: "A \<le> sn_next_seqno s"
  shows "sn_ok W (take_ack A s)"
proof -
  note old = sn_okD [OF ok]
  let ?m = "sn_outstanding_segments s"
  obtain lo where lo: "chain lo ?m (unat (sn_next_seqno s))" "lo \<le> unat (sn_ackno s)"
    using old(8) by blast
  let ?ack = "if sn_ackno s < A then A else sn_ackno s"
  have ends: "unat ?ack < unat k + seq_len seg \<and> emitted_ok W s seg \<and> (k = 0 \<longrightarrow> seq_len seg = 1)"
    if "(k, seg) \<in> set (unacked A ?m)" for k seg
    using that old(10) seg_end [OF lo(1) unat_lt_u64, of k seg] by (auto simp: word_le_nat_alt)
  have "\<exists>lo. chain lo (unacked A ?m) (unat (sn_next_seqno s)) \<and> lo \<le> unat ?ack"
  proof (cases "sn_ackno s < A")
    case True
    then show ?thesis
      using chain_unacked [OF lo(1) unat_lt_u64, of A] lo(2) A
      by (simp add: word_less_nat_alt word_le_nat_alt)
  next
    case False
    have "unacked A ?m = ?m"
      using False old(10) by (intro unacked_all [OF lo(1) unat_lt_u64]) (fastforce simp: word_less_nat_alt)
    then show ?thesis using lo False by auto
  qed
  moreover have "?ack \<le> sn_next_seqno s" using A old(9) by simp
  moreover have "emitted_ok W (take_ack A s) = emitted_ok W s"
    by (simp add: fun_eq_iff emitted_ok_def take_ack_def)
  ultimately show ?thesis
    unfolding sn_ok_def using old(1-7,11) ends
    by (simp add: take_ack_def)
qed

lemma ack_received_eq:
  assumes "A = unwrap ackno (sn_isn s) (sn_ackno s)" "\<not> sn_next_seqno s < A"
    "changed \<longleftrightarrow> unacked A (sn_outstanding_segments s) \<noteq> sn_outstanding_segments s"
    "t = fill_window ((take_ack A s)\<lparr>sn_window_size := win,
       sn_timer := (if changed then 0 else sn_timer s),
       sn_rto := (if changed then sn_initial_retransmission_timeout s else sn_rto s),
       sn_consecutive_retransmissions := (if changed then 0 else sn_consecutive_retransmissions s)\<rparr>)"
  shows "ack_received ackno win s =
     (if sn_outstanding_segments t = [] then t\<lparr>sn_timer_running := False\<rparr> else t)"
  using assms(2) unfolding assms(4) ack_received_def assms(1) [symmetric] assms(3)
  by (cases s) (simp add: take_ack_def Let_def)

lemma ack_received_ok:
  assumes "sn_ok W s"
  shows "sn_ok W (ack_received ackno win s)"
proof (cases "sn_next_seqno s < unwrap ackno (sn_isn s) (sn_ackno s)")
  case True
  then show ?thesis using assms by (simp add: ack_received_def)
next
  case False
  have "sn_ok W (take_ack (unwrap ackno (sn_isn s) (sn_ackno s)) s)"
    using assms False by (intro take_ack_ok) simp_all
  then show ?thesis
    unfolding ack_received_eq [OF refl False refl refl] by (simp add: fill_window_ok)
qed


lemma ack_received_sent_more:
  assumes "sn_ok W s"
  shows "sent_more s (ack_received ackno win s)"
proof (cases "sn_next_seqno s < unwrap ackno (sn_isn s) (sn_ackno s)")
  case True
  then show ?thesis by (simp add: ack_received_def)
next
  case False
  have ok: "sn_ok W (take_ack (unwrap ackno (sn_isn s) (sn_ackno s)) s)"
    using assms False by (intro take_ack_ok) simp_all
  have stop: "sent_more s (if b then t\<lparr>sn_timer_running := False\<rparr> else t)" if "sent_more s t" for t b
    using that by (simp add: sent_more_def)
  have start: "sent_more u t \<Longrightarrow> sn_isn u = sn_isn s \<Longrightarrow> sn_stream u = sn_stream s \<Longrightarrow>
      sn_fin_sent u = sn_fin_sent s \<Longrightarrow> sent_more s t" for u t
    by (simp add: sent_more_def)
  show ?thesis
    unfolding ack_received_eq [OF refl False refl refl]
    by (rule stop, rule start, rule fill_window_sent_more) (use ok in \<open>simp_all add: take_ack_def\<close>)
qed

lemma sn_ok_out_append:
  "sn_ok W s \<Longrightarrow> emitted_ok W s seg \<Longrightarrow> sn_ok W (s\<lparr>sn_segments_out := sn_segments_out s @ [seg]\<rparr>)"
  by (auto simp: sn_ok_def emitted_ok_def)

lemma sn_tick_ok:
  assumes "sn_ok W s"
  shows "sn_ok W (sn_tick ms s)"
proof -
  have "sn_ok W (s\<lparr>sn_timer := 0, sn_segments_out := sn_segments_out s @ [seg]\<rparr>)"
    if "sn_outstanding_segments s = (k, seg) # m" for k seg m
  proof -
    have "emitted_ok W s seg" using that sn_okD(10) [OF assms] by simp
    then have "emitted_ok W (s\<lparr>sn_timer := 0\<rparr>) seg" by (simp add: emitted_ok_def)
    then show ?thesis using sn_ok_out_append [of W "s\<lparr>sn_timer := 0\<rparr>" seg] assms by simp
  qed
  then show ?thesis
    using assms by (auto simp: sn_tick_def Let_def split: list.split)
qed

lemma send_empty_segment_ok: "sn_ok W s \<Longrightarrow> sn_ok W (send_empty_segment s)"
  unfolding send_empty_segment_def
  by (rule sn_ok_out_append)
    (auto simp: emitted_ok_def carries_nothing_def tcp_segment_new_def tcp_header_new_def)

text \<open>The application writes, and ends the stream.\<close>

lemma sn_write_ok:
  assumes ok: "sn_ok W s" and len: "length (W @ take (accepted d (sn_stream s)) d) < 2 ^ 62"
  shows "sn_ok (W @ take (accepted d (sn_stream s)) d) (s\<lparr>sn_stream := snd (bs_write d (sn_stream s))\<rparr>)"
proof -
  note old = sn_okD [OF ok]
  have ended: "accepted d (sn_stream s) = 0" if "bs_input_ended (sn_stream s)"
    using that by (simp add: accepted_def)
  let ?s = "s\<lparr>sn_stream := snd (bs_write d (sn_stream s))\<rparr>"
  have mono: "emitted_ok (W @ take (accepted d (sn_stream s)) d) ?s seg" if "emitted_ok W s seg" for seg
    using that old(4)
    by (auto simp: bs_write_eq [OF old(1)] sent_more_def intro!: emitted_ok_mono [OF that])
  show ?thesis
    unfolding sn_ok_def
    using old len ended bs_write_ok [OF old(1), of d] mono
    by (auto simp: bs_write_eq [OF old(1)])
qed

lemma sn_end_ok:
  assumes "sn_ok W s"
  shows "sn_ok W (s\<lparr>sn_stream := bs_end_input (sn_stream s)\<rparr>)"
proof -
  let ?s = "s\<lparr>sn_stream := bs_end_input (sn_stream s)\<rparr>"
  have "emitted_ok W ?s seg" if "emitted_ok W s seg" for seg
    using that by (simp add: emitted_ok_def bs_end_input_def)
  then show ?thesis
    using assms by (auto simp: sn_ok_def bs_end_input_def bs_ok_def)
qed

lemma sn_error_ok:
  assumes "sn_ok W s"
  shows "sn_ok W (s\<lparr>sn_stream := bs_set_error (sn_stream s)\<rparr>)"
proof -
  let ?s = "s\<lparr>sn_stream := bs_set_error (sn_stream s)\<rparr>"
  have "emitted_ok W ?s seg" if "emitted_ok W s seg" for seg
    using that by (simp add: emitted_ok_def bs_set_error_def)
  then show ?thesis
    using assms by (auto simp: sn_ok_def bs_set_error_def bs_ok_def)
qed

lemma sn_new_ok: "sn_ok [] (sn_new cap timeout fixed random)"
  by (simp add: sn_ok_def sn_new_def) (simp add: bs_new_def)

end
