(* ===== verification/TcpSending.thy ===== *)
theory TcpSending
  imports TcpSender
begin

text \<open>
  The sender over time: runs of its operations from the constructor on, what it emits, how it
  uses the window, takes acknowledgments and retransmits; and a sender and a receiver with a
  network in between that loses, repeats and reorders segments.
\<close>

section \<open>Runs of the sender\<close>

text \<open>
  The run keeps, beside the sender, the bytes \<open>W\<close> its stream has accepted and the segments
  \<open>sent\<close> that have been popped from its queue.
\<close>

datatype tx_op = TxWrite "byte list" | TxEnd | TxFill | TxAck wrapping_int32 u16 | TxTick u64
  | TxEmpty | TxError | TxPop

type_synonym tx_state = "byte list \<times> tcp_segment list \<times> tcp_sender"

fun tx_step :: "tx_op \<Rightarrow> tx_state \<Rightarrow> tx_state" where
  "tx_step (TxWrite d) (W, sent, s) =
     (W @ take (accepted d (sn_stream s)) d, sent, s\<lparr>sn_stream := snd (bs_write d (sn_stream s))\<rparr>)"
| "tx_step TxEnd (W, sent, s) = (W, sent, s\<lparr>sn_stream := bs_end_input (sn_stream s)\<rparr>)"
| "tx_step TxFill (W, sent, s) = (W, sent, fill_window s)"
| "tx_step (TxAck ackno win) (W, sent, s) = (W, sent, ack_received ackno win s)"
| "tx_step (TxTick ms) (W, sent, s) = (W, sent, sn_tick ms s)"
| "tx_step TxEmpty (W, sent, s) = (W, sent, send_empty_segment s)"
| "tx_step TxError (W, sent, s) = (W, sent, s\<lparr>sn_stream := bs_set_error (sn_stream s)\<rparr>)"
| "tx_step TxPop (W, sent, s) =
     (W, sent @ take 1 (sn_segments_out s), s\<lparr>sn_segments_out := drop 1 (sn_segments_out s)\<rparr>)"

text \<open>Members that few operations change.\<close>

lemma sn_fill_round_keeps:
  assumes "sn_next_seqno s < window_right" "sn_fill_round window_right s = (c, s')"
  shows "sn_isn s' = sn_isn s" "sn_ackno s' = sn_ackno s" "sn_window_size s' = sn_window_size s"
    "bs_input_ended (sn_stream s') = bs_input_ended (sn_stream s)"
    "sn_rto s' = sn_rto s" "sn_consecutive_retransmissions s' = sn_consecutive_retransmissions s"
  using assms by (cases rule: sn_fill_round_cases; simp)+

lemma sn_fill_loop_keeps [simp]:
  shows "sn_isn (sn_fill_loop right s) = sn_isn s"
    and "sn_ackno (sn_fill_loop right s) = sn_ackno s"
    and "sn_window_size (sn_fill_loop right s) = sn_window_size s"
    and "bs_input_ended (sn_stream (sn_fill_loop right s)) = bs_input_ended (sn_stream s)"
    and "sn_rto (sn_fill_loop right s) = sn_rto s"
    and "sn_consecutive_retransmissions (sn_fill_loop right s) = sn_consecutive_retransmissions s"
proof -
  let ?P = "\<lambda>s'. (sn_isn s', sn_ackno s', sn_window_size s', bs_input_ended (sn_stream s'),
        sn_rto s', sn_consecutive_retransmissions s')
      = (sn_isn s, sn_ackno s, sn_window_size s, bs_input_ended (sn_stream s),
        sn_rto s, sn_consecutive_retransmissions s)"
  have "?P t'" if "?P t" "sn_next_seqno t < right" "sn_fill_round right t = (c, t')" for t c t'
    using that(1) sn_fill_round_keeps [OF that(2,3)] by simp
  then have "?P (sn_fill_loop right s)" by (rule sn_fill_loop_inv) simp_all
  then show "sn_isn (sn_fill_loop right s) = sn_isn s"
    "sn_ackno (sn_fill_loop right s) = sn_ackno s"
    "sn_window_size (sn_fill_loop right s) = sn_window_size s"
    "bs_input_ended (sn_stream (sn_fill_loop right s)) = bs_input_ended (sn_stream s)"
    "sn_rto (sn_fill_loop right s) = sn_rto s"
    "sn_consecutive_retransmissions (sn_fill_loop right s) = sn_consecutive_retransmissions s"
    by simp_all
qed

lemma fill_window_keeps [simp]:
  "sn_isn (fill_window s) = sn_isn s" "sn_ackno (fill_window s) = sn_ackno s"
  "sn_window_size (fill_window s) = sn_window_size s"
  "bs_input_ended (sn_stream (fill_window s)) = bs_input_ended (sn_stream s)"
  "sn_rto (fill_window s) = sn_rto s"
  "sn_consecutive_retransmissions (fill_window s) = sn_consecutive_retransmissions s"
  by (simp_all add: fill_window_def)

lemma ack_received_isn [simp]: "sn_isn (ack_received ackno win s) = sn_isn s"
  by (simp add: ack_received_def Let_def)

lemma sn_tick_keeps [simp]:
  "sn_isn (sn_tick ms s) = sn_isn s" "sn_outstanding_segments (sn_tick ms s) = sn_outstanding_segments s"
  "sn_timer_running (sn_tick ms s) = sn_timer_running s" "sn_stream (sn_tick ms s) = sn_stream s"
  "sn_window_size (sn_tick ms s) = sn_window_size s"
  "sn_fin_sent (sn_tick ms s) = sn_fin_sent s" "sn_ackno (sn_tick ms s) = sn_ackno s"
  "sn_next_seqno (sn_tick ms s) = sn_next_seqno s"
  by (simp_all add: sn_tick_def Let_def split: list.split)

text \<open>The timer runs exactly when something is outstanding.\<close>

abbreviation timer_ok :: "tcp_sender \<Rightarrow> bool" where
  "timer_ok s \<equiv> sn_timer_running s \<longleftrightarrow> sn_outstanding_segments s \<noteq> []"

lemma sm_assign_not_Nil [simp]: "sm_assign k v m \<noteq> []"
  by (cases m) (auto split: if_splits)

lemma sn_track_running:
  "sn_timer_running (sn_track n seg s) \<longleftrightarrow> sn_timer_running s \<or> sn_outstanding_segments s = []"
  by (simp add: sn_track_def Let_def)

text \<open>Filling the window leaves the timer running if anything is outstanding afterwards, and
  starts it only then.\<close>

lemma sn_fill_round_timer:
  assumes "sn_next_seqno s < right" "sn_fill_round right s = (c, s')"
    and "sn_outstanding_segments s \<noteq> [] \<longrightarrow> sn_timer_running s"
  shows "(sn_outstanding_segments s' \<noteq> [] \<longrightarrow> sn_timer_running s')
    \<and> (timer_ok s \<longrightarrow> timer_ok s')"
  using assms(1,2) by (cases rule: sn_fill_round_cases) (use assms(3) in \<open>auto simp: sn_track_running\<close>)

lemma fill_window_timer:
  assumes "sn_outstanding_segments s \<noteq> [] \<longrightarrow> sn_timer_running s"
  shows "(sn_outstanding_segments (fill_window s) \<noteq> [] \<longrightarrow> sn_timer_running (fill_window s))
    \<and> (timer_ok s \<longrightarrow> timer_ok (fill_window s))"
proof -
  let ?P = "\<lambda>t. (sn_outstanding_segments t \<noteq> [] \<longrightarrow> sn_timer_running t) \<and> (timer_ok s \<longrightarrow> timer_ok t)"
  have "?P t'" if "?P t" "sn_next_seqno t < right" "sn_fill_round right t = (c, t')" for t t' c right
    using sn_fill_round_timer [OF that(2,3)] that(1) by blast
  then show ?thesis
    unfolding fill_window_def Let_def by (rule sn_fill_loop_inv) (use assms in simp_all)
qed

lemma ack_received_timer:
  assumes "timer_ok s"
  shows "timer_ok (ack_received ackno win s)"
proof (cases "sn_next_seqno s < unwrap ackno (sn_isn s) (sn_ackno s)")
  case True
  then show ?thesis using assms by (simp add: ack_received_def)
next
  case False
  have stop: "timer_ok (if sn_outstanding_segments t = [] then t\<lparr>sn_timer_running := False\<rparr> else t)"
    if "sn_outstanding_segments t \<noteq> [] \<longrightarrow> sn_timer_running t" for t
    using that by simp
  have running: "sn_outstanding_segments u \<noteq> [] \<longrightarrow> sn_timer_running u"
    if "sn_outstanding_segments u = unacked A (sn_outstanding_segments s)"
      "sn_timer_running u = sn_timer_running s" for u A
    using that assms by auto
  show ?thesis
    unfolding ack_received_eq [OF refl False refl refl]
    by (rule stop, rule fill_window_timer [THEN conjunct1], rule running)
      (simp_all add: take_ack_def)
qed

section \<open>What every run keeps\<close>

definition tx_ok :: "tx_state \<Rightarrow> bool" where
  "tx_ok = (\<lambda>(W, sent, s). timer_ok s
     \<and> (length W < 2 ^ 62 \<longrightarrow> sn_ok W s \<and> (\<forall>seg \<in> set sent. emitted_ok W s seg)))"

abbreviation tx_written :: "tx_state \<Rightarrow> nat" where
  "tx_written t \<equiv> length (fst t)"

lemma tx_step_grows: "tx_written t \<le> tx_written (tx_step x t)"
  by (cases x; cases t) simp_all


lemma sn_ok_out_subset:
  assumes "sn_ok W s" "set out \<subseteq> set (sn_segments_out s)"
  shows "sn_ok W (s\<lparr>sn_segments_out := out\<rparr>)"
proof -
  have "emitted_ok W (s\<lparr>sn_segments_out := out\<rparr>) = emitted_ok W s"
    by (simp add: fun_eq_iff emitted_ok_def)
  then show ?thesis using sn_okD [OF assms(1)] assms(2) unfolding sn_ok_def by (simp add: subset_iff)
qed

lemma tx_step_ok:
  assumes "tx_ok t"
  shows "tx_ok (tx_step x t)"
proof -
  obtain W sent s where t: "t = (W, sent, s)" by (cases t)
  obtain W' sent' s' where t': "tx_step x t = (W', sent', s')" by (cases "tx_step x t")
  have timer: "timer_ok s'"
    using assms t t' ack_received_timer [of s] fill_window_timer [of s]
    by (cases x) (auto simp: tx_ok_def send_empty_segment_def)
  have "sn_ok W' s' \<and> (\<forall>seg \<in> set sent'. emitted_ok W' s' seg)" if len: "length W' < 2 ^ 62"
  proof -
    have "length W \<le> length W'" using tx_step_grows [of t x] t t' by simp
    then have ok: "sn_ok W s" "\<forall>seg \<in> set sent. emitted_ok W s seg"
      using assms len by (simp_all add: tx_ok_def t)
    have same: "sn_ok W s' \<and> (\<forall>seg \<in> set sent. emitted_ok W s' seg)"
      if "sn_ok W s'" "sent_more s s'"
      using that ok(2) emitted_ok_mono by blast
    show ?thesis
    proof (cases x)
      case (TxWrite d)
      have "emitted_ok W' s' seg" if "emitted_ok W s seg" for seg
        using that t t' TxWrite sn_okD(1,4) [OF ok(1)]
        by (auto simp: bs_write_eq sent_more_def intro!: emitted_ok_mono [OF that])
      then show ?thesis using ok sn_write_ok [OF ok(1), of d] len t t' TxWrite by auto
    next
      case TxEnd
      then show ?thesis
        using same sn_end_ok [OF ok(1)] t t' by (auto simp: bs_end_input_def sent_more_def)
    next
      case TxFill
      then show ?thesis using same fill_window_ok [OF ok(1)] fill_window_sent_more [OF ok(1)] t t' by auto
    next
      case (TxAck a w)
      then show ?thesis using same ack_received_ok [OF ok(1)] ack_received_sent_more [OF ok(1)] t t' by auto
    next
      case (TxTick ms)
      then show ?thesis using same sn_tick_ok [OF ok(1)] t t' by (auto simp: sent_more_def)
    next
      case TxEmpty
      then show ?thesis
        using same send_empty_segment_ok [OF ok(1)] t t' by (auto simp: send_empty_segment_def sent_more_def)
    next
      case TxError
      then show ?thesis
        using same sn_error_ok [OF ok(1)] t t' by (auto simp: bs_set_error_def sent_more_def)
    next
      case TxPop
      have "sn_ok W s'"
        using t t' TxPop sn_ok_out_subset [OF ok(1) set_drop_subset, of 1] by simp
      moreover have "emitted_ok W s' seg" if "seg \<in> set sent'" for seg
      proof -
        have "seg \<in> set sent \<or> seg \<in> set (sn_segments_out s)"
          using that t t' TxPop by (auto dest: in_set_takeD)
        then have "emitted_ok W s seg" using ok(2) sn_okD(11) [OF ok(1)] by blast
        then show ?thesis using t t' TxPop by (auto simp: emitted_ok_def)
      qed
      ultimately show ?thesis using t t' TxPop by auto
    qed
  qed
  then show ?thesis using timer by (simp add: tx_ok_def t')
qed

interpretation tx: monotone_machine tx_step tx_ok tx_written
  by unfold_locales (simp_all add: tx_step_ok tx_step_grows)

lemma tx_run_ok:
  assumes "run tx_step ops ([], [], sn_new cap timeout fixed random) = (W, sent, s)" "length W < 2 ^ 62"
  shows "sn_ok W s" "timer_ok s" "\<forall>seg \<in> set sent. emitted_ok W s seg"
proof -
  have "tx_ok ([], [], sn_new cap timeout fixed random)"
    using sn_new_ok by (simp add: tx_ok_def) (simp add: sn_new_def)
  from tx.run_inv [OF this, of ops] show "sn_ok W s" "timer_ok s" "\<forall>seg \<in> set sent. emitted_ok W s seg"
    using assms by (simp_all add: tx_ok_def)
qed


lemma tx_run_isn:
  assumes "run tx_step ops t = (W, sent, s)"
  shows "sn_isn s = sn_isn (snd (snd t))"
  using assms
proof (induction ops arbitrary: t)
  case (Cons x ops)
  have "sn_isn (snd (snd (tx_step x t))) = sn_isn (snd (snd t))"
    by (cases x; cases t) (simp_all add: send_empty_segment_def)
  then show ?case using Cons by simp
qed simp

section \<open>What the sender emits\<close>

text \<open>C7: Every segment the sender ever emits, retransmissions included, carries at most 1000
  bytes and is a piece of the stream written to it at the sequence number of its first byte:
  the SYN precedes index 0, and a FIN is sent only when the input has ended and the payload
  reaches the end of the stream. The bytes not yet sent are exactly those still in the
  stream, and the next absolute sequence number counts the SYN, the bytes sent and the FIN.\<close>

theorem sender_emits_stream_segments:
  assumes "run tx_step ops ([], [], sn_new cap timeout fixed random) = (W, sent, s)" "length W < 2 ^ 62"
  shows "(\<forall>seg \<in> set (sent @ sn_segments_out s). length (ts_payload seg) \<le> 1000
       \<and> (carries_nothing seg
           \<or> (\<exists>i. stream_segment W (case fixed of Some isn \<Rightarrow> isn | None \<Rightarrow> random) seg i))
       \<and> (th_fin (ts_header seg) \<longrightarrow> bs_input_ended (sn_stream s)))
     \<and> bs_buffer (sn_stream s) = drop (unat (bs_bytes_read (sn_stream s))) W
     \<and> unat (sn_next_seqno s) = of_bool (sn_syn_sent s) + unat (bs_bytes_read (sn_stream s))
         + of_bool (sn_fin_sent s)"
proof -
  note ok = tx_run_ok [OF assms]
  have isn: "sn_isn s = (case fixed of Some isn \<Rightarrow> isn | None \<Rightarrow> random)"
    using tx_run_isn [OF assms(1)] by (simp add: sn_new_def)
  have emitted: "\<forall>seg \<in> set (sent @ sn_segments_out s). emitted_ok W s seg"
    using ok(3) sn_okD(11) [OF ok(1)] by auto
  have "stream_segment W (sn_isn s) seg i"
    if "emitted_ok W s seg" "stream_segment (take (sn_read s) W) (sn_isn s) seg i" for seg i
  proof -
    have "drop (sn_read s) W = [] \<or> \<not> th_fin (ts_header seg)"
      using that(1) sn_okD(3,7) [OF ok(1)] by (auto simp: emitted_ok_def)
    from stream_segment_append [OF that(2) this] show ?thesis by simp
  qed
  then show ?thesis
    using emitted sn_okD(3,5,7) [OF ok(1)] unfolding emitted_ok_def isn by blast
qed

text \<open>A sender with a window of 3 sends its SYN, is acknowledged, and sends the first 3 of 4
  bytes.\<close>

abbreviation tx_example :: "tx_op list" where
  "tx_example \<equiv> [TxFill, TxWrite [1, 2, 3, 4], TxEnd, TxPop, TxAck (WrappingInt32 8) 3]"

abbreviation tx_example_start :: tx_state where
  "tx_example_start \<equiv> ([], [], sn_new 10 1000 (Some (WrappingInt32 7)) (WrappingInt32 0))"

lemma tx_example_sends:
  "fst (run tx_step tx_example tx_example_start) = [1, 2, 3, 4]"
  "map ts_payload (sn_segments_out (snd (snd (run tx_step tx_example tx_example_start)))) = [[1, 2, 3]]"
  by code_simp+

theorem sender_emits_stream_segments_witness:
  "case run tx_step tx_example tx_example_start of (W, sent, s) \<Rightarrow>
     (\<forall>seg \<in> set (sent @ sn_segments_out s). length (ts_payload seg) \<le> 1000)
     \<and> bs_buffer (sn_stream s) = drop (unat (bs_bytes_read (sn_stream s))) W"
proof -
  obtain W sent s where r: "run tx_step tx_example tx_example_start = (W, sent, s)"
    by (cases "run tx_step tx_example tx_example_start") (auto simp del: run.simps)
  have "W = [1, 2, 3, 4]" using tx_example_sends(1) unfolding r by simp
  then have "length W < 2 ^ 62" by simp
  from sender_emits_stream_segments [OF r this] show ?thesis unfolding r by auto
qed

section \<open>Use of the window\<close>

text \<open>Filling the window queues and tracks the same new segments.\<close>

lemma fill_window_appends:
  assumes ok: "sn_ok W s"
  shows "\<exists>m. sn_outstanding_segments (fill_window s) = sn_outstanding_segments s @ m
    \<and> sn_segments_out (fill_window s) = sn_segments_out s @ map snd m"
proof -
  let ?P = "\<lambda>t. sn_ok W t \<and> (\<exists>m. sn_outstanding_segments t = sn_outstanding_segments s @ m
    \<and> sn_segments_out t = sn_segments_out s @ map snd m)"
  have "?P t'" if t: "?P t" "sn_next_seqno t < right" "sn_fill_round right t = (c, t')" for t t' c right
  proof -
    have ok': "sn_ok W t" "sn_ok W t'" using t sn_fill_round_ok [of W t right c t'] by simp_all
    have track: "sn_outstanding_segments t' = sn_outstanding_segments t @ [(sn_next_seqno t, seg)]
        \<and> sn_segments_out t' = sn_segments_out t @ [seg]"
      if "t' = sn_track n seg u" "sn_outstanding_segments u = sn_outstanding_segments t"
        "sn_next_seqno u = sn_next_seqno t" "sn_segments_out u = sn_segments_out t" for n seg u
    proof -
      obtain lo where "chain lo (sn_outstanding_segments t) (unat (sn_next_seqno t))"
        using sn_okD(8) [OF ok'(1)] by blast
      then have "sm_assign (sn_next_seqno t) seg (sn_outstanding_segments t)
          = sn_outstanding_segments t @ [(sn_next_seqno t, seg)]"
        using chain_keys by (intro sm_assign_last) (auto simp: word_less_nat_alt)
      then show ?thesis using that by simp
    qed
    have "t' = t \<or> (\<exists>k seg. sn_outstanding_segments t' = sn_outstanding_segments t @ [(k, seg)]
        \<and> sn_segments_out t' = sn_segments_out t @ [seg])"
      using t(2,3)
    proof (cases rule: sn_fill_round_cases)
      case (syn seg) then show ?thesis using track [OF syn(4)] by auto
    next
      case (fin seg) then show ?thesis using track [OF fin(6)] by auto
    next
      case (data n fin) then show ?thesis using track [OF data(8)] by auto
    qed simp
    then show ?thesis using t(1) ok'(2) by auto
  qed
  then have "?P (fill_window s)"
    unfolding fill_window_def Let_def by (rule sn_fill_loop_inv) (use ok in simp_all)
  then show ?thesis by blast
qed


lemma fill_window_fills:
  assumes ok: "sn_ok W s" and right_def: "right = unat (sn_ackno s) + max 1 (unat (sn_window_size s))"
  shows "unat (sn_next_seqno (fill_window s)) \<le> max right (unat (sn_next_seqno s))"
    and "right \<le> unat (sn_next_seqno (fill_window s)) \<or> nothing_to_send (fill_window s)"
proof -
  note old = sn_okD [OF ok]
  let ?win = "if sn_window_size s = 0 then 1 else sn_window_size s"
  let ?right = "sn_ackno s + ucast ?win"
  have win: "unat (ucast ?win :: u64) = max 1 (unat (sn_window_size s))"
  proof (cases "sn_window_size s = 0")
    case False
    then have "1 \<le> unat (sn_window_size s)" by (simp add: Suc_leI unat_gt_0)
    moreover have "unat (ucast (sn_window_size s) :: u64) = unat (sn_window_size s)"
      using unat_lt_u16 [of "sn_window_size s"] by (simp add: unsigned_ucast_eq take_bit_eq_mod)
    ultimately show ?thesis using False by simp
  qed simp
  have "unat (sn_ackno s) \<le> 2 ^ 62 + 2"
    using old(2,4,5,9) by (cases "sn_syn_sent s"; cases "sn_fin_sent s") (simp_all add: word_le_nat_alt)
  then have right: "unat ?right = right"
    unfolding right_def win [symmetric] using win unat_lt_u16 [of "sn_window_size s"]
    by (intro unat_add_u64) simp
  have "fill_window s = sn_fill_loop ?right s" by (simp add: fill_window_def)
  then show "unat (sn_next_seqno (fill_window s)) \<le> max right (unat (sn_next_seqno s))"
    "right \<le> unat (sn_next_seqno (fill_window s)) \<or> nothing_to_send (fill_window s)"
    using sn_fill_loop_window [OF ok, of ?right] sn_fill_loop_stops [OF ok, of ?right] right
    by (simp_all add: word_le_nat_alt max_def split: if_splits)
qed

text \<open>C8: Filling the window never sends beyond the acknowledged number plus the window (a
  window of 0 counting as 1), and stops short of it only when nothing is left to send: the
  SYN is out, the stream is empty, and its FIN is out if its input has ended. What it sends it
  also keeps as outstanding, in order, after what was outstanding before.\<close>

theorem sender_fills_the_window:
  assumes "run tx_step ops ([], [], sn_new cap timeout fixed random) = (W, sent, s)" "length W < 2 ^ 62"
    and "right = unat (sn_ackno s) + max 1 (unat (sn_window_size s))"
  shows "unat (sn_next_seqno (fill_window s)) \<le> max right (unat (sn_next_seqno s))
     \<and> (right \<le> unat (sn_next_seqno (fill_window s)) \<or> nothing_to_send (fill_window s))
     \<and> (\<exists>m. sn_outstanding_segments (fill_window s) = sn_outstanding_segments s @ m
           \<and> sn_segments_out (fill_window s) = sn_segments_out s @ map snd m)"
proof -
  note ok = tx_run_ok(1) [OF assms(1,2)]
  show ?thesis using fill_window_fills [OF ok assms(3)] fill_window_appends [OF ok] by blast
qed

theorem sender_fills_the_window_witness:
  "case run tx_step tx_example tx_example_start of (W, sent, s) \<Rightarrow>
     unat (sn_next_seqno (fill_window s))
       \<le> max (unat (sn_ackno s) + max 1 (unat (sn_window_size s))) (unat (sn_next_seqno s))"
proof -
  obtain W sent s where r: "run tx_step tx_example tx_example_start = (W, sent, s)"
    by (cases "run tx_step tx_example tx_example_start") (auto simp del: run.simps)
  have "W = [1, 2, 3, 4]" using tx_example_sends(1) unfolding r by simp
  then have "length W < 2 ^ 62" by simp
  from sender_fills_the_window [OF r this refl] show ?thesis unfolding r by simp
qed

section \<open>Acknowledgments\<close>

lemma bytes_in_flight_chain:
  assumes "chain lo m hi" "unat t + (hi - lo) < 2 ^ 64"
  shows "unat (foldl (\<lambda>total p. total + length_in_sequence_space (snd p)) t m) = unat t + (hi - lo)"
  using assms
proof (induction lo m hi arbitrary: t rule: chain.induct)
  case (2 lo k seg m hi)
  have le: "lo + seq_len seg \<le> hi" using 2(2) chain_le by auto
  have t: "unat (t + length_in_sequence_space seg) = unat t + seq_len seg"
    using le 2(3) by (intro unat_add_u64) simp
  then show ?case using 2 le by simp
qed simp

lemma bytes_in_flight_eq:
  assumes ok: "sn_ok W s"
  shows "unat (sn_next_seqno s) - unat (sn_ackno s) \<le> unat (sn_bytes_in_flight s)"
    and "sn_bytes_in_flight s = 0 \<longleftrightarrow> sn_ackno s = sn_next_seqno s"
    and "sn_bytes_in_flight s = 0 \<longleftrightarrow> sn_outstanding_segments s = []"
proof -
  note old = sn_okD [OF ok]
  obtain lo where lo: "chain lo (sn_outstanding_segments s) (unat (sn_next_seqno s))" "lo \<le> unat (sn_ackno s)"
    using old(8) by blast
  have eq: "unat (sn_bytes_in_flight s) = unat (sn_next_seqno s) - lo"
    unfolding sn_bytes_in_flight_def
    using bytes_in_flight_chain [OF lo(1), of 0] unat_lt_u64 [of "sn_next_seqno s"] by simp
  then show "unat (sn_next_seqno s) - unat (sn_ackno s) \<le> unat (sn_bytes_in_flight s)"
    using lo(2) by simp
  have none: "sn_outstanding_segments s = [] \<longleftrightarrow> lo = unat (sn_next_seqno s)"
    using lo(1) chain_le by (cases "sn_outstanding_segments s") (auto, fastforce)
  have "sn_ackno s = sn_next_seqno s \<longleftrightarrow> lo = unat (sn_next_seqno s)"
  proof
    assume "lo = unat (sn_next_seqno s)"
    then show "sn_ackno s = sn_next_seqno s"
      using lo(2) old(9) by (simp add: word_le_nat_alt word_unat_eq_iff)
  next
    assume all: "sn_ackno s = sn_next_seqno s"
    have "sn_outstanding_segments s = []"
    proof (rule ccontr)
      assume "sn_outstanding_segments s \<noteq> []"
      then obtain k seg where "(k, seg) \<in> set (sn_outstanding_segments s)"
        by (cases "sn_outstanding_segments s") auto
      then show False using old(10) chain_in [OF lo(1), of k seg] all by fastforce
    qed
    then show "lo = unat (sn_next_seqno s)" using none by simp
  qed
  moreover have "lo \<le> unat (sn_next_seqno s)" using lo(1) by (rule chain_le)
  ultimately show "sn_bytes_in_flight s = 0 \<longleftrightarrow> sn_ackno s = sn_next_seqno s"
    "sn_bytes_in_flight s = 0 \<longleftrightarrow> sn_outstanding_segments s = []"
    using eq none by (auto simp: unat_eq_0)
qed


text \<open>C9: An acknowledgment beyond what was sent changes nothing. Any other one removes from
  the outstanding segments exactly those it covers whole, keeps the others in order, raises
  the acknowledged number to at most the next one and records the window; only then more is
  sent. When it covers a segment the timeout goes back to its initial value. Afterwards
  \<open>bytes_in_flight\<close> is 0 exactly when everything sent is acknowledged, it is never less than
  what is unacknowledged, and the timer runs exactly when something is outstanding.\<close>

theorem sender_takes_acknowledgments:
  assumes "run tx_step ops ([], [], sn_new cap timeout fixed random) = (W, sent, s)" "length W < 2 ^ 62"
    and "A = unwrap ackno (sn_isn s) (sn_ackno s)" "s' = ack_received ackno win s"
  shows "(sn_next_seqno s < A \<longrightarrow> s' = s)
     \<and> (A \<le> sn_next_seqno s \<longrightarrow> sn_ackno s' = max (sn_ackno s) A \<and> sn_window_size s' = win
         \<and> (\<exists>m. sn_outstanding_segments s' =
              filter (\<lambda>(k, seg). unat A < unat k + seq_len seg) (sn_outstanding_segments s) @ m))
     \<and> (sn_next_seqno s \<ge> A \<and> (\<exists>(k, seg) \<in> set (sn_outstanding_segments s). unat k + seq_len seg \<le> unat A)
          \<longrightarrow> sn_rto s' = sn_initial_retransmission_timeout s \<and> sn_consecutive_retransmissions s' = 0)
     \<and> sn_ackno s' \<le> sn_next_seqno s'
     \<and> (sn_bytes_in_flight s' = 0 \<longleftrightarrow> sn_ackno s' = sn_next_seqno s')
     \<and> unat (sn_next_seqno s') - unat (sn_ackno s') \<le> unat (sn_bytes_in_flight s')
     \<and> (sn_timer_running s' \<longleftrightarrow> sn_outstanding_segments s' \<noteq> [])"
proof -
  note ok = tx_run_ok [OF assms(1,2)]
  have ok': "sn_ok W s'" unfolding assms(4) using ok(1) by (rule ack_received_ok)
  have timer: "timer_ok s'" unfolding assms(4) using ok(2) by (rule ack_received_timer)
  note flight = bytes_in_flight_eq [OF ok']
  obtain lo where lo: "chain lo (sn_outstanding_segments s) (unat (sn_next_seqno s))"
    using sn_okD(8) [OF ok(1)] by blast
  have left: "unacked A (sn_outstanding_segments s)
      = filter (\<lambda>(k, seg). unat A < unat k + seq_len seg) (sn_outstanding_segments s)"
    using seg_end [OF lo unat_lt_u64] by (intro filter_cong) (auto simp: word_le_nat_alt)
  have refuse: "s' = s" if "sn_next_seqno s < A"
    using that by (simp add: assms(3,4) ack_received_def)
  have taken: "sn_ackno s' = max (sn_ackno s) A \<and> sn_window_size s' = win
      \<and> (\<exists>m. sn_outstanding_segments s' = unacked A (sn_outstanding_segments s) @ m)
      \<and> (unacked A (sn_outstanding_segments s) \<noteq> sn_outstanding_segments s \<longrightarrow>
           sn_rto s' = sn_initial_retransmission_timeout s \<and> sn_consecutive_retransmissions s' = 0)"
    if le: "A \<le> sn_next_seqno s"
  proof -
    have accept: "\<not> sn_next_seqno s < A" using le by simp
    let ?changed = "unacked A (sn_outstanding_segments s) \<noteq> sn_outstanding_segments s"
    let ?u = "(take_ack A s)\<lparr>sn_window_size := win, sn_timer := (if ?changed then 0 else sn_timer s),
       sn_rto := (if ?changed then sn_initial_retransmission_timeout s else sn_rto s),
       sn_consecutive_retransmissions := (if ?changed then 0 else sn_consecutive_retransmissions s)\<rparr>"
    have "sn_ok W (take_ack A s)" using ok(1) le by (rule take_ack_ok)
    then have "sn_ok W ?u" by simp
    from fill_window_appends [OF this] obtain m where
      "sn_outstanding_segments (fill_window ?u) = unacked A (sn_outstanding_segments s) @ m"
      by (auto simp: take_ack_def)
    moreover have "s' = (let t = fill_window ?u
        in if sn_outstanding_segments t = [] then t\<lparr>sn_timer_running := False\<rparr> else t)"
      unfolding assms(4) Let_def by (rule ack_received_eq [OF assms(3) accept refl refl])
    ultimately show ?thesis
      by (auto simp: Let_def take_ack_def max_def)
  qed
  have covered: "unacked A (sn_outstanding_segments s) \<noteq> sn_outstanding_segments s"
    if "\<exists>(k, seg) \<in> set (sn_outstanding_segments s). unat k + seq_len seg \<le> unat A"
    unfolding left using that by (fastforce simp: filter_id_conv split_beta not_less)
  show ?thesis
    using refuse taken covered timer flight(1,2) sn_okD(9) [OF ok'] unfolding left by blast
qed


text \<open>The acknowledgment of the SYN and two more bytes leaves one segment in flight.\<close>

theorem sender_takes_acknowledgments_witness:
  "case run tx_step tx_example tx_example_start of (W, sent, s) \<Rightarrow>
     (let s' = ack_received (WrappingInt32 10) 3 s in sn_ackno s' \<le> sn_next_seqno s'
       \<and> (sn_timer_running s' \<longleftrightarrow> sn_outstanding_segments s' \<noteq> []))"
proof -
  obtain W sent s where r: "run tx_step tx_example tx_example_start = (W, sent, s)"
    by (cases "run tx_step tx_example tx_example_start") (auto simp del: run.simps)
  have "W = [1, 2, 3, 4]" using tx_example_sends(1) unfolding r by simp
  then have "length W < 2 ^ 62" by simp
  from sender_takes_acknowledgments [OF r this refl refl, of "WrappingInt32 10" 3]
  show ?thesis unfolding r by (simp add: Let_def)
qed

section \<open>Retransmission\<close>

lemma unat_tick:
  assumes "unat (t :: u32) + unat (ms :: u64) < 2 ^ 32"
  shows "unat (ucast (ucast t + ms :: u64) :: u32) = unat t + unat ms"
proof -
  have "unat (ucast t + ms :: u64) = unat t + unat ms"
    using assms by (subst unat_add_u64) (simp_all add: unat_ucast_64)
  then show ?thesis using assms by (simp add: unat_ucast_32)
qed

text \<open>A tick on a running timer, before and after it expires.\<close>

lemma sn_tick_quiet:
  assumes "unat (sn_timer s) + unat ms < 2 ^ 32" "unat (sn_timer s) + unat ms < unat (sn_rto s)"
  shows "sn_segments_out (sn_tick ms s) = sn_segments_out s \<and> sn_rto (sn_tick ms s) = sn_rto s
    \<and> sn_consecutive_retransmissions (sn_tick ms s) = sn_consecutive_retransmissions s"
  using assms unat_tick [OF assms(1)] by (simp add: sn_tick_def Let_def word_le_nat_alt)

lemma sn_tick_expires:
  assumes "sn_timer_running s" "sn_outstanding_segments s = (k, seg) # m"
    and "unat (sn_timer s) + unat ms < 2 ^ 32" "unat (sn_rto s) \<le> unat (sn_timer s) + unat ms"
  shows "sn_tick ms s = s\<lparr>sn_timer := 0, sn_segments_out := sn_segments_out s @ [seg],
      sn_rto := (if sn_window_size s = 0 then sn_rto s else sn_rto s * 2),
      sn_consecutive_retransmissions := sn_consecutive_retransmissions s + 1\<rparr>"
  using assms unat_tick [OF assms(3)]
  by (cases s) (simp add: sn_tick_def Let_def word_le_nat_alt word_gt_0)

text \<open>The ticks at which the next \<open>n\<close> timeouts expire: the rest of the one that is running, and then
  each as long as the timeout has become. The timeout grows only when the window is open.\<close>

definition backoff_factor :: "tcp_sender \<Rightarrow> nat" where
  "backoff_factor s = (if sn_window_size s = 0 then 1 else 2)"

definition timeouts :: "tcp_sender \<Rightarrow> nat \<Rightarrow> u64 list" where
  "timeouts s n = map (\<lambda>i. of_nat (unat (sn_rto s) * backoff_factor s ^ i - (if i = 0 then unat (sn_timer s) else 0))) [0..<n]"

lemma timeouts_0 [simp]: "timeouts s 0 = []"
  by (simp add: timeouts_def)

lemma timeouts_Suc:
  assumes "sn_timer s' = 0" "unat (sn_rto s') = unat (sn_rto s) * backoff_factor s" "backoff_factor s' = backoff_factor s"
  shows "timeouts s (Suc n) = of_nat (unat (sn_rto s) - unat (sn_timer s)) # timeouts s' n"
  unfolding timeouts_def map_upt_Suc using assms by (simp add: mult.assoc del: of_nat_mult of_nat_power)

lemma unat_wait: "unat (of_nat (unat (sn_rto s) - unat (sn_timer s)) :: u64) = unat (sn_rto s) - unat (sn_timer s)"
  using unat_lt_u32 [of "sn_rto s"] by (intro unat_of_nat_u64) simp

text \<open>The tick that completes the timeout, when the next timeout is a number of 32 bits.\<close>

lemma sn_tick_timeout:
  assumes "sn_timer_running s" "sn_outstanding_segments s = (k, seg) # m"
  defines "s' \<equiv> sn_tick (of_nat (unat (sn_rto s) - unat (sn_timer s))) s"
  shows "s' = s\<lparr>sn_timer := 0, sn_segments_out := sn_segments_out s @ [seg], sn_rto := sn_rto s * of_nat (backoff_factor s),
      sn_consecutive_retransmissions := sn_consecutive_retransmissions s + 1\<rparr>"
    and "backoff_factor s' = backoff_factor s"
    and "unat (sn_rto s) * backoff_factor s < 2 ^ 32 \<Longrightarrow> unat (sn_rto s') = unat (sn_rto s) * backoff_factor s"
proof -
  let ?ms = "of_nat (unat (sn_rto s) - unat (sn_timer s)) :: u64"
  have "unat (sn_timer s) + unat ?ms < 2 ^ 32" "unat (sn_rto s) \<le> unat (sn_timer s) + unat ?ms"
    using unat_lt_u32 [of "sn_rto s"] unat_lt_u32 [of "sn_timer s"] unfolding unat_wait by simp_all
  from sn_tick_expires [OF assms(1,2) this]
  show eq: "s' = s\<lparr>sn_timer := 0, sn_segments_out := sn_segments_out s @ [seg], sn_rto := sn_rto s * of_nat (backoff_factor s),
      sn_consecutive_retransmissions := sn_consecutive_retransmissions s + 1\<rparr>"
    by (simp add: s'_def backoff_factor_def)
  then show "backoff_factor s' = backoff_factor s" by (simp add: backoff_factor_def)
  show "unat (sn_rto s') = unat (sn_rto s) * backoff_factor s" if "unat (sn_rto s) * backoff_factor s < 2 ^ 32"
    using that by (auto simp: eq backoff_factor_def unat_word_ariths)
qed

lemma backoff_step_bound:
  assumes "unat r * f ^ Suc n < 2 ^ 32" "0 < f"
  shows "unat r * f < 2 ^ 32" "unat r * f * f ^ n < 2 ^ 32"
proof -
  show "unat r * f * f ^ n < 2 ^ 32" using assms(1) by (simp add: mult.assoc)
  moreover have "unat r * f * 1 \<le> unat r * f * f ^ n" using assms(2) by (intro mult_le_mono2) simp
  ultimately show "unat r * f < 2 ^ 32" by linarith
qed

lemma backoff_factor_pos [simp]: "0 < backoff_factor s"
  by (simp add: backoff_factor_def)

lemma backoff:
  assumes "sn_timer_running s" "sn_outstanding_segments s = (k, seg) # m"
    and "unat (sn_rto s) * backoff_factor s ^ n < 2 ^ 32"
  shows "sn_segments_out (run sn_tick (timeouts s n) s) = sn_segments_out s @ replicate n seg
    \<and> unat (sn_rto (run sn_tick (timeouts s n) s)) = unat (sn_rto s) * backoff_factor s ^ n
    \<and> sn_consecutive_retransmissions (run sn_tick (timeouts s n) s)
        = sn_consecutive_retransmissions s + of_nat n
    \<and> sn_timer_running (run sn_tick (timeouts s n) s)"
  using assms
proof (induction n arbitrary: s)
  case (Suc n)
  let ?s = "sn_tick (of_nat (unat (sn_rto s) - unat (sn_timer s))) s"
  note bound = backoff_step_bound [OF Suc.prems(3) backoff_factor_pos]
  note tick = sn_tick_timeout [OF Suc.prems(1,2)]
  note rto = tick(3) [OF bound(1)]
  have s: "sn_timer_running ?s" "sn_outstanding_segments ?s = (k, seg) # m" "sn_timer ?s = 0"
    "sn_segments_out ?s = sn_segments_out s @ [seg]"
    "sn_consecutive_retransmissions ?s = sn_consecutive_retransmissions s + 1"
    unfolding tick(1) using Suc.prems(1,2) by simp_all
  have "unat (sn_rto ?s) * backoff_factor ?s ^ n < 2 ^ 32" unfolding rto tick(2) by (rule bound(2))
  from Suc.IH [OF s(1,2) this] show ?case
    unfolding timeouts_Suc [OF s(3) rto tick(2)] run.simps s(4,5) rto tick(2) by (simp add: mult.assoc)
qed simp

text \<open>C10: Something unacknowledged is always resent. While a segment is outstanding the timer
  runs; a tick that does not reach the timeout sends nothing; and the next \<open>n\<close> timeouts resend
  the oldest outstanding segment once each and count each one. With an open window every
  timeout doubles the next, so that the waits grow exponentially; with a closed one, which is
  being probed, the timeout stays as it is.\<close>

theorem sender_backs_off_exponentially:
  assumes "run tx_step ops ([], [], sn_new cap timeout fixed random) = (W, sent, s)" "length W < 2 ^ 62"
    and "sn_outstanding_segments s = (k, seg) # m"
    and "unat (sn_rto s) * (if sn_window_size s = 0 then 1 else 2 ^ n) < 2 ^ 32"
  shows "sn_timer_running s
     \<and> (\<forall>ms. unat (sn_timer s) + unat ms < unat (sn_rto s) \<longrightarrow>
        sn_segments_out (sn_tick ms s) = sn_segments_out s \<and> sn_rto (sn_tick ms s) = sn_rto s)
     \<and> sn_segments_out (run sn_tick (timeouts s n) s) = sn_segments_out s @ replicate n seg
     \<and> unat (sn_rto (run sn_tick (timeouts s n) s)) = unat (sn_rto s) * (if sn_window_size s = 0 then 1 else 2 ^ n)
     \<and> sn_consecutive_retransmissions (run sn_tick (timeouts s n) s)
         = sn_consecutive_retransmissions s + of_nat n
     \<and> sn_timer_running (run sn_tick (timeouts s n) s)"
proof -
  have running: "sn_timer_running s" using tx_run_ok(2) [OF assms(1,2)] assms(3) by simp
  have "sn_segments_out (sn_tick ms s) = sn_segments_out s \<and> sn_rto (sn_tick ms s) = sn_rto s"
    if "unat (sn_timer s) + unat ms < unat (sn_rto s)" for ms
    using that unat_lt_u32 [of "sn_rto s"] by (intro sn_tick_quiet [THEN conjunct1] conjI
        sn_tick_quiet [THEN conjunct2, THEN conjunct1]) simp_all
  moreover have factor: "backoff_factor s ^ n = (if sn_window_size s = 0 then 1 else 2 ^ n)"
    by (simp add: backoff_factor_def)
  ultimately show ?thesis
    using running backoff [OF running assms(3), of n] assms(4) unfolding factor by blast
qed

lemma tx_example_timer:
  "(case snd (snd (run tx_step tx_example tx_example_start)) of s \<Rightarrow>
     (sn_outstanding_segments s = [(1, hd (map snd (sn_outstanding_segments s)))],
      sn_window_size s, unat (sn_timer s), unat (sn_rto s))) = (True, 3, 0, 1000)"
  by code_simp

theorem sender_backs_off_exponentially_witness:
  "case run tx_step tx_example tx_example_start of (W, sent, s) \<Rightarrow>
     unat (sn_rto (run sn_tick (timeouts s 3) s)) = 8000"
proof -
  obtain W sent s where r: "run tx_step tx_example tx_example_start = (W, sent, s)"
    by (cases "run tx_step tx_example tx_example_start") (auto simp del: run.simps)
  have "W = [1, 2, 3, 4]" using tx_example_sends(1) unfolding r by simp
  then have len: "length W < 2 ^ 62" by simp
  have s: "sn_outstanding_segments s = (1, hd (map snd (sn_outstanding_segments s))) # []"
    "sn_window_size s \<noteq> 0" "unat (sn_rto s) = 1000"
    using tx_example_timer unfolding r by simp_all
  have "unat (sn_rto s) * (if sn_window_size s = 0 then 1 else 2 ^ 3) < 2 ^ 32" using s(2,3) by simp
  from sender_backs_off_exponentially [OF r len s(1) this] show ?thesis
    unfolding r prod.case s(3) using s(2) by simp
qed

end
