(* ===== verification/TcpState.thy ===== *)
theory TcpState
  imports TcpSending
begin

text \<open>
  \<open>libsponge/tcp_helpers/tcp_state.{hh,cc}\<close>: the summary of a connection by what its sender
  and its receiver are doing, and the official TCP states in these terms.
\<close>

section \<open>Definitions\<close>

datatype state = LISTEN | SYN_RCVD | SYN_SENT | ESTABLISHED | CLOSE_WAIT | LAST_ACK | FIN_WAIT_1
  | FIN_WAIT_2 | CLOSING | TIME_WAIT | CLOSED | RESET

record tcp_state =
  st_sender :: string
  st_receiver :: string
  st_active :: bool
  st_linger :: bool

definition receiver_ERROR :: string where "receiver_ERROR = ''error (connection was reset)''"
definition receiver_LISTEN :: string where "receiver_LISTEN = ''waiting for SYN: ackno is empty''"
definition receiver_SYN_RECV :: string where
  "receiver_SYN_RECV = ''SYN received (ackno exists), and input to stream hasn't ended''"
definition receiver_FIN_RECV :: string where "receiver_FIN_RECV = ''input to stream has ended''"

definition sender_ERROR :: string where "sender_ERROR = ''error (connection was reset)''"
definition sender_CLOSED :: string where "sender_CLOSED = ''waiting for stream to begin (no SYN sent)''"
definition sender_SYN_SENT :: string where "sender_SYN_SENT = ''stream started but nothing acknowledged''"
definition sender_SYN_ACKED :: string where "sender_SYN_ACKED = ''stream ongoing''"
definition sender_FIN_SENT :: string where
  "sender_FIN_SENT = ''stream finished (FIN sent) but not fully acknowledged''"
definition sender_FIN_ACKED :: string where "sender_FIN_ACKED = ''stream finished and fully acknowledged''"

lemmas summaries = receiver_ERROR_def receiver_LISTEN_def receiver_SYN_RECV_def receiver_FIN_RECV_def
  sender_ERROR_def sender_CLOSED_def sender_SYN_SENT_def sender_SYN_ACKED_def sender_FIN_SENT_def
  sender_FIN_ACKED_def

text \<open>\<open>to_string\<close> of a \<open>bool\<close> prints it as a number.\<close>

definition to_string_bool :: "bool \<Rightarrow> string" where
  "to_string_bool b = (if b then ''1'' else ''0'')"

definition st_name :: "tcp_state \<Rightarrow> string" where
  "st_name s = ''sender=`'' @ st_sender s @ ''`, receiver=`'' @ st_receiver s @ ''`, active='' @
     to_string_bool (st_active s) @ '', linger_after_streams_finish='' @ to_string_bool (st_linger s)"

definition st_eq :: "tcp_state \<Rightarrow> tcp_state \<Rightarrow> bool" where
  "st_eq a b \<longleftrightarrow> st_active a = st_active b \<and> st_linger a = st_linger b \<and>
     st_sender a = st_sender b \<and> st_receiver a = st_receiver b"

text \<open>The constructor from an official state; the flags are true unless a case clears them.\<close>

definition official :: "state \<Rightarrow> tcp_state" where
  "official state =
     (let s = \<lparr>st_sender = [], st_receiver = [], st_active = True, st_linger = True\<rparr>
      in case state of
           LISTEN \<Rightarrow> s\<lparr>st_receiver := receiver_LISTEN, st_sender := sender_CLOSED\<rparr>
         | SYN_RCVD \<Rightarrow> s\<lparr>st_receiver := receiver_SYN_RECV, st_sender := sender_SYN_SENT\<rparr>
         | SYN_SENT \<Rightarrow> s\<lparr>st_receiver := receiver_LISTEN, st_sender := sender_SYN_SENT\<rparr>
         | ESTABLISHED \<Rightarrow> s\<lparr>st_receiver := receiver_SYN_RECV, st_sender := sender_SYN_ACKED\<rparr>
         | CLOSE_WAIT \<Rightarrow> s\<lparr>st_receiver := receiver_FIN_RECV, st_sender := sender_SYN_ACKED,
                            st_linger := False\<rparr>
         | LAST_ACK \<Rightarrow> s\<lparr>st_receiver := receiver_FIN_RECV, st_sender := sender_FIN_SENT,
                          st_linger := False\<rparr>
         | CLOSING \<Rightarrow> s\<lparr>st_receiver := receiver_FIN_RECV, st_sender := sender_FIN_SENT\<rparr>
         | FIN_WAIT_1 \<Rightarrow> s\<lparr>st_receiver := receiver_SYN_RECV, st_sender := sender_FIN_SENT\<rparr>
         | FIN_WAIT_2 \<Rightarrow> s\<lparr>st_receiver := receiver_SYN_RECV, st_sender := sender_FIN_ACKED\<rparr>
         | TIME_WAIT \<Rightarrow> s\<lparr>st_receiver := receiver_FIN_RECV, st_sender := sender_FIN_ACKED\<rparr>
         | RESET \<Rightarrow> s\<lparr>st_receiver := receiver_ERROR, st_sender := sender_ERROR,
                       st_linger := False, st_active := False\<rparr>
         | CLOSED \<Rightarrow> s\<lparr>st_receiver := receiver_FIN_RECV, st_sender := sender_FIN_ACKED,
                        st_linger := False, st_active := False\<rparr>)"

definition receiver_summary :: "tcp_receiver \<Rightarrow> string" where
  "receiver_summary receiver =
     (if bs_error (stream_out receiver) then receiver_ERROR
      else if tr_ackno receiver = None then receiver_LISTEN
      else if bs_input_ended (stream_out receiver) then receiver_FIN_RECV
      else receiver_SYN_RECV)"

definition sender_summary :: "tcp_sender \<Rightarrow> string" where
  "sender_summary sender =
     (if bs_error (sn_stream sender) then sender_ERROR
      else if sn_next_seqno sender = 0 then sender_CLOSED
      else if sn_next_seqno sender = sn_bytes_in_flight sender then sender_SYN_SENT
      else if \<not> bs_eof (sn_stream sender) then sender_SYN_ACKED
      else if sn_next_seqno sender < bs_bytes_written (sn_stream sender) + 2 then sender_SYN_ACKED
      else if sn_bytes_in_flight sender \<noteq> 0 then sender_FIN_SENT
      else sender_FIN_ACKED)"

definition st_of :: "tcp_sender \<Rightarrow> tcp_receiver \<Rightarrow> bool \<Rightarrow> bool \<Rightarrow> tcp_state" where
  "st_of sender receiver active linger =
     \<lparr>st_sender = sender_summary sender, st_receiver = receiver_summary receiver,
      st_active = active, st_linger = (if active then linger else False)\<rparr>"

section \<open>The summaries tell the official states apart\<close>

lemma summaries_differ [simp]:
  "distinct [receiver_ERROR, receiver_LISTEN, receiver_SYN_RECV, receiver_FIN_RECV]"
  "distinct [sender_ERROR, sender_CLOSED, sender_SYN_SENT, sender_SYN_ACKED, sender_FIN_SENT, sender_FIN_ACKED]"
  unfolding summaries by simp_all


lemma summary_eq_iffs [simp]:
  "receiver_ERROR \<noteq> receiver_LISTEN" "receiver_ERROR \<noteq> receiver_SYN_RECV" "receiver_ERROR \<noteq> receiver_FIN_RECV"
  "receiver_LISTEN \<noteq> receiver_SYN_RECV" "receiver_LISTEN \<noteq> receiver_FIN_RECV"
  "receiver_SYN_RECV \<noteq> receiver_FIN_RECV"
  "sender_ERROR \<noteq> sender_CLOSED" "sender_ERROR \<noteq> sender_SYN_SENT" "sender_ERROR \<noteq> sender_SYN_ACKED"
  "sender_ERROR \<noteq> sender_FIN_SENT" "sender_ERROR \<noteq> sender_FIN_ACKED" "sender_CLOSED \<noteq> sender_SYN_SENT"
  "sender_CLOSED \<noteq> sender_SYN_ACKED" "sender_CLOSED \<noteq> sender_FIN_SENT" "sender_CLOSED \<noteq> sender_FIN_ACKED"
  "sender_SYN_SENT \<noteq> sender_SYN_ACKED" "sender_SYN_SENT \<noteq> sender_FIN_SENT" "sender_SYN_SENT \<noteq> sender_FIN_ACKED"
  "sender_SYN_ACKED \<noteq> sender_FIN_SENT" "sender_SYN_ACKED \<noteq> sender_FIN_ACKED" "sender_FIN_SENT \<noteq> sender_FIN_ACKED"
  using summaries_differ by auto

lemmas summary_neqs [simp] = summary_eq_iffs [symmetric]

definition all_states :: "state list" where
  "all_states = [LISTEN, SYN_RCVD, SYN_SENT, ESTABLISHED, CLOSE_WAIT, LAST_ACK, FIN_WAIT_1,
     FIN_WAIT_2, CLOSING, TIME_WAIT, CLOSED, RESET]"

lemma all_states_complete: "a \<in> set all_states"
  by (cases a) (simp_all add: all_states_def)

lemma names_distinct: "distinct (map (\<lambda>x. st_name (official x)) all_states)"
  by code_simp

text \<open>The twelve official TCP states are told apart by their summaries, \<open>operator==\<close> is
  equality, and the printed names of two official states agree only when the states do.\<close>

theorem official_states_differ:
  "(official a = official b \<longleftrightarrow> a = b) \<and> (st_eq (official a) (official b) \<longleftrightarrow> a = b)
     \<and> (st_name (official a) = st_name (official b) \<longleftrightarrow> a = b)"
proof (intro conjI)
  show inj: "official a = official b \<longleftrightarrow> a = b"
    by (cases a; cases b) (simp_all add: official_def)
  have "st_eq x y \<longleftrightarrow> x = y" for x y by (cases x; cases y) (auto simp: st_eq_def)
  then show "st_eq (official a) (official b) \<longleftrightarrow> a = b" using inj by simp
  have "inj_on (\<lambda>x. st_name (official x)) (set all_states)"
    using names_distinct by (simp add: distinct_map del: set_simps)
  then show "st_name (official a) = st_name (official b) \<longleftrightarrow> a = b"
    using all_states_complete by (auto dest: inj_onD)
qed

text \<open>
  What a sender is doing, by its absolute sequence numbers alone.
\<close>

definition sender_phase :: "tcp_sender \<Rightarrow> string" where
  "sender_phase s =
     (if \<not> sn_syn_sent s then sender_CLOSED
      else if sn_ackno s = 0 then sender_SYN_SENT
      else if \<not> sn_fin_sent s then sender_SYN_ACKED
      else if sn_ackno s < sn_next_seqno s then sender_FIN_SENT
      else sender_FIN_ACKED)"

lemma in_flight_all:
  assumes ok: "sn_ok W s" and syn: "sn_syn_sent s"
  shows "sn_next_seqno s = sn_bytes_in_flight s \<longleftrightarrow> sn_ackno s = 0"
proof -
  note sn = sn_okD [OF ok]
  obtain lo where lo: "chain lo (sn_outstanding_segments s) (unat (sn_next_seqno s))" "lo \<le> unat (sn_ackno s)"
    using sn(8) by blast
  have flight: "unat (sn_bytes_in_flight s) = unat (sn_next_seqno s) - lo"
    unfolding sn_bytes_in_flight_def
    using bytes_in_flight_chain [OF lo(1), of 0] unat_lt_u64 [of "sn_next_seqno s"] by simp
  have next_pos: "0 < unat (sn_next_seqno s)" using sn(5) syn by simp
  show ?thesis
  proof
    assume "sn_ackno s = 0"
    then have "lo = 0" using lo(2) by simp
    then show "sn_next_seqno s = sn_bytes_in_flight s" using flight by (simp add: word_unat_eq_iff)
  next
    assume eq: "sn_next_seqno s = sn_bytes_in_flight s"
    have "lo \<le> unat (sn_next_seqno s)" using lo(1) by (rule chain_le)
    moreover have "unat (sn_next_seqno s) = unat (sn_next_seqno s) - lo"
      using flight unfolding eq [symmetric] .
    ultimately have "lo = 0" using next_pos by linarith
    then obtain k seg m where m: "sn_outstanding_segments s = (k, seg) # m" "unat k = 0"
      using lo(1) next_pos by (cases "sn_outstanding_segments s") auto
    have "(k, seg) \<in> set (sn_outstanding_segments s)" "k = 0"
      using m by (simp_all add: unat_eq_0)
    then have "unat (sn_ackno s) < 1" using sn(10) by fastforce
    then show "sn_ackno s = 0" by (simp add: unat_eq_0)
  qed
qed

text \<open>The summary of a sender says what it is doing: nothing before the SYN; then waiting
  for the SYN to be acknowledged, sending, waiting for the FIN to be acknowledged, and done,
  as the acknowledged and the next absolute sequence number tell.\<close>

theorem sender_summary_is_phase:
  assumes "run tx_step ops ([], [], sn_new cap timeout fixed random) = (W, sent, s)" "length W < 2 ^ 62"
  shows "sender_summary s = (if bs_error (sn_stream s) then sender_ERROR else sender_phase s)"
proof -
  note ok = tx_run_ok(1) [OF assms]
  note sn = sn_okD [OF ok]
  have start: "sn_next_seqno s = 0 \<longleftrightarrow> \<not> sn_syn_sent s"
    using sn(5,6) by (auto simp: unat_eq_0 [symmetric])
  have eof: "bs_eof (sn_stream s)" if "sn_fin_sent s"
    using that sn(7) by (simp add: bs_eof_def bs_buffer_empty_def)
  have short: "sn_next_seqno s < bs_bytes_written (sn_stream s) + 2 \<longleftrightarrow> \<not> sn_fin_sent s"
    if "sn_syn_sent s" "bs_eof (sn_stream s)"
  proof -
    have "bs_bytes_written (sn_stream s) = bs_bytes_read (sn_stream s)"
      using bs_okD(3) [OF sn(1)] that(2) by (simp add: bs_eof_def bs_buffer_empty_def)
    moreover have "unat (bs_bytes_read (sn_stream s) + 2) = sn_read s + 2"
      using sn(2,4) by (subst unat_add_u64) simp_all
    ultimately show ?thesis using sn(5) that(1) by (simp add: word_less_nat_alt)
  qed
  note flight = bytes_in_flight_eq(2) [OF ok]
  have "sn_ackno s < sn_next_seqno s \<longleftrightarrow> sn_ackno s \<noteq> sn_next_seqno s"
    using sn(9) by auto
  then show ?thesis
    unfolding sender_summary_def sender_phase_def
    using start eof short flight in_flight_all [OF ok] by auto
qed

theorem sender_summary_is_phase_witness:
  "case run tx_step tx_example tx_example_start of (W, sent, s) \<Rightarrow> sender_summary s = sender_phase s"
proof -
  obtain W sent s where r: "run tx_step tx_example tx_example_start = (W, sent, s)"
    by (cases "run tx_step tx_example tx_example_start") (auto simp del: run.simps)
  have "W = [1, 2, 3, 4]" using tx_example_sends(1) unfolding r by simp
  then have len: "length W < 2 ^ 62" by simp
  have "\<not> bs_error (sn_stream (snd (snd (run tx_step tx_example tx_example_start))))" by code_simp
  then have "\<not> bs_error (sn_stream s)" unfolding r by simp
  with sender_summary_is_phase [OF r len] show ?thesis unfolding r by simp
qed

end
