(* ===== verification/TcpConnection.thy ===== *)
theory TcpConnection
  imports TcpState
begin

text \<open>
  \<open>libsponge/tcp_connection.{hh,cc}\<close>: one endpoint of a TCP connection, a sender and a
  receiver that exchange acknowledgments and windows through the segments, with the rules
  for resetting and for ending the connection.
\<close>

section \<open>State and operations\<close>

record tcp_config =
  cfg_rt_timeout :: u16
  cfg_recv_capacity :: u64
  cfg_send_capacity :: u64
  cfg_fixed_isn :: "wrapping_int32 option"

definition tcp_config_new :: tcp_config where
  "tcp_config_new =
     \<lparr>cfg_rt_timeout = 1000, cfg_recv_capacity = 64000, cfg_send_capacity = 64000, cfg_fixed_isn = None\<rparr>"

definition MAX_RETX_ATTEMPTS :: u32 where "MAX_RETX_ATTEMPTS = 8"

record tcp_connection =
  cn_cfg :: tcp_config
  cn_receiver :: tcp_receiver
  cn_sender :: tcp_sender
  cn_segments_out :: "tcp_segment list"
  cn_linger_after_streams_finish :: bool
  cn_is_active :: bool
  cn_time_since_last_segment_received :: u64

definition cn_new :: "tcp_config \<Rightarrow> wrapping_int32 \<Rightarrow> tcp_connection" where
  "cn_new cfg random =
     \<lparr>cn_cfg = cfg, cn_receiver = tr_new (cfg_recv_capacity cfg),
      cn_sender = sn_new (cfg_send_capacity cfg) (cfg_rt_timeout cfg) (cfg_fixed_isn cfg) random,
      cn_segments_out = [], cn_linger_after_streams_finish = True, cn_is_active = True,
      cn_time_since_last_segment_received = 0\<rparr>"

definition cn_remaining_outbound_capacity :: "tcp_connection \<Rightarrow> u64" where
  "cn_remaining_outbound_capacity c = bs_remaining_capacity (sn_stream (cn_sender c))"

definition cn_bytes_in_flight :: "tcp_connection \<Rightarrow> u64" where
  "cn_bytes_in_flight c = sn_bytes_in_flight (cn_sender c)"

definition cn_unassembled_bytes :: "tcp_connection \<Rightarrow> u64" where
  "cn_unassembled_bytes c = tr_unassembled_bytes (cn_receiver c)"

definition cn_state :: "tcp_connection \<Rightarrow> tcp_state" where
  "cn_state c = st_of (cn_sender c) (cn_receiver c) (cn_is_active c) (cn_linger_after_streams_finish c)"

text \<open>What the connection fills in before a segment goes out: window and acknowledgment.\<close>

definition stamp :: "tcp_receiver \<Rightarrow> tcp_segment \<Rightarrow> tcp_segment" where
  "stamp receiver seg =
     (let win_size = tr_window_size receiver;
          seg = (if 0xffff < win_size then seg\<lparr>ts_header := (ts_header seg)\<lparr>th_win := 0xffff\<rparr>\<rparr>
                 else seg\<lparr>ts_header := (ts_header seg)\<lparr>th_win := ucast win_size\<rparr>\<rparr>)
      in case tr_ackno receiver of
           None \<Rightarrow> seg
         | Some a \<Rightarrow> seg\<lparr>ts_header := (ts_header seg)\<lparr>th_ack := True, th_ackno := a\<rparr>\<rparr>)"

fun push_loop :: "tcp_segment list \<Rightarrow> tcp_connection \<Rightarrow> tcp_connection" where
  "push_loop [] c = c"
| "push_loop (seg # queue) c =
     push_loop queue (c\<lparr>cn_sender := (cn_sender c)\<lparr>sn_segments_out := queue\<rparr>,
                        cn_segments_out := cn_segments_out c @ [stamp (cn_receiver c) seg]\<rparr>)"

definition push_segments_out :: "tcp_connection \<Rightarrow> tcp_connection" where
  "push_segments_out c = push_loop (sn_segments_out (cn_sender c)) c"

abbreviation fail_stream_in :: "tcp_sender \<Rightarrow> tcp_sender" where
  "fail_stream_in s \<equiv> s\<lparr>sn_stream := bs_set_error (sn_stream s)\<rparr>"

abbreviation fail_stream_out :: "tcp_receiver \<Rightarrow> tcp_receiver" where
  "fail_stream_out r \<equiv>
     r\<lparr>tr_reassembler := (tr_reassembler r)\<lparr>re_output := bs_set_error (stream_out r)\<rparr>\<rparr>"

definition unclean_shutdown :: "bool \<Rightarrow> tcp_connection \<Rightarrow> tcp_connection" where
  "unclean_shutdown send_rst c =
     (let c = c\<lparr>cn_sender := fail_stream_in (cn_sender c)\<rparr>;
          c = c\<lparr>cn_receiver := fail_stream_out (cn_receiver c)\<rparr>;
          c = c\<lparr>cn_is_active := False\<rparr>
      in if send_rst then
           let c = c\<lparr>cn_sender := send_empty_segment (cn_sender c)\<rparr>
           in case sn_segments_out (cn_sender c) of
                [] \<Rightarrow> c
              | rst_seg # queue \<Rightarrow>
                  let c = c\<lparr>cn_sender := (cn_sender c)\<lparr>sn_segments_out := queue\<rparr>\<rparr>;
                      rst_seg = rst_seg\<lparr>ts_header := (ts_header rst_seg)\<lparr>th_ack := False\<rparr>\<rparr>;
                      rst_seg = rst_seg\<lparr>ts_header := (ts_header rst_seg)\<lparr>th_rst := True\<rparr>\<rparr>
                  in c\<lparr>cn_segments_out := cn_segments_out c @ [rst_seg]\<rparr>
         else c)"

text \<open>Handling a segment, from the acknowledgment on (lines 38 to 66).\<close>

definition keep_alive :: "tcp_segment \<Rightarrow> tcp_connection \<Rightarrow> bool" where
  "keep_alive seg c \<longleftrightarrow> (case tr_ackno (cn_receiver c) of
     None \<Rightarrow> False
   | Some a \<Rightarrow> length_in_sequence_space seg = 0 \<and> th_seqno (ts_header seg) = wi_minus a 1)"

definition answer_segment :: "tcp_segment \<Rightarrow> tcp_connection \<Rightarrow> tcp_connection" where
  "answer_segment seg c =
     (let c = (if th_ack (ts_header seg)
               then c\<lparr>cn_sender := ack_received (th_ackno (ts_header seg)) (th_win (ts_header seg)) (cn_sender c)\<rparr>
               else c);
          c = (if bs_input_ended (stream_out (cn_receiver c)) \<and> \<not> bs_eof (sn_stream (cn_sender c))
               then c\<lparr>cn_linger_after_streams_finish := False\<rparr> else c);
          send_ack_needed = (0 < length_in_sequence_space seg);
          send_ack_needed = (if keep_alive seg c then True else send_ack_needed);
          c = (if send_ack_needed then
                 let c = c\<lparr>cn_sender := fill_window (cn_sender c)\<rparr>
                 in if sn_segments_out (cn_sender c) = []
                    then c\<lparr>cn_sender := send_empty_segment (cn_sender c)\<rparr> else c
               else c)
      in push_segments_out c)"

definition segment_received :: "tcp_segment \<Rightarrow> tcp_connection \<Rightarrow> failure + tcp_connection" where
  "segment_received seg c =
     (if \<not> cn_is_active c then Inr c
      else
        let c = c\<lparr>cn_time_since_last_segment_received := 0\<rparr>
        in if th_rst (ts_header seg) then Inr (unclean_shutdown False c)
           else case tr_segment_received seg (cn_receiver c) of
                  Inl e \<Rightarrow> Inl e
                | Inr r \<Rightarrow> Inr (answer_segment seg (c\<lparr>cn_receiver := r\<rparr>)))"

definition cn_write :: "byte list \<Rightarrow> tcp_connection \<Rightarrow> u64 \<times> tcp_connection" where
  "cn_write data c =
     (if \<not> cn_is_active c then (0, c)
      else
        let (written, stream) = bs_write data (sn_stream (cn_sender c));
            c = c\<lparr>cn_sender := (cn_sender c)\<lparr>sn_stream := stream\<rparr>\<rparr>;
            c = c\<lparr>cn_sender := fill_window (cn_sender c)\<rparr>
        in (written, push_segments_out c))"

definition cn_tick :: "u64 \<Rightarrow> tcp_connection \<Rightarrow> tcp_connection" where
  "cn_tick ms_since_last_tick c =
     (if \<not> cn_is_active c then c
      else
        let c = c\<lparr>cn_time_since_last_segment_received :=
                    cn_time_since_last_segment_received c + ms_since_last_tick\<rparr>;
            c = c\<lparr>cn_sender := sn_tick ms_since_last_tick (cn_sender c)\<rparr>
        in if MAX_RETX_ATTEMPTS < sn_consecutive_retransmissions (cn_sender c) then
             unclean_shutdown True c
           else
             let c = push_segments_out c
             in if bs_input_ended (stream_out (cn_receiver c)) \<and> bs_eof (sn_stream (cn_sender c))
                   \<and> sn_bytes_in_flight (cn_sender c) = 0 then
                  (if \<not> cn_linger_after_streams_finish c then c\<lparr>cn_is_active := False\<rparr>
                   else if 10 * ucast (cfg_rt_timeout (cn_cfg c)) \<le> cn_time_since_last_segment_received c
                   then c\<lparr>cn_is_active := False\<rparr>
                   else c)
                else c)"

definition end_input_stream :: "tcp_connection \<Rightarrow> tcp_connection" where
  "end_input_stream c =
     (let c = c\<lparr>cn_sender := (cn_sender c)\<lparr>sn_stream := bs_end_input (sn_stream (cn_sender c))\<rparr>\<rparr>;
          c = c\<lparr>cn_sender := fill_window (cn_sender c)\<rparr>
      in push_segments_out c)"

definition connect :: "tcp_connection \<Rightarrow> tcp_connection" where
  "connect c =
     (let c = c\<lparr>cn_sender := fill_window (cn_sender c)\<rparr>;
          c = c\<lparr>cn_is_active := True\<rparr>
      in push_segments_out c)"

text \<open>The destructor; what it throws is caught and printed.\<close>

definition destroy :: "tcp_connection \<Rightarrow> tcp_connection" where
  "destroy c = (if cn_is_active c then unclean_shutdown True c else c)"

section \<open>What the operations do to the parts\<close>

lemma push_loop_eq:
  "push_loop segs c = (if segs = [] then c else c\<lparr>cn_sender := (cn_sender c)\<lparr>sn_segments_out := []\<rparr>,
     cn_segments_out := cn_segments_out c @ map (stamp (cn_receiver c)) segs\<rparr>)"
  by (induction segs arbitrary: c) simp_all

text \<open>Everything the sender has queued goes out, stamped.\<close>

lemma push_segments_out_eq:
  "push_segments_out c = c\<lparr>cn_sender := (cn_sender c)\<lparr>sn_segments_out := []\<rparr>,
     cn_segments_out := cn_segments_out c @ map (stamp (cn_receiver c)) (sn_segments_out (cn_sender c))\<rparr>"
  by (simp add: push_segments_out_def push_loop_eq)

text \<open>A segment without what \<open>stamp\<close> fills in.\<close>

definition bare :: "tcp_segment \<Rightarrow> tcp_segment" where
  "bare seg = seg\<lparr>ts_header := (ts_header seg)\<lparr>th_ack := False, th_ackno := WrappingInt32 0, th_win := 0\<rparr>\<rparr>"

lemma bare_stamp [simp]: "bare (stamp r seg) = bare seg"
  by (simp add: stamp_def bare_def Let_def split: option.split)

lemma stamp_ack:
  "th_ack (ts_header (stamp r seg)) \<longleftrightarrow> tr_ackno r \<noteq> None \<or> th_ack (ts_header seg)"
  "tr_ackno r = Some a \<Longrightarrow> th_ackno (ts_header (stamp r seg)) = a"
  by (simp_all add: stamp_def Let_def split: option.split)

lemma stamp_win: "th_win (ts_header (stamp r seg)) = (if 0xffff < tr_window_size r then 0xffff else ucast (tr_window_size r))"
  by (simp add: stamp_def Let_def split: option.split)

lemma stamp_rst [simp]: "th_rst (ts_header (stamp r seg)) = th_rst (ts_header seg)"
  by (simp add: stamp_def Let_def split: option.split)

text \<open>The receiver does not look at what \<open>stamp\<close> fills in.\<close>

lemma bare_fields:
  assumes "bare seg = bare seg'"
  shows "th_syn (ts_header seg) = th_syn (ts_header seg')" "th_fin (ts_header seg) = th_fin (ts_header seg')"
    "th_seqno (ts_header seg) = th_seqno (ts_header seg')" "ts_payload seg = ts_payload seg'"
    "th_rst (ts_header seg) = th_rst (ts_header seg')"
proof -
  have "(th_syn h, th_fin h, th_seqno h, th_rst h, p) = (th_syn h', th_fin h', th_seqno h', th_rst h', p')"
    if "h = ts_header (bare seg)" "h' = ts_header (bare seg')" "p = ts_payload (bare seg)"
      "p' = ts_payload (bare seg')" for h h' p p'
    using that assms by simp
  from this [OF refl refl refl refl]
  show "th_syn (ts_header seg) = th_syn (ts_header seg')" "th_fin (ts_header seg) = th_fin (ts_header seg')"
    "th_seqno (ts_header seg) = th_seqno (ts_header seg')" "ts_payload seg = ts_payload seg'"
    "th_rst (ts_header seg) = th_rst (ts_header seg')"
    by (simp_all add: bare_def)
qed

lemma tr_segment_received_bare:
  assumes "bare seg = bare seg'"
  shows "tr_segment_received seg r = tr_segment_received seg' r"
  unfolding tr_segment_received_def stream_index_of_def bare_fields [OF assms] ..

end
