(* ===== verification/TcpLifecycle.thy ===== *)
theory TcpLifecycle
  imports TcpConnection
begin

text \<open>
  The life of a connection of \<open>tcp_connection.cc\<close>: the handshake, the answer to every
  segment, resets, giving up on a silent peer, and the two ways of ending.
\<close>

section \<open>The handshake\<close>

abbreviation isn_of :: "tcp_config \<Rightarrow> wrapping_int32 \<Rightarrow> wrapping_int32" where
  "isn_of cfg random \<equiv> (case cfg_fixed_isn cfg of Some i \<Rightarrow> i | None \<Rightarrow> random)"

definition syn_segment :: "wrapping_int32 \<Rightarrow> tcp_segment" where
  "syn_segment isn = tcp_segment_new\<lparr>ts_header := tcp_header_new\<lparr>th_syn := True, th_seqno := isn\<rparr>\<rparr>"

lemmas new_segment_defs = tcp_segment_new_def tcp_header_new_def

lemma syn_segment_simps [simp]:
  "th_syn (ts_header (syn_segment isn))" "\<not> th_fin (ts_header (syn_segment isn))"
  "\<not> th_rst (ts_header (syn_segment isn))" "\<not> th_ack (ts_header (syn_segment isn))"
  "th_seqno (ts_header (syn_segment isn)) = isn" "ts_payload (syn_segment isn) = []"
  "length_in_sequence_space (syn_segment isn) = 1"
  by (simp_all add: syn_segment_def new_segment_defs length_in_sequence_space_def)

text \<open>The sender before and after its SYN, and after the SYN is acknowledged.\<close>

lemma fill_window_new:
  fixes cap timeout fixed random
  defines "s \<equiv> sn_new cap timeout fixed random"
  shows "fill_window s = s\<lparr>sn_syn_sent := True, sn_next_seqno := 1, sn_timer := 0, sn_timer_running := True,
    sn_outstanding_segments := [(0, syn_segment (sn_isn s))], sn_segments_out := [syn_segment (sn_isn s)]\<rparr>"
proof -
  let ?t = "s\<lparr>sn_syn_sent := True, sn_next_seqno := 1, sn_timer := 0, sn_timer_running := True,
    sn_outstanding_segments := [(0, syn_segment (sn_isn s))], sn_segments_out := [syn_segment (sn_isn s)]\<rparr>"
  have "sn_fill_round 1 s = (True, ?t)"
    by (simp add: s_def sn_new_def sn_fill_round_def sn_track_def syn_segment_def Let_def)
  moreover have "sn_next_seqno s < 1" by (simp add: s_def sn_new_def)
  moreover have "sn_fill_loop 1 ?t = ?t" by (rule sn_fill_loop_stop) simp
  ultimately have "sn_fill_loop 1 s = ?t" by (simp add: sn_fill_loop_step)
  then show ?thesis by (simp add: fill_window_def) (simp add: s_def sn_new_def)
qed

lemma fill_window_idle:
  assumes "sn_syn_sent s" "bs_buffer (sn_stream s) = []" "\<not> bs_input_ended (sn_stream s)"
  shows "fill_window s = s"
proof -
  have "sn_fill_loop right s = s" for right
  proof (cases "sn_next_seqno s < right")
    case True
    have "sn_fill_round right s = (False, s)"
      using assms by (simp add: sn_fill_round_def bs_buffer_size_def bs_eof_def)
    from sn_fill_loop_step [OF True this] show ?thesis by simp
  qed (simp add: sn_fill_loop_stop not_less)
  then show ?thesis by (simp add: fill_window_def)
qed

lemma ack_of_syn:
  assumes s: "sn_next_seqno s = 1" "sn_ackno s = 0" "sn_outstanding_segments s = [(0, syn_segment isn)]"
    and idle: "sn_syn_sent s" "bs_buffer (sn_stream s) = []" "\<not> bs_input_ended (sn_stream s)"
  shows "ack_received (wrap 1 (sn_isn s)) win s = s\<lparr>sn_ackno := 1, sn_window_size := win,
    sn_outstanding_segments := [], sn_timer := 0, sn_rto := sn_initial_retransmission_timeout s,
    sn_consecutive_retransmissions := 0, sn_timer_running := False\<rparr>"
proof -
  have "unwrap (wrap 1 (sn_isn s)) (sn_isn s) 0 = 1" by (rule unwrap_wrap_near) simp
  then show ?thesis
    using assms by (cases s) (simp add: ack_received_def fill_window_idle Let_def)
qed

text \<open>The receiver takes segments without data.\<close>

lemma re_push_nothing: "re_push [] i False (re_new cap) = Inr (re_new cap)"
  by (simp add: re_push_def re_new_idx_def re_new_def sm_upper_bound_def sm_lower_bound_def
      re_trim.simps [of _ _ _ _ "[]"] re_store_def re_finish_def bs_new_def bs_buffer_size_def Let_def)

lemma tr_takes_syn:
  assumes "th_syn (ts_header seg)" "\<not> th_fin (ts_header seg)" "ts_payload seg = []"
  shows "tr_segment_received seg (tr_new cap) = Inr ((tr_new cap)\<lparr>tr_isn := Some (th_seqno (ts_header seg))\<rparr>)"
  using assms by (simp add: tr_segment_received_def tr_new_def re_push_nothing Let_def)

lemma tr_takes_empty:
  assumes "\<not> th_fin (ts_header seg)" "ts_payload seg = []"
  shows "tr_segment_received seg ((tr_new cap)\<lparr>tr_isn := Some isn\<rparr>) = Inr ((tr_new cap)\<lparr>tr_isn := Some isn\<rparr>)"
  using assms by (simp add: tr_segment_received_def tr_new_def re_push_nothing Let_def)

text \<open>What \<open>stamp\<close> leaves as it is.\<close>

lemma stamp_keeps [simp]:
  "th_syn (ts_header (stamp r seg)) = th_syn (ts_header seg)"
  "th_fin (ts_header (stamp r seg)) = th_fin (ts_header seg)"
  "th_seqno (ts_header (stamp r seg)) = th_seqno (ts_header seg)"
  "ts_payload (stamp r seg) = ts_payload seg"
  "length_in_sequence_space (stamp r seg) = length_in_sequence_space seg"
  using bare_fields [OF bare_stamp [of r seg]] by (simp_all add: length_in_sequence_space_def)

text \<open>The connection once its SYN is sent, and once it is acknowledged; \<open>peer\<close> is the peer's
  initial sequence number, when known.\<close>

definition syn_sent_sender :: "tcp_config \<Rightarrow> wrapping_int32 \<Rightarrow> tcp_sender" where
  "syn_sent_sender cfg random = (fill_window (cn_sender (cn_new cfg random)))\<lparr>sn_segments_out := []\<rparr>"

definition greeting :: "tcp_config \<Rightarrow> wrapping_int32 \<Rightarrow> wrapping_int32 option \<Rightarrow> tcp_segment" where
  "greeting cfg random peer =
     stamp ((tr_new (cfg_recv_capacity cfg))\<lparr>tr_isn := peer\<rparr>) (syn_segment (isn_of cfg random))"

definition opened :: "tcp_config \<Rightarrow> wrapping_int32 \<Rightarrow> wrapping_int32 option \<Rightarrow> tcp_connection" where
  "opened cfg random peer = (cn_new cfg random)\<lparr>cn_sender := syn_sent_sender cfg random,
     cn_receiver := (tr_new (cfg_recv_capacity cfg))\<lparr>tr_isn := peer\<rparr>,
     cn_segments_out := [greeting cfg random peer]\<rparr>"

lemma tr_new_isn: "(tr_new cap)\<lparr>tr_isn := None\<rparr> = tr_new cap"
  by (simp add: tr_new_def)

lemma sn_new_isn [simp]: "sn_isn (sn_new cap timeout fixed random) = (case fixed of Some i \<Rightarrow> i | None \<Rightarrow> random)"
  by (simp add: sn_new_def)

lemma connect_new: "connect (cn_new cfg random) = opened cfg random None"
  by (simp add: connect_def push_segments_out_eq opened_def syn_sent_sender_def greeting_def cn_new_def
      fill_window_new tr_new_isn Let_def)

lemma tr_new_acks [simp]:
  "tr_ackno ((tr_new cap)\<lparr>tr_isn := peer\<rparr>) = map_option (wrap 1) peer"
  "tr_ackno (tr_new cap) = None"
  "\<not> bs_input_ended (stream_out ((tr_new cap)\<lparr>tr_isn := peer\<rparr>))" "\<not> bs_input_ended (stream_out (tr_new cap))"
  "\<not> bs_error (stream_out ((tr_new cap)\<lparr>tr_isn := peer\<rparr>))" "\<not> bs_error (stream_out (tr_new cap))"
  by (auto simp: tr_new_def tr_ackno_def stream_out_def re_new_def bs_new_def Let_def split: option.split)

text \<open>A listening connection answers a SYN with its own.\<close>

lemma listen_receives_syn:
  "segment_received (greeting cfg random None) (cn_new cfg' random')
     = Inr (opened cfg' random' (Some (isn_of cfg random)))"
proof -
  let ?r = "(tr_new (cfg_recv_capacity cfg'))\<lparr>tr_isn := Some (isn_of cfg random)\<rparr>"
  let ?c = "cn_new cfg' random'"
  have tr: "tr_segment_received (greeting cfg random None) (cn_receiver ?c) = Inr ?r"
    using tr_takes_syn [of "greeting cfg random None"] by (simp add: greeting_def cn_new_def)
  have flags: "\<not> th_rst (ts_header (greeting cfg random None))" "\<not> th_ack (ts_header (greeting cfg random None))"
    "length_in_sequence_space (greeting cfg random None) = 1"
    by (simp_all add: greeting_def tr_new_isn stamp_ack)
  have "sn_segments_out (fill_window (cn_sender ?c)) = [syn_segment (isn_of cfg' random')]"
    by (simp add: cn_new_def fill_window_new)
  then show ?thesis
    using tr flags
    by (simp add: segment_received_def answer_segment_def push_segments_out_eq opened_def
        syn_sent_sender_def greeting_def Let_def) (simp add: cn_new_def)
qed

text \<open>The sender once its SYN is acknowledged, and the connection it belongs to.\<close>

definition acked_sender :: "tcp_config \<Rightarrow> wrapping_int32 \<Rightarrow> u16 \<Rightarrow> tcp_sender" where
  "acked_sender cfg random win = (syn_sent_sender cfg random)\<lparr>sn_ackno := 1, sn_window_size := win,
     sn_outstanding_segments := [], sn_timer_running := False\<rparr>"

definition established :: "tcp_config \<Rightarrow> wrapping_int32 \<Rightarrow> wrapping_int32 \<Rightarrow> u16 \<Rightarrow> tcp_segment list \<Rightarrow> tcp_connection" where
  "established cfg random peer win segs = (cn_new cfg random)\<lparr>cn_sender := acked_sender cfg random win,
     cn_receiver := (tr_new (cfg_recv_capacity cfg))\<lparr>tr_isn := Some peer\<rparr>, cn_segments_out := segs\<rparr>"

lemma syn_sent_fields:
  "sn_next_seqno (syn_sent_sender cfg random) = 1" "sn_ackno (syn_sent_sender cfg random) = 0"
  "sn_outstanding_segments (syn_sent_sender cfg random) = [(0, syn_segment (isn_of cfg random))]"
  "sn_syn_sent (syn_sent_sender cfg random)" "bs_buffer (sn_stream (syn_sent_sender cfg random)) = []"
  "\<not> bs_input_ended (sn_stream (syn_sent_sender cfg random))" "\<not> bs_error (sn_stream (syn_sent_sender cfg random))"
  "sn_isn (syn_sent_sender cfg random) = isn_of cfg random" "sn_segments_out (syn_sent_sender cfg random) = []"
  unfolding syn_sent_sender_def cn_new_def
  by (simp_all add: fill_window_new) (simp_all add: sn_new_def bs_new_def)

lemma ack_of_syn_sent:
  "ack_received (wrap 1 (isn_of cfg random)) win (syn_sent_sender cfg random) = acked_sender cfg random win"
proof -
  have "sn_timer (syn_sent_sender cfg random) = 0"
    "sn_rto (syn_sent_sender cfg random) = sn_initial_retransmission_timeout (syn_sent_sender cfg random)"
    "sn_consecutive_retransmissions (syn_sent_sender cfg random) = 0"
    unfolding syn_sent_sender_def cn_new_def by (simp_all add: fill_window_new) (simp_all add: sn_new_def)
  then show ?thesis
    using ack_of_syn [OF syn_sent_fields(1-6), where win = win] unfolding acked_sender_def syn_sent_fields(8) by simp
qed

lemma acked_fields:
  "sn_next_seqno (acked_sender cfg random win) = 1" "sn_segments_out (acked_sender cfg random win) = []"
  "fill_window (acked_sender cfg random win) = acked_sender cfg random win"
  "\<not> bs_input_ended (sn_stream (acked_sender cfg random win))" "\<not> bs_error (sn_stream (acked_sender cfg random win))"
  "sn_isn (acked_sender cfg random win) = isn_of cfg random" "sn_bytes_in_flight (acked_sender cfg random win) = 0"
  using syn_sent_fields [where cfg = cfg and random = random]
  by (simp_all add: acked_sender_def fill_window_idle sn_bytes_in_flight_def)

definition first_ack :: "tcp_config \<Rightarrow> wrapping_int32 \<Rightarrow> wrapping_int32 \<Rightarrow> tcp_segment" where
  "first_ack cfg random peer = stamp ((tr_new (cfg_recv_capacity cfg))\<lparr>tr_isn := Some peer\<rparr>)
     (tcp_segment_new\<lparr>ts_header := tcp_header_new\<lparr>th_seqno := wrap 1 (isn_of cfg random)\<rparr>\<rparr>)"

lemma opened_receives_syn_ack:
  "segment_received (greeting cfg' random' (Some (isn_of cfg random))) ((opened cfg random None)\<lparr>cn_segments_out := []\<rparr>)
     = Inr (established cfg random (isn_of cfg' random')
         (th_win (ts_header (greeting cfg' random' (Some (isn_of cfg random)))))
         [first_ack cfg random (isn_of cfg' random')])"
proof -
  let ?seg = "greeting cfg' random' (Some (isn_of cfg random))"
  have tr: "tr_segment_received ?seg (tr_new (cfg_recv_capacity cfg))
      = Inr ((tr_new (cfg_recv_capacity cfg))\<lparr>tr_isn := Some (isn_of cfg' random')\<rparr>)"
    using tr_takes_syn [of ?seg] by (simp add: greeting_def)
  have flags: "\<not> th_rst (ts_header ?seg)" "th_ack (ts_header ?seg)" "length_in_sequence_space ?seg = 1"
    "th_ackno (ts_header ?seg) = wrap 1 (isn_of cfg random)"
    by (simp_all add: greeting_def stamp_ack)
  show ?thesis
    using tr flags acked_fields [where cfg = cfg and random = random] ack_of_syn_sent [where cfg = cfg and random = random]
    by (simp add: segment_received_def answer_segment_def push_segments_out_eq opened_def tr_new_isn
        send_empty_segment_def first_ack_def Let_def) (simp add: cn_new_def established_def)
qed

lemma opened_receives_ack:
  "segment_received (first_ack cfg random (isn_of cfg' random')) ((opened cfg' random' (Some peer))\<lparr>cn_segments_out := []\<rparr>)
     = Inr (established cfg' random' peer
         (th_win (ts_header (first_ack cfg random (isn_of cfg' random')))) segs)" if "segs = []" "peer = isn_of cfg random"
proof -
  let ?seg = "first_ack cfg random (isn_of cfg' random')"
  let ?r = "(tr_new (cfg_recv_capacity cfg'))\<lparr>tr_isn := Some peer\<rparr>"
  have tr: "tr_segment_received ?seg ?r = Inr ?r"
    using tr_takes_empty [of ?seg] by (simp add: first_ack_def new_segment_defs)
  have flags: "\<not> th_rst (ts_header ?seg)" "th_ack (ts_header ?seg)" "length_in_sequence_space ?seg = 0"
    "th_ackno (ts_header ?seg) = wrap 1 (isn_of cfg' random')" "th_seqno (ts_header ?seg) = wrap 1 peer"
    by (simp_all add: first_ack_def stamp_ack that) (simp_all add: new_segment_defs length_in_sequence_space_def)
  have "wi_minus (wrap 1 peer) 1 \<noteq> wrap 1 peer"
    by (cases peer) (simp add: wi_minus_def wi_plus_def wrap_def)
  then have "\<not> keep_alive ?seg c" if "cn_receiver c = ?r" for c
    using that flags by (auto simp: keep_alive_def)
  then show ?thesis
    using tr flags acked_fields [where cfg = cfg' and random = random'] ack_of_syn_sent [where cfg = cfg' and random = random'] that(1)
    by (simp add: segment_received_def answer_segment_def push_segments_out_eq opened_def Let_def)
      (simp add: cn_new_def established_def)
qed

lemma sender_summaries:
  "sender_summary (syn_sent_sender cfg random) = sender_SYN_SENT"
  "sender_summary (acked_sender cfg random win) = sender_SYN_ACKED"
  "sender_summary (sn_new cap timeout fixed random) = sender_CLOSED"
  using syn_sent_fields [where cfg = cfg and random = random]
    acked_fields [where cfg = cfg and random = random and win = win]
  by (simp_all add: sender_summary_def sn_bytes_in_flight_def bs_eof_def)
    (simp_all add: sn_new_def bs_new_def)

lemma receiver_summaries:
  "receiver_summary ((tr_new cap)\<lparr>tr_isn := Some peer\<rparr>) = receiver_SYN_RECV"
  "receiver_summary (tr_new cap) = receiver_LISTEN"
  by (simp_all add: receiver_summary_def)

text \<open>C11: The three-way handshake works, whatever the configurations and the initial sequence
  numbers: a new connection is listening; connecting sends one SYN, a listening connection
  answers it with one SYN that acknowledges it, the first answers that with one empty
  acknowledgment, and nothing is left to send when that arrives. The official states are
  SYN_SENT, SYN_RCVD and in the end ESTABLISHED on both sides.\<close>

theorem handshake_establishes:
  "\<exists>syn syn_ack ack A B.
     connect (cn_new cfg random) = A \<and> cn_segments_out A = [syn] \<and> cn_state A = official SYN_SENT
     \<and> cn_state (cn_new cfg' random') = official LISTEN
     \<and> segment_received syn (cn_new cfg' random') = Inr B
     \<and> cn_segments_out B = [syn_ack] \<and> cn_state B = official SYN_RCVD
     \<and> (\<exists>A2 B2. segment_received syn_ack (A\<lparr>cn_segments_out := []\<rparr>) = Inr A2
           \<and> cn_segments_out A2 = [ack] \<and> length_in_sequence_space ack = 0 \<and> cn_state A2 = official ESTABLISHED
           \<and> segment_received ack (B\<lparr>cn_segments_out := []\<rparr>) = Inr B2
           \<and> cn_segments_out B2 = [] \<and> cn_state B2 = official ESTABLISHED)"
proof -
  let ?A = "opened cfg random None" and ?B = "opened cfg' random' (Some (isn_of cfg random))"
  let ?syn_ack = "greeting cfg' random' (Some (isn_of cfg random))"
  let ?ack = "first_ack cfg random (isn_of cfg' random')"
  note states = cn_state_def st_of_def official_def sender_summaries receiver_summaries
  have sent: "cn_segments_out ?A = [greeting cfg random None]" "cn_state ?A = official SYN_SENT"
    "cn_segments_out ?B = [?syn_ack]" "cn_state ?B = official SYN_RCVD"
    by (simp_all add: opened_def states tr_new_isn) (simp_all add: cn_new_def)
  have new: "cn_state (cn_new cfg' random') = official LISTEN"
    by (simp add: states cn_new_def)
  have done_state: "cn_state (established cfg random peer win segs) = official ESTABLISHED" for cfg random peer win segs
    by (simp add: established_def states) (simp add: cn_new_def)
  have len: "length_in_sequence_space ?ack = 0"
    by (simp add: first_ack_def) (simp add: new_segment_defs length_in_sequence_space_def)
  have out: "cn_segments_out (established cfg random peer win segs) = segs" for cfg random peer win segs
    by (simp add: established_def)
  show ?thesis
    using connect_new [of cfg random]
      listen_receives_syn [where cfg = cfg and random = random and cfg' = cfg' and random' = random']
      opened_receives_syn_ack [where cfg = cfg and random = random and cfg' = cfg' and random' = random']
      opened_receives_ack [OF refl refl, where cfg = cfg and random = random and cfg' = cfg' and random' = random']
      sent new done_state len out
    by blast
qed

section \<open>Answering\<close>

lemma stamp_header:
  "th_win (ts_header (stamp r seg)) = (if 0xffff < tr_window_size r then 0xffff else ucast (tr_window_size r))"
  "tr_ackno r = Some a \<Longrightarrow> th_ack (ts_header (stamp r seg)) \<and> th_ackno (ts_header (stamp r seg)) = a"
  by (simp_all add: stamp_win stamp_ack)

text \<open>What a segment without RST leaves queued in the sender just before everything goes out.\<close>

lemma answer_segment_parts:
  obtains s linger where
    "answer_segment seg c = push_segments_out (c\<lparr>cn_sender := s, cn_linger_after_streams_finish := linger\<rparr>)"
    "0 < length_in_sequence_space seg \<or> keep_alive seg c \<longrightarrow> sn_segments_out s \<noteq> []"
proof -
  define s1 where "s1 = (if th_ack (ts_header seg)
    then ack_received (th_ackno (ts_header seg)) (th_win (ts_header seg)) (cn_sender c) else cn_sender c)"
  define linger where "linger = (if bs_input_ended (stream_out (cn_receiver c)) \<and> \<not> bs_eof (sn_stream s1)
    then False else cn_linger_after_streams_finish c)"
  define s2 where "s2 = (if 0 < length_in_sequence_space seg \<or> keep_alive seg c
    then if sn_segments_out (fill_window s1) = [] then send_empty_segment (fill_window s1) else fill_window s1
    else s1)"
  have "answer_segment seg c = push_segments_out (c\<lparr>cn_sender := s2, cn_linger_after_streams_finish := linger\<rparr>)"
    unfolding answer_segment_def s2_def linger_def Let_def s1_def by (cases c) (simp add: keep_alive_def)
  moreover have "0 < length_in_sequence_space seg \<or> keep_alive seg c \<longrightarrow> sn_segments_out s2 \<noteq> []"
    by (simp add: s2_def send_empty_segment_def)
  ultimately show thesis by (rule that)
qed

text \<open>C12: A segment that an active connection receives is acknowledged at once: everything its
  sender has queued goes out, each segment with the acknowledgment number and the window
  (at most 65535) of the receiver after that segment; and if the segment occupies sequence
  space, or is a keep-alive just before the acknowledged number, at least one goes out.\<close>

theorem segments_are_answered:
  assumes "cn_is_active c" "\<not> th_rst (ts_header seg)" "segment_received seg c = Inr c'"
  shows "\<exists>segs. cn_segments_out c' = cn_segments_out c @ segs
     \<and> sn_segments_out (cn_sender c') = [] \<and> cn_is_active c' \<and> cn_time_since_last_segment_received c' = 0
     \<and> (0 < length_in_sequence_space seg \<or> keep_alive seg c' \<longrightarrow> segs \<noteq> [])
     \<and> (\<forall>x \<in> set segs. unat (th_win (ts_header x)) = min 65535 (unat (tr_window_size (cn_receiver c')))
          \<and> (\<forall>a. tr_ackno (cn_receiver c') = Some a \<longrightarrow> th_ack (ts_header x) \<and> th_ackno (ts_header x) = a))"
proof -
  obtain r where r: "tr_segment_received seg (cn_receiver c) = Inr r"
    "c' = answer_segment seg (c\<lparr>cn_time_since_last_segment_received := 0, cn_receiver := r\<rparr>)"
    using assms by (auto simp: segment_received_def Let_def split: sum.splits)
  obtain s linger where s:
    "c' = push_segments_out (c\<lparr>cn_time_since_last_segment_received := 0, cn_receiver := r, cn_sender := s,
       cn_linger_after_streams_finish := linger\<rparr>)"
    "0 < length_in_sequence_space seg
       \<or> keep_alive seg (c\<lparr>cn_time_since_last_segment_received := 0, cn_receiver := r\<rparr>) \<longrightarrow> sn_segments_out s \<noteq> []"
    unfolding r(2) by (rule answer_segment_parts)
  have recv: "cn_receiver c' = r" by (simp add: s(1) push_segments_out_eq)
  have "keep_alive seg (c\<lparr>cn_time_since_last_segment_received := 0, cn_receiver := r\<rparr>) = keep_alive seg c'"
    by (simp add: keep_alive_def recv)
  moreover have "unat (th_win (ts_header (stamp r x))) = min 65535 (unat (tr_window_size r))" for x
    by (auto simp: stamp_header(1) word_less_nat_alt not_less min_def unsigned_ucast_eq take_bit_eq_mod)
  ultimately show ?thesis
    using s assms(1) stamp_header(2) [of r] unfolding recv
    by (intro exI [of _ "map (stamp r) (sn_segments_out s)"]) (simp add: push_segments_out_eq)
qed

theorem segments_are_answered_witness:
  "case segment_received (greeting (tcp_config_new) (WrappingInt32 5) None) (cn_new tcp_config_new (WrappingInt32 9)) of
     Inl _ \<Rightarrow> False
   | Inr c' \<Rightarrow> (\<forall>x \<in> set (cn_segments_out c'). \<forall>a. tr_ackno (cn_receiver c') = Some a \<longrightarrow> th_ackno (ts_header x) = a)
       \<and> cn_segments_out c' \<noteq> []"
proof -
  note r = listen_receives_syn [of tcp_config_new "WrappingInt32 5" tcp_config_new "WrappingInt32 9"]
  have "cn_is_active (cn_new tcp_config_new (WrappingInt32 9))"
    "cn_segments_out (cn_new tcp_config_new (WrappingInt32 9)) = []"
    "\<not> th_rst (ts_header (greeting tcp_config_new (WrappingInt32 5) None))"
    "0 < length_in_sequence_space (greeting tcp_config_new (WrappingInt32 5) None)"
    by (simp_all add: cn_new_def greeting_def)
  with segments_are_answered [OF _ _ r] show ?thesis unfolding r by auto
qed

section \<open>Resetting\<close>

lemma unclean_shutdown_state: "cn_state (unclean_shutdown b c) = official RESET"
  by (simp add: unclean_shutdown_def cn_state_def st_of_def official_def sender_summary_def
      receiver_summary_def stream_out_def bs_set_error_def send_empty_segment_def Let_def split: list.split)


text \<open>C15: A connection that has ended does nothing any more: it ignores segments and time and
  accepts no data. A RST ends an active one at once, in the official state RESET, and is not
  answered.\<close>

theorem ended_connection_is_silent:
  assumes "cn_is_active c \<longrightarrow> th_rst (ts_header rst)"
  shows "\<exists>c'. segment_received rst c = Inr c' \<and> cn_segments_out c' = cn_segments_out c
     \<and> (cn_is_active c \<longrightarrow> cn_state c' = official RESET) \<and> \<not> cn_is_active c'
     \<and> segment_received seg c' = Inr c' \<and> cn_tick ms c' = c' \<and> cn_write d c' = (0, c') \<and> destroy c' = c'"
proof (cases "cn_is_active c")
  case True
  let ?c = "unclean_shutdown False (c\<lparr>cn_time_since_last_segment_received := 0\<rparr>)"
  have "\<not> cn_is_active ?c" "cn_segments_out ?c = cn_segments_out c"
    by (simp_all add: unclean_shutdown_def Let_def)
  then show ?thesis
    using True assms unclean_shutdown_state
    by (simp add: segment_received_def cn_tick_def cn_write_def destroy_def)
next
  case False
  then show ?thesis by (simp add: segment_received_def cn_tick_def cn_write_def destroy_def)
qed

theorem ended_connection_is_silent_witness:
  "\<exists>c'. segment_received ((syn_segment (WrappingInt32 5))\<lparr>ts_header := tcp_header_new\<lparr>th_rst := True\<rparr>\<rparr>)
      (cn_new tcp_config_new (WrappingInt32 9)) = Inr c' \<and> cn_state c' = official RESET
    \<and> segment_received (syn_segment (WrappingInt32 5)) c' = Inr c'"
  using ended_connection_is_silent [of "cn_new tcp_config_new (WrappingInt32 9)"
      "(syn_segment (WrappingInt32 5))\<lparr>ts_header := tcp_header_new\<lparr>th_rst := True\<rparr>\<rparr>"
      "syn_segment (WrappingInt32 5)"]
  by (auto simp: cn_new_def)






section \<open>Ending\<close>

lemma summaries_finished:
  assumes "sender_summary s = sender_FIN_ACKED"
  shows "bs_eof (sn_stream s)" "sn_bytes_in_flight s = 0" "\<not> bs_error (sn_stream s)"
  using assms unfolding sender_summary_def by (auto split: if_splits)

lemma summaries_fin_received:
  assumes "receiver_summary r = receiver_FIN_RECV"
  shows "bs_input_ended (stream_out r)" "\<not> bs_error (stream_out r)"
  using assms unfolding receiver_summary_def by (auto split: if_splits)

lemma sender_summary_out [simp]: "sender_summary (s\<lparr>sn_segments_out := q\<rparr>) = sender_summary s"
  by (simp add: sender_summary_def sn_bytes_in_flight_def)

text \<open>A tick of a connection with both streams finished and everything acknowledged.\<close>

lemma cn_tick_finished:
  assumes "cn_is_active c" "sender_summary (cn_sender c) = sender_FIN_ACKED"
    and "receiver_summary (cn_receiver c) = receiver_FIN_RECV"
    and "\<not> sn_timer_running (cn_sender c)" "sn_consecutive_retransmissions (cn_sender c) \<le> 8"
  shows "cn_tick ms c = (push_segments_out c)\<lparr>
     cn_time_since_last_segment_received := cn_time_since_last_segment_received c + ms,
     cn_is_active := cn_linger_after_streams_finish c
       \<and> cn_time_since_last_segment_received c + ms < 10 * ucast (cfg_rt_timeout (cn_cfg c))\<rparr>"
proof -
  have "sn_tick ms (cn_sender c) = cn_sender c" using assms(4) by (simp add: sn_tick_def)
  moreover have "\<not> MAX_RETX_ATTEMPTS < sn_consecutive_retransmissions (cn_sender c)"
    using assms(5) by (simp add: MAX_RETX_ATTEMPTS_def)
  ultimately show ?thesis
    using assms(1) summaries_finished [OF assms(2)] summaries_fin_received [OF assms(3)]
    by (cases c) (auto simp: cn_tick_def push_segments_out_eq sn_bytes_in_flight_def Let_def not_le)
qed

text \<open>C14: A connection whose streams have both ended, everything acknowledged, ends within a
  bounded time and without an error. If it does not linger (it was closed by the other side
  first) the next tick ends it; if it lingers, in the official state TIME_WAIT, it stays
  active exactly until ten initial timeouts have passed since the last segment. It ends in
  the official state CLOSED.\<close>

theorem finished_connection_ends:
  assumes "cn_is_active c" "sender_summary (cn_sender c) = sender_FIN_ACKED"
    and "receiver_summary (cn_receiver c) = receiver_FIN_RECV"
    and "\<not> sn_timer_running (cn_sender c)" "sn_consecutive_retransmissions (cn_sender c) \<le> 8"
    and "unat (cn_time_since_last_segment_received c) + sum_list (map unat ticks) < 2 ^ 64" "ticks \<noteq> []"
    and "c' = run cn_tick ticks c"
  shows "(cn_is_active c' \<longleftrightarrow> cn_linger_after_streams_finish c
       \<and> unat (cn_time_since_last_segment_received c) + sum_list (map unat ticks) < 10 * unat (cfg_rt_timeout (cn_cfg c)))
     \<and> cn_state c' = official (if cn_is_active c' then TIME_WAIT else CLOSED)"
proof -
  have timeout: "unat (10 * ucast (cfg_rt_timeout (cn_cfg c)) :: u64) = 10 * unat (cfg_rt_timeout (cn_cfg c))" for c
  proof -
    have "unat (ucast (cfg_rt_timeout (cn_cfg c)) :: u64) = unat (cfg_rt_timeout (cn_cfg c))"
      using unat_lt_u16 [of "cfg_rt_timeout (cn_cfg c)"] by (simp add: unsigned_ucast_eq take_bit_eq_mod)
    then show ?thesis
      using unat_lt_u16 [of "cfg_rt_timeout (cn_cfg c)"] by (simp add: unat_word_ariths)
  qed
  have ended: "run cn_tick ticks c = c" if "\<not> cn_is_active c" for ticks c
    using that by (induction ticks) (simp_all add: cn_tick_def)
  show ?thesis
    using assms
  proof (induction ticks arbitrary: c)
    case (Cons ms ticks)
    let ?c = "cn_tick ms c"
    note tick = cn_tick_finished [OF Cons.prems(1-5), of ms]
    have time: "unat (cn_time_since_last_segment_received ?c) = unat (cn_time_since_last_segment_received c) + unat ms"
      unfolding tick using Cons.prems(6) by (simp add: unat_add_u64)
    have parts: "sender_summary (cn_sender ?c) = sender_FIN_ACKED" "receiver_summary (cn_receiver ?c) = receiver_FIN_RECV"
      "\<not> sn_timer_running (cn_sender ?c)" "sn_consecutive_retransmissions (cn_sender ?c) \<le> 8"
      "cn_cfg ?c = cn_cfg c" "cn_linger_after_streams_finish ?c = cn_linger_after_streams_finish c"
      unfolding tick using Cons.prems(2-5) by (simp_all add: push_segments_out_eq)
    have active: "cn_is_active ?c \<longleftrightarrow> cn_linger_after_streams_finish c
        \<and> unat (cn_time_since_last_segment_received ?c) < 10 * unat (cfg_rt_timeout (cn_cfg c))"
      unfolding tick by (simp add: word_less_nat_alt timeout)
    have state: "cn_state ?c = official (if cn_is_active ?c then TIME_WAIT else CLOSED)"
      using parts active by (simp add: cn_state_def st_of_def official_def)
    show ?case
    proof (cases "ticks = [] \<or> \<not> cn_is_active ?c")
      case True
      then have "c' = ?c" using Cons.prems(8) ended by auto
      then show ?thesis using True active state time Cons.prems(6) by auto
    next
      case False
      have "unat (cn_time_since_last_segment_received ?c) + sum_list (map unat ticks) < 2 ^ 64"
        using Cons.prems(6) by (simp add: time)
      from Cons.IH [OF _ parts(1-4) this] show ?thesis
        using False Cons.prems(8) by (simp add: parts time add.assoc)
    qed
  qed simp
qed

text \<open>A connection that connects, ends its stream and receives the peer's FIN.\<close>

definition peer_segment :: "bool \<Rightarrow> bool \<Rightarrow> u32 \<Rightarrow> u32 \<Rightarrow> tcp_segment" where
  "peer_segment syn fin seqno ackno = tcp_segment_new\<lparr>ts_header := tcp_header_new
     \<lparr>th_syn := syn, th_fin := fin, th_seqno := WrappingInt32 seqno, th_ack := True,
      th_ackno := WrappingInt32 ackno, th_win := 1000\<rparr>\<rparr>"

definition example_close :: "u32 \<Rightarrow> failure + tcp_connection" where
  "example_close isn =
     (case segment_received (peer_segment True False 7 (isn + 1)) (connect (cn_new tcp_config_new (WrappingInt32 isn))) of
        Inl e \<Rightarrow> Inl e
      | Inr c \<Rightarrow> segment_received (peer_segment False True 8 (isn + 2)) (end_input_stream c))"

lemma example_close_state:
  "case example_close 100 of Inl _ \<Rightarrow> False
   | Inr c \<Rightarrow> cn_is_active c \<and> sender_summary (cn_sender c) = sender_FIN_ACKED
       \<and> receiver_summary (cn_receiver c) = receiver_FIN_RECV \<and> \<not> sn_timer_running (cn_sender c)
       \<and> sn_consecutive_retransmissions (cn_sender c) \<le> 8 \<and> cn_linger_after_streams_finish c
       \<and> cn_time_since_last_segment_received c = 0 \<and> cfg_rt_timeout (cn_cfg c) = 1000"
  by code_simp

theorem finished_connection_ends_witness:
  "case example_close 100 of Inl _ \<Rightarrow> False
   | Inr c \<Rightarrow> cn_is_active (run cn_tick [4000, 5999] c) \<and> cn_state (run cn_tick [4000, 6000] c) = official CLOSED"
proof -
  obtain c where c: "example_close 100 = Inr c"
    using example_close_state by (cases "example_close 100") simp_all
  have s: "cn_is_active c" "sender_summary (cn_sender c) = sender_FIN_ACKED"
    "receiver_summary (cn_receiver c) = receiver_FIN_RECV" "\<not> sn_timer_running (cn_sender c)"
    "sn_consecutive_retransmissions (cn_sender c) \<le> 8"
    and t: "cn_linger_after_streams_finish c" "cn_time_since_last_segment_received c = 0"
      "cfg_rt_timeout (cn_cfg c) = 1000"
    using example_close_state unfolding c by simp_all
  have small: "unat (cn_time_since_last_segment_received c) + sum_list (map unat [4000, 5999 :: u64]) < 2 ^ 64"
    "unat (cn_time_since_last_segment_received c) + sum_list (map unat [4000, 6000 :: u64]) < 2 ^ 64"
    by (simp_all add: t)
  show ?thesis
    using finished_connection_ends [OF s small(1) _ refl] finished_connection_ends [OF s small(2) _ refl] t
    unfolding c by simp
qed

end
