(* ===== verification/FileDescriptor.thy ===== *)
theory FileDescriptor
  imports Buffers
begin

text \<open>
  \<open>libsponge/util/file_descriptor.{hh,cc}\<close>, \<open>SystemCall\<close> of \<open>util.cc\<close> and
  \<open>Socket::shutdown\<close>: handles on descriptors of the operating system. What a system call
  returns is decided by a kernel, which is a parameter: it may depend on everything that has
  happened before, which the state keeps as a trace.
\<close>

section \<open>The operating system\<close>

text \<open>What a process does to the outside world: bytes read from and written to a descriptor,
  polling, shutting down a socket, closing, reading the clock.\<close>

datatype sys_event = SysRead int "byte list" | SysWrite int "byte list"
  | SysPoll "(int \<times> u16) list" | SysShutdown int int | SysClose int | SysClock u64

text \<open>The answers of the kernel, a function of the past and of the arguments; \<open>Inl\<close> is an
  \<open>errno\<close>. \<open>poll\<close> returns the number of ready descriptors and \<open>revents\<close> for each index.
  \<open>k_abort\<close> is a flag that another thread may set.\<close>

record kernel =
  k_read :: "sys_event list \<Rightarrow> int \<Rightarrow> u64 \<Rightarrow> int + byte list"
  k_writev :: "sys_event list \<Rightarrow> int \<Rightarrow> (byte list \<times> u64) list \<Rightarrow> int + nat"
  k_poll :: "sys_event list \<Rightarrow> (int \<times> u16) list \<Rightarrow> int \<Rightarrow> int + nat \<times> (nat \<Rightarrow> u16)"
  k_shutdown :: "sys_event list \<Rightarrow> int \<Rightarrow> int \<Rightarrow> int + nat"
  k_close :: "sys_event list \<Rightarrow> int \<Rightarrow> int + nat"
  k_clock :: "sys_event list \<Rightarrow> u64"
  k_abort :: "sys_event list \<Rightarrow> bool"

text \<open>\<open>FDWrapper\<close>, shared by all duplicates of a \<open>FileDescriptor\<close>: a \<open>FileDescriptor\<close> is a
  reference into the store \<open>os_fds\<close>.\<close>

record fd_wrapper =
  fd_fd :: int
  fd_is_eof :: bool
  fd_is_closed :: bool
  fd_reads :: u32
  fd_writes :: u32

type_synonym fd_ref = int

record os =
  os_fds :: "fd_ref \<Rightarrow> fd_wrapper"
  os_trace :: "sys_event list"

definition happens :: "sys_event \<Rightarrow> 'a os_scheme \<Rightarrow> 'a os_scheme" where
  "happens e w = w\<lparr>os_trace := os_trace w @ [e]\<rparr>"

definition upd_fd :: "fd_ref \<Rightarrow> (fd_wrapper \<Rightarrow> fd_wrapper) \<Rightarrow> 'a os_scheme \<Rightarrow> 'a os_scheme" where
  "upd_fd fd f w = w\<lparr>os_fds := (os_fds w)(fd := f (os_fds w fd))\<rparr>"

text \<open>A system call returns a number, or -1 with \<open>errno\<close> set.\<close>

definition returned :: "int + nat \<Rightarrow> int \<times> int" where
  "returned r = (case r of Inl errno \<Rightarrow> (-1, errno) | Inr n \<Rightarrow> (int n, 0))"

definition system_call :: "string \<Rightarrow> int \<times> int \<Rightarrow> int \<Rightarrow> failure + int" where
  "system_call attempt res errno_mask =
     (case res of (return_value, errno) \<Rightarrow>
        if 0 \<le> return_value \<or> errno = errno_mask then Inr return_value else Inl (Thrown attempt))"

lemma system_call_returned:
  "system_call attempt (returned r) 0 = Inr n \<Longrightarrow> n = -1 \<and> r = Inl 0 \<or> 0 \<le> n \<and> r = Inr (nat n)"
  by (auto simp: system_call_def returned_def split: sum.splits if_splits)

section \<open>FileDescriptor\<close>

definition fdw_new :: "int \<Rightarrow> failure + fd_wrapper" where
  "fdw_new fd =
     (if fd < 0 then Inl (Thrown ''invalid fd number'')
      else Inr \<lparr>fd_fd = fd, fd_is_eof = False, fd_is_closed = False, fd_reads = 0, fd_writes = 0\<rparr>)"

definition fd_num :: "fd_ref \<Rightarrow> 'a os_scheme \<Rightarrow> int" where
  "fd_num fd w = fd_fd (os_fds w fd)"

definition fd_eof :: "fd_ref \<Rightarrow> 'a os_scheme \<Rightarrow> bool" where
  "fd_eof fd w = fd_is_eof (os_fds w fd)"

definition fd_closed :: "fd_ref \<Rightarrow> 'a os_scheme \<Rightarrow> bool" where
  "fd_closed fd w = fd_is_closed (os_fds w fd)"

definition read_count :: "fd_ref \<Rightarrow> 'a os_scheme \<Rightarrow> u32" where
  "read_count fd w = fd_reads (os_fds w fd)"

definition write_count :: "fd_ref \<Rightarrow> 'a os_scheme \<Rightarrow> u32" where
  "write_count fd w = fd_writes (os_fds w fd)"

definition register_read :: "fd_ref \<Rightarrow> 'a os_scheme \<Rightarrow> 'a os_scheme" where
  "register_read fd = upd_fd fd (\<lambda>x. x\<lparr>fd_reads := fd_reads x + 1\<rparr>)"

definition register_write :: "fd_ref \<Rightarrow> 'a os_scheme \<Rightarrow> 'a os_scheme" where
  "register_write fd = upd_fd fd (\<lambda>x. x\<lparr>fd_writes := fd_writes x + 1\<rparr>)"

definition fd_close :: "kernel \<Rightarrow> fd_ref \<Rightarrow> 'a os_scheme \<Rightarrow> failure + 'a os_scheme" where
  "fd_close K fd w =
     (case system_call ''close'' (returned (k_close K (os_trace w) (fd_num fd w))) 0 of
        Inl e \<Rightarrow> Inl e
      | Inr _ \<Rightarrow> Inr (upd_fd fd (\<lambda>x. x\<lparr>fd_is_eof := True, fd_is_closed := True\<rparr>)
                        (happens (SysClose (fd_num fd w)) w)))"

text \<open>The destructor of the last duplicate; exceptions are caught and printed.\<close>

definition fdw_destroy :: "kernel \<Rightarrow> fd_ref \<Rightarrow> 'a os_scheme \<Rightarrow> 'a os_scheme" where
  "fdw_destroy K fd w =
     (if fd_closed fd w then w else case fd_close K fd w of Inl _ \<Rightarrow> w | Inr w \<Rightarrow> w)"

definition BUFFER_SIZE :: u64 where "BUFFER_SIZE = 1024 * 1024"

definition fd_read :: "kernel \<Rightarrow> fd_ref \<Rightarrow> u64 \<Rightarrow> 'a os_scheme \<Rightarrow> failure + byte list \<times> 'a os_scheme" where
  "fd_read K fd limit w =
     (let size_to_read = min BUFFER_SIZE limit;
          res = k_read K (os_trace w) (fd_num fd w) size_to_read;
          str = (case res of Inl _ \<Rightarrow> [] | Inr bytes \<Rightarrow> bytes)
      in case system_call ''read'' (returned (case res of Inl e \<Rightarrow> Inl e | Inr bytes \<Rightarrow> Inr (length bytes))) 0 of
           Inl e \<Rightarrow> Inl e
         | Inr bytes_read \<Rightarrow>
             let w = happens (SysRead (fd_num fd w) str) w;
                 w = (if 0 < limit \<and> bytes_read = 0 then upd_fd fd (\<lambda>x. x\<lparr>fd_is_eof := True\<rparr>) w else w)
             in if sint size_to_read < bytes_read then Inl (Thrown ''read() read more than requested'')
                else if bytes_read < 0 then Inl (Thrown ''length_error'')
                else Inr (str, register_read fd w))"

text \<open>A call that throws leaves no state behind: every caller in the program gives up then.
  The bytes that \<open>writev\<close> takes are the first \<open>bytes_written\<close> of the buffers.\<close>

lemma bv_remove_prefix_shrinks:
  "bv_remove_prefix n vs = Inr vs' \<Longrightarrow> 0 < n \<Longrightarrow>
     sum_list (map (\<lambda>v. length v + 1) vs') < sum_list (map (\<lambda>v. length v + 1) vs)"
proof (induction n vs rule: bv_remove_prefix.induct)
  case (2 n v vs)
  show ?case
  proof (cases "n < size_of v")
    case True
    then have "0 < length v" "0 < unat n" using 2(3) by (auto simp: size_of_def unat_gt_0 word_gt_0)
    then show ?thesis using 2(2,3) True by auto
  next
    case False
    then have rec: "bv_remove_prefix (n - size_of v) vs = Inr vs'" using 2(2,3) by simp
    show ?thesis
    proof (cases "n = size_of v")
      case True
      then show ?thesis using rec by (cases vs) (auto split: if_splits)
    next
      case neq: False
      then have "0 < n - size_of v" by (simp add: word_gt_0)
      from 2(1) [OF 2(3) False rec this] show ?thesis by simp
    qed
  qed
qed simp

function fd_write_loop ::
    "kernel \<Rightarrow> fd_ref \<Rightarrow> bool \<Rightarrow> byte list list \<Rightarrow> u64 \<Rightarrow> 'a os_scheme \<Rightarrow> failure + u64 \<times> 'a os_scheme" where
  "fd_write_loop K fd write_all buffer total_bytes_written w =
     (case system_call ''writev'' (returned (k_writev K (os_trace w) (fd_num fd w) (bv_as_iovecs buffer))) 0 of
        Inl e \<Rightarrow> Inl e
      | Inr bytes_written \<Rightarrow>
          if bytes_written = 0 \<and> bv_size buffer \<noteq> 0
          then Inl (Thrown ''write returned 0 given non-empty input buffer'')
          else if sint (bv_size buffer) < bytes_written
          then Inl (Thrown ''write wrote more than length of input buffer'')
          else
            let w = happens (SysWrite (fd_num fd w) (take (nat bytes_written) (concat buffer))) w;
                w = register_write fd w
            in case bv_remove_prefix (of_int bytes_written) buffer of
                 Inl e \<Rightarrow> Inl e
               | Inr buffer' \<Rightarrow>
                   let total_bytes_written = total_bytes_written + of_int bytes_written
                   in if write_all \<and> bv_size buffer' \<noteq> 0
                      then fd_write_loop K fd write_all buffer' total_bytes_written w
                      else Inr (total_bytes_written, w))"
  by pat_completeness auto

termination
proof (relation "measure (\<lambda>(K, fd, all, buffer, total, w). sum_list (map (\<lambda>v. length v + 1) buffer))",
    goal_cases)
  case (2 K fd all buffer total w n w1 w2 buffer' total')
  have "of_int n \<noteq> (0 :: u64)"
  proof
    assume zero: "of_int n = (0 :: u64)"
    have "-1 \<le> n" using system_call_returned [OF 2(1)] by auto
    moreover have "n < 2 ^ 63" using 2(3) sint_less [of "bv_size buffer"] by simp
    ultimately have "n = 0" using zero by (auto simp: word_of_int_eq_0_iff dest: zdvd_imp_le)
    moreover have "buffer' = buffer" using 2(6) unfolding zero by (cases buffer) auto
    ultimately show False using 2 by simp
  qed
  then show ?case using bv_remove_prefix_shrinks [OF 2(6)] by (simp add: word_gt_0)
qed simp

declare fd_write_loop.simps [simp del]

definition fd_write :: "kernel \<Rightarrow> fd_ref \<Rightarrow> byte list list \<Rightarrow> bool \<Rightarrow> 'a os_scheme \<Rightarrow> failure + u64 \<times> 'a os_scheme" where
  "fd_write K fd buffer write_all w = fd_write_loop K fd write_all buffer 0 w"

section \<open>Socket::shutdown\<close>

definition SHUT_RD :: int where "SHUT_RD = 0"
definition SHUT_WR :: int where "SHUT_WR = 1"
definition SHUT_RDWR :: int where "SHUT_RDWR = 2"

definition socket_shutdown :: "kernel \<Rightarrow> fd_ref \<Rightarrow> int \<Rightarrow> 'a os_scheme \<Rightarrow> failure + 'a os_scheme" where
  "socket_shutdown K fd how w =
     (case system_call ''shutdown'' (returned (k_shutdown K (os_trace w) (fd_num fd w) how)) 0 of
        Inl e \<Rightarrow> Inl e
      | Inr _ \<Rightarrow>
          let w = happens (SysShutdown (fd_num fd w) how) w
          in if how = SHUT_RD then Inr (register_read fd w)
             else if how = SHUT_WR then Inr (register_write fd w)
             else if how = SHUT_RDWR then Inr (register_write fd (register_read fd w))
             else Inl (Thrown ''Socket::shutdown() called with invalid `how`''))"

definition timestamp_ms :: "kernel \<Rightarrow> 'a os_scheme \<Rightarrow> u64 \<times> 'a os_scheme" where
  "timestamp_ms K w = (let now = k_clock K (os_trace w) in (now, happens (SysClock now) w))"

section \<open>What a kernel promises\<close>

text \<open>The bytes read from and written to a descriptor in the course of a trace.\<close>

definition read_from :: "int \<Rightarrow> sys_event list \<Rightarrow> byte list" where
  "read_from fd tr = concat (map (\<lambda>e. case e of SysRead fd' bs \<Rightarrow> if fd' = fd then bs else [] | _ \<Rightarrow> []) tr)"

definition written :: "int \<Rightarrow> sys_event list \<Rightarrow> byte list" where
  "written fd tr = concat (map (\<lambda>e. case e of SysWrite fd' bs \<Rightarrow> if fd' = fd then bs else [] | _ \<Rightarrow> []) tr)"

lemma read_from_append [simp]: "read_from fd (tr @ tr') = read_from fd tr @ read_from fd tr'"
  and written_append [simp]: "written fd (tr @ tr') = written fd tr @ written fd tr'"
  by (simp_all add: read_from_def written_def)

lemma read_from_simps [simp]:
  "read_from fd [] = []" "read_from fd (SysRead fd' bs # tr) = (if fd' = fd then bs else []) @ read_from fd tr"
  "read_from fd (SysWrite fd' bs # tr) = read_from fd tr" "read_from fd (SysPoll p # tr) = read_from fd tr"
  "read_from fd (SysShutdown fd' h # tr) = read_from fd tr" "read_from fd (SysClock t # tr) = read_from fd tr"
  "read_from fd (SysClose fd' # tr) = read_from fd tr"
  by (simp_all add: read_from_def)

lemma written_simps [simp]:
  "written fd [] = []" "written fd (SysWrite fd' bs # tr) = (if fd' = fd then bs else []) @ written fd tr"
  "written fd (SysRead fd' bs # tr) = written fd tr" "written fd (SysPoll p # tr) = written fd tr"
  "written fd (SysShutdown fd' h # tr) = written fd tr" "written fd (SysClock t # tr) = written fd tr"
  "written fd (SysClose fd' # tr) = written fd tr"
  by (simp_all add: written_def)

text \<open>The documented behaviour of \<open>read\<close>, \<open>writev\<close> and \<open>shutdown\<close>: a read returns at most what
  was asked for; a write takes some of the bytes, and at least one if there are any; a failed
  call sets \<open>errno\<close>. No descriptor lives long enough for \<open>2 ^ 61\<close> bytes.\<close>

definition kernel_ok :: "kernel \<Rightarrow> bool" where
  "kernel_ok K \<longleftrightarrow>
     (\<forall>tr fd n. case k_read K tr fd n of Inl e \<Rightarrow> e \<noteq> 0 | Inr bs \<Rightarrow> length bs \<le> unat n)
     \<and> (\<forall>tr fd vs. case k_writev K tr fd vs of Inl e \<Rightarrow> e \<noteq> 0
         | Inr n \<Rightarrow> n \<le> length (concat (map fst vs)) \<and> (n = 0 \<longrightarrow> concat (map fst vs) = [])
             \<and> length (written fd tr) + n < 2 ^ 61)
     \<and> (\<forall>tr fd how. k_shutdown K tr fd how \<noteq> Inl 0)"

text \<open>A device for packets takes every write as a whole.\<close>

definition whole_writes :: "kernel \<Rightarrow> int \<Rightarrow> bool" where
  "whole_writes K fd \<longleftrightarrow>
     (\<forall>tr vs n. k_writev K tr fd vs = Inr n \<longrightarrow> n = length (concat (map fst vs)))"

text \<open>A descriptor whose number stays and that is read or written \<open>n\<close> times more.\<close>

definition used :: "fd_wrapper \<Rightarrow> fd_wrapper \<Rightarrow> bool" where
  "used x x' \<longleftrightarrow> fd_fd x' = fd_fd x \<and> fd_is_closed x' = fd_is_closed x"

lemma kernel_okD:
  assumes "kernel_ok K"
  shows "k_read K tr fd n = Inl e \<Longrightarrow> e \<noteq> 0" "k_read K tr fd n = Inr bs \<Longrightarrow> length bs \<le> unat n"
    "k_writev K tr fd vs = Inl e \<Longrightarrow> e \<noteq> 0"
    "k_writev K tr fd vs = Inr m \<Longrightarrow> m \<le> length (concat (map fst vs)) \<and> (m = 0 \<longrightarrow> concat (map fst vs) = [])
       \<and> length (written fd tr) + m < 2 ^ 61"
    "k_shutdown K tr fd how \<noteq> Inl 0"
proof -
  from assms have rd: "case k_read K tr fd n of Inl e \<Rightarrow> e \<noteq> 0 | Inr bs \<Rightarrow> length bs \<le> unat n"
    unfolding kernel_ok_def by blast
  from assms have wr: "case k_writev K tr fd vs of Inl e \<Rightarrow> e \<noteq> 0
     | Inr n \<Rightarrow> n \<le> length (concat (map fst vs)) \<and> (n = 0 \<longrightarrow> concat (map fst vs) = [])
         \<and> length (written fd tr) + n < 2 ^ 61"
    unfolding kernel_ok_def by blast
  show "k_read K tr fd n = Inl e \<Longrightarrow> e \<noteq> 0" "k_read K tr fd n = Inr bs \<Longrightarrow> length bs \<le> unat n"
    using rd by simp_all
  show "k_writev K tr fd vs = Inl e \<Longrightarrow> e \<noteq> 0"
    "k_writev K tr fd vs = Inr m \<Longrightarrow> m \<le> length (concat (map fst vs)) \<and> (m = 0 \<longrightarrow> concat (map fst vs) = [])
       \<and> length (written fd tr) + m < 2 ^ 61"
    using wr by simp_all
  show "k_shutdown K tr fd how \<noteq> Inl 0" using assms unfolding kernel_ok_def by blast
qed

lemma fd_read_works:
  assumes K: "kernel_ok K"
  shows "case fd_read K fd limit w of
      Inl e \<Rightarrow> e = Thrown ''read''
    | Inr (bs, w') \<Rightarrow> length bs \<le> unat limit \<and> length bs \<le> 2 ^ 20
        \<and> (\<exists>n. k_read K (os_trace w) (fd_num fd w) n = Inr bs)
        \<and> (\<exists>x. used (os_fds w fd) x \<and> fd_reads x = fd_reads (os_fds w fd) + 1
             \<and> w' = w\<lparr>os_fds := (os_fds w)(fd := x), os_trace := os_trace w @ [SysRead (fd_num fd w) bs]\<rparr>)"
proof -
  define n where "n = min BUFFER_SIZE limit"
  have "n \<le> limit" "n \<le> BUFFER_SIZE" by (simp_all add: n_def)
  moreover have "unat BUFFER_SIZE = 2 ^ 20" by (simp add: BUFFER_SIZE_def)
  ultimately have n: "unat n \<le> unat limit" "unat n \<le> 2 ^ 20"
    unfolding word_le_nat_alt by simp_all
  show ?thesis
  proof (cases "k_read K (os_trace w) (fd_num fd w) n")
    case (Inl e)
    then have "e \<noteq> 0" by (rule kernel_okD(1) [OF K])
    then show ?thesis using Inl by (simp add: fd_read_def n_def [symmetric] system_call_def returned_def Let_def)
  next
    case (Inr bs)
    then have len: "length bs \<le> unat n" by (rule kernel_okD(2) [OF K])
    have "sint n = int (unat n)" using sint_of_nat_u64 [of "unat n"] n(2) by simp
    then have fits: "\<not> sint n < int (length bs)" using len by (simp only: of_nat_less_iff not_less)
    define eof where "eof = (0 < limit \<and> bs = [])"
    define x where "x = (os_fds w fd)\<lparr>fd_is_eof := eof \<or> fd_is_eof (os_fds w fd), fd_reads := fd_reads (os_fds w fd) + 1\<rparr>"
    have read: "fd_read K fd limit w
      = (let w' = happens (SysRead (fd_num fd w) bs) w;
             w' = (if eof then upd_fd fd (\<lambda>x. x\<lparr>fd_is_eof := True\<rparr>) w' else w')
         in Inr (bs, register_read fd w'))"
      unfolding fd_read_def Let_def n_def [symmetric] Inr returned_def system_call_def sum.case prod.case
      using fits by (simp add: eof_def)
    have "fd_read K fd limit w
      = Inr (bs, w\<lparr>os_fds := (os_fds w)(fd := x), os_trace := os_trace w @ [SysRead (fd_num fd w) bs]\<rparr>)"
      unfolding read x_def by (cases eof) (simp_all add: happens_def upd_fd_def register_read_def)
    moreover have "used (os_fds w fd) x" "fd_reads x = fd_reads (os_fds w fd) + 1"
      by (simp_all add: used_def x_def)
    ultimately show ?thesis using len n Inr by auto
  qed
qed

lemma length_in_concat: "v \<in> set vs \<Longrightarrow> length v \<le> length (concat vs)"
  by (induction vs) auto

text \<open>A write puts a prefix of the bytes on the descriptor, all of them if asked to, and returns
  their number.\<close>

lemma fd_write_loop_works:
  assumes "kernel_ok K" "length (concat buffer) < 2 ^ 63"
  shows "case fd_write_loop K fd all buffer tot w of
      Inl e \<Rightarrow> e = Thrown ''writev''
    | Inr (n, w') \<Rightarrow> \<exists>x tr k. used (os_fds w fd) x \<and> (\<not> all \<longrightarrow> fd_writes x = fd_writes (os_fds w fd) + 1)
        \<and> w' = w\<lparr>os_fds := (os_fds w)(fd := x), os_trace := os_trace w @ tr\<rparr>
        \<and> (\<forall>fd'. read_from fd' tr = []) \<and> (\<forall>fd' \<noteq> fd_num fd w. written fd' tr = [])
        \<and> k \<le> length (concat buffer) \<and> written (fd_num fd w) tr = take k (concat buffer)
        \<and> (all \<longrightarrow> k = length (concat buffer)) \<and> n = tot + of_nat k
        \<and> length (written (fd_num fd w) (os_trace w @ tr)) < 2 ^ 61
        \<and> (\<forall>e \<in> set tr. \<exists>bs. e = SysWrite (fd_num fd w) bs)
        \<and> (whole_writes K (fd_num fd w) \<longrightarrow> tr = [SysWrite (fd_num fd w) (take k (concat buffer))])"
  using assms
proof (induction K fd all buffer tot w rule: fd_write_loop.induct)
  case (1 K fd all buffer tot w)
  let ?data = "concat buffer"
  have iov: "concat (map fst (bv_as_iovecs buffer)) = ?data"
    by (simp add: bv_as_iovecs_def comp_def)
  have sz: "bv_size buffer = of_nat (length ?data)" "unat (bv_size buffer) = length ?data"
    "sint (bv_size buffer) = int (length ?data)"
    using 1(3) by (simp_all add: bv_size_eq size_of_def unat_of_nat_u64 sint_of_nat_u64)
  show ?case
  proof (cases "k_writev K (os_trace w) (fd_num fd w) (bv_as_iovecs buffer)")
    case (Inl e)
    then have "e \<noteq> 0" by (rule kernel_okD(3) [OF 1(2)])
    then show ?thesis using Inl by (subst fd_write_loop.simps) (simp add: system_call_def returned_def)
  next
    case (Inr m)
    then have m: "m \<le> length ?data" "m = 0 \<longrightarrow> ?data = []"
      "length (written (fd_num fd w) (os_trace w)) + m < 2 ^ 61"
      using kernel_okD(4) [OF 1(2) Inr] by (simp_all add: iov)
    have whole: "whole_writes K (fd_num fd w) \<Longrightarrow> m = length ?data"
      using Inr iov unfolding whole_writes_def by metis
    have call: "system_call ''writev'' (returned (k_writev K (os_trace w) (fd_num fd w) (bv_as_iovecs buffer))) 0
        = Inr (int m)"
      using Inr by (simp add: returned_def system_call_def)
    have um: "unat (of_nat m :: u64) = m" using m(1) 1(3) by (intro unat_of_nat_u64) simp
    have "\<forall>v \<in> set buffer. length v < 2 ^ 64"
      using length_in_concat [of _ buffer] 1(3) by force
    from bv_remove_prefix_eq [OF this, of "of_nat m"] m(1) um obtain buffer' where
      rest: "bv_remove_prefix (of_nat m) buffer = Inr buffer'" "concat buffer' = drop m ?data"
      by auto
    define x where "x = (os_fds w fd)\<lparr>fd_writes := fd_writes (os_fds w fd) + 1\<rparr>"
    define w1 where "w1 = w\<lparr>os_fds := (os_fds w)(fd := x),
      os_trace := os_trace w @ [SysWrite (fd_num fd w) (take m ?data)]\<rparr>"
    have w1: "register_write fd (happens (SysWrite (fd_num fd w) (take (nat (int m)) ?data)) w) = w1"
      by (simp add: w1_def x_def register_write_def happens_def upd_fd_def)
    have "unat (bv_size buffer') = length ?data - m"
      using 1(3) by (simp add: bv_size_eq size_of_def rest(2) unat_of_nat_u64 del: of_nat_diff)
    then have sz': "bv_size buffer' \<noteq> 0 \<longleftrightarrow> m < length ?data" by (auto simp: unat_eq_0 [symmetric])
    have no: "\<not> (int m = 0 \<and> bv_size buffer \<noteq> 0)" "\<not> sint (bv_size buffer) < int m"
    proof -
      show "\<not> (int m = 0 \<and> bv_size buffer \<noteq> 0)"
      proof
        assume "int m = 0 \<and> bv_size buffer \<noteq> 0"
        then have "?data = []" "bv_size buffer \<noteq> 0" using m(2) by simp_all
        then show False by (simp only: bv_size_eq size_of_Nil)
      qed
      show "\<not> sint (bv_size buffer) < int m" unfolding sz(3) using m(1) by simp
    qed
    have step: "fd_write_loop K fd all buffer tot w =
        (if all \<and> m < length ?data then fd_write_loop K fd all buffer' (tot + of_nat m) w1
         else Inr (tot + of_nat m, w1))"
      by (subst fd_write_loop.simps) (simp only: call sum.case if_not_P [OF no(1)] if_not_P [OF no(2)] Let_def w1 rest(1)
          of_int_of_nat_eq sz')
    have used: "used (os_fds w fd) x" "fd_num fd w1 = fd_num fd w" "os_fds w1 fd = x"
      by (simp_all add: used_def x_def w1_def fd_num_def)
    show ?thesis
    proof (cases "all \<and> m < length ?data")
      case False
      show ?thesis
        unfolding step if_not_P [OF False] sum.case prod.case
        by (rule exI [of _ x], rule exI [of _ "[SysWrite (fd_num fd w) (take m ?data)]"], rule exI [of _ m])
          (use False m used(1) in \<open>auto simp: w1_def x_def\<close>)
    next
      case True
      have len: "length (concat buffer') < 2 ^ 63" using 1(3) by (simp add: rest(2))
      have IH: "case fd_write_loop K fd all buffer' (tot + of_nat m) w1 of
          Inl e \<Rightarrow> e = Thrown ''writev''
        | Inr (n, w') \<Rightarrow> \<exists>x' tr k. used (os_fds w1 fd) x' \<and> (\<not> all \<longrightarrow> fd_writes x' = fd_writes (os_fds w1 fd) + 1)
            \<and> w' = w1\<lparr>os_fds := (os_fds w1)(fd := x'), os_trace := os_trace w1 @ tr\<rparr>
            \<and> (\<forall>fd'. read_from fd' tr = []) \<and> (\<forall>fd' \<noteq> fd_num fd w1. written fd' tr = [])
            \<and> k \<le> length (concat buffer') \<and> written (fd_num fd w1) tr = take k (concat buffer')
            \<and> (all \<longrightarrow> k = length (concat buffer')) \<and> n = tot + of_nat m + of_nat k
            \<and> length (written (fd_num fd w1) (os_trace w1 @ tr)) < 2 ^ 61
            \<and> (\<forall>e \<in> set tr. \<exists>bs. e = SysWrite (fd_num fd w1) bs)
            \<and> (whole_writes K (fd_num fd w1) \<longrightarrow> tr = [SysWrite (fd_num fd w1) (take k (concat buffer'))])"
        by (rule 1(1) [OF call no _ _ _ _ _ 1(2) len]) (use True rest sz' in simp_all, rule w1 [simplified, symmetric])
      show ?thesis
      proof (cases "fd_write_loop K fd all buffer' (tot + of_nat m) w1")
        case (Inl e)
        then show ?thesis using IH unfolding step if_P [OF True] Inl by simp
      next
        case (Inr r)
        obtain n w' where r: "r = (n, w')" by (cases r)
        from IH [unfolded Inr r sum.case prod.case] obtain x' tr k where
          h: "used x x'" "w' = w1\<lparr>os_fds := (os_fds w1)(fd := x'), os_trace := os_trace w1 @ tr\<rparr>"
          "\<forall>fd'. read_from fd' tr = []" "\<forall>fd' \<noteq> fd_num fd w. written fd' tr = []"
          "written (fd_num fd w) tr = take k (drop m ?data)" "k = length ?data - m"
          "n = tot + of_nat m + of_nat k" "length (written (fd_num fd w) (os_trace w1 @ tr)) < 2 ^ 61"
          "\<forall>e \<in> set tr. \<exists>bs. e = SysWrite (fd_num fd w) bs"
          using True by (auto simp: used rest(2))
        have all: "take m ?data @ drop m ?data = ?data" by simp
        show ?thesis
          unfolding step if_P [OF True] Inr r sum.case prod.case
          by (rule exI [of _ x'], rule exI [of _ "SysWrite (fd_num fd w) (take m ?data) # tr"],
              rule exI [of _ "length ?data"])
            (use True m h used(1) whole in \<open>auto simp: w1_def used_def add.assoc simp flip: of_nat_add\<close>)
      qed
    qed
  qed
qed

text \<open>Shutting down a socket for writing, and closing a descriptor.\<close>

lemma socket_shutdown_works:
  assumes "kernel_ok K"
  shows "case socket_shutdown K fd SHUT_WR w of Inl e \<Rightarrow> e = Thrown ''shutdown''
    | Inr w' \<Rightarrow> \<exists>x. used (os_fds w fd) x \<and> fd_writes x = fd_writes (os_fds w fd) + 1
        \<and> w' = w\<lparr>os_fds := (os_fds w)(fd := x), os_trace := os_trace w @ [SysShutdown (fd_num fd w) SHUT_WR]\<rparr>"
proof (cases "k_shutdown K (os_trace w) (fd_num fd w) SHUT_WR")
  case (Inl e)
  then have "e \<noteq> 0" using kernel_okD(5) [OF assms] by metis
  then show ?thesis using Inl by (simp add: socket_shutdown_def system_call_def returned_def)
next
  case (Inr n)
  let ?x = "(os_fds w fd)\<lparr>fd_writes := fd_writes (os_fds w fd) + 1\<rparr>"
  have "used (os_fds w fd) ?x" by (simp add: used_def)
  moreover have "socket_shutdown K fd SHUT_WR w = Inr (w\<lparr>os_fds := (os_fds w)(fd := ?x),
      os_trace := os_trace w @ [SysShutdown (fd_num fd w) SHUT_WR]\<rparr>)"
    using Inr by (simp add: socket_shutdown_def system_call_def returned_def Let_def happens_def
        register_write_def upd_fd_def SHUT_RD_def SHUT_WR_def)
  ultimately show ?thesis by fastforce
qed

lemma fd_close_works:
  "case fd_close K fd w of Inl e \<Rightarrow> e = Thrown ''close''
    | Inr w' \<Rightarrow> \<exists>x. fd_fd x = fd_fd (os_fds w fd) \<and> fd_writes x = fd_writes (os_fds w fd)
        \<and> w' = w\<lparr>os_fds := (os_fds w)(fd := x), os_trace := os_trace w @ [SysClose (fd_num fd w)]\<rparr>"
proof (cases "system_call ''close'' (returned (k_close K (os_trace w) (fd_num fd w))) 0")
  case (Inl e)
  then show ?thesis by (auto simp: fd_close_def system_call_def split: prod.splits if_splits)
next
  case (Inr n)
  let ?x = "(os_fds w fd)\<lparr>fd_is_eof := True, fd_is_closed := True\<rparr>"
  have "fd_close K fd w = Inr (w\<lparr>os_fds := (os_fds w)(fd := ?x), os_trace := os_trace w @ [SysClose (fd_num fd w)]\<rparr>)"
    by (simp add: fd_close_def Inr happens_def upd_fd_def)
  then show ?thesis by (simp only: sum.case) (intro exI [of _ ?x], simp)
qed

end
