(* ===== verification/EventLoop.thy ===== *)
theory EventLoop
  imports FileDescriptor
begin

text \<open>
  \<open>libsponge/util/eventloop.{hh,cc}\<close>: rules that say which descriptors to poll and what to
  do when they are ready. The closures of a rule are functions on the state of the program,
  which extends that of the descriptors; they do not change the list of rules.
\<close>

section \<open>Rules\<close>

definition POLLIN :: u16 where "POLLIN = 1"
definition POLLOUT :: u16 where "POLLOUT = 4"
definition POLLERR :: u16 where "POLLERR = 8"
definition POLLHUP :: u16 where "POLLHUP = 16"
definition POLLNVAL :: u16 where "POLLNVAL = 32"
definition EINTR :: int where "EINTR = 4"

datatype direction = In | Out

definition direction_events :: "direction \<Rightarrow> u16" where
  "direction_events d = (case d of In \<Rightarrow> POLLIN | Out \<Rightarrow> POLLOUT)"

record 'w rule =
  ru_fd :: fd_ref
  ru_direction :: direction
  ru_callback :: "'w \<Rightarrow> failure + 'w"
  ru_interest :: "'w \<Rightarrow> failure + bool"
  ru_cancel :: "'w \<Rightarrow> failure + 'w"

datatype result = Success | Timeout | Exit

definition service_count :: "'a os_scheme rule \<Rightarrow> 'a os_scheme \<Rightarrow> u32" where
  "service_count r w = (case ru_direction r of In \<Rightarrow> read_count (ru_fd r) w | Out \<Rightarrow> write_count (ru_fd r) w)"

definition add_rule ::
    "fd_ref \<Rightarrow> direction \<Rightarrow> ('w \<Rightarrow> failure + 'w) \<Rightarrow> ('w \<Rightarrow> failure + bool) \<Rightarrow> ('w \<Rightarrow> failure + 'w) \<Rightarrow>
     'w rule list \<Rightarrow> 'w rule list" where
  "add_rule fd direction callback interest cancel rules = rules @
     [\<lparr>ru_fd = fd, ru_direction = direction, ru_callback = callback, ru_interest = interest, ru_cancel = cancel\<rparr>]"

section \<open>One round of the loop\<close>

text \<open>The first loop: rules that are over are cancelled, the others give a \<open>pollfd\<close> each; the
  flag says whether any of them asks for something.\<close>

type_synonym pollfd = "int \<times> u16"

fun poll_setup ::
    "'a os_scheme rule list \<Rightarrow> 'a os_scheme \<Rightarrow>
     failure + 'a os_scheme rule list \<times> pollfd list \<times> bool \<times> 'a os_scheme" where
  "poll_setup [] w = Inr ([], [], False, w)"
| "poll_setup (this_rule # rules) w =
     (if ru_direction this_rule = In \<and> fd_eof (ru_fd this_rule) w then
        (case ru_cancel this_rule w of Inl e \<Rightarrow> Inl e | Inr w \<Rightarrow> poll_setup rules w)
      else if fd_closed (ru_fd this_rule) w then
        (case ru_cancel this_rule w of Inl e \<Rightarrow> Inl e | Inr w \<Rightarrow> poll_setup rules w)
      else case ru_interest this_rule w of
        Inl e \<Rightarrow> Inl e
      | Inr interested \<Rightarrow>
          let this_pollfd = (fd_num (ru_fd this_rule) w,
                if interested then direction_events (ru_direction this_rule) else 0)
          in (case poll_setup rules w of
                Inl e \<Rightarrow> Inl e
              | Inr (kept, pollfds, something, w) \<Rightarrow>
                  Inr (this_rule # kept, this_pollfd # pollfds, interested \<or> something, w)))"

text \<open>What is thrown when a callback leaves its descriptor alone and stays interested in it.\<close>

definition busy_wait_text :: string where
  "busy_wait_text = ''EventLoop: busy wait detected: callback did not read/write fd and is still interested''"

text \<open>The second loop, from index \<open>idx\<close> on; \<open>pollfds\<close> are those of the remaining rules.\<close>

unbundle bit_operations_syntax

fun serve_rules ::
    "(nat \<Rightarrow> u16) \<Rightarrow> nat \<Rightarrow> 'a os_scheme rule list \<Rightarrow> pollfd list \<Rightarrow> 'a os_scheme \<Rightarrow>
     failure + 'a os_scheme rule list \<times> 'a os_scheme" where
  "serve_rules revents idx (this_rule # rules) ((fd, events) # pollfds) w =
     (if revents idx AND (POLLERR OR POLLNVAL) \<noteq> 0
      then Inl (Thrown ''EventLoop: error on polled file descriptor'')
      else
        let poll_ready = (revents idx AND events \<noteq> 0);
            poll_hup = (revents idx AND POLLHUP \<noteq> 0)
        in if poll_hup \<and> events \<noteq> 0 \<and> \<not> poll_ready then
             (case ru_cancel this_rule w of
                Inl e \<Rightarrow> Inl e
              | Inr w \<Rightarrow> serve_rules revents (idx + 1) rules pollfds w)
           else
             (case
                (if poll_ready then
                   (case ru_callback this_rule w of
                      Inl e \<Rightarrow> Inl e
                    | Inr w' \<Rightarrow>
                        if service_count this_rule w = service_count this_rule w' then
                          (case ru_interest this_rule w' of
                             Inl e \<Rightarrow> Inl e
                           | Inr interested \<Rightarrow>
                               if interested then Inl (Thrown busy_wait_text)
                               else Inr w')
                        else Inr w')
                 else Inr w) of
                Inl e \<Rightarrow> Inl e
              | Inr w \<Rightarrow>
                  (case serve_rules revents (idx + 1) rules pollfds w of
                     Inl e \<Rightarrow> Inl e
                   | Inr (kept, w) \<Rightarrow> Inr (this_rule # kept, w))))"
| "serve_rules revents idx rules pollfds w = Inr (rules, w)"

definition wait_next_event ::
    "kernel \<Rightarrow> int \<Rightarrow> 'a os_scheme rule list \<Rightarrow> 'a os_scheme \<Rightarrow>
     failure + result \<times> 'a os_scheme rule list \<times> 'a os_scheme" where
  "wait_next_event K timeout_ms rules w =
     (case poll_setup rules w of
        Inl e \<Rightarrow> Inl e
      | Inr (rules, pollfds, something_to_poll, w) \<Rightarrow>
          if \<not> something_to_poll then Inr (Exit, rules, w)
          else
            let answer = k_poll K (os_trace w) pollfds timeout_ms;
                w = happens (SysPoll pollfds) w
            in case answer of
                 Inr (ready, revents) \<Rightarrow>
                   if ready = 0 then Inr (Timeout, rules, w)
                   else (case serve_rules revents 0 rules pollfds w of
                           Inl e \<Rightarrow> Inl e
                         | Inr (rules, w) \<Rightarrow> Inr (Success, rules, w))
               | Inl errno \<Rightarrow>
                   if errno = EINTR then Inr (Exit, rules, w)
                   else (case serve_rules (\<lambda>_. 0) 0 rules pollfds w of
                           Inl e \<Rightarrow> Inl e
                         | Inr (rules, w) \<Rightarrow> Inr (Success, rules, w)))"

section \<open>What a round keeps\<close>

text \<open>
  A set of rules with an invariant of the state: what each closure may assume and what it
  must keep. \<open>ready\<close> is what the interest of a rule in a descriptor and direction guarantees,
  and what the other rules do not take away before its callback runs; \<open>bad\<close> are the failures
  allowed. A callback has to use its descriptor or to lose interest.
\<close>

abbreviation key :: "'w rule \<Rightarrow> fd_ref \<times> direction" where
  "key r \<equiv> (ru_fd r, ru_direction r)"

locale event_loop =
  fixes rules :: "'a os_scheme rule set"
    and inv :: "'a os_scheme \<Rightarrow> bool"
    and ready :: "fd_ref \<times> direction \<Rightarrow> 'a os_scheme \<Rightarrow> bool"
    and bad :: "failure \<Rightarrow> bool"
  assumes interest: "r \<in> rules \<Longrightarrow> inv w \<Longrightarrow> \<exists>b. ru_interest r w = Inr b \<and> (b \<longrightarrow> ready (key r) w)"
    and cancel: "r \<in> rules \<Longrightarrow> inv w \<Longrightarrow>
      (case ru_cancel r w of Inl e \<Rightarrow> bad e
       | Inr w' \<Rightarrow> inv w' \<and> (\<forall>k. k \<noteq> key r \<longrightarrow> ready k w \<longrightarrow> ready k w'))"
    and callback: "r \<in> rules \<Longrightarrow> inv w \<Longrightarrow> ready (key r) w \<Longrightarrow>
      (case ru_callback r w of Inl e \<Rightarrow> bad e
       | Inr w' \<Rightarrow> inv w' \<and> (\<forall>k. k \<noteq> key r \<longrightarrow> ready k w \<longrightarrow> ready k w')
           \<and> (service_count r w = service_count r w' \<longrightarrow> ru_interest r w' = Inr False))"
    and polled: "inv w \<Longrightarrow> inv (happens (SysPoll p) w) \<and> (\<forall>k. ready k w \<longrightarrow> ready k (happens (SysPoll p) w))"
    and error: "bad (Thrown ''EventLoop: error on polled file descriptor'')"
begin

text \<open>Rules that ask for something are ready.\<close>

definition prepared :: "'a os_scheme rule list \<Rightarrow> pollfd list \<Rightarrow> 'a os_scheme \<Rightarrow> bool" where
  "prepared rs ps w \<longleftrightarrow> list_all2 (\<lambda>r p. snd p \<noteq> 0 \<longrightarrow> ready (key r) w) rs ps"

lemma prepared_mono:
  assumes "prepared rs ps w" "\<forall>k \<in> key ` set rs. ready k w \<longrightarrow> ready k w'"
  shows "prepared rs ps w'"
  using assms(1) unfolding prepared_def
  by (rule list.rel_mono_strong) (use assms(2) in auto)

definition admissible :: "'a os_scheme rule list \<Rightarrow> bool" where
  "admissible rs \<longleftrightarrow> set rs \<subseteq> rules \<and> distinct (map key rs)"

lemma admissible_Cons:
  "admissible (r # rs) \<longleftrightarrow> r \<in> rules \<and> key r \<notin> key ` set rs \<and> admissible rs"
  by (auto simp: admissible_def)

lemma poll_setup_keeps:
  assumes "admissible rs" "inv w"
  shows "case poll_setup rs w of Inl e \<Rightarrow> bad e
    | Inr (rs', ps, b, w') \<Rightarrow> inv w' \<and> admissible rs' \<and> set rs' \<subseteq> set rs \<and> prepared rs' ps w'
        \<and> (\<forall>k. k \<notin> key ` set rs \<longrightarrow> ready k w \<longrightarrow> ready k w')"
  using assms
proof (induction rs arbitrary: w)
  case Nil
  then show ?case by (simp add: prepared_def)
next
  case (Cons r rs)
  have r: "r \<in> rules" "key r \<notin> key ` set rs" and rs: "admissible rs"
    using Cons.prems(1) by (simp_all add: admissible_Cons)
  let ?cancelled = "case ru_cancel r w of Inl e \<Rightarrow> Inl e | Inr w \<Rightarrow> poll_setup rs w"
  have cancelled: "case ?cancelled of Inl e \<Rightarrow> bad e
    | Inr (rs', ps, b, w') \<Rightarrow> inv w' \<and> admissible rs' \<and> set rs' \<subseteq> set (r # rs) \<and> prepared rs' ps w'
        \<and> (\<forall>k. k \<notin> key ` set (r # rs) \<longrightarrow> ready k w \<longrightarrow> ready k w')"
  proof (cases "ru_cancel r w")
    case (Inl e)
    then show ?thesis using cancel [OF r(1) Cons.prems(2)] by simp
  next
    case (Inr w1)
    then have w1: "inv w1" "\<forall>k. k \<noteq> key r \<longrightarrow> ready k w \<longrightarrow> ready k w1"
      using cancel [OF r(1) Cons.prems(2)] by simp_all
    then show ?thesis using Cons.IH [OF rs w1(1)] Inr by (auto split: sum.splits)
  qed
  obtain b where b: "ru_interest r w = Inr b" "b \<longrightarrow> ready (key r) w"
    using interest [OF r(1) Cons.prems(2)] by blast
  show ?case
  proof (cases "ru_direction r = In \<and> fd_eof (ru_fd r) w \<or> fd_closed (ru_fd r) w")
    case True
    then have "poll_setup (r # rs) w = ?cancelled" by auto
    then show ?thesis using cancelled by simp
  next
    case False
    show ?thesis
    proof (cases "poll_setup rs w")
      case (Inl e)
      then show ?thesis using Cons.IH [OF rs Cons.prems(2)] False b(1) by auto
    next
      case (Inr res)
      obtain rs' ps s w' where res: "res = (rs', ps, s, w')" by (cases res)
      have IH: "inv w'" "admissible rs'" "set rs' \<subseteq> set rs" "prepared rs' ps w'"
        "\<forall>k. k \<notin> key ` set rs \<longrightarrow> ready k w \<longrightarrow> ready k w'"
        using Cons.IH [OF rs Cons.prems(2)] unfolding Inr res by simp_all
      then have "admissible (r # rs')" using r by (auto simp: admissible_Cons)
      moreover have "b \<longrightarrow> ready (key r) w'" using b(2) IH(5) r(2) by blast
      ultimately show ?thesis using IH Inr res False b by (auto simp: prepared_def)
    qed
  qed
qed

lemma serve_rules_keeps:
  assumes "admissible rs" "inv w" "prepared rs ps w"
  shows "case serve_rules revents idx rs ps w of Inl e \<Rightarrow> bad e
    | Inr (rs', w') \<Rightarrow> inv w' \<and> admissible rs' \<and> set rs' \<subseteq> set rs"
  using assms
proof (induction rs arbitrary: w ps idx)
  case Nil
  then show ?case by simp
next
  case (Cons r rs)
  have r: "r \<in> rules" "key r \<notin> key ` set rs" and rs: "admissible rs"
    using Cons.prems(1) by (simp_all add: admissible_Cons)
  have keep: "admissible (r # rs')" if "admissible rs'" "set rs' \<subseteq> set rs" for rs'
    using that r by (auto simp: admissible_Cons)
  obtain fd events ps' where ps: "ps = (fd, events) # ps'"
    and now: "events \<noteq> 0 \<longrightarrow> ready (key r) w" and later: "prepared rs ps' w"
    using Cons.prems(3) by (cases ps) (auto simp: prepared_def)
  have IH: "case serve_rules revents (idx + 1) rs ps' v of Inl e \<Rightarrow> bad e
      | Inr (rs', w') \<Rightarrow> inv w' \<and> admissible rs' \<and> set rs' \<subseteq> set rs"
    if "inv v" "\<forall>k. k \<noteq> key r \<longrightarrow> ready k w \<longrightarrow> ready k v" for v
  proof -
    have "\<forall>k \<in> key ` set rs. ready k w \<longrightarrow> ready k v" using that(2) r(2) by metis
    then show ?thesis by (rule Cons.IH [OF rs that(1) prepared_mono [OF later]])
  qed
  consider (error) "revents idx AND (POLLERR OR POLLNVAL) \<noteq> 0"
    | (hup) "revents idx AND (POLLERR OR POLLNVAL) = 0" "revents idx AND POLLHUP \<noteq> 0" "events \<noteq> 0"
        "revents idx AND events = 0"
    | (served) "revents idx AND (POLLERR OR POLLNVAL) = 0" "revents idx AND events \<noteq> 0"
    | (idle) "revents idx AND (POLLERR OR POLLNVAL) = 0" "revents idx AND events = 0"
        "\<not> (revents idx AND POLLHUP \<noteq> 0 \<and> events \<noteq> 0)"
    by blast
  then show ?case
  proof cases
    case error
    then show ?thesis using event_loop.error [OF event_loop_axioms] by (simp add: ps)
  next
    case hup
    show ?thesis
    proof (cases "ru_cancel r w")
      case (Inl e)
      then show ?thesis using cancel [OF r(1) Cons.prems(2)] hup by (simp add: ps)
    next
      case (Inr w1)
      then have "inv w1" "\<forall>k. k \<noteq> key r \<longrightarrow> ready k w \<longrightarrow> ready k w1"
        using cancel [OF r(1) Cons.prems(2)] by simp_all
      from IH [OF this] show ?thesis using hup Inr by (auto simp: ps split: sum.splits)
    qed
  next
    case served
    then have "events \<noteq> 0" by auto
    note step = callback [OF r(1) Cons.prems(2) now [rule_format, OF this]]
    show ?thesis
    proof (cases "ru_callback r w")
      case (Inl e)
      then show ?thesis using step served by (simp add: ps)
    next
      case (Inr w1)
      then have w1: "inv w1" "\<forall>k. k \<noteq> key r \<longrightarrow> ready k w \<longrightarrow> ready k w1"
        "service_count r w = service_count r w1 \<longrightarrow> ru_interest r w1 = Inr False"
        using step by simp_all
      then show ?thesis using IH [OF w1(1,2)] served Inr keep by (auto simp: ps split: sum.splits)
    qed
  next
    case idle
    then show ?thesis using IH [OF Cons.prems(2)] keep by (auto simp: ps split: sum.splits)
  qed
qed

text \<open>A round keeps the invariant or fails in an allowed way.\<close>

lemma wait_next_event_keeps:
  assumes "admissible rs" "inv w"
  shows "case wait_next_event K timeout rs w of Inl e \<Rightarrow> bad e
    | Inr (res, rs', w') \<Rightarrow> inv w' \<and> admissible rs'"
proof (cases "poll_setup rs w")
  case (Inl e)
  then show ?thesis using poll_setup_keeps [OF assms] by (simp add: wait_next_event_def)
next
  case (Inr res)
  obtain rs1 ps b w1 where res: "res = (rs1, ps, b, w1)" by (cases res)
  have w1: "inv w1" "admissible rs1" "prepared rs1 ps w1"
    using poll_setup_keeps [OF assms] unfolding Inr res by auto
  let ?w = "happens (SysPoll ps) w1"
  have w: "inv ?w" "prepared rs1 ps ?w" using polled [OF w1(1)] prepared_mono [OF w1(3)] by simp_all
  define round where "round revents = (case serve_rules revents 0 rs1 ps ?w of
      Inl e \<Rightarrow> Inl e | Inr (rules, w) \<Rightarrow> Inr (Success, rules, w))" for revents
  define good where "good x = (case x of Inl e \<Rightarrow> bad e | Inr (res, rs', w') \<Rightarrow> inv w' \<and> admissible rs')"
    for x :: "failure + result \<times> 'a os_scheme rule list \<times> 'a os_scheme"
  have round: "good (round revents)" for revents
    using serve_rules_keeps [OF w1(2) w, of revents 0] by (auto simp: round_def good_def split: sum.splits)
  have other: "good (Inr (r, rs1, w1))" "good (Inr (r, rs1, ?w))" for r
    using w(1) w1(1,2) by (simp_all add: good_def)
  have "wait_next_event K timeout rs w = (if \<not> b then Inr (Exit, rs1, w1)
      else case k_poll K (os_trace w1) ps timeout of
        Inr (n, revents) \<Rightarrow> if n = 0 then Inr (Timeout, rs1, ?w) else round revents
      | Inl errno \<Rightarrow> if errno = EINTR then Inr (Exit, rs1, ?w) else round (\<lambda>_. 0))"
    unfolding wait_next_event_def Inr res round_def by (simp add: Let_def)
  then have "good (wait_next_event K timeout rs w)"
    using round other by (simp split: sum.split prod.split)
  then show ?thesis unfolding good_def .
qed

end

text \<open>An error of \<open>poll\<close> other than an interruption is not reported: the round succeeds.\<close>

lemma poll_error_is_swallowed:
  assumes "poll_setup rules w = Inr (rules', pollfds, True, w')"
    "k_poll K (os_trace w') pollfds timeout_ms = Inl errno" "errno \<noteq> EINTR"
  shows "\<exists>rules'' w''. wait_next_event K timeout_ms rules w = Inr (Success, rules'', w'')"
proof -
  have "serve_rules (\<lambda>_. 0) idx rs ps v = Inr (rs, v)" for idx rs ps and v :: "'a os_scheme"
  proof (induction rs arbitrary: idx ps)
    case (Cons r rs)
    then show ?case by (cases ps) auto
  qed simp
  then show ?thesis using assms by (simp add: wait_next_event_def)
qed

end
