(* ===== verification/Ipv4.thy ===== *)
theory Ipv4
  imports TcpSegment
begin

text \<open>
  \<open>libsponge/tcp_helpers/ipv4_header.{hh,cc}\<close> and \<open>ipv4_datagram.{hh,cc}\<close>: Internet
  datagrams, their parsers and serializers, and the pseudo-header sum of a TCP segment.
\<close>

section \<open>Headers\<close>

record ipv4_header =
  ih_ver :: u8
  ih_hlen :: u8
  ih_tos :: u8
  ih_len :: u16
  ih_id :: u16
  ih_df :: bool
  ih_mf :: bool
  ih_offset :: u16
  ih_ttl :: u8
  ih_proto :: u8
  ih_cksum :: u16
  ih_src :: u32
  ih_dst :: u32

definition ipv4_header_new :: ipv4_header where
  "ipv4_header_new =
     \<lparr>ih_ver = 4, ih_hlen = 20 div 4, ih_tos = 0, ih_len = 0, ih_id = 0, ih_df = True,
      ih_mf = False, ih_offset = 0, ih_ttl = 128, ih_proto = 6, ih_cksum = 0, ih_src = 0,
      ih_dst = 0\<rparr>"

text \<open>Reading the fields (lines 31 to 47), and the parser with its checks.\<close>

definition ipv4_header_read :: "ipv4_header parser" where
  "ipv4_header_read = do {
     first_byte \<leftarrow> np_u8;
     tos \<leftarrow> np_u8;
     len \<leftarrow> np_u16;
     id \<leftarrow> np_u16;
     fo_val \<leftarrow> np_u16;
     ttl \<leftarrow> np_u8;
     proto \<leftarrow> np_u8;
     cksum \<leftarrow> np_u16;
     src \<leftarrow> np_u32;
     dst \<leftarrow> np_u32;
     State_Monad.return
       \<lparr>ih_ver = drop_bit 4 first_byte, ih_hlen = first_byte AND 0x0f, ih_tos = tos,
        ih_len = len, ih_id = id, ih_df = (fo_val AND 0x4000 \<noteq> 0),
        ih_mf = (fo_val AND 0x2000 \<noteq> 0), ih_offset = fo_val AND 0x1fff, ih_ttl = ttl,
        ih_proto = proto, ih_cksum = cksum, ih_src = src, ih_dst = dst\<rparr>
   }"

text \<open>\<open>self\<close> is the header before the call: a packet that is too short leaves it alone.\<close>

definition ipv4_header_parse :: "ipv4_header \<Rightarrow> (parse_result \<times> ipv4_header) parser" where
  "ipv4_header_parse self = do {
     original_serialized_version \<leftarrow> np_get_buffer;
     let data_size = size_of original_serialized_version;
     if data_size < 20 then State_Monad.return (PacketTooShort, self)
     else do {
       h \<leftarrow> ipv4_header_read;
       if data_size < 4 * ucast (ih_hlen h) then State_Monad.return (PacketTooShort, h)
       else if ih_ver h \<noteq> 4 then State_Monad.return (WrongIPVersion, h)
       else if ih_hlen h < 5 then State_Monad.return (HeaderTooShort, h)
       else if data_size \<noteq> ucast (ih_len h) then State_Monad.return (TruncatedPacket, h)
       else do {
         np_remove_prefix (ucast (ih_hlen h) * 4 - 20);
         error \<leftarrow> np_get_error;
         State_Monad.return
           (if error \<noteq> NoError then error
            else if ic_value (ic_add (take (4 * unat (ih_hlen h)) original_serialized_version)
                        (ic_new 0)) \<noteq> 0
            then BadChecksum else NoError, h)
       }
     }
   }"

definition ipv4_fo_val :: "ipv4_header \<Rightarrow> u16" where
  "ipv4_fo_val h =
     (if ih_df h then 0x4000 else 0) OR (if ih_mf h then 0x2000 else 0) OR (ih_offset h AND 0x1fff)"

definition ipv4_header_serialize :: "ipv4_header \<Rightarrow> failure + byte list" where
  "ipv4_header_serialize h =
     (if ih_ver h \<noteq> 4 then Inl (Thrown ''wrong IP version'')
      else if 4 * (ucast (ih_hlen h) :: u64) < 20 then Inl (Thrown ''IP header too short'')
      else
        let ret = [];
            first_byte = push_bit 4 (ih_ver h) OR (ih_hlen h AND 0xf);
            ret = nu_u8 ret first_byte;
            ret = nu_u8 ret (ih_tos h);
            ret = nu_u16 ret (ih_len h);
            ret = nu_u16 ret (ih_id h);
            ret = nu_u16 ret (ipv4_fo_val h);
            ret = nu_u8 ret (ih_ttl h);
            ret = nu_u8 ret (ih_proto h);
            ret = nu_u16 ret (ih_cksum h);
            ret = nu_u32 ret (ih_src h);
            ret = nu_u32 ret (ih_dst h)
        in Inr (resize (4 * unat (ih_hlen h)) ret))"

definition payload_length :: "ipv4_header \<Rightarrow> u16" where
  "payload_length h = ih_len h - 4 * ucast (ih_hlen h)"

definition pseudo_cksum :: "ipv4_header \<Rightarrow> u32" where
  "pseudo_cksum h =
     (let pcksum = drop_bit 16 (ih_src h) + (ih_src h AND 0xffff);
          pcksum = pcksum + (drop_bit 16 (ih_dst h) + (ih_dst h AND 0xffff));
          pcksum = pcksum + ucast (ih_proto h)
      in pcksum + ucast (payload_length h))"

section \<open>Datagrams\<close>

text \<open>The payload is a \<open>BufferList\<close>: the list of the bytes of its buffers.\<close>

record ipv4_datagram =
  id_header :: ipv4_header
  id_payload :: "byte list list"

definition ipv4_datagram_new :: ipv4_datagram where
  "ipv4_datagram_new = \<lparr>id_header = ipv4_header_new, id_payload = []\<rparr>"

text \<open>As for TCP segments, what the header's \<open>parse\<close> returns is not looked at.\<close>

definition ipv4_datagram_parse :: "byte list \<Rightarrow> ipv4_datagram \<Rightarrow> parse_result \<times> ipv4_datagram" where
  "ipv4_datagram_parse buffer self =
     (let ((_, h), p) = run_state (ipv4_header_parse (id_header self)) (np_new buffer);
          d = \<lparr>id_header = h, id_payload = [np_buffer p]\<rparr>
      in if bv_size (id_payload d) \<noteq> ucast (payload_length h) then (PacketTooShort, d)
         else (np_error p, d))"

definition ipv4_datagram_serialize :: "ipv4_datagram \<Rightarrow> failure + byte list list" where
  "ipv4_datagram_serialize d =
     (if bv_size (id_payload d) \<noteq> ucast (payload_length (id_header d))
      then Inl (Thrown ''IPv4Datagram::serialize: payload is wrong size'')
      else
        let header_out = (id_header d)\<lparr>ih_cksum := 0\<rparr>
        in case ipv4_header_serialize header_out of
             Inl e \<Rightarrow> Inl e
           | Inr header_zero_checksum \<Rightarrow>
               (let check = ic_add header_zero_checksum (ic_new 0);
                    header_out = header_out\<lparr>ih_cksum := ic_value check\<rparr>
                in case ipv4_header_serialize header_out of
                     Inl e \<Rightarrow> Inl e
                   | Inr bytes \<Rightarrow> Inr (bytes # id_payload d)))"

section \<open>The bytes of a header\<close>

definition ipv4_header_ok :: "ipv4_header \<Rightarrow> bool" where
  "ipv4_header_ok h \<longleftrightarrow> ih_ver h = 4 \<and> 5 \<le> ih_hlen h \<and> ih_hlen h \<le> 15 \<and> ih_offset h \<le> 0x1fff"

definition ipv4_pre :: "ipv4_header \<Rightarrow> byte list" where
  "ipv4_pre h = [push_bit 4 (ih_ver h) OR (ih_hlen h AND 0xf), ih_tos h] @ net_bytes 2 (ih_len h)
     @ net_bytes 2 (ih_id h) @ net_bytes 2 (ipv4_fo_val h) @ [ih_ttl h, ih_proto h]"

definition ipv4_post :: "ipv4_header \<Rightarrow> byte list" where
  "ipv4_post h = net_bytes 4 (ih_src h) @ net_bytes 4 (ih_dst h)
     @ replicate (4 * unat (ih_hlen h) - 20) 0"

lemma ipv4_hlen_nat:
  assumes "ipv4_header_ok h"
  shows "5 \<le> unat (ih_hlen h)" "unat (ih_hlen h) \<le> 15"
  using assms by (simp_all add: ipv4_header_ok_def word_le_nat_alt)

lemma ipv4_hlen_u64:
  assumes "ipv4_header_ok h"
  shows "unat (4 * ucast (ih_hlen h) :: u64) = 4 * unat (ih_hlen h)"
    and "unat (ucast (ih_hlen h) * 4 - 20 :: u64) = 4 * unat (ih_hlen h) - 20"
proof -
  note d = ipv4_hlen_nat [OF assms]
  have u: "unat (ucast (ih_hlen h) :: u64) = unat (ih_hlen h)"
    using d by (simp add: unsigned_ucast_eq take_bit_nat_eq_self)
  then show m: "unat (4 * ucast (ih_hlen h) :: u64) = 4 * unat (ih_hlen h)"
    using d by (simp add: unat_word_ariths)
  have m': "unat (ucast (ih_hlen h) * 4 :: u64) = unat (ih_hlen h) * 4"
    using d u by (simp add: unat_word_ariths)
  have "(20 :: u64) \<le> ucast (ih_hlen h) * 4" using d by (simp add: word_le_nat_alt m')
  from unat_sub [OF this] show "unat (ucast (ih_hlen h) * 4 - 20 :: u64) = 4 * unat (ih_hlen h) - 20"
    by (simp add: m')
qed

lemma ipv4_header_bytes:
  assumes "ipv4_header_ok h"
  shows "ipv4_header_serialize h = Inr (ipv4_pre h @ net_bytes 2 (ih_cksum h) @ ipv4_post h)"
proof -
  have "\<not> 4 * (ucast (ih_hlen h) :: u64) < 20"
    using ipv4_hlen_nat [OF assms] by (simp add: word_less_nat_alt ipv4_hlen_u64 [OF assms])
  then show ?thesis
    using assms ipv4_hlen_nat [OF assms]
    by (simp add: ipv4_header_serialize_def Let_def resize_def ipv4_pre_def ipv4_post_def
        ipv4_header_ok_def)
qed

lemma take_bit_small_u8: "h \<le> (15 :: u8) \<Longrightarrow> take_bit 4 h = h"
  by (simp add: word_unat_eq_iff unsigned_take_bit_eq take_bit_nat_eq_self word_le_nat_alt)

lemma take_bit_small_u16: "x \<le> (0x1fff :: u16) \<Longrightarrow> take_bit 13 x = x"
  by (simp add: word_unat_eq_iff unsigned_take_bit_eq take_bit_nat_eq_self word_le_nat_alt)

lemma ipv4_first_byte:
  assumes "ipv4_header_ok h"
  shows "drop_bit 4 (push_bit 4 (ih_ver h) OR (ih_hlen h AND 0xf)) = ih_ver h"
    and "(push_bit 4 (ih_ver h) OR (ih_hlen h AND 0xf)) AND 0x0f = ih_hlen h"
proof -
  have f: "(0xf :: u8) = mask 4" by (simp add: mask_eq_exp_minus_1)
  have h: "ih_hlen h AND 0xf = ih_hlen h" and v: "ih_ver h = 4"
    using assms take_bit_small_u8 [of "ih_hlen h"]
    by (simp_all add: ipv4_header_ok_def f take_bit_eq_mask)
  have bits: "bit (ih_hlen h) n \<Longrightarrow> n < 4" for n
    using bit_take_bit_iff [of 4 "ih_hlen h" n] take_bit_small_u8 [of "ih_hlen h"] assms
    by (simp add: ipv4_header_ok_def)
  have "drop_bit 4 (ih_hlen h) = 0"
    by (intro bit_word_eqI) (auto simp: bit_simps dest: bits)
  then show "drop_bit 4 (push_bit 4 (ih_ver h) OR (ih_hlen h AND 0xf)) = ih_ver h"
    unfolding h v drop_bit_or by simp
  have "(push_bit 4 (ih_ver h) OR ih_hlen h) AND 0x0f = ih_hlen h AND 0xf"
    unfolding f by (intro bit_word_eqI) (auto simp: bit_simps)
  then show "(push_bit 4 (ih_ver h) OR (ih_hlen h AND 0xf)) AND 0x0f = ih_hlen h"
    unfolding h .
qed

lemma ipv4_fo_bits:
  assumes "ipv4_header_ok h"
  shows "ipv4_fo_val h AND 0x4000 \<noteq> 0 \<longleftrightarrow> ih_df h" "ipv4_fo_val h AND 0x2000 \<noteq> 0 \<longleftrightarrow> ih_mf h"
    "ipv4_fo_val h AND 0x1fff = ih_offset h"
proof -
  have f: "(0x1fff :: u16) = mask 13" by (simp add: mask_eq_exp_minus_1)
  have o: "ih_offset h AND 0x1fff = ih_offset h"
    using assms take_bit_small_u16 [of "ih_offset h"]
    by (simp add: ipv4_header_ok_def f take_bit_eq_mask)
  have "(ih_offset h AND 0x1fff) AND 0x4000 = 0" "(ih_offset h AND 0x1fff) AND 0x2000 = 0"
    by (simp_all add: and.assoc)
  then have "ih_offset h AND 0x4000 = 0" "ih_offset h AND 0x2000 = 0" unfolding o .
  then have hi: "(x OR ih_offset h) AND 0x4000 = x AND 0x4000"
    "(x OR ih_offset h) AND 0x2000 = x AND 0x2000" for x
    by (simp_all add: bit.conj_disj_distrib2)
  show "ipv4_fo_val h AND 0x4000 \<noteq> 0 \<longleftrightarrow> ih_df h" "ipv4_fo_val h AND 0x2000 \<noteq> 0 \<longleftrightarrow> ih_mf h"
    unfolding ipv4_fo_val_def o or.assoc [symmetric] hi by auto
  show "ipv4_fo_val h AND 0x1fff = ih_offset h"
    unfolding ipv4_fo_val_def o by (simp add: bit.conj_disj_distrib2 o)
qed

section \<open>Parsing what was serialized\<close>

lemma ipv4_lengths [simp]: "length (ipv4_pre h) = 10" "even (length (ipv4_pre h))"
  "length (ipv4_post h) = 8 + (4 * unat (ih_hlen h) - 20)"
  by (simp_all add: ipv4_pre_def ipv4_post_def)

lemma ipv4_cksum [simp]:
  "ipv4_pre (h\<lparr>ih_cksum := c\<rparr>) = ipv4_pre h" "ipv4_post (h\<lparr>ih_cksum := c\<rparr>) = ipv4_post h"
  "ipv4_header_ok (h\<lparr>ih_cksum := c\<rparr>) = ipv4_header_ok h"
  "payload_length (h\<lparr>ih_cksum := c\<rparr>) = payload_length h"
  by (simp_all add: ipv4_pre_def ipv4_post_def ipv4_fo_val_def ipv4_header_ok_def payload_length_def)

lemma ipv4_header_read_bytes:
  assumes "ipv4_header_ok h" "length rest < 2 ^ 62"
  shows "run_state ipv4_header_read (good (ipv4_pre h @ net_bytes 2 (ih_cksum h)
      @ net_bytes 4 (ih_src h) @ net_bytes 4 (ih_dst h) @ rest)) = (h, good rest)"
  using assms(2) ipv4_first_byte [OF assms(1)] ipv4_fo_bits [OF assms(1)]
  by (simp add: ipv4_header_read_def ipv4_pre_def np_written)

lemma ipv4_header_parse_bytes:
  assumes "ipv4_header_ok h" and rest: "unat (ih_len h) = 4 * unat (ih_hlen h) + length rest"
    and ck: "checksum 0 (ipv4_pre h @ net_bytes 2 (ih_cksum h) @ ipv4_post h) = 0"
  shows "run_state (ipv4_header_parse self)
      (good (ipv4_pre h @ net_bytes 2 (ih_cksum h) @ ipv4_post h @ rest)) = ((NoError, h), good rest)"
proof -
  let ?s = "ipv4_pre h @ net_bytes 2 (ih_cksum h) @ ipv4_post h @ rest"
  note d = ipv4_hlen_nat [OF assms(1)]
  have small: "length rest < 2 ^ 16" using rest unat_lt_u16 [of "ih_len h"] by simp
  have len: "length ?s = unat (ih_len h)" using rest d by simp
  have size: "unat (size_of ?s) = unat (ih_len h)"
    using len unat_lt_u16 [of "ih_len h"] by (subst unat_size_of) simp_all
  have u: "unat (ucast (ih_len h) :: u64) = unat (ih_len h)"
    using unat_lt_u16 [of "ih_len h"] by (simp add: unsigned_ucast_eq take_bit_nat_eq_self)
  have guards: "\<not> size_of ?s < 20" "\<not> size_of ?s < 4 * ucast (ih_hlen h)"
    "size_of ?s = ucast (ih_len h)"
    using size d rest u by (simp_all add: word_less_nat_alt word_unat_eq_iff ipv4_hlen_u64 [OF assms(1)])
  have fields: "\<not> ih_hlen h < 5" "ih_ver h = 4"
    using assms(1) by (auto simp: ipv4_header_ok_def)
  have skip: "run_state (np_remove_prefix (ucast (ih_hlen h) * 4 - 20))
      (good (replicate (4 * unat (ih_hlen h) - 20) 0 @ rest)) = ((), good rest)"
    using d ipv4_hlen_u64(2) [OF assms(1)] small by (subst np_remove_prefix_good) simp_all
  have head: "take (4 * unat (ih_hlen h)) ?s = ipv4_pre h @ net_bytes 2 (ih_cksum h) @ ipv4_post h"
    using d by simp
  have "run_state ipv4_header_read (good ?s)
      = (h, good (replicate (4 * unat (ih_hlen h) - 20) 0 @ rest))"
    using assms(1) small d(2) ipv4_header_read_bytes [of h "replicate (4 * unat (ih_hlen h) - 20) 0 @ rest"]
    by (simp add: ipv4_post_def)
  then have "run_state (ipv4_header_parse self) (good ?s) = ((if ic_value (ic_add
      (take (4 * unat (ih_hlen h)) ?s) (ic_new 0)) \<noteq> 0 then BadChecksum else NoError, h), good rest)"
    using guards fields skip
    by (simp add: ipv4_header_parse_def np_get_buffer_def np_get_error_def Let_def del: take_append append_assoc)
  then show ?thesis unfolding head using ck by simp
qed

section \<open>Datagrams on the wire\<close>

lemma unat_payload_length:
  assumes "ipv4_header_ok h" "4 * unat (ih_hlen h) \<le> unat (ih_len h)"
  shows "unat (payload_length h) = unat (ih_len h) - 4 * unat (ih_hlen h)"
proof -
  have u: "unat (ucast (ih_hlen h) :: u16) = unat (ih_hlen h)"
    using ipv4_hlen_nat [OF assms(1)] by (simp add: unsigned_ucast_eq take_bit_nat_eq_self)
  then have m: "unat (4 * ucast (ih_hlen h) :: u16) = 4 * unat (ih_hlen h)"
    using ipv4_hlen_nat [OF assms(1)] by (simp add: unat_word_ariths)
  have "4 * ucast (ih_hlen h) \<le> ih_len h" using assms(2) m by (simp add: word_le_nat_alt)
  from unat_sub [OF this] show ?thesis by (simp add: payload_length_def m)
qed

lemma ipv4_datagram_roundtrip_full:
  assumes "ih_ver h = 4" "5 \<le> ih_hlen h" "ih_hlen h \<le> 15" "ih_offset h \<le> 0x1fff"
    and len: "unat (ih_len h) = 4 * unat (ih_hlen h) + length (concat d)"
  shows "\<exists>bufs c. ipv4_datagram_serialize \<lparr>id_header = h, id_payload = d\<rparr> = Inr bufs
     \<and> length (concat bufs) < 2 ^ 61
     \<and> (\<forall>self. ipv4_datagram_parse (concat bufs) self
         = (NoError, \<lparr>id_header = h\<lparr>ih_cksum := c\<rparr>, id_payload = [concat d]\<rparr>))
     \<and> (\<forall>self. fst (fst (run_state (ipv4_header_parse self) (np_new (concat bufs)))) = NoError)"
proof -
  have ok: "ipv4_header_ok h" using assms by (simp add: ipv4_header_ok_def)
  let ?c = "checksum 0 (ipv4_pre h @ [0, 0] @ ipv4_post h)"
  let ?h = "h\<lparr>ih_cksum := ?c\<rparr>"
  let ?b = "ipv4_pre h @ net_bytes 2 ?c @ ipv4_post h"
  have small: "length (concat d) < 2 ^ 16" using len unat_lt_u16 [of "ih_len h"] by simp
  have plen: "unat (payload_length h) = length (concat d)"
    using unat_payload_length [OF ok] len by simp
  then have "unat (ucast (payload_length h) :: u64) = length (concat d)"
    using small by (simp add: unsigned_ucast_eq take_bit_nat_eq_self)
  then have size: "size_of (concat d) = ucast (payload_length h)"
    using small by (simp add: word_unat_eq_iff unat_size_of)
  have "length (ipv4_pre h @ [0, 0] @ ipv4_post h) \<le> 70000"
    using ipv4_hlen_nat [OF ok] by simp
  from weight_small [OF this, of False] have ck: "checksum 0 ?b = 0"
    by (intro checksum_inserted) simp_all
  have ser: "ipv4_datagram_serialize \<lparr>id_header = h, id_payload = d\<rparr> = Inr (?b # d)"
    using size ok
    by (simp add: ipv4_datagram_serialize_def bv_size_eq Let_def ipv4_header_bytes net_bytes_0)
  have parse: "run_state (ipv4_header_parse self) (np_new (concat (?b # d))) = ((NoError, ?h), good (concat d))"
    for self
    using ipv4_header_parse_bytes [of ?h "concat d" self] ok len ck by (simp add: np_new_def)
  then have "ipv4_datagram_parse (concat (?b # d)) self
      = (NoError, \<lparr>id_header = ?h, id_payload = [concat d]\<rparr>)" for self
    using size by (simp add: ipv4_datagram_parse_def bv_size_eq)
  moreover have "length (concat (?b # d)) < 2 ^ 61" using small ipv4_hlen_nat [OF ok] by simp
  ultimately show ?thesis using ser parse by fastforce
qed

text \<open>C30: An Internet datagram put on the wire is read back as it was, the header checksum
  filled in and the payload's buffers joined, for every header with a valid version, header
  length and fragment offset whose total length is right.\<close>

theorem ipv4_datagram_roundtrip:
  assumes "ih_ver h = 4" "5 \<le> ih_hlen h" "ih_hlen h \<le> 15" "ih_offset h \<le> 0x1fff"
    and len: "unat (ih_len h) = 4 * unat (ih_hlen h) + length (concat d)"
  shows "\<exists>bufs c. ipv4_datagram_serialize \<lparr>id_header = h, id_payload = d\<rparr> = Inr bufs
     \<and> ipv4_datagram_parse (concat bufs) self
         = (NoError, \<lparr>id_header = h\<lparr>ih_cksum := c\<rparr>, id_payload = [concat d]\<rparr>)
     \<and> fst (fst (run_state (ipv4_header_parse self_header) (np_new (concat bufs)))) = NoError"
  using ipv4_datagram_roundtrip_full [OF assms] by blast

theorem ipv4_datagram_roundtrip_witness:
  "\<exists>bufs c. ipv4_datagram_serialize \<lparr>id_header = ipv4_header_new\<lparr>ih_len := 23\<rparr>, id_payload = [[1], [2, 3]]\<rparr>
       = Inr bufs
     \<and> ipv4_datagram_parse (concat bufs) ipv4_datagram_new = (NoError,
         \<lparr>id_header = ipv4_header_new\<lparr>ih_len := 23, ih_cksum := c\<rparr>, id_payload = [[1, 2, 3]]\<rparr>)"
  using ipv4_datagram_roundtrip [of "ipv4_header_new\<lparr>ih_len := 23\<rparr>" "[[1], [2, 3]]" ipv4_datagram_new]
  by (simp add: ipv4_header_new_def) blast

section \<open>What the header parser accepts\<close>










text \<open>
  The same packet with a wrong checksum is refused by the header's parser, and accepted by
  the datagram's, which does not look at what the header's parser returned.
\<close>

lemma ipv4_datagram_parse_ignores_checksum:
  "let s = [0x45, 0, 0, 20, 0, 0, 0x40, 0, 128, 6, 0xDE, 0xAD, 0, 0, 0, 0, 0, 0, 0, 0]
   in fst (fst (run_state (ipv4_header_parse ipv4_header_new) (np_new s))) = BadChecksum
    \<and> fst (ipv4_datagram_parse s ipv4_datagram_new) = NoError"
  by code_simp

section \<open>The pseudo header\<close>

lemma unat_pseudo_cksum: "unat (pseudo_cksum h) < 2 ^ 20"
proof -
  have fold: "unat (drop_bit 16 x + (x AND 0xffff) :: u32) \<le> 131070" for x
  proof -
    have "unat x div 2 ^ 16 < 2 ^ 16" using unat_lt_u32 [of x] by (simp add: less_mult_imp_div_less)
    then show ?thesis unfolding unat_fold_step using mod_less_divisor [of "2 ^ 16" "unat x"] by simp
  qed
  have p: "unat (ucast (ih_proto h) :: u32) \<le> 255"
    using unat_lt_u8 [of "ih_proto h"] by (simp add: unsigned_ucast_eq take_bit_nat_eq_self)
  have l: "unat (ucast (payload_length h) :: u32) \<le> 65535"
    using unat_lt_u16 [of "payload_length h"] by (simp add: unsigned_ucast_eq take_bit_nat_eq_self)
  have add: "unat (x + y :: u32) \<le> unat x + unat y" for x y
    by (simp add: unat_word_ariths)
  note add [of "drop_bit 16 (ih_src h) + (ih_src h AND 0xffff) +
      (drop_bit 16 (ih_dst h) + (ih_dst h AND 0xffff)) + ucast (ih_proto h)" "ucast (payload_length h)"]
    add [of "drop_bit 16 (ih_src h) + (ih_src h AND 0xffff) +
      (drop_bit 16 (ih_dst h) + (ih_dst h AND 0xffff))" "ucast (ih_proto h)"]
    add [of "drop_bit 16 (ih_src h) + (ih_src h AND 0xffff)"
      "drop_bit 16 (ih_dst h) + (ih_dst h AND 0xffff)"]
  then have "unat (pseudo_cksum h) \<le> 131070 + 131070 + 255 + 65535"
    unfolding pseudo_cksum_def Let_def using fold [of "ih_src h"] fold [of "ih_dst h"] p l by linarith
  then show ?thesis by simp
qed

end
