(* ===== verification/EthernetArp.thy ===== *)
theory EthernetArp
  imports Ipv4
begin

text \<open>
  \<open>libsponge/tcp_helpers/ethernet_header.{hh,cc}\<close>, \<open>ethernet_frame.{hh,cc}\<close> and
  \<open>arp_message.{hh,cc}\<close>: Ethernet frames and ARP messages on the wire.
\<close>

section \<open>Ethernet\<close>

text \<open>An \<open>std::array\<close> of six bytes.\<close>

datatype ethernet_address = EthernetAddress u8 u8 u8 u8 u8 u8

fun eth_bytes :: "ethernet_address \<Rightarrow> byte list" where
  "eth_bytes (EthernetAddress a b c d e f) = [a, b, c, d, e, f]"

definition ETHERNET_BROADCAST :: ethernet_address where
  "ETHERNET_BROADCAST = EthernetAddress 0xff 0xff 0xff 0xff 0xff 0xff"

definition ethernet_zero :: ethernet_address where
  "ethernet_zero = EthernetAddress 0 0 0 0 0 0"

text \<open>The loops that read and write an address byte by byte.\<close>

definition np_ethernet :: "ethernet_address parser" where
  "np_ethernet = do {
     a \<leftarrow> np_u8; b \<leftarrow> np_u8; c \<leftarrow> np_u8; d \<leftarrow> np_u8; e \<leftarrow> np_u8; f \<leftarrow> np_u8;
     State_Monad.return (EthernetAddress a b c d e f)
   }"

definition nu_ethernet :: "byte list \<Rightarrow> ethernet_address \<Rightarrow> byte list" where
  "nu_ethernet ret addr = foldl nu_u8 ret (eth_bytes addr)"

definition TYPE_IPv4 :: u16 where "TYPE_IPv4 = 0x800"
definition TYPE_ARP :: u16 where "TYPE_ARP = 0x806"

record ethernet_header =
  eh_dst :: ethernet_address
  eh_src :: ethernet_address
  eh_type :: u16

definition ethernet_header_new :: ethernet_header where
  "ethernet_header_new = \<lparr>eh_dst = ethernet_zero, eh_src = ethernet_zero, eh_type = 0\<rparr>"

definition ethernet_header_parse :: "ethernet_header \<Rightarrow> (parse_result \<times> ethernet_header) parser" where
  "ethernet_header_parse self = do {
     buffer \<leftarrow> np_get_buffer;
     if size_of buffer < 14 then State_Monad.return (PacketTooShort, self)
     else do {
       dst \<leftarrow> np_ethernet;
       src \<leftarrow> np_ethernet;
       type \<leftarrow> np_u16;
       error \<leftarrow> np_get_error;
       State_Monad.return (error, \<lparr>eh_dst = dst, eh_src = src, eh_type = type\<rparr>)
     }
   }"

definition ethernet_header_serialize :: "ethernet_header \<Rightarrow> byte list" where
  "ethernet_header_serialize h =
     (let ret = nu_ethernet [] (eh_dst h);
          ret = nu_ethernet ret (eh_src h)
      in nu_u16 ret (eh_type h))"

record ethernet_frame =
  ef_header :: ethernet_header
  ef_payload :: "byte list list"

definition ethernet_frame_new :: ethernet_frame where
  "ethernet_frame_new = \<lparr>ef_header = ethernet_header_new, ef_payload = []\<rparr>"

definition ethernet_frame_parse :: "byte list \<Rightarrow> ethernet_frame \<Rightarrow> parse_result \<times> ethernet_frame" where
  "ethernet_frame_parse buffer self =
     (let ((_, h), p) = run_state (ethernet_header_parse (ef_header self)) (np_new buffer)
      in (np_error p, \<lparr>ef_header = h, ef_payload = [np_buffer p]\<rparr>))"

definition ethernet_frame_serialize :: "ethernet_frame \<Rightarrow> byte list list" where
  "ethernet_frame_serialize f = ethernet_header_serialize (ef_header f) # ef_payload f"

text \<open>\<open>to_string(EthernetAddress)\<close>: two lower-case hexadecimal digits for each byte.\<close>

definition hex_digit :: "nat \<Rightarrow> char" where
  "hex_digit n = ''0123456789abcdef'' ! n"

definition eth_to_string :: "ethernet_address \<Rightarrow> string" where
  "eth_to_string addr =
     (let bytes = map (\<lambda>b. [hex_digit (unat b div 16), hex_digit (unat b mod 16)]) (eth_bytes addr)
      in concat (map (\<lambda>i. (bytes ! i) @ (if i \<noteq> length bytes - 1 then '':'' else [])) [0..<length bytes]))"

section \<open>ARP\<close>

definition TYPE_ETHERNET :: u16 where "TYPE_ETHERNET = 1"
definition OPCODE_REQUEST :: u16 where "OPCODE_REQUEST = 1"
definition OPCODE_REPLY :: u16 where "OPCODE_REPLY = 2"

record arp_message =
  arp_hardware_type :: u16
  arp_protocol_type :: u16
  arp_hardware_address_size :: u8
  arp_protocol_address_size :: u8
  arp_opcode :: u16
  arp_sender_ethernet_address :: ethernet_address
  arp_sender_ip_address :: u32
  arp_target_ethernet_address :: ethernet_address
  arp_target_ip_address :: u32

definition arp_message_new :: arp_message where
  "arp_message_new =
     \<lparr>arp_hardware_type = TYPE_ETHERNET, arp_protocol_type = TYPE_IPv4,
      arp_hardware_address_size = 6, arp_protocol_address_size = 4, arp_opcode = 0,
      arp_sender_ethernet_address = ethernet_zero, arp_sender_ip_address = 0,
      arp_target_ethernet_address = ethernet_zero, arp_target_ip_address = 0\<rparr>"

definition arp_supported :: "arp_message \<Rightarrow> bool" where
  "arp_supported m \<longleftrightarrow> arp_hardware_type m = TYPE_ETHERNET \<and> arp_protocol_type m = TYPE_IPv4 \<and>
     arp_hardware_address_size m = 6 \<and> arp_protocol_address_size m = 4 \<and>
     (arp_opcode m = OPCODE_REQUEST \<or> arp_opcode m = OPCODE_REPLY)"

definition arp_read :: "arp_message \<Rightarrow> (parse_result \<times> arp_message) parser" where
  "arp_read self = do {
     hardware_type \<leftarrow> np_u16;
     protocol_type \<leftarrow> np_u16;
     hardware_address_size \<leftarrow> np_u8;
     protocol_address_size \<leftarrow> np_u8;
     opcode \<leftarrow> np_u16;
     let m = self\<lparr>arp_hardware_type := hardware_type, arp_protocol_type := protocol_type,
                  arp_hardware_address_size := hardware_address_size,
                  arp_protocol_address_size := protocol_address_size, arp_opcode := opcode\<rparr>;
     if \<not> arp_supported m then State_Monad.return (Unsupported, m)
     else do {
       sender_eth \<leftarrow> np_ethernet;
       sender_ip \<leftarrow> np_u32;
       target_eth \<leftarrow> np_ethernet;
       target_ip \<leftarrow> np_u32;
       error \<leftarrow> np_get_error;
       State_Monad.return
         (error, m\<lparr>arp_sender_ethernet_address := sender_eth, arp_sender_ip_address := sender_ip,
                   arp_target_ethernet_address := target_eth, arp_target_ip_address := target_ip\<rparr>)
     }
   }"

definition arp_parse :: "byte list \<Rightarrow> arp_message \<Rightarrow> parse_result \<times> arp_message" where
  "arp_parse buffer self =
     (if size_of buffer < 28 then (PacketTooShort, self)
      else fst (run_state (arp_read self) (np_new buffer)))"

definition arp_serialize :: "arp_message \<Rightarrow> failure + byte list" where
  "arp_serialize m =
     (if \<not> arp_supported m then
        Inl (Thrown ''ARPMessage::serialize(): unsupported field combination (must be Ethernet/IP, and request or reply)'')
      else
        let ret = nu_u16 [] (arp_hardware_type m);
            ret = nu_u16 ret (arp_protocol_type m);
            ret = nu_u8 ret (arp_hardware_address_size m);
            ret = nu_u8 ret (arp_protocol_address_size m);
            ret = nu_u16 ret (arp_opcode m);
            ret = nu_ethernet ret (arp_sender_ethernet_address m);
            ret = nu_u32 ret (arp_sender_ip_address m);
            ret = nu_ethernet ret (arp_target_ethernet_address m);
            ret = nu_u32 ret (arp_target_ip_address m)
        in Inr ret)"

section \<open>Parsing what was serialized\<close>

lemma nu_ethernet_eq [simp]: "nu_ethernet ret a = ret @ eth_bytes a"
  by (cases a) (simp add: nu_ethernet_def)

lemma length_eth_bytes [simp]: "length (eth_bytes a) = 6"
  by (cases a) simp

interpretation ethernet_address_codec: codec eth_bytes np_ethernet "\<lambda>_ rest. length rest < 2 ^ 62"
proof unfold_locales
  fix a :: ethernet_address and rest :: "byte list"
  assume "length rest < 2 ^ 62"
  then show "run_state np_ethernet (good (eth_bytes a @ rest)) = (a, good rest)"
    by (cases a) (simp add: np_ethernet_def np_u8_written)
qed

lemmas np_ethernet_written = ethernet_address_codec.dec_enc

lemma ethernet_header_bytes:
  "ethernet_header_serialize h = eth_bytes (eh_dst h) @ eth_bytes (eh_src h) @ net_bytes 2 (eh_type h)"
  by (simp add: ethernet_header_serialize_def)

lemma ethernet_header_parse_bytes:
  assumes "length rest < 2 ^ 61"
  shows "run_state (ethernet_header_parse self) (good (ethernet_header_serialize h @ rest))
    = ((NoError, h), good rest)"
proof -
  have "unat (size_of (ethernet_header_serialize h @ rest)) = 14 + length rest"
    using assms by (subst unat_size_of) (simp_all add: ethernet_header_bytes)
  then have "\<not> size_of (ethernet_header_serialize h @ rest) < 14"
    by (simp add: word_less_nat_alt)
  then show ?thesis
    using assms
    by (simp add: ethernet_header_parse_def np_get_buffer_def np_get_error_def)
      (simp add: ethernet_header_bytes np_ethernet_written np_u16_written)
qed

interpretation ethernet_header_codec:
  codec "\<lambda>x. ethernet_header_serialize (snd x)" "ethernet_header_parse self"
    "\<lambda>x rest. fst x = NoError \<and> length rest < 2 ^ 61" for self
  by unfold_locales (use ethernet_header_parse_bytes in \<open>auto simp: prod_eq_iff\<close>)

text \<open>An Ethernet frame read from the wire is the frame that was put on it, with the
  buffers of its payload joined.\<close>

theorem ethernet_frame_roundtrip:
  assumes "length (concat (ef_payload f)) < 2 ^ 61"
  shows "ethernet_frame_parse (concat (ethernet_frame_serialize f)) self
    = (NoError, f\<lparr>ef_payload := [concat (ef_payload f)]\<rparr>)"
  using ethernet_header_codec.dec_enc [of "(NoError, ef_header f)" "concat (ef_payload f)"] assms
  by (simp add: ethernet_frame_parse_def ethernet_frame_serialize_def np_new_def)

theorem ethernet_frame_roundtrip_witness:
  "fst (ethernet_frame_parse (concat (ethernet_frame_serialize
     \<lparr>ef_header = ethernet_header_new\<lparr>eh_type := TYPE_ARP\<rparr>, ef_payload = [[1, 2], [3]]\<rparr>)) ethernet_frame_new)
   = NoError"
  by (subst ethernet_frame_roundtrip) simp_all

lemma arp_bytes:
  assumes "arp_supported m"
  shows "arp_serialize m = Inr (net_bytes 2 (arp_hardware_type m) @ net_bytes 2 (arp_protocol_type m)
     @ [arp_hardware_address_size m, arp_protocol_address_size m] @ net_bytes 2 (arp_opcode m)
     @ eth_bytes (arp_sender_ethernet_address m) @ net_bytes 4 (arp_sender_ip_address m)
     @ eth_bytes (arp_target_ethernet_address m) @ net_bytes 4 (arp_target_ip_address m))"
  using assms by (simp add: arp_serialize_def)

lemma arp_roundtrip_ok: "arp_supported m \<Longrightarrow> \<exists>s. arp_serialize m = Inr s"
  by (simp add: arp_bytes)

lemma arp_roundtrip_full:
  assumes "arp_supported m" "length rest < 2 ^ 61"
  shows "\<exists>s. arp_serialize m = Inr s \<and> length s = 28 \<and> arp_parse (s @ rest) self = (NoError, m)"
proof -
  let ?s = "net_bytes 2 (arp_hardware_type m) @ net_bytes 2 (arp_protocol_type m)
     @ [arp_hardware_address_size m, arp_protocol_address_size m] @ net_bytes 2 (arp_opcode m)
     @ eth_bytes (arp_sender_ethernet_address m) @ net_bytes 4 (arp_sender_ip_address m)
     @ eth_bytes (arp_target_ethernet_address m) @ net_bytes 4 (arp_target_ip_address m)"
  have "unat (size_of (?s @ rest)) = 28 + length rest"
    using assms(2) by (subst unat_size_of) simp_all
  then have long: "\<not> size_of (?s @ rest) < 28" by (simp add: word_less_nat_alt)
  have "self\<lparr>arp_hardware_type := arp_hardware_type m, arp_protocol_type := arp_protocol_type m,
      arp_hardware_address_size := arp_hardware_address_size m,
      arp_protocol_address_size := arp_protocol_address_size m, arp_opcode := arp_opcode m,
      arp_sender_ethernet_address := arp_sender_ethernet_address m,
      arp_sender_ip_address := arp_sender_ip_address m,
      arp_target_ethernet_address := arp_target_ethernet_address m,
      arp_target_ip_address := arp_target_ip_address m\<rparr> = m"
    by simp
  moreover have "arp_supported (self\<lparr>arp_hardware_type := arp_hardware_type m,
      arp_protocol_type := arp_protocol_type m,
      arp_hardware_address_size := arp_hardware_address_size m,
      arp_protocol_address_size := arp_protocol_address_size m, arp_opcode := arp_opcode m\<rparr>)"
    using assms(1) by (simp add: arp_supported_def)
  ultimately have "run_state (arp_read self) (good (?s @ rest)) = ((NoError, m), good rest)"
    using assms(2)
    by (simp add: arp_read_def np_written np_ethernet_written np_get_error_def Let_def)
  then show ?thesis
    using long assms(1) arp_bytes [OF assms(1)] by (simp add: arp_parse_def np_new_def del: append_assoc)
qed

text \<open>Every ARP message that can be sent (a request or a reply for IPv4 over Ethernet) is
  28 bytes long and is read back unchanged, whatever follows it in the frame; any other
  message is refused by the serializer.\<close>

theorem arp_roundtrip:
  assumes "length rest < 2 ^ 61"
  shows "if arp_supported m
    then \<exists>s. arp_serialize m = Inr s \<and> length s = 28 \<and> arp_parse (s @ rest) self = (NoError, m)
    else \<exists>e. arp_serialize m = Inl (Thrown e)"
proof (cases "arp_supported m")
  case True
  then show ?thesis using arp_roundtrip_full [OF True assms] by simp
qed (simp add: arp_serialize_def)

theorem arp_roundtrip_witness:
  "\<exists>s. arp_serialize (arp_message_new\<lparr>arp_opcode := OPCODE_REPLY, arp_sender_ip_address := 0x0A000001\<rparr>) = Inr s
     \<and> arp_parse (s @ [0, 0]) arp_message_new
         = (NoError, arp_message_new\<lparr>arp_opcode := OPCODE_REPLY, arp_sender_ip_address := 0x0A000001\<rparr>)"
  using arp_roundtrip [of "[0, 0]" "arp_message_new\<lparr>arp_opcode := OPCODE_REPLY,
      arp_sender_ip_address := 0x0A000001\<rparr>" arp_message_new]
  by (auto simp: arp_supported_def arp_message_new_def)

text \<open>
  A frame too short for its header is reported as a success: the header's parser returns
  before it reads, so the parser it is given records no error.
\<close>

lemma ethernet_frame_parse_short:
  assumes "length s < 14"
  shows "ethernet_frame_parse s self = (NoError, self\<lparr>ef_payload := [s]\<rparr>)"
    and "fst (fst (run_state (ethernet_header_parse (ef_header self)) (np_new s))) = PacketTooShort"
proof -
  have "unat (size_of s) = length s" using assms by (intro unat_size_of) simp
  then have "size_of s < 14" using assms by (simp add: word_less_nat_alt)
  then show "ethernet_frame_parse s self = (NoError, self\<lparr>ef_payload := [s]\<rparr>)"
    and "fst (fst (run_state (ethernet_header_parse (ef_header self)) (np_new s))) = PacketTooShort"
    by (simp_all add: ethernet_frame_parse_def ethernet_header_parse_def np_get_buffer_def np_new_def)
qed

end
