(* ===== verification/Text.thy ===== *)
theory Text
  imports Prelude
begin

text \<open>
  Text as strings of bytes, and the conversions of the C++ library between numbers and
  decimal text (\<open>std::to_string\<close>, \<open>std::stoi\<close>) that the chat programs and the network
  simulator use.
\<close>

section \<open>Writing and reading numbers\<close>

definition ascii :: "string \<Rightarrow> byte list" where
  "ascii s = map of_char s"

function to_dec :: "nat \<Rightarrow> byte list" where
  "to_dec n = (if n < 10 then [of_nat (48 + n)] else to_dec (n div 10) @ [of_nat (48 + n mod 10)])"
  by pat_completeness auto
termination by (relation "measure id") auto

declare to_dec.simps [simp del]

text \<open>\<open>std::to_string(int)\<close>\<close>

definition to_string_int :: "int \<Rightarrow> byte list" where
  "to_string_int i = (if i < 0 then 45 # to_dec (nat (- i)) else to_dec (nat i))"

text \<open>\<open>std::stoi\<close>: skips white space, takes an optional sign and as many digits as there are,
  ignores the rest, and throws when there is no digit or the number is not an \<open>int\<close>.\<close>

definition is_space :: "byte \<Rightarrow> bool" where
  "is_space b \<longleftrightarrow> b = 32 \<or> (9 \<le> b \<and> b \<le> 13)"

definition is_digit :: "byte \<Rightarrow> bool" where
  "is_digit b \<longleftrightarrow> 48 \<le> b \<and> b \<le> 57"

definition digits_value :: "byte list \<Rightarrow> nat" where
  "digits_value ds = foldl (\<lambda>n d. n * 10 + (unat d - 48)) 0 ds"

definition INT_MAX :: int where "INT_MAX = 2147483647"

definition stoi :: "byte list \<Rightarrow> failure + int" where
  "stoi s =
     (let s = dropWhile is_space s;
          (negative, s) = (case s of [] \<Rightarrow> (False, [])
             | c # r \<Rightarrow> if c = 45 then (True, r) else if c = 43 then (False, r) else (False, s));
          ds = takeWhile is_digit s;
          v = (if negative then - int (digits_value ds) else int (digits_value ds))
      in if ds = [] then Inl (Thrown ''invalid_argument'')
         else if v < - INT_MAX - 1 \<or> INT_MAX < v then Inl (Thrown ''out_of_range'')
         else Inr v)"

section \<open>Numbers are read back\<close>

lemma unat_digit: "k < 10 \<Longrightarrow> unat (of_nat (48 + k) :: byte) = 48 + k"
  by (subst unat_of_nat) (simp add: take_bit_eq_mod)

lemma to_dec_digits: "\<forall>d \<in> set (to_dec n). is_digit d"
proof (induction n rule: to_dec.induct)
  case (1 n)
  have digit: "is_digit (of_nat (48 + k))" if "k < 10" for k
  proof -
    show ?thesis using that unat_digit [OF that] by (simp add: is_digit_def word_le_nat_alt)
  qed
  show ?case using 1 digit [of n] digit [of "n mod 10"] by (simp add: to_dec.simps [of n])
qed

lemma to_dec_not_Nil: "to_dec n \<noteq> []"
  by (simp add: to_dec.simps [of n])

lemma digits_value_to_dec: "digits_value (to_dec n) = n"
proof (induction n rule: to_dec.induct)
  case (1 n)
  show ?case
    using 1 unat_digit [of n] unat_digit [of "n mod 10"] by (simp add: to_dec.simps [of n] digits_value_def)
qed

text \<open>A number written by \<open>to_string\<close> is read back by \<open>stoi\<close>, also when text that does not
  start with a digit follows.\<close>

lemma stoi_to_dec:
  assumes "int n \<le> INT_MAX" "s = [] \<or> \<not> is_digit (hd s)"
  shows "stoi (to_dec n @ s) = Inr (int n)"
proof -
  obtain c r where c: "to_dec n @ s = c # r" "is_digit c"
    using to_dec_not_Nil [of n] to_dec_digits [of n] by (cases "to_dec n") auto
  have "\<not> is_space c" "c \<noteq> 45" "c \<noteq> 43"
    using c(2) by (auto simp: is_digit_def is_space_def word_le_nat_alt)
  moreover have "takeWhile is_digit (to_dec n @ s) = to_dec n"
    using to_dec_digits [of n] assms(2) by (cases s) simp_all
  ultimately show ?thesis
    using assms(1) c(1) to_dec_not_Nil [of n] unfolding stoi_def
    by (simp add: digits_value_to_dec INT_MAX_def split del: if_split)
qed

end
