(* ===== verification/Addresses.thy ===== *)
theory Addresses
  imports Text
begin

text \<open>
  \<open>libsponge/util/address.{hh,cc}\<close>, which wraps the system's socket addresses: an IPv4 address
  is its number and its port; reading it from numeric text and printing it.
\<close>

section \<open>Addresses\<close>

datatype address = Address (ipv4_numeric: u32) (addr_port: u16)

definition from_ipv4_numeric :: "u32 \<Rightarrow> address" where
  "from_ipv4_numeric ip = Address ip 0"

section \<open>Looking up names\<close>

text \<open>\<open>getaddrinfo\<close> is a parameter: an error code, or the first of the addresses found, if any.
  The hints are the fields \<open>ai_flags\<close> and \<open>ai_family\<close> of \<open>addrinfo\<close>.\<close>

type_synonym resolver = "string \<Rightarrow> string \<Rightarrow> int \<times> int \<Rightarrow> int + address option"

definition AI_NUMERICHOST :: int where "AI_NUMERICHOST = 4"
definition AI_ALL :: int where "AI_ALL = 0x10"
definition AI_NUMERICSERV :: int where "AI_NUMERICSERV = 0x400"
definition AF_INET :: int where "AF_INET = 2"

definition make_hints :: "int \<Rightarrow> int \<Rightarrow> int \<times> int" where
  "make_hints ai_flags ai_family = (ai_flags, ai_family)"

definition address_new :: "resolver \<Rightarrow> string \<Rightarrow> string \<Rightarrow> int \<times> int \<Rightarrow> failure + address" where
  "address_new getaddrinfo node service hints =
     (case getaddrinfo node service hints of
        Inl gai_ret \<Rightarrow> Inl (Thrown (''getaddrinfo('' @ node @ '', '' @ service @ '')''))
      | Inr None \<Rightarrow> Inl (Thrown ''getaddrinfo returned successfully but with no results'')
      | Inr (Some resolved_address) \<Rightarrow> Inr resolved_address)"

definition address_from_host :: "resolver \<Rightarrow> string \<Rightarrow> string \<Rightarrow> failure + address" where
  "address_from_host getaddrinfo hostname service =
     address_new getaddrinfo hostname service (make_hints AI_ALL AF_INET)"

section \<open>Numeric text\<close>

text \<open>
  With the flags \<open>AI_NUMERICHOST\<close> and \<open>AI_NUMERICSERV\<close> nothing is looked up, and
  \<open>getaddrinfo\<close> is documented to read the node as \<open>inet_aton\<close> does: one to four numbers
  separated by dots, each decimal, octal (after \<open>0\<close>) or hexadecimal (after \<open>0x\<close>), the last of
  which fills the bytes that are left.
\<close>

definition digit_in :: "nat \<Rightarrow> byte \<Rightarrow> nat option" where
  "digit_in base c =
     (let n = unat c;
          v = (if 48 \<le> n \<and> n \<le> 57 then n - 48 else if 97 \<le> n \<and> n \<le> 102 then n - 87
               else if 65 \<le> n \<and> n \<le> 70 then n - 55 else base)
      in if v < base then Some v else None)"

fun digits_in :: "nat \<Rightarrow> byte list \<Rightarrow> nat \<Rightarrow> nat option" where
  "digits_in base [] acc = Some acc"
| "digits_in base (c # cs) acc =
     (case digit_in base c of None \<Rightarrow> None | Some v \<Rightarrow> digits_in base cs (acc * base + v))"

definition c_number :: "string \<Rightarrow> nat option" where
  "c_number s =
     (case ascii s of
        [] \<Rightarrow> None
      | [c] \<Rightarrow> digits_in 10 [c] 0
      | c # d # cs \<Rightarrow>
          if c = 48 \<and> (d = 120 \<or> d = 88) then (if cs = [] then None else digits_in 16 cs 0)
          else if c = 48 then digits_in 8 (d # cs) 0 else digits_in 10 (c # d # cs) 0)"

fun split_dots :: "string \<Rightarrow> string list" where
  "split_dots [] = [[]]"
| "split_dots (c # s) =
     (if c = CHR ''.'' then [] # split_dots s
      else case split_dots s of [] \<Rightarrow> [[c]] | p # ps \<Rightarrow> (c # p) # ps)"

fun join_parts :: "nat \<Rightarrow> nat option list \<Rightarrow> nat \<Rightarrow> nat option" where
  "join_parts left [] acc = None"
| "join_parts left [Some a] acc = (if a < 256 ^ left then Some (acc * 256 ^ left + a) else None)"
| "join_parts left (None # ps) acc = None"
| "join_parts left (Some a # ps) acc =
     (if a < 256 \<and> 1 < left then join_parts (left - 1) ps (acc * 256 + a) else None)"

definition numeric_host :: "string \<Rightarrow> u32 option" where
  "numeric_host s = map_option of_nat (join_parts 4 (map c_number (split_dots s)) 0)"

definition numeric_service :: "string \<Rightarrow> u16 option" where
  "numeric_service s =
     (case ascii s of [] \<Rightarrow> None | cs \<Rightarrow> map_option of_nat (digits_in 10 cs 0))"

definition numeric_resolver :: resolver where
  "numeric_resolver node service hints =
     (case (numeric_host node, numeric_service service) of
        (Some n, Some p) \<Rightarrow> Inr (Some (Address n p))
      | _ \<Rightarrow> Inl (-2))"

definition decimal_text :: "nat \<Rightarrow> string" where
  "decimal_text n = map (\<lambda>b. char_of (unat b)) (to_dec n)"

definition address_from_ip :: "string \<Rightarrow> u16 \<Rightarrow> failure + address" where
  "address_from_ip ip port =
     address_new numeric_resolver ip (decimal_text (unat port))
       (make_hints (AI_NUMERICHOST + AI_NUMERICSERV) AF_INET)"

text \<open>With the port's default value.\<close>

definition address_from_text :: "string \<Rightarrow> failure + address" where
  "address_from_text s = address_from_ip s 0"

section \<open>Printing\<close>

text \<open>What \<open>getnameinfo\<close> prints with \<open>NI_NUMERICHOST\<close>: the four bytes in decimal.\<close>

definition octet :: "nat \<Rightarrow> u32 \<Rightarrow> nat" where
  "octet i n = unat n div 256 ^ i mod 256"

definition dotted_quad :: "u32 \<Rightarrow> string" where
  "dotted_quad n = decimal_text (octet 3 n) @ ''.'' @ decimal_text (octet 2 n) @ ''.''
     @ decimal_text (octet 1 n) @ ''.'' @ decimal_text (octet 0 n)"

definition ip_port :: "address \<Rightarrow> string \<times> u16" where
  "ip_port a = (dotted_quad (ipv4_numeric a), addr_port a)"

definition address_ip :: "address \<Rightarrow> string" where
  "address_ip a = fst (ip_port a)"

definition address_port :: "address \<Rightarrow> u16" where
  "address_port a = snd (ip_port a)"

definition address_to_string :: "address \<Rightarrow> string" where
  "address_to_string a = (case ip_port a of (addr, port) \<Rightarrow> addr @ '':'' @ decimal_text (unat port))"

section \<open>What is printed is read back\<close>

lemma byte_of_char_of: "of_char (char_of (unat (b :: byte))) = b"
proof -
  have "(of_char (char_of (unat b)) :: nat) = unat b"
    using unat_lt_u8 [of b] by simp
  then have "of_nat (of_char (char_of (unat b))) = b" by simp
  then show ?thesis by (simp only: of_nat_of_char)
qed

lemma ascii_decimal_text: "ascii (decimal_text n) = to_dec n"
  by (simp add: ascii_def decimal_text_def byte_of_char_of comp_def)

lemma digit_in_digit: "is_digit c \<Longrightarrow> digit_in 10 c = Some (unat c - 48)"
  by (simp add: is_digit_def digit_in_def word_le_nat_alt Let_def) arith

lemma digits_in_digits:
  "\<forall>c\<in>set cs. is_digit c \<Longrightarrow> digits_in 10 cs acc = Some (foldl (\<lambda>n c. n * 10 + (unat c - 48)) acc cs)"
  by (induction cs arbitrary: acc) (simp_all add: digit_in_digit)

lemma digits_in_to_dec: "digits_in 10 (to_dec n) 0 = Some n"
  using digits_in_digits [OF to_dec_digits] digits_value_to_dec [of n] by (simp add: digits_value_def)

lemma to_dec_hd: "n \<noteq> 0 \<Longrightarrow> hd (to_dec n) \<noteq> 48"
proof (induction n rule: to_dec.induct)
  case (1 n)
  show ?case
  proof (cases "n < 10")
    case True
    then have "unat (of_nat (48 + n) :: byte) = 48 + n" by (rule unat_digit)
    moreover have "unat (48 :: byte) = 48" by simp
    ultimately have "of_nat (48 + n) \<noteq> (48 :: byte)" using 1(2) by (metis add_cancel_left_right)
    then show ?thesis using True by (simp add: to_dec.simps [of n])
  next
    case False
    then have "hd (to_dec (n div 10)) \<noteq> 48" using 1(1) by simp
    then show ?thesis using False to_dec_not_Nil by (simp add: to_dec.simps [of n])
  qed
qed

lemma decimal_text_read: "c_number (decimal_text n) = Some n"
proof (cases "to_dec n")
  case Nil
  then show ?thesis using to_dec_not_Nil by blast
next
  case (Cons c r)
  show ?thesis
  proof (cases r)
    case Nil
    then show ?thesis using Cons digits_in_to_dec [of n] by (simp add: c_number_def ascii_decimal_text)
  next
    case (Cons d cs)
    then have n: "to_dec n = c # d # cs" using \<open>to_dec n = c # r\<close> by simp
    have "to_dec 0 = [48]" by (subst to_dec.simps) simp
    then have "n \<noteq> 0" using n by (metis list.inject list.distinct(1))
    then have "hd (to_dec n) \<noteq> 48" by (rule to_dec_hd)
    then have "c \<noteq> 48" by (simp add: n)
    then show ?thesis using digits_in_to_dec [of n] by (simp add: c_number_def ascii_decimal_text n)
  qed
qed

lemma decimal_service: "numeric_service (decimal_text (unat p)) = Some p"
proof (cases "to_dec (unat p)")
  case Nil
  then show ?thesis using to_dec_not_Nil by blast
next
  case (Cons c r)
  then show ?thesis
    using digits_in_to_dec [of "unat p"] by (simp add: numeric_service_def ascii_decimal_text Cons del: digits_in.simps)
qed

lemma address_from_ip_numeric:
  "numeric_host s = Some n \<Longrightarrow> address_from_ip s p = Inr (Address n p)"
  by (simp add: address_from_ip_def address_new_def numeric_resolver_def decimal_service)

lemma address_from_text_numeric:
  "numeric_host s = Some n \<Longrightarrow> address_from_text s = Inr (Address n 0)"
  by (simp add: address_from_text_def address_from_ip_numeric)

lemmas numeric_text = numeric_host_def c_number_def ascii_def digit_in_def

lemma no_dot: "CHR ''.'' \<notin> set (decimal_text n)"
proof
  assume "CHR ''.'' \<in> set (decimal_text n)"
  then have "(of_char CHR ''.'' :: byte) \<in> set (ascii (decimal_text n))" by (force simp: ascii_def)
  then have "is_digit (of_char CHR ''.'')" using to_dec_digits [of n] by (simp add: ascii_decimal_text)
  then show False by (simp add: is_digit_def word_le_nat_alt)
qed

lemma split_dots_append: "CHR ''.'' \<notin> set s \<Longrightarrow> split_dots (s @ CHR ''.'' # t) = s # split_dots t"
  by (induction s) auto

lemma split_dots_plain: "CHR ''.'' \<notin> set s \<Longrightarrow> split_dots s = [s]"
  by (induction s) auto

lemma octets_join: "((octet 3 n * 256 + octet 2 n) * 256 + octet 1 n) * 256 + octet 0 n = unat n"
proof -
  define a b c where "a = unat n div 256" and "b = a div 256" and "c = b div 256"
  have powers: "unat n div 256 ^ 1 = a" "unat n div 256 ^ 2 = b" "unat n div 256 ^ 3 = c"
    by (simp_all add: a_def b_def c_def power2_eq_square power3_eq_cube div_mult2_eq)
  have "c < 256" using unat_lt_u32 [of n] by (simp add: a_def b_def c_def div_mult2_eq [symmetric] div_less_iff_less_mult)
  then have "octet 3 n = c" "octet 2 n = b mod 256" "octet 1 n = a mod 256" "octet 0 n = unat n mod 256"
    unfolding octet_def powers by simp_all
  moreover have "c * 256 + b mod 256 = b" "b * 256 + a mod 256 = a" "a * 256 + unat n mod 256 = unat n"
    unfolding c_def b_def a_def by (simp_all only: div_mult_mod_eq)
  ultimately show ?thesis by simp
qed

lemma numeric_host_dotted_quad: "numeric_host (dotted_quad n) = Some n"
proof -
  have split: "split_dots (dotted_quad n) = map decimal_text [octet 3 n, octet 2 n, octet 1 n, octet 0 n]"
    by (simp add: dotted_quad_def split_dots_append split_dots_plain no_dot)
  have "octet i n < 256" for i by (simp add: octet_def)
  then have "numeric_host (dotted_quad n) =
      Some (of_nat (((octet 3 n * 256 + octet 2 n) * 256 + octet 1 n) * 256 + octet 0 n))"
    by (simp add: numeric_host_def split decimal_text_read del: of_nat_add of_nat_mult)
  then show ?thesis unfolding octets_join by simp
qed

text \<open>An address survives being printed and read: the one built from the IP address and the
  port that an address prints is that address, for every address and every port.\<close>

theorem address_text_roundtrip: "address_from_ip (address_ip a) (address_port a) = Inr a"
  by (cases a) (simp add: address_from_ip_numeric address_ip_def address_port_def ip_port_def numeric_host_dotted_quad)

end
