(* ===== verification/NetworkInterface.thy ===== *)
theory NetworkInterface
  imports EthernetArp StdMap Addresses
begin

text \<open>
  \<open>libsponge/network_interface.{hh,cc}\<close>: the interface between Internet datagrams and
  Ethernet frames, with its ARP cache, the datagrams that wait for an address and the
  timers. Every operation is total except where serializing or converting a packet throws.
\<close>

section \<open>State and operations\<close>

record network_interface =
  ni_ethernet_address :: ethernet_address
  ni_ip_address :: address
  ni_frames_out :: "ethernet_frame list"
  ni_arp_cache :: "(u32, ethernet_address \<times> u64) std_map"
  ni_pending_datagrams :: "(u32, ipv4_datagram list) std_map"
  ni_arp_requests :: "(u32, u64) std_map"

definition ARP_CACHE_TIMEOUT :: u64 where "ARP_CACHE_TIMEOUT = 30000"
definition ARP_REQUEST_TIMEOUT :: u64 where "ARP_REQUEST_TIMEOUT = 5000"

definition ni_new :: "ethernet_address \<Rightarrow> address \<Rightarrow> network_interface" where
  "ni_new ethernet_address ip_address =
     \<lparr>ni_ethernet_address = ethernet_address, ni_ip_address = ip_address, ni_frames_out = [],
      ni_arp_cache = [], ni_pending_datagrams = [], ni_arp_requests = []\<rparr>"

definition ni_push_frame :: "ethernet_frame \<Rightarrow> network_interface \<Rightarrow> network_interface" where
  "ni_push_frame frame ni = ni\<lparr>ni_frames_out := ni_frames_out ni @ [frame]\<rparr>"

text \<open>The frames the interface builds: a datagram for a known address, an ARP message.\<close>

definition ipv4_frame ::
    "ethernet_address \<Rightarrow> ipv4_datagram \<Rightarrow> network_interface \<Rightarrow> failure + ethernet_frame" where
  "ipv4_frame dst dgram ni =
     (case ipv4_datagram_serialize dgram of
        Inl e \<Rightarrow> Inl e
      | Inr payload \<Rightarrow>
          Inr \<lparr>ef_header = \<lparr>eh_dst = dst, eh_src = ni_ethernet_address ni, eh_type = TYPE_IPv4\<rparr>,
               ef_payload = payload\<rparr>)"

definition arp_frame ::
    "ethernet_address \<Rightarrow> arp_message \<Rightarrow> network_interface \<Rightarrow> failure + ethernet_frame" where
  "arp_frame dst msg ni =
     (case arp_serialize msg of
        Inl e \<Rightarrow> Inl e
      | Inr s \<Rightarrow>
          Inr \<lparr>ef_header = \<lparr>eh_dst = dst, eh_src = ni_ethernet_address ni, eh_type = TYPE_ARP\<rparr>,
               ef_payload = [s]\<rparr>)"

definition arp_request_for :: "u32 \<Rightarrow> network_interface \<Rightarrow> arp_message" where
  "arp_request_for ip ni = arp_message_new
     \<lparr>arp_opcode := OPCODE_REQUEST,
      arp_sender_ethernet_address := ni_ethernet_address ni,
      arp_sender_ip_address := ipv4_numeric (ni_ip_address ni),
      arp_target_ethernet_address := EthernetAddress 0 0 0 0 0 0,
      arp_target_ip_address := ip\<rparr>"

definition arp_reply_to :: "arp_message \<Rightarrow> network_interface \<Rightarrow> arp_message" where
  "arp_reply_to msg ni = arp_message_new
     \<lparr>arp_opcode := OPCODE_REPLY,
      arp_sender_ethernet_address := ni_ethernet_address ni,
      arp_sender_ip_address := ipv4_numeric (ni_ip_address ni),
      arp_target_ethernet_address := arp_sender_ethernet_address msg,
      arp_target_ip_address := arp_sender_ip_address msg\<rparr>"

definition send_datagram ::
    "ipv4_datagram \<Rightarrow> address \<Rightarrow> network_interface \<Rightarrow> failure + network_interface" where
  "send_datagram dgram next_hop ni =
     (let next_hop_ip = ipv4_numeric next_hop
      in case sm_find next_hop_ip (ni_arp_cache ni) of
           Some (eth, _) \<Rightarrow>
             (case ipv4_frame eth dgram ni of
                Inl e \<Rightarrow> Inl e
              | Inr frame \<Rightarrow> Inr (ni_push_frame frame ni))
         | None \<Rightarrow>
             let ni = ni\<lparr>ni_pending_datagrams := sm_push next_hop_ip dgram (ni_pending_datagrams ni)\<rparr>
             in if sm_find next_hop_ip (ni_arp_requests ni) = None then
                  (case arp_frame ETHERNET_BROADCAST (arp_request_for next_hop_ip ni) ni of
                     Inl e \<Rightarrow> Inl e
                   | Inr frame \<Rightarrow>
                       Inr ((ni_push_frame frame ni)
                         \<lparr>ni_arp_requests :=
                            sm_assign next_hop_ip ARP_REQUEST_TIMEOUT (ni_arp_requests ni)\<rparr>))
                else Inr ni)"

text \<open>The loop that empties the queue of an address that has become known.\<close>

fun ni_flush ::
    "ethernet_address \<Rightarrow> ipv4_datagram list \<Rightarrow> network_interface \<Rightarrow> failure + network_interface" where
  "ni_flush eth [] ni = Inr ni"
| "ni_flush eth (dgram # queue) ni =
     (case ipv4_frame eth dgram ni of
        Inl e \<Rightarrow> Inl e
      | Inr frame \<Rightarrow> ni_flush eth queue (ni_push_frame frame ni))"

definition recv_arp :: "arp_message \<Rightarrow> network_interface \<Rightarrow> failure + network_interface" where
  "recv_arp arp_msg ni =
     (let sender_ip = arp_sender_ip_address arp_msg;
          sender_eth = arp_sender_ethernet_address arp_msg;
          ni = ni\<lparr>ni_arp_cache := sm_assign sender_ip (sender_eth, ARP_CACHE_TIMEOUT) (ni_arp_cache ni)\<rparr>
      in if arp_opcode arp_msg = OPCODE_REQUEST
            \<and> arp_target_ip_address arp_msg = ipv4_numeric (ni_ip_address ni) then
           (case arp_frame sender_eth (arp_reply_to arp_msg ni) ni of
              Inl e \<Rightarrow> Inl e
            | Inr frame \<Rightarrow> Inr (ni_push_frame frame ni))
         else if arp_opcode arp_msg = OPCODE_REPLY then
           (let ni = ni\<lparr>ni_arp_requests := sm_erase sender_ip (ni_arp_requests ni)\<rparr>
            in case sm_find sender_ip (ni_pending_datagrams ni) of
                 None \<Rightarrow> Inr ni
               | Some queue \<Rightarrow>
                   (case ni_flush sender_eth queue ni of
                      Inl e \<Rightarrow> Inl e
                    | Inr ni \<Rightarrow>
                        Inr (ni\<lparr>ni_pending_datagrams := sm_erase sender_ip (ni_pending_datagrams ni)\<rparr>)))
         else Inr ni)"

text \<open>The implicit conversion of a frame's payload to one \<open>Buffer\<close>.\<close>

definition payload_buffer :: "byte list list \<Rightarrow> failure + byte list" where
  "payload_buffer bufs =
     (case bufs of [] \<Rightarrow> Inr [] | [b] \<Rightarrow> Inr b
      | _ \<Rightarrow> Inl (Thrown ''BufferList: please use concatenate() to combine a multi-Buffer BufferList into one Buffer''))"

definition recv_frame ::
    "ethernet_frame \<Rightarrow> network_interface \<Rightarrow> failure + ipv4_datagram option \<times> network_interface" where
  "recv_frame frame ni =
     (let dst = eh_dst (ef_header frame)
      in if dst \<noteq> ni_ethernet_address ni \<and> dst \<noteq> ETHERNET_BROADCAST then Inr (None, ni)
         else if eh_type (ef_header frame) = TYPE_IPv4 then
           (case payload_buffer (ef_payload frame) of
              Inl e \<Rightarrow> Inl e
            | Inr b \<Rightarrow>
                (case ipv4_datagram_parse b ipv4_datagram_new of (r, dgram) \<Rightarrow>
                   if r = NoError then Inr (Some dgram, ni) else Inr (None, ni)))
         else if eh_type (ef_header frame) = TYPE_ARP then
           (case payload_buffer (ef_payload frame) of
              Inl e \<Rightarrow> Inl e
            | Inr b \<Rightarrow>
                (case arp_parse b arp_message_new of (r, arp_msg) \<Rightarrow>
                   if r = NoError then
                     (case recv_arp arp_msg ni of
                        Inl e \<Rightarrow> Inl e
                      | Inr ni \<Rightarrow> Inr (None, ni))
                   else Inr (None, ni)))
         else Inr (None, ni))"

definition ni_tick :: "u64 \<Rightarrow> network_interface \<Rightarrow> network_interface" where
  "ni_tick ms_since_last_tick ni = ni
     \<lparr>ni_arp_cache := sm_sweep (\<lambda>(eth, t). if t \<le> ms_since_last_tick then None
                                      else Some (eth, t - ms_since_last_tick)) (ni_arp_cache ni),
      ni_arp_requests := sm_sweep (\<lambda>t. if t \<le> ms_since_last_tick then None
                                      else Some (t - ms_since_last_tick)) (ni_arp_requests ni)\<rparr>"

lemma payload_buffer_refines:
  "payload_buffer (map buf_str bl) = (case bl_to_buffer bl of Inl e \<Rightarrow> Inl e | Inr b \<Rightarrow> Inr (buf_str b))"
  by (auto simp: payload_buffer_def bl_to_buffer_def split: list.splits)

section \<open>Runs\<close>

datatype ni_event = Send ipv4_datagram address | Recv ethernet_frame | Tick u64

text \<open>The datagrams passed up the stack are kept beside the state.\<close>

fun ni_step :: "ni_event \<Rightarrow> ipv4_datagram list \<times> network_interface \<Rightarrow>
    failure + ipv4_datagram list \<times> network_interface" where
  "ni_step (Send d a) (up, ni) =
     (case send_datagram d a ni of Inl e \<Rightarrow> Inl e | Inr ni' \<Rightarrow> Inr (up, ni'))"
| "ni_step (Recv f) (up, ni) =
     (case recv_frame f ni of Inl e \<Rightarrow> Inl e
      | Inr (d, ni') \<Rightarrow> Inr (up @ (case d of None \<Rightarrow> [] | Some d \<Rightarrow> [d]), ni'))"
| "ni_step (Tick ms) (up, ni) = Inr (up, ni_tick ms ni)"

fun ni_run :: "ni_event list \<Rightarrow> ipv4_datagram list \<times> network_interface \<Rightarrow>
    failure + ipv4_datagram list \<times> network_interface" where
  "ni_run [] s = Inr s"
| "ni_run (x # xs) s = (case ni_step x s of Inl e \<Rightarrow> Inl e | Inr s' \<Rightarrow> ni_run xs s')"

section \<open>The invariant\<close>

definition ni_ok :: "network_interface \<Rightarrow> bool" where
  "ni_ok ni \<longleftrightarrow> sm_ok (ni_arp_cache ni) \<and> sm_ok (ni_pending_datagrams ni) \<and> sm_ok (ni_arp_requests ni)
     \<and> (\<forall>ip e t. sm_find ip (ni_arp_cache ni) = Some (e, t) \<longrightarrow> 0 < t \<and> t \<le> ARP_CACHE_TIMEOUT)
     \<and> (\<forall>ip t. sm_find ip (ni_arp_requests ni) = Some t \<longrightarrow> 0 < t \<and> t \<le> ARP_REQUEST_TIMEOUT)
     \<and> (\<forall>ip q. sm_find ip (ni_pending_datagrams ni) = Some q \<longrightarrow> q \<noteq> [])"

lemma ni_okD:
  assumes "ni_ok ni"
  shows "sm_ok (ni_arp_cache ni)" "sm_ok (ni_pending_datagrams ni)" "sm_ok (ni_arp_requests ni)"
  using assms by (simp_all add: ni_ok_def)

lemma ni_new_ok: "ni_ok (ni_new e a)"
  by (simp add: ni_ok_def ni_new_def)

lemma timeouts_pos: "0 < ARP_CACHE_TIMEOUT" "0 < ARP_REQUEST_TIMEOUT"
  by (simp_all add: ARP_CACHE_TIMEOUT_def ARP_REQUEST_TIMEOUT_def)

lemma ni_push_frame_simps [simp]:
  "ni_frames_out (ni_push_frame f ni) = ni_frames_out ni @ [f]"
  "ni_arp_cache (ni_push_frame f ni) = ni_arp_cache ni"
  "ni_pending_datagrams (ni_push_frame f ni) = ni_pending_datagrams ni"
  "ni_arp_requests (ni_push_frame f ni) = ni_arp_requests ni"
  "ni_ethernet_address (ni_push_frame f ni) = ni_ethernet_address ni"
  "ni_ip_address (ni_push_frame f ni) = ni_ip_address ni"
  "ni_ok (ni_push_frame f ni) = ni_ok ni"
  by (simp_all add: ni_push_frame_def ni_ok_def)

lemma arp_supported_request [simp]: "arp_supported (arp_request_for ip ni)"
  and arp_supported_reply [simp]: "arp_supported (arp_reply_to m ni)"
  by (simp_all add: arp_supported_def arp_request_for_def arp_reply_to_def arp_message_new_def)

text \<open>ARP messages can always be sent.\<close>

lemma arp_frame_total:
  assumes "arp_supported m"
  shows "\<exists>s. arp_serialize m = Inr s \<and> arp_frame dst m ni = Inr
    \<lparr>ef_header = \<lparr>eh_dst = dst, eh_src = ni_ethernet_address ni, eh_type = TYPE_ARP\<rparr>, ef_payload = [s]\<rparr>"
  using arp_roundtrip_ok [OF assms] by (auto simp: arp_frame_def)

text \<open>What sending does, branch by branch.\<close>

lemma send_datagram_cases:
  assumes "send_datagram d a ni = Inr ni'"
  obtains (known) eth t frame where "sm_find (ipv4_numeric a) (ni_arp_cache ni) = Some (eth, t)"
      "ipv4_frame eth d ni = Inr frame" "ni' = ni_push_frame frame ni"
  | (ask) frame where "sm_find (ipv4_numeric a) (ni_arp_cache ni) = None"
      "sm_find (ipv4_numeric a) (ni_arp_requests ni) = None"
      "arp_frame ETHERNET_BROADCAST (arp_request_for (ipv4_numeric a) ni) ni = Inr frame"
      "ni' = (ni_push_frame frame ni)
         \<lparr>ni_pending_datagrams := sm_push (ipv4_numeric a) d (ni_pending_datagrams ni),
          ni_arp_requests := sm_assign (ipv4_numeric a) ARP_REQUEST_TIMEOUT (ni_arp_requests ni)\<rparr>"
  | (wait) t where "sm_find (ipv4_numeric a) (ni_arp_cache ni) = None"
      "sm_find (ipv4_numeric a) (ni_arp_requests ni) = Some t"
      "ni' = ni\<lparr>ni_pending_datagrams := sm_push (ipv4_numeric a) d (ni_pending_datagrams ni)\<rparr>"
proof -
  have req: "arp_request_for ip (ni\<lparr>ni_pending_datagrams := m\<rparr>) = arp_request_for ip ni"
    "arp_frame dst msg (ni\<lparr>ni_pending_datagrams := m\<rparr>) = arp_frame dst msg ni" for ip m dst msg
    by (simp_all add: arp_request_for_def arp_frame_def split: sum.split)
  show ?thesis
    using assms that
    by (fastforce simp: send_datagram_def Let_def req ni_push_frame_def
        split: option.splits sum.splits if_splits)
qed

lemma send_datagram_ok:
  assumes "ni_ok ni" "send_datagram d a ni = Inr ni'"
  shows "ni_ok ni'"
  using assms(2)
proof (cases rule: send_datagram_cases)
  case known
  then show ?thesis using assms(1) by simp
next
  case ask
  then show ?thesis
    using assms(1) timeouts_pos
    by (auto simp: ni_ok_def sm_push_ok sm_find_push sm.assign_ok sm.find_assign)
next
  case wait
  then show ?thesis
    using assms(1) by (auto simp: ni_ok_def sm_push_ok sm_find_push)
qed

text \<open>The frames a flush adds, and what it leaves alone.\<close>

lemma ni_flush_effect:
  assumes "ni_flush eth q ni = Inr ni'"
  shows "\<exists>frames. list_all2 (\<lambda>d f. ipv4_frame eth d ni = Inr f) q frames
     \<and> ni' = ni\<lparr>ni_frames_out := ni_frames_out ni @ frames\<rparr>"
  using assms
proof (induction eth q ni rule: ni_flush.induct)
  case (1 eth ni)
  then show ?case by simp
next
  case (2 eth d q ni)
  then obtain f where f: "ipv4_frame eth d ni = Inr f" "ni_flush eth q (ni_push_frame f ni) = Inr ni'"
    by (auto split: sum.splits)
  have "ipv4_frame eth x (ni_push_frame f ni) = ipv4_frame eth x ni" for x
    by (simp add: ipv4_frame_def split: sum.split)
  with 2 f obtain frames where "list_all2 (\<lambda>d f. ipv4_frame eth d ni = Inr f) q frames"
    "ni' = (ni_push_frame f ni)\<lparr>ni_frames_out := ni_frames_out (ni_push_frame f ni) @ frames\<rparr>"
    by auto
  with f(1) show ?case
    by (intro exI [of _ "f # frames"]) (simp add: ni_push_frame_def)
qed

lemma recv_arp_cases:
  assumes "recv_arp m ni = Inr ni'"
  defines "learn \<equiv> sm_assign (arp_sender_ip_address m) (arp_sender_ethernet_address m, ARP_CACHE_TIMEOUT)
      (ni_arp_cache ni)"
  obtains (request) frame where "arp_opcode m = OPCODE_REQUEST"
      "arp_target_ip_address m = ipv4_numeric (ni_ip_address ni)"
      "arp_frame (arp_sender_ethernet_address m) (arp_reply_to m ni) ni = Inr frame"
      "ni' = (ni_push_frame frame ni)\<lparr>ni_arp_cache := learn\<rparr>"
  | (reply) frames where "arp_opcode m = OPCODE_REPLY"
      "list_all2 (\<lambda>d f. ipv4_frame (arp_sender_ethernet_address m) d ni = Inr f)
         (case sm_find (arp_sender_ip_address m) (ni_pending_datagrams ni) of None \<Rightarrow> [] | Some q \<Rightarrow> q) frames"
      "ni' = ni\<lparr>ni_frames_out := ni_frames_out ni @ frames, ni_arp_cache := learn,
         ni_pending_datagrams := (if sm_find (arp_sender_ip_address m) (ni_pending_datagrams ni) = None
            then ni_pending_datagrams ni else sm_erase (arp_sender_ip_address m) (ni_pending_datagrams ni)),
         ni_arp_requests := sm_erase (arp_sender_ip_address m) (ni_arp_requests ni)\<rparr>"
  | (other) "arp_opcode m \<noteq> OPCODE_REPLY"
      "\<not> (arp_opcode m = OPCODE_REQUEST \<and> arp_target_ip_address m = ipv4_numeric (ni_ip_address ni))"
      "ni' = ni\<lparr>ni_arp_cache := learn\<rparr>"
proof -
  let ?ip = "arp_sender_ip_address m" and ?eth = "arp_sender_ethernet_address m"
  let ?ni = "ni\<lparr>ni_arp_cache := learn\<rparr>"
  have same: "arp_frame dst msg ?ni = arp_frame dst msg ni" "arp_reply_to m ?ni = arp_reply_to m ni"
    for dst msg
    by (simp_all add: arp_reply_to_def arp_frame_def split: sum.split)
  have ne: "OPCODE_REPLY \<noteq> OPCODE_REQUEST" by (simp add: OPCODE_REPLY_def OPCODE_REQUEST_def)
  consider (rq) "arp_opcode m = OPCODE_REQUEST" "arp_target_ip_address m = ipv4_numeric (ni_ip_address ni)"
    | (rp) "arp_opcode m = OPCODE_REPLY"
    | (ot) "arp_opcode m \<noteq> OPCODE_REPLY"
      "\<not> (arp_opcode m = OPCODE_REQUEST \<and> arp_target_ip_address m = ipv4_numeric (ni_ip_address ni))"
    by blast
  then show ?thesis
  proof cases
    case rq
    with assms(1) obtain f where "arp_frame ?eth (arp_reply_to m ni) ni = Inr f" "ni' = ni_push_frame f ?ni"
      by (auto simp: recv_arp_def Let_def same learn_def [symmetric] split: sum.splits)
    with rq show ?thesis by (intro request [of f]) (simp_all add: ni_push_frame_def)
  next
    case rp
    let ?nr = "?ni\<lparr>ni_arp_requests := sm_erase ?ip (ni_arp_requests ni)\<rparr>"
    have frame: "ipv4_frame ?eth d ?nr = ipv4_frame ?eth d ni" for d
      by (simp add: ipv4_frame_def split: sum.split)
    show ?thesis
    proof (cases "sm_find ?ip (ni_pending_datagrams ni)")
      case None
      with assms(1) rp ne show ?thesis
        by (intro reply [of "[]"]) (auto simp: recv_arp_def Let_def learn_def [symmetric])
    next
      case (Some q)
      with assms(1) rp ne obtain nf where nf: "ni_flush ?eth q ?nr = Inr nf"
        "ni' = nf\<lparr>ni_pending_datagrams := sm_erase ?ip (ni_pending_datagrams nf)\<rparr>"
        by (auto simp: recv_arp_def Let_def learn_def [symmetric] split: sum.splits)
      from ni_flush_effect [OF nf(1)] nf(2) rp Some show ?thesis
        by (auto simp: frame intro!: reply)
    qed
  next
    case ot
    with assms(1) show ?thesis
      by (intro other) (auto simp: recv_arp_def Let_def learn_def [symmetric])
  qed
qed

lemma recv_arp_ok:
  assumes "ni_ok ni" "recv_arp m ni = Inr ni'"
  shows "ni_ok ni'"
  using assms(2)
proof (cases rule: recv_arp_cases)
  case request
  then show ?thesis
    using assms(1) timeouts_pos by (auto simp: ni_ok_def sm.assign_ok sm.find_assign)
next
  case reply
  then show ?thesis
    using assms(1) timeouts_pos
    by (auto simp: ni_ok_def sm.assign_ok sm.find_assign sm.erase_ok sm.find_erase)
next
  case other
  then show ?thesis
    using assms(1) timeouts_pos by (auto simp: ni_ok_def sm.assign_ok sm.find_assign)
qed

text \<open>What an arriving frame can do: nothing, deliver a datagram, or be an ARP message.\<close>

lemma recv_frame_cases:
  assumes "recv_frame f ni = Inr (d, ni')"
  obtains (ignored) "ni' = ni"
  | (arp) b m where "d = None" "eh_type (ef_header f) = TYPE_ARP" "payload_buffer (ef_payload f) = Inr b"
      "arp_parse b arp_message_new = (NoError, m)" "recv_arp m ni = Inr ni'"
  using assms
  by (fastforce simp: recv_frame_def Let_def split: if_splits sum.splits prod.splits)

lemma ni_tick_ok:
  assumes "ni_ok ni"
  shows "ni_ok (ni_tick ms ni)"
proof -
  have less: "t - ms \<le> b \<and> 0 < t - ms" if "\<not> t \<le> ms" "t \<le> b" for t b :: u64
  proof -
    have "ms \<le> t" using that(1) by simp
    then have "unat (t - ms) = unat t - unat ms" by (rule unat_sub)
    then show ?thesis using that by (simp add: word_le_nat_alt word_less_nat_alt)
  qed
  show ?thesis
    using assms less unfolding ni_ok_def ni_tick_def
    by (auto simp: sm_sweep_ok sm_find_sweep bind_eq_Some_conv split: if_splits)
qed

lemma ni_step_ok:
  assumes "ni_ok ni" "ni_step x (up, ni) = Inr (up', ni')"
  shows "ni_ok ni'"
proof (cases x)
  case (Send d a)
  with assms show ?thesis by (auto split: sum.splits dest: send_datagram_ok)
next
  case (Recv f)
  with assms(2) obtain d where "recv_frame f ni = Inr (d, ni')" by (auto split: sum.splits)
  then show ?thesis
    by (cases rule: recv_frame_cases) (use assms(1) recv_arp_ok in auto)
next
  case (Tick ms)
  with assms show ?thesis by (auto dest: ni_tick_ok)
qed

section \<open>Properties\<close>

text \<open>The datagrams a run is asked to send, and the payloads of the IPv4 frames it put out.\<close>

definition sent :: "ni_event list \<Rightarrow> ipv4_datagram list" where
  "sent xs = concat (map (\<lambda>x. case x of Send d _ \<Rightarrow> [d] | _ \<Rightarrow> []) xs)"

definition ipv4_payloads :: "network_interface \<Rightarrow> byte list list list" where
  "ipv4_payloads ni = map ef_payload (filter (\<lambda>f. eh_type (ef_header f) = TYPE_IPv4) (ni_frames_out ni))"

definition in_flight :: "network_interface \<Rightarrow> (failure + byte list list) multiset" where
  "in_flight ni = mset (map Inr (ipv4_payloads ni))
     + image_mset ipv4_datagram_serialize (queued (ni_pending_datagrams ni))"

lemma types_differ: "TYPE_ARP \<noteq> TYPE_IPv4"
  by (simp add: TYPE_ARP_def TYPE_IPv4_def)

lemma ipv4_frame_payload:
  assumes "ipv4_frame eth d ni = Inr f"
  shows "eh_type (ef_header f) = TYPE_IPv4" "Inr (ef_payload f) = ipv4_datagram_serialize d"
  using assms by (auto simp: ipv4_frame_def split: sum.splits)

lemma arp_frame_type: "arp_frame eth m ni = Inr f \<Longrightarrow> eh_type (ef_header f) = TYPE_ARP"
  by (auto simp: arp_frame_def split: sum.splits)

lemma flushed_payloads:
  "list_all2 (\<lambda>d f. ipv4_frame eth d ni = Inr f) q frames \<Longrightarrow>
     map (Inr \<circ> ef_payload) (filter (\<lambda>f. eh_type (ef_header f) = TYPE_IPv4) frames)
       = map ipv4_datagram_serialize q"
  by (induction rule: list_all2_induct) (auto simp: ipv4_frame_payload)

lemma ni_step_conserves:
  assumes "ni_ok ni" "ni_step x (up, ni) = Inr (up', ni')"
  shows "in_flight ni' = in_flight ni + mset (map ipv4_datagram_serialize (sent [x]))"
proof (cases x)
  case (Send d a)
  with assms(2) have "send_datagram d a ni = Inr ni'" by (auto split: sum.splits)
  then show ?thesis
  proof (cases rule: send_datagram_cases)
    case known
    then show ?thesis
      using Send by (simp add: in_flight_def ipv4_payloads_def sent_def ipv4_frame_payload)
  next
    case ask
    then show ?thesis
      using Send ni_okD(2) [OF assms(1)] arp_frame_type types_differ
      by (simp add: in_flight_def ipv4_payloads_def sent_def queued_push)
  next
    case wait
    then show ?thesis
      using Send ni_okD(2) [OF assms(1)]
      by (simp add: in_flight_def ipv4_payloads_def sent_def queued_push)
  qed
next
  case (Recv f)
  with assms(2) obtain d where "recv_frame f ni = Inr (d, ni')" by (auto split: sum.splits)
  then show ?thesis
  proof (cases rule: recv_frame_cases)
    case (arp b m)
    have "in_flight ni' = in_flight ni"
      using arp(5)
    proof (cases rule: recv_arp_cases)
      case request
      then show ?thesis
        using arp_frame_type types_differ by (simp add: in_flight_def ipv4_payloads_def)
    next
      case (reply frames)
      then show ?thesis
        using flushed_payloads [OF reply(2)] queued_erase [OF ni_okD(2) [OF assms(1)]]
        by (auto simp: in_flight_def ipv4_payloads_def comp_def simp flip: mset_map split: option.splits)
    next
      case other
      then show ?thesis by (simp add: in_flight_def ipv4_payloads_def)
    qed
    then show ?thesis using Recv by (simp add: sent_def)
  qed (use Recv in \<open>simp add: sent_def\<close>)
next
  case (Tick ms)
  with assms(2) show ?thesis by (auto simp: in_flight_def ipv4_payloads_def sent_def ni_tick_def)
qed

lemma ni_run_conserves:
  assumes "ni_ok ni" "ni_run xs (up, ni) = Inr (up', ni')"
  shows "in_flight ni' = in_flight ni + mset (map ipv4_datagram_serialize (sent xs))"
  using assms
proof (induction xs arbitrary: up ni)
  case Nil
  then show ?case by (simp add: sent_def)
next
  case (Cons x xs)
  obtain up1 ni1 where step: "ni_step x (up, ni) = Inr (up1, ni1)" "ni_run xs (up1, ni1) = Inr (up', ni')"
    using Cons.prems(2) by (auto split: sum.splits)
  note ok = ni_step_ok [OF Cons.prems(1) step(1)]
  have "sent (x # xs) = sent [x] @ sent xs" by (simp add: sent_def)
  with Cons.IH [OF ok step(2)] ni_step_conserves [OF Cons.prems(1) step(1)] show ?case
    by (simp add: ac_simps)
qed

text \<open>C19: Over any sequence of sends, arriving frames and ticks, every datagram handed to the
  interface is, exactly once, either on the wire in an IPv4 frame or waiting for its next
  hop's address: none is lost, duplicated or altered.\<close>

theorem ni_conserves_datagrams:
  assumes "ni_run xs ([], ni_new eth addr) = Inr (up, ni)"
  shows "mset (map ipv4_datagram_serialize (sent xs))
    = mset (map Inr (ipv4_payloads ni))
      + image_mset ipv4_datagram_serialize (mset (concat (map snd (ni_pending_datagrams ni))))"
  using ni_run_conserves [OF ni_new_ok assms]
  by (simp add: in_flight_def ipv4_payloads_def queued_def ni_new_def)

text \<open>Two datagrams to one neighbour: the first goes out with the reply, the second at once.\<close>

abbreviation ni_example :: "ni_event list" where
  "ni_example \<equiv> [Send \<lparr>id_header = ipv4_header_new\<lparr>ih_len := 21\<rparr>, id_payload = [[7]]\<rparr> (Address 2 0),
     Recv \<lparr>ef_header = \<lparr>eh_dst = ethernet_zero, eh_src = ETHERNET_BROADCAST, eh_type = TYPE_ARP\<rparr>,
       ef_payload = [[0, 1, 8, 0, 6, 4, 0, 2, 255, 255, 255, 255, 255, 255, 0, 0, 0, 2,
         0, 0, 0, 0, 0, 0, 0, 0, 0, 1]]\<rparr>,
     Tick 10, Send \<lparr>id_header = ipv4_header_new\<lparr>ih_len := 21\<rparr>, id_payload = [[8]]\<rparr> (Address 3 0)]"

lemma ni_example_runs: "\<not> isl (ni_run ni_example ([], ni_new ethernet_zero (Address 1 0)))"
  by code_simp

theorem ni_conserves_datagrams_witness:
  "\<exists>up ni. ni_run ni_example ([], ni_new ethernet_zero (Address 1 0)) = Inr (up, ni)
     \<and> mset (map ipv4_datagram_serialize (sent ni_example)) = mset (map Inr (ipv4_payloads ni))
         + image_mset ipv4_datagram_serialize (mset (concat (map snd (ni_pending_datagrams ni))))"
proof -
  obtain up ni where "ni_run ni_example ([], ni_new ethernet_zero (Address 1 0)) = Inr (up, ni)"
    using ni_example_runs by (cases "ni_run ni_example ([], ni_new ethernet_zero (Address 1 0))")
      (auto simp del: ni_run.simps)
  then show ?thesis using ni_conserves_datagrams by blast
qed

section \<open>How often an address is asked for\<close>

definition asks_for :: "u32 \<Rightarrow> network_interface \<Rightarrow> ethernet_frame \<Rightarrow> bool" where
  "asks_for ip ni f \<longleftrightarrow> arp_frame ETHERNET_BROADCAST (arp_request_for ip ni) ni = Inr f"

definition arp_asks :: "u32 \<Rightarrow> network_interface \<Rightarrow> nat" where
  "arp_asks ip ni = length (filter (asks_for ip ni) (ni_frames_out ni))"

fun duration :: "ni_event \<Rightarrow> nat" where
  "duration (Tick ms) = unat ms"
| "duration _ = 0"

definition elapsed :: "ni_event list \<Rightarrow> nat" where
  "elapsed xs = sum_list (map duration xs)"

definition reply_from :: "u32 \<Rightarrow> ni_event \<Rightarrow> bool" where
  "reply_from ip x = (case x of Recv f \<Rightarrow>
       (case payload_buffer (ef_payload f) of Inl _ \<Rightarrow> False
        | Inr b \<Rightarrow> (case arp_parse b arp_message_new of (r, m) \<Rightarrow>
            r = NoError \<and> eh_type (ef_header f) = TYPE_ARP \<and> arp_opcode m = OPCODE_REPLY
              \<and> arp_sender_ip_address m = ip))
     | _ \<Rightarrow> False)"

lemma arp_serialize_inject:
  assumes "arp_supported m" "arp_supported m'" "arp_serialize m = arp_serialize m'"
  shows "m = m'"
proof -
  obtain s where s: "arp_serialize m = Inr s" "arp_parse (s @ []) m = (NoError, m)"
    using arp_roundtrip_full [OF assms(1), of "[]" m] by auto
  obtain s' where s': "arp_serialize m' = Inr s'" "arp_parse (s' @ []) m = (NoError, m')"
    using arp_roundtrip_full [OF assms(2), of "[]" m] by auto
  have "s = s'" using s(1) s'(1) assms(3) by simp
  then show ?thesis using s(2) s'(2) by simp
qed

lemma arp_frame_inject:
  assumes "arp_supported m" "arp_supported m'" "arp_frame dst m ni = Inr f" "arp_frame dst' m' ni' = Inr f"
  shows "m = m'"
proof (rule arp_serialize_inject [OF assms(1,2)])
  show "arp_serialize m = arp_serialize m'"
    using assms(3,4) by (auto simp: arp_frame_def split: sum.splits)
qed

lemma asks_for_other:
  "arp_frame dst (arp_request_for ip' ni') ni' = Inr f \<Longrightarrow> asks_for ip ni f \<Longrightarrow> ip' = ip"
  "arp_frame dst (arp_reply_to m ni') ni' = Inr f \<Longrightarrow> \<not> asks_for ip ni f"
  "ipv4_frame eth d ni' = Inr f \<Longrightarrow> \<not> asks_for ip ni f"
proof -
  show "ip' = ip" if "arp_frame dst (arp_request_for ip' ni') ni' = Inr f" "asks_for ip ni f"
  proof -
    have "arp_request_for ip' ni' = arp_request_for ip ni"
      using that unfolding asks_for_def by (intro arp_frame_inject) simp_all
    from arg_cong [OF this, of arp_target_ip_address] show ?thesis by (simp add: arp_request_for_def)
  qed
  show "\<not> asks_for ip ni f" if "arp_frame dst (arp_reply_to m ni') ni' = Inr f"
  proof
    assume "asks_for ip ni f"
    then have "arp_reply_to m ni' = arp_request_for ip ni"
      using that unfolding asks_for_def by (intro arp_frame_inject) simp_all
    from arg_cong [OF this, of arp_opcode] show False
      by (simp add: arp_request_for_def arp_reply_to_def OPCODE_REPLY_def OPCODE_REQUEST_def)
  qed
  show "\<not> asks_for ip ni f" if "ipv4_frame eth d ni' = Inr f"
    using ipv4_frame_payload(1) [OF that] arp_frame_type types_differ by (auto simp: asks_for_def)
qed

text \<open>What asks for an address depends on the interface's own addresses only.\<close>

definition same_addresses :: "network_interface \<Rightarrow> network_interface \<Rightarrow> bool" where
  "same_addresses ni ni' \<longleftrightarrow> ni_ethernet_address ni' = ni_ethernet_address ni \<and> ni_ip_address ni' = ni_ip_address ni"

lemma asks_for_cong: "same_addresses ni ni' \<Longrightarrow> asks_for ip ni' = asks_for ip ni"
  by (rule ext) (simp add: asks_for_def arp_frame_def arp_request_for_def same_addresses_def
      split: sum.split)

text \<open>One event changes the number of requests for \<open>ip\<close> only by a send to it that finds
  neither a mapping nor a recent request.\<close>

lemma ni_step_asks:
  assumes "ni_ok ni" "ni_step x (up, ni) = Inr (up', ni')" "\<not> reply_from ip x"
  shows "same_addresses ni ni'
     \<and> (if arp_asks ip ni' = arp_asks ip ni
        then sm_find ip (ni_arp_requests ni') = Option.bind (sm_find ip (ni_arp_requests ni))
               (\<lambda>t. if unat t \<le> duration x then None else Some (t - of_nat (duration x)))
        else sm_find ip (ni_arp_requests ni) = None \<and> arp_asks ip ni' = Suc (arp_asks ip ni)
           \<and> sm_find ip (ni_arp_requests ni') = Some ARP_REQUEST_TIMEOUT)"
proof -
  note maps = ni_okD [OF assms(1)]
  have pos: "\<not> unat t \<le> 0" if "sm_find ip (ni_arp_requests ni) = Some t" for t
    using assms(1) that by (auto simp: ni_ok_def word_gt_0 unat_eq_zero)
  show ?thesis
  proof (cases x)
    case (Send d a)
    with assms(2) have "send_datagram d a ni = Inr ni'" by (auto split: sum.splits)
    then show ?thesis
    proof (cases rule: send_datagram_cases)
      case known
      have same: "same_addresses ni ni'" using known(3) by (simp add: same_addresses_def)
      show ?thesis
        unfolding arp_asks_def asks_for_cong [OF same]
        using asks_for_other(3) [OF known(2)] pos Send same known(3)
        by (auto split: bind_split)
    next
      case (ask f)
      have same: "same_addresses ni ni'" using ask(4) by (simp add: same_addresses_def)
      have "asks_for ip ni f \<longleftrightarrow> ipv4_numeric a = ip"
      proof
        show "ipv4_numeric a = ip" if "asks_for ip ni f"
          by (rule asks_for_other(1) [OF ask(3) that])
        show "asks_for ip ni f" if "ipv4_numeric a = ip"
          using ask(3) unfolding asks_for_def that .
      qed
      then have asks: "arp_asks ip ni' = arp_asks ip ni + (if ipv4_numeric a = ip then 1 else 0)"
        unfolding arp_asks_def asks_for_cong [OF same] using ask(4) by simp
      have req: "sm_find ip (ni_arp_requests ni') = (if ip = ipv4_numeric a then Some ARP_REQUEST_TIMEOUT
          else sm_find ip (ni_arp_requests ni))"
        using ask(4) maps(3) by (simp add: sm.find_assign)
      show ?thesis
      proof (cases "ipv4_numeric a = ip")
        case True
        then show ?thesis using same asks req ask(2) by simp
      next
        case False
        then show ?thesis using same asks req pos Send by (auto split: bind_split)
      qed
    next
      case wait
      have same: "same_addresses ni ni'" using wait(3) by (simp add: same_addresses_def)
      show ?thesis
        unfolding arp_asks_def asks_for_cong [OF same]
        using pos Send same wait(3) by (auto split: bind_split)
    qed
  next
    case (Recv f)
    with assms(2) obtain d where "recv_frame f ni = Inr (d, ni')" by (auto split: sum.splits)
    then show ?thesis
    proof (cases rule: recv_frame_cases)
      case ignored
      then show ?thesis using Recv pos by (auto simp: same_addresses_def split: bind_split)
    next
      case (arp b m)
      have same: "same_addresses ni ni'"
        using arp(5) by (cases rule: recv_arp_cases) (auto simp: same_addresses_def)
      have "arp_asks ip ni' = arp_asks ip ni \<and> sm_find ip (ni_arp_requests ni') = sm_find ip (ni_arp_requests ni)"
        using arp(5)
      proof (cases rule: recv_arp_cases)
        case (request g)
        then show ?thesis
          unfolding arp_asks_def asks_for_cong [OF same] using asks_for_other(2) [OF request(3)] by simp
      next
        case (reply frames)
        have "arp_sender_ip_address m \<noteq> ip"
          using assms(3) Recv arp reply(1) by (auto simp: reply_from_def)
        moreover have "filter (asks_for ip ni) frames = []"
          using reply(2) asks_for_other(3)
          by (induction rule: list_all2_induct) auto
        ultimately show ?thesis
          unfolding arp_asks_def asks_for_cong [OF same]
          using reply(3) by (simp add: sm.find_erase maps)
      next
        case other
        then show ?thesis unfolding arp_asks_def asks_for_cong [OF same] by simp
      qed
      then show ?thesis using same Recv pos by (auto split: bind_split)
    qed
  next
    case (Tick ms)
    with assms(2) have ni': "ni' = ni_tick ms ni" by simp
    have same: "same_addresses ni ni'" by (simp add: ni' ni_tick_def same_addresses_def)
    have "arp_asks ip ni' = arp_asks ip ni"
      unfolding arp_asks_def asks_for_cong [OF same] by (simp add: ni' ni_tick_def)
    moreover have "sm_find ip (ni_arp_requests ni') = Option.bind (sm_find ip (ni_arp_requests ni))
        (\<lambda>t. if unat t \<le> duration x then None else Some (t - of_nat (duration x)))"
      unfolding Tick ni' ni_tick_def using maps(3)
      by (simp add: sm_find_sweep word_le_nat_alt cong: if_cong)
    ultimately show ?thesis using same by simp
  qed
qed

lemma ni_step_asks_pending:
  assumes "ni_ok ni" "ni_step x (up, ni) = Inr (up', ni')" "\<not> reply_from ip x"
    and "sm_find ip (ni_arp_requests ni) = Some t" "duration x < unat t"
  shows "arp_asks ip ni' = arp_asks ip ni"
    and "\<exists>t'. sm_find ip (ni_arp_requests ni') = Some t' \<and> unat t' = unat t - duration x"
proof -
  have "unat (t - of_nat (duration x)) = unat t - duration x"
  proof -
    have d: "unat (of_nat (duration x) :: u64) = duration x"
      using assms(5) unat_lt_u64 [of t] by (intro unat_of_nat_u64) simp
    then have "of_nat (duration x) \<le> t" using assms(5) by (simp add: word_le_nat_alt)
    from unat_sub [OF this] d show ?thesis by simp
  qed
  with ni_step_asks [OF assms(1-3)] assms(4,5)
  show "arp_asks ip ni' = arp_asks ip ni"
    and "\<exists>t'. sm_find ip (ni_arp_requests ni') = Some t' \<and> unat t' = unat t - duration x"
    by (auto split: if_splits)
qed

lemma ni_run_asks_pending:
  assumes "ni_ok ni" "ni_run xs (up, ni) = Inr (up', ni')" "\<forall>x \<in> set xs. \<not> reply_from ip x"
    and "sm_find ip (ni_arp_requests ni) = Some t" "elapsed xs < unat t"
  shows "arp_asks ip ni' = arp_asks ip ni"
  using assms
proof (induction xs arbitrary: up ni t)
  case Nil
  then show ?case by simp
next
  case (Cons x xs)
  obtain up1 ni1 where step: "ni_step x (up, ni) = Inr (up1, ni1)" "ni_run xs (up1, ni1) = Inr (up', ni')"
    using Cons.prems(2) by (auto split: sum.splits)
  have x: "\<not> reply_from ip x" "duration x < unat t" using Cons.prems(3,5) by (simp_all add: elapsed_def)
  note one = ni_step_asks_pending [OF Cons.prems(1) step(1) x(1) Cons.prems(4) x(2)]
  then obtain t' where t': "sm_find ip (ni_arp_requests ni1) = Some t'" "unat t' = unat t - duration x"
    by blast
  have "arp_asks ip ni' = arp_asks ip ni1"
    using Cons.prems(3,5) t'(2)
    by (intro Cons.IH [OF ni_step_ok [OF Cons.prems(1) step(1)] step(2) _ t'(1)])
      (simp_all add: elapsed_def)
  then show ?case using one(1) by simp
qed

lemma ni_run_asks:
  assumes "ni_ok ni" "ni_run xs (up, ni) = Inr (up', ni')" "\<forall>x \<in> set xs. \<not> reply_from ip x"
    and "elapsed xs < unat ARP_REQUEST_TIMEOUT"
  shows "arp_asks ip ni' \<le> Suc (arp_asks ip ni)"
  using assms
proof (induction xs arbitrary: up ni)
  case Nil
  then show ?case by simp
next
  case (Cons x xs)
  obtain up1 ni1 where step: "ni_step x (up, ni) = Inr (up1, ni1)" "ni_run xs (up1, ni1) = Inr (up', ni')"
    using Cons.prems(2) by (auto split: sum.splits)
  have x: "\<not> reply_from ip x" "\<forall>x \<in> set xs. \<not> reply_from ip x" "elapsed xs < unat ARP_REQUEST_TIMEOUT"
    using Cons.prems(3,4) by (simp_all add: elapsed_def)
  note ok1 = ni_step_ok [OF Cons.prems(1) step(1)]
  show ?case
  proof (cases "arp_asks ip ni1 = arp_asks ip ni")
    case True
    then show ?thesis using Cons.IH [OF ok1 step(2) x(2,3)] by simp
  next
    case False
    with ni_step_asks [OF Cons.prems(1) step(1) x(1)]
    have "arp_asks ip ni1 = Suc (arp_asks ip ni)"
      "sm_find ip (ni_arp_requests ni1) = Some ARP_REQUEST_TIMEOUT" by auto
    then show ?thesis using ni_run_asks_pending [OF ok1 step(2) x(2) _ x(3)] by simp
  qed
qed

lemma ni_run_ok:
  assumes "ni_ok ni" "ni_run xs (up, ni) = Inr (up', ni')"
  shows "ni_ok ni'"
  using assms
proof (induction xs arbitrary: up ni)
  case (Cons x xs)
  then show ?case by (auto split: sum.splits dest: ni_step_ok)
qed simp

text \<open>C21: However many datagrams are sent, the interface broadcasts at most one ARP request for
  an address in any period of less than five seconds without an ARP reply from it, whatever
  happened before and whatever else arrives meanwhile.\<close>

theorem arp_request_rate_limited:
  assumes "ni_run before ([], ni_new eth addr) = Inr (up, ni)"
    and "ni_run xs (up, ni) = Inr (up', ni')"
    and "elapsed xs < 5000" and "\<forall>x \<in> set xs. \<not> reply_from ip x"
  shows "arp_asks ip ni' \<le> Suc (arp_asks ip ni)"
  using ni_run_asks [OF ni_run_ok [OF ni_new_ok assms(1)] assms(2,4)] assms(3)
  by (simp add: ARP_REQUEST_TIMEOUT_def)

theorem arp_request_rate_limited_witness:
  "\<exists>s. ni_run [Send ipv4_datagram_new (Address 1 0), Tick 4999, Send ipv4_datagram_new (Address 1 0)] ([], ni_new ethernet_zero (Address 2 0)) = Inr s
     \<and> arp_asks 1 (snd s) \<le> 1"
proof -
  let ?xs = "[Send ipv4_datagram_new (Address 1 0), Tick 4999, Send ipv4_datagram_new (Address 1 0)]"
  obtain f where f: "arp_frame ETHERNET_BROADCAST (arp_request_for 1 ni) ni = Inr f"
    if "ni = (ni_new ethernet_zero (Address 2 0))\<lparr>ni_pending_datagrams := [(1, [ipv4_datagram_new])]\<rparr>" for ni
    using arp_frame_total [OF arp_supported_request] by blast
  then obtain s where run: "ni_run ?xs ([], ni_new ethernet_zero (Address 2 0)) = Inr s"
    by (auto simp: send_datagram_def ni_new_def sm_push_def ni_push_frame_def ni_tick_def
        ARP_REQUEST_TIMEOUT_def split: sum.splits)
  then have "arp_asks 1 (snd s) \<le> Suc (arp_asks 1 (ni_new ethernet_zero (Address 2 0)))"
    by (intro arp_request_rate_limited [where before = "[]" and xs = ?xs])
      (auto simp: elapsed_def reply_from_def prod_eq_iff simp del: ni_run.simps simp: ni_run.simps(1))
  then show ?thesis using run by (auto simp: arp_asks_def ni_new_def)
qed

section \<open>Resolving an address\<close>

text \<open>A frame as the receiving side reads it.\<close>

definition on_wire :: "ethernet_frame \<Rightarrow> ethernet_frame" where
  "on_wire f = snd (ethernet_frame_parse (concat (ethernet_frame_serialize f)) ethernet_frame_new)"

lemma on_wire_eq:
  "length (concat (ef_payload f)) < 2 ^ 61 \<Longrightarrow> on_wire f = f\<lparr>ef_payload := [concat (ef_payload f)]\<rparr>"
  using ethernet_header_codec.dec_enc [of "(NoError, ef_header f)" "concat (ef_payload f)"]
  by (simp add: on_wire_def ethernet_frame_parse_def ethernet_frame_serialize_def np_new_def)

abbreviation for_us :: "ethernet_address \<Rightarrow> network_interface \<Rightarrow> bool" where
  "for_us dst ni \<equiv> dst = ni_ethernet_address ni \<or> dst = ETHERNET_BROADCAST"

lemma recv_arp_frame:
  assumes "arp_frame dst m ni = Inr f" "arp_supported m" "for_us dst ni'"
  shows "recv_frame (on_wire f) ni' = (case recv_arp m ni' of Inl e \<Rightarrow> Inl e | Inr n \<Rightarrow> Inr (None, n))"
proof -
  obtain s where s: "arp_serialize m = Inr s" "length s = 28" "arp_parse (s @ []) arp_message_new = (NoError, m)"
    using arp_roundtrip_full [OF assms(2), of "[]" arp_message_new] by auto
  have f: "f = \<lparr>ef_header = \<lparr>eh_dst = dst, eh_src = ni_ethernet_address ni, eh_type = TYPE_ARP\<rparr>, ef_payload = [s]\<rparr>"
    using assms(1) s(1) by (simp add: arp_frame_def)
  have "on_wire f = f" using s(2) by (subst on_wire_eq) (simp_all add: f)
  then show ?thesis
    using assms(3) s(3) types_differ by (auto simp: recv_frame_def f payload_buffer_def)
qed

lemma recv_ipv4_frame:
  assumes "ipv4_frame dst d ni = Inr f" "for_us dst ni'"
    and "ih_ver (id_header d) = 4" "5 \<le> ih_hlen (id_header d)" "ih_hlen (id_header d) \<le> 15"
    and "ih_offset (id_header d) \<le> 0x1fff"
    and "unat (ih_len (id_header d)) = 4 * unat (ih_hlen (id_header d)) + length (concat (id_payload d))"
  shows "\<exists>c. recv_frame (on_wire f) ni' = Inr (Some
     \<lparr>id_header = (id_header d)\<lparr>ih_cksum := c\<rparr>, id_payload = [concat (id_payload d)]\<rparr>, ni')"
proof -
  obtain bufs c where ser: "ipv4_datagram_serialize d = Inr bufs" "length (concat bufs) < 2 ^ 61"
    and parse: "ipv4_datagram_parse (concat bufs) ipv4_datagram_new
      = (NoError, \<lparr>id_header = (id_header d)\<lparr>ih_cksum := c\<rparr>, id_payload = [concat (id_payload d)]\<rparr>)"
    using ipv4_datagram_roundtrip_full [OF assms(3-7)] by (cases d) auto
  have f: "f = \<lparr>ef_header = \<lparr>eh_dst = dst, eh_src = ni_ethernet_address ni, eh_type = TYPE_IPv4\<rparr>,
      ef_payload = bufs\<rparr>"
    using assms(1) ser(1) by (simp add: ipv4_frame_def)
  have "on_wire f = f\<lparr>ef_payload := [concat bufs]\<rparr>" using ser(2) by (subst on_wire_eq) (simp_all add: f)
  then show ?thesis
    using assms(2) parse by (auto simp: recv_frame_def f payload_buffer_def)
qed

text \<open>C20: Address resolution works end to end. When interface \<open>A\<close> sends a datagram to \<open>B\<close>'s
  address for the first time, it broadcasts one request; \<open>B\<close> answers it with one frame; the
  answer makes \<open>A\<close> put out the waiting datagram; and \<open>B\<close> passes exactly that datagram up
  (header checksum filled in, payload joined). Every frame travels serialized.\<close>

theorem arp_resolution_delivers:
  fixes A B :: network_interface
  defines "ip \<equiv> ipv4_numeric (ni_ip_address B)"
  assumes "ni_ok A" and "sm_find ip (ni_arp_cache A) = None" "sm_find ip (ni_arp_requests A) = None"
    "sm_find ip (ni_pending_datagrams A) = None"
    and h: "ih_ver h = 4" "5 \<le> ih_hlen h" "ih_hlen h \<le> 15" "ih_offset h \<le> 0x1fff"
    "unat (ih_len h) = 4 * unat (ih_hlen h) + length (concat d)"
  shows "\<exists>A1 f1 B1 f2 A2 f3 c.
     send_datagram \<lparr>id_header = h, id_payload = d\<rparr> (ni_ip_address B) A = Inr A1
     \<and> ni_frames_out A1 = ni_frames_out A @ [f1]
     \<and> recv_frame (on_wire f1) B = Inr (None, B1) \<and> ni_frames_out B1 = ni_frames_out B @ [f2]
     \<and> recv_frame (on_wire f2) A1 = Inr (None, A2) \<and> ni_frames_out A2 = ni_frames_out A1 @ [f3]
     \<and> recv_frame (on_wire f3) B1
         = Inr (Some \<lparr>id_header = h\<lparr>ih_cksum := c\<rparr>, id_payload = [concat d]\<rparr>, B1)"
proof -
  let ?d = "\<lparr>id_header = h, id_payload = d\<rparr>"
  let ?req = "arp_request_for ip A"
  note maps = ni_okD [OF assms(2)]
  obtain f1 where f1: "arp_frame ETHERNET_BROADCAST ?req A = Inr f1"
    using arp_frame_total [OF arp_supported_request] by blast
  define A1 where "A1 = (ni_push_frame f1 A)\<lparr>ni_pending_datagrams := sm_push ip ?d (ni_pending_datagrams A),
      ni_arp_requests := sm_assign ip ARP_REQUEST_TIMEOUT (ni_arp_requests A)\<rparr>"
  have same: "arp_request_for ip (A\<lparr>ni_pending_datagrams := m\<rparr>) = ?req"
    "arp_frame dst msg (A\<lparr>ni_pending_datagrams := m\<rparr>) = arp_frame dst msg A" for m dst msg
    by (simp_all add: arp_request_for_def arp_frame_def split: sum.split)
  have send: "send_datagram ?d (ni_ip_address B) A = Inr A1"
    using assms(3,4) f1
    by (simp add: send_datagram_def Let_def same A1_def ip_def [symmetric] ni_push_frame_def)
  let ?rep = "arp_reply_to ?req B"
  define B0 where "B0 = B\<lparr>ni_arp_cache := sm_assign (arp_sender_ip_address ?req)
      (arp_sender_ethernet_address ?req, ARP_CACHE_TIMEOUT) (ni_arp_cache B)\<rparr>"
  have B0: "arp_reply_to ?req B0 = ?rep" "ni_ethernet_address B0 = ni_ethernet_address B"
    "ni_frames_out B0 = ni_frames_out B" "ni_ip_address B0 = ni_ip_address B"
    by (simp_all add: arp_reply_to_def B0_def)
  have req: "arp_opcode ?req = OPCODE_REQUEST" "arp_target_ip_address ?req = ipv4_numeric (ni_ip_address B)"
    "arp_sender_ethernet_address ?req = ni_ethernet_address A"
    by (simp_all add: arp_request_for_def ip_def)
  obtain f2 where f2: "arp_frame (ni_ethernet_address A) ?rep B0 = Inr f2"
    using arp_frame_total [OF arp_supported_reply] by blast
  define B1 where "B1 = ni_push_frame f2 B0"
  have "recv_arp ?req B = Inr B1"
    unfolding recv_arp_def Let_def B0_def [symmetric] B1_def using f2 req B0(1,4) by simp
  then have recv1: "recv_frame (on_wire f1) B = Inr (None, B1)"
    using recv_arp_frame [OF f1 arp_supported_request, of B] by simp
  have rep: "arp_opcode ?rep = OPCODE_REPLY" "arp_sender_ip_address ?rep = ip"
    "arp_sender_ethernet_address ?rep = ni_ethernet_address B" "OPCODE_REPLY \<noteq> OPCODE_REQUEST"
    by (simp_all add: arp_reply_to_def ip_def OPCODE_REPLY_def OPCODE_REQUEST_def)
  obtain bufs where ser: "ipv4_datagram_serialize ?d = Inr bufs"
    using ipv4_datagram_roundtrip_full [OF h] by blast
  define f3 where "f3 = \<lparr>ef_header = \<lparr>eh_dst = ni_ethernet_address B, eh_src = ni_ethernet_address A,
      eh_type = TYPE_IPv4\<rparr>, ef_payload = bufs\<rparr>"
  have f3: "ipv4_frame (ni_ethernet_address B) ?d ni = Inr f3"
    if "ni_ethernet_address ni = ni_ethernet_address A" for ni
    using that ser by (simp add: ipv4_frame_def f3_def)
  have pend: "sm_find ip (ni_pending_datagrams A1) = Some [?d]"
    using assms(5) maps(2) by (simp add: A1_def sm_find_push)
  have "\<exists>A2. recv_arp ?rep A1 = Inr A2 \<and> ni_frames_out A2 = ni_frames_out A1 @ [f3]"
    using rep pend f3 by (simp add: recv_arp_def Let_def A1_def)
  then obtain A2 where A2: "recv_arp ?rep A1 = Inr A2" "ni_frames_out A2 = ni_frames_out A1 @ [f3]"
    by blast
  have "ni_ethernet_address A1 = ni_ethernet_address A" by (simp add: A1_def)
  then have recv2: "recv_frame (on_wire f2) A1 = Inr (None, A2)"
    using recv_arp_frame [OF f2 arp_supported_reply, of A1] A2(1) by simp
  obtain c where "recv_frame (on_wire f3) B1
      = Inr (Some \<lparr>id_header = h\<lparr>ih_cksum := c\<rparr>, id_payload = [concat d]\<rparr>, B1)"
    using recv_ipv4_frame [OF f3 [OF refl], of B1] h by (auto simp: B1_def B0)
  moreover have "ni_frames_out B1 = ni_frames_out B @ [f2]" by (simp add: B1_def B0)
  moreover have "ni_frames_out A1 = ni_frames_out A @ [f1]" by (simp add: A1_def)
  ultimately show ?thesis using send recv1 recv2 A2(2) by blast
qed

theorem arp_resolution_delivers_witness:
  "\<exists>A1 f1. send_datagram \<lparr>id_header = ipv4_header_new\<lparr>ih_len := 21\<rparr>, id_payload = [[7]]\<rparr> (Address 2 0)
       (ni_new ethernet_zero (Address 1 0)) = Inr A1 \<and> ni_frames_out A1 = [f1]"
  using arp_resolution_delivers [of "ni_new ethernet_zero (Address 1 0)"
      "ni_new ETHERNET_BROADCAST (Address 2 0)" "ipv4_header_new\<lparr>ih_len := 21\<rparr>" "[[7]]"] ni_new_ok
  by (simp add: ipv4_header_new_def) (auto simp: ni_new_def)

text \<open>
  A mapping learned from a request, instead of a reply, does not release the datagrams that
  wait for it: sent before the request arrived, they stay behind.
\<close>

lemma arp_request_leaves_pending:
  assumes "arp_opcode m = OPCODE_REQUEST" "recv_arp m ni = Inr ni'" "ni_ok ni"
  shows "\<exists>t. sm_find (arp_sender_ip_address m) (ni_arp_cache ni') = Some (arp_sender_ethernet_address m, t)"
    and "ni_pending_datagrams ni' = ni_pending_datagrams ni"
  using assms(2) by (cases rule: recv_arp_cases;
      use assms(1,3) in \<open>auto simp: sm.find_assign ni_okD OPCODE_REPLY_def OPCODE_REQUEST_def\<close>)+

section \<open>Timers\<close>

interpretation ticks: machine ni_tick ni_ok
  by unfold_locales (rule ni_tick_ok)

lemma unat_sub_tick: "ms < t \<Longrightarrow> unat (t - ms :: u64) = unat t - unat ms"
  by (intro unat_sub) simp

lemma ticks_find:
  assumes "ni_ok ni" "sm_find ip (ni_arp_cache ni) = Some (eth, t)"
  shows "if sum_list (map unat ts) < unat t
    then \<exists>t'. sm_find ip (ni_arp_cache (run ni_tick ts ni)) = Some (eth, t') \<and> unat t' = unat t - sum_list (map unat ts)
    else sm_find ip (ni_arp_cache (run ni_tick ts ni)) = None"
proof -
  have find: "sm_find ip (ni_arp_cache (ni_tick ms ni)) = Option.bind (sm_find ip (ni_arp_cache ni))
      (\<lambda>(eth, t). if t \<le> ms then None else Some (eth, t - ms))" if "ni_ok ni" for ni ms
    using ni_okD(1) [OF that] by (simp add: ni_tick_def sm_find_sweep)
  have none: "sm_find ip (ni_arp_cache (run ni_tick ts ni)) = None"
    if "ni_ok ni" "sm_find ip (ni_arp_cache ni) = None" for ts ni
    using that by (induction ts arbitrary: ni) (simp_all add: find ni_tick_ok)
  show ?thesis
    using assms
  proof (induction ts arbitrary: ni t)
    case Nil
    then have "0 < t" unfolding ni_ok_def by blast
    with Nil show ?case by (simp add: word_less_nat_alt)
  next
    case (Cons ms ts)
    note ok = ni_tick_ok [OF Cons.prems(1), of ms]
    show ?case
    proof (cases "t \<le> ms")
      case True
      then have "sm_find ip (ni_arp_cache (ni_tick ms ni)) = None" using find Cons.prems by simp
      with True none [OF ok] show ?thesis by (simp add: word_le_nat_alt)
    next
      case False
      then have "sm_find ip (ni_arp_cache (ni_tick ms ni)) = Some (eth, t - ms)"
        using find Cons.prems by simp
      from Cons.IH [OF ok this] False show ?thesis
        by (simp add: unat_sub_tick not_le word_less_nat_alt add.commute less_diff_conv split: if_splits)
    qed
  qed
qed

text \<open>A mapping learned from an ARP message lasts exactly thirty seconds: through any
  sequence of ticks that add up to less it is there, with the time that is left, and once
  they add up to thirty seconds it is gone.\<close>

theorem arp_cache_lifetime:
  assumes "ni_ok ni" "recv_arp m ni = Inr ni'"
  defines "ip \<equiv> arp_sender_ip_address m" and "later \<equiv> \<lambda>ts. ni_arp_cache (run ni_tick ts ni')"
  shows "if sum_list (map unat ts) < 30000
    then \<exists>t. sm_find ip (later ts) = Some (arp_sender_ethernet_address m, t)
          \<and> unat t = 30000 - sum_list (map unat ts)
    else sm_find ip (later ts) = None"
proof -
  have "sm_find ip (ni_arp_cache ni') = Some (arp_sender_ethernet_address m, ARP_CACHE_TIMEOUT)"
    using assms(2) by (cases rule: recv_arp_cases) (use ni_okD [OF assms(1)] in \<open>simp_all add: ip_def sm.find_assign\<close>)
  note found = ticks_find [OF recv_arp_ok [OF assms(1,2)] this, of ts]
  have "unat ARP_CACHE_TIMEOUT = 30000" by (simp add: ARP_CACHE_TIMEOUT_def)
  then show ?thesis using found unfolding later_def by metis
qed

theorem arp_cache_lifetime_witness:
  "\<exists>ni'. recv_arp (arp_message_new\<lparr>arp_sender_ip_address := 9\<rparr>) (ni_new ethernet_zero (Address 1 0)) = Inr ni'
     \<and> sm_find 9 (ni_arp_cache (run ni_tick [20000, 10000] ni')) = None"
proof -
  obtain ni' where "recv_arp (arp_message_new\<lparr>arp_sender_ip_address := 9\<rparr>) (ni_new ethernet_zero (Address 1 0)) = Inr ni'"
    by (simp add: recv_arp_def arp_message_new_def OPCODE_REQUEST_def OPCODE_REPLY_def)
  with arp_cache_lifetime [OF ni_new_ok this, of "[20000, 10000]"] show ?thesis by simp
qed

end
