(* ===== verification/Adapters.thy ===== *)
theory Adapters
  imports NetworkInterface TcpSegment
begin

text \<open>
  \<open>libsponge/tcp_helpers/{fd_adapter,tcp_over_ip,tuntap_adapter,lossy_fd_adapter}\<close>: carrying
  TCP segments in UDP payloads, in IP datagrams on a TUN device and in Ethernet frames on a
  TAP device. What a device delivers is an argument, what is written to it a result.
\<close>

section \<open>State shared by the adapters\<close>

record fd_adapter_config =
  fc_source :: address
  fc_destination :: address
  fc_loss_rate_dn :: u16
  fc_loss_rate_up :: u16

record fd_adapter =
  ad_cfg :: fd_adapter_config
  ad_listen :: bool

definition fd_adapter_config_new :: fd_adapter_config where
  "fd_adapter_config_new = \<lparr>fc_source = Address 0 0, fc_destination = Address 0 0,
     fc_loss_rate_dn = 0, fc_loss_rate_up = 0\<rparr>"

definition fd_adapter_new :: fd_adapter where
  "fd_adapter_new = \<lparr>ad_cfg = fd_adapter_config_new, ad_listen = False\<rparr>"

definition set_listening :: "bool \<Rightarrow> 'a fd_adapter_scheme \<Rightarrow> 'a fd_adapter_scheme" where
  "set_listening l ad = ad\<lparr>ad_listen := l\<rparr>"

section \<open>TCP in IPv4\<close>

definition PROTO_TCP :: u8 where "PROTO_TCP = 6"

abbreviation source :: "'a fd_adapter_scheme \<Rightarrow> address" where
  "source ad \<equiv> fc_source (ad_cfg ad)"

abbreviation destination :: "'a fd_adapter_scheme \<Rightarrow> address" where
  "destination ad \<equiv> fc_destination (ad_cfg ad)"

definition unwrap_tcp_in_ip ::
    "ipv4_datagram \<Rightarrow> 'a fd_adapter_scheme \<Rightarrow> failure + tcp_segment option \<times> 'a fd_adapter_scheme" where
  "unwrap_tcp_in_ip ip_dgram ad =
     (if \<not> ad_listen ad \<and> ih_dst (id_header ip_dgram) \<noteq> ipv4_numeric (source ad) then Inr (None, ad)
      else if \<not> ad_listen ad \<and> ih_src (id_header ip_dgram) \<noteq> ipv4_numeric (destination ad)
      then Inr (None, ad)
      else if ih_proto (id_header ip_dgram) \<noteq> PROTO_TCP then Inr (None, ad)
      else case payload_buffer (id_payload ip_dgram) of
        Inl e \<Rightarrow> Inl e
      | Inr buffer \<Rightarrow>
          (case tcp_segment_parse buffer (pseudo_cksum (id_header ip_dgram)) tcp_segment_new of (r, tcp_seg) \<Rightarrow>
             if r \<noteq> NoError then Inr (None, ad)
             else if th_dport (ts_header tcp_seg) \<noteq> addr_port (source ad) then Inr (None, ad)
             else if ad_listen ad \<and> \<not> (th_syn (ts_header tcp_seg) \<and> \<not> th_rst (ts_header tcp_seg))
             then Inr (None, ad)
             else
               let ad = (if ad_listen ad then
                           set_listening False (ad\<lparr>ad_cfg := (ad_cfg ad)
                             \<lparr>fc_source := Address (ih_dst (id_header ip_dgram)) (addr_port (source ad)),
                              fc_destination := Address (ih_src (id_header ip_dgram))
                                                        (th_sport (ts_header tcp_seg))\<rparr>\<rparr>)
                         else ad)
               in if th_sport (ts_header tcp_seg) \<noteq> addr_port (destination ad) then Inr (None, ad)
                  else Inr (Some tcp_seg, ad)))"

text \<open>The ports of \<open>seg\<close> are set in place, so the segment is a result as well.\<close>

definition set_ports :: "tcp_segment \<Rightarrow> 'a fd_adapter_scheme \<Rightarrow> tcp_segment" where
  "set_ports seg ad = seg\<lparr>ts_header := (ts_header seg)
     \<lparr>th_sport := addr_port (source ad), th_dport := addr_port (destination ad)\<rparr>\<rparr>"

definition wrap_tcp_in_ip ::
    "tcp_segment \<Rightarrow> 'a fd_adapter_scheme \<Rightarrow> failure + ipv4_datagram \<times> tcp_segment" where
  "wrap_tcp_in_ip seg ad =
     (let seg = set_ports seg ad;
          h = ipv4_header_new\<lparr>ih_src := ipv4_numeric (source ad), ih_dst := ipv4_numeric (destination ad)\<rparr>;
          h = h\<lparr>ih_len := ucast (ucast (ih_hlen h) * 4 + ucast (th_doff (ts_header seg)) * 4
                   + size_of (ts_payload seg))\<rparr>
      in case tcp_segment_serialize seg (pseudo_cksum h) of
           Inl e \<Rightarrow> Inl e
         | Inr bufs \<Rightarrow> Inr (\<lparr>id_header = h, id_payload = bufs\<rparr>, seg))"

section \<open>UDP, TUN and TAP\<close>

definition udp_read ::
    "address \<Rightarrow> byte list \<Rightarrow> 'a fd_adapter_scheme \<Rightarrow> tcp_segment option \<times> 'a fd_adapter_scheme" where
  "udp_read source_address payload ad =
     (if \<not> ad_listen ad \<and> source_address \<noteq> destination ad then (None, ad)
      else case tcp_segment_parse payload 0 tcp_segment_new of (r, seg) \<Rightarrow>
        if r \<noteq> NoError then (None, ad)
        else if ad_listen ad then
          (if th_syn (ts_header seg) \<and> \<not> th_rst (ts_header seg)
           then (Some seg, set_listening False (ad\<lparr>ad_cfg := (ad_cfg ad)\<lparr>fc_destination := source_address\<rparr>\<rparr>))
           else (None, ad))
        else (Some seg, ad))"

definition udp_write ::
    "tcp_segment \<Rightarrow> 'a fd_adapter_scheme \<Rightarrow> failure + (address \<times> byte list list) \<times> tcp_segment" where
  "udp_write seg ad =
     (let seg = set_ports seg ad
      in case tcp_segment_serialize seg 0 of
           Inl e \<Rightarrow> Inl e
         | Inr bufs \<Rightarrow> Inr ((destination ad, bufs), seg))"

definition tun_read ::
    "byte list \<Rightarrow> 'a fd_adapter_scheme \<Rightarrow> failure + tcp_segment option \<times> 'a fd_adapter_scheme" where
  "tun_read bytes ad =
     (case ipv4_datagram_parse bytes ipv4_datagram_new of (r, ip_dgram) \<Rightarrow>
        if r \<noteq> NoError then Inr (None, ad) else unwrap_tcp_in_ip ip_dgram ad)"

definition tun_write :: "tcp_segment \<Rightarrow> 'a fd_adapter_scheme \<Rightarrow> failure + byte list list \<times> tcp_segment" where
  "tun_write seg ad =
     (case wrap_tcp_in_ip seg ad of
        Inl e \<Rightarrow> Inl e
      | Inr (ip_dgram, seg) \<Rightarrow>
          (case ipv4_datagram_serialize ip_dgram of Inl e \<Rightarrow> Inl e | Inr bufs \<Rightarrow> Inr (bufs, seg)))"

record eth_adapter = fd_adapter +
  ad_interface :: network_interface
  ad_next_hop :: address

text \<open>What goes out on the TAP device is a list of frames, each a list of buffers.\<close>

type_synonym tap_output = "byte list list list"

definition eth_new :: "ethernet_address \<Rightarrow> address \<Rightarrow> address \<Rightarrow> tap_output \<times> eth_adapter" where
  "eth_new eth_address ip_address next_hop =
     ([ethernet_frame_serialize ethernet_frame_new],
      \<lparr>ad_cfg = fd_adapter_config_new, ad_listen = False,
       ad_interface = ni_new eth_address ip_address, ad_next_hop = next_hop\<rparr>)"

fun send_frames :: "ethernet_frame list \<Rightarrow> tap_output \<times> eth_adapter \<Rightarrow> tap_output \<times> eth_adapter" where
  "send_frames [] s = s"
| "send_frames (f # queue) (out, ad) =
     send_frames queue (out @ [ethernet_frame_serialize f],
       ad\<lparr>ad_interface := (ad_interface ad)\<lparr>ni_frames_out := queue\<rparr>\<rparr>)"

definition send_pending :: "eth_adapter \<Rightarrow> tap_output \<times> eth_adapter" where
  "send_pending ad = send_frames (ni_frames_out (ad_interface ad)) ([], ad)"

definition eth_read :: "byte list \<Rightarrow> eth_adapter \<Rightarrow> failure + tcp_segment option \<times> tap_output \<times> eth_adapter" where
  "eth_read bytes ad =
     (case ethernet_frame_parse bytes ethernet_frame_new of (r, frame) \<Rightarrow>
        if r \<noteq> NoError then Inr (None, [], ad)
        else case recv_frame frame (ad_interface ad) of
          Inl e \<Rightarrow> Inl e
        | Inr (ip_dgram, ni) \<Rightarrow>
            (case send_pending (ad\<lparr>ad_interface := ni\<rparr>) of (out, ad) \<Rightarrow>
               case ip_dgram of
                 Some d \<Rightarrow> (case unwrap_tcp_in_ip d ad of
                     Inl e \<Rightarrow> Inl e
                   | Inr (seg, ad) \<Rightarrow> Inr (seg, out, ad))
               | None \<Rightarrow> Inr (None, out, ad)))"

definition eth_tick :: "u64 \<Rightarrow> eth_adapter \<Rightarrow> tap_output \<times> eth_adapter" where
  "eth_tick ms_since_last_tick ad =
     send_pending (ad\<lparr>ad_interface := ni_tick ms_since_last_tick (ad_interface ad)\<rparr>)"

definition eth_write :: "tcp_segment \<Rightarrow> eth_adapter \<Rightarrow> failure + tap_output \<times> eth_adapter" where
  "eth_write seg ad =
     (case wrap_tcp_in_ip seg ad of
        Inl e \<Rightarrow> Inl e
      | Inr (ip_dgram, seg) \<Rightarrow>
          (case send_datagram ip_dgram (ad_next_hop ad) (ad_interface ad) of
             Inl e \<Rightarrow> Inl e
           | Inr ni \<Rightarrow> Inr (send_pending (ad\<lparr>ad_interface := ni\<rparr>))))"

section \<open>Losing segments on purpose\<close>

text \<open>\<open>LossyFdAdapter\<close> around any adapter; \<open>rand\<close> is the next value of its random generator,
  which is drawn only when the loss rate is not 0.\<close>

definition should_drop :: "bool \<Rightarrow> u32 \<Rightarrow> 'a fd_adapter_scheme \<Rightarrow> bool" where
  "should_drop uplink rand ad =
     (let loss = (if uplink then fc_loss_rate_up (ad_cfg ad) else fc_loss_rate_dn (ad_cfg ad))
      in loss \<noteq> 0 \<and> (ucast rand :: u16) < loss)"

definition lossy_read ::
    "u32 \<Rightarrow> ('a fd_adapter_scheme \<Rightarrow> tcp_segment option \<times> 'a fd_adapter_scheme) \<Rightarrow>
     'a fd_adapter_scheme \<Rightarrow> tcp_segment option \<times> 'a fd_adapter_scheme" where
  "lossy_read rand adapter_read ad =
     (case adapter_read ad of (ret, ad) \<Rightarrow> if should_drop False rand ad then (None, ad) else (ret, ad))"

definition lossy_write ::
    "u32 \<Rightarrow> (tcp_segment \<Rightarrow> 'a fd_adapter_scheme \<Rightarrow> 'out option \<times> 'a fd_adapter_scheme) \<Rightarrow>
     tcp_segment \<Rightarrow> 'a fd_adapter_scheme \<Rightarrow> 'out option \<times> 'a fd_adapter_scheme" where
  "lossy_write rand adapter_write seg ad =
     (if should_drop True rand ad then (None, ad) else adapter_write seg ad)"


section \<open>Segments through the adapters\<close>

text \<open>Two adapters configured as each other's peer.\<close>

definition peers :: "'a fd_adapter_scheme \<Rightarrow> 'b fd_adapter_scheme \<Rightarrow> bool" where
  "peers A B \<longleftrightarrow> source A = destination B \<and> destination A = source B"

lemma pseudo_cksum_cksum [simp]: "pseudo_cksum (h\<lparr>ih_cksum := c\<rparr>) = pseudo_cksum h"
  by (simp add: pseudo_cksum_def payload_length_def)

text \<open>Wrapping a segment gives a datagram that can be serialized and carries the segment.\<close>

lemma wrap_tcp_in_ip_works:
  assumes doff: "5 \<le> th_doff (ts_header seg)" "th_doff (ts_header seg) \<le> 15"
    and len: "length (ts_payload seg) \<le> 65000"
  shows "\<exists>h bufs c. wrap_tcp_in_ip seg A = Inr (\<lparr>id_header = h, id_payload = bufs\<rparr>, set_ports seg A)
     \<and> ih_ver h = 4 \<and> ih_hlen h = 5 \<and> ih_offset h = 0 \<and> ih_proto h = PROTO_TCP
     \<and> ih_src h = ipv4_numeric (source A) \<and> ih_dst h = ipv4_numeric (destination A)
     \<and> unat (ih_len h) = 4 * unat (ih_hlen h) + length (concat bufs)
     \<and> tcp_segment_parse (concat bufs) (pseudo_cksum h) tcp_segment_new
         = (NoError, (set_ports seg A)\<lparr>ts_header := (ts_header (set_ports seg A))\<lparr>th_cksum := c\<rparr>\<rparr>)"
proof -
  let ?seg = "set_ports seg A"
  let ?h0 = "ipv4_header_new\<lparr>ih_src := ipv4_numeric (source A), ih_dst := ipv4_numeric (destination A)\<rparr>"
  let ?len = "ucast (ih_hlen ?h0) * 4 + ucast (th_doff (ts_header ?seg)) * 4 + size_of (ts_payload ?seg) :: u64"
  let ?h = "?h0\<lparr>ih_len := ucast ?len\<rparr>"
  have same: "th_doff (ts_header ?seg) = th_doff (ts_header seg)" "ts_payload ?seg = ts_payload seg"
    by (simp_all add: set_ports_def)
  have d: "unat (th_doff (ts_header seg)) \<le> 15" using doff(2) by (simp add: word_le_nat_alt)
  have pre: "5 \<le> th_doff (ts_header ?seg)" "th_doff (ts_header ?seg) \<le> 15"
    "length (ts_payload ?seg) \<le> 65535"
    using doff len by (simp_all add: same)
  have eta: "\<lparr>ts_header = ts_header ?seg, ts_payload = ts_payload ?seg\<rparr> = ?seg" by simp
  obtain bufs c where bufs: "tcp_segment_serialize ?seg (pseudo_cksum ?h) = Inr bufs"
    "length (concat bufs) = 4 * unat (th_doff (ts_header ?seg)) + length (ts_payload ?seg)"
    "\<forall>seg0. tcp_segment_parse (concat bufs) (pseudo_cksum ?h) seg0
       = (NoError, \<lparr>ts_header = (ts_header ?seg)\<lparr>th_cksum := c\<rparr>, ts_payload = ts_payload ?seg\<rparr>)"
    using tcp_segment_roundtrip_full [OF pre unat_pseudo_cksum, of ?h, unfolded eta]
    by (elim exE conjE) (rule that)
  have ulen: "unat ?len = 20 + 4 * unat (th_doff (ts_header seg)) + length (ts_payload seg)"
  proof -
    have "?len = of_nat (20 + 4 * unat (th_doff (ts_header seg)) + length (ts_payload seg))"
      by (simp add: same size_of_def ipv4_header_new_def)
    then show ?thesis using d len by (simp only:) (rule unat_of_nat_u64, simp)
  qed
  have "unat (ucast ?len :: u16) = 20 + 4 * unat (th_doff (ts_header seg)) + length (ts_payload seg)"
    using ulen d len by (simp add: unsigned_ucast_eq take_bit_eq_mod)
  then have "unat (ih_len ?h) = 4 * unat (ih_hlen ?h) + length (concat bufs)"
    using bufs(2) by (simp add: ipv4_header_new_def same)
  moreover have "wrap_tcp_in_ip seg A = Inr (\<lparr>id_header = ?h, id_payload = bufs\<rparr>, ?seg)"
    unfolding wrap_tcp_in_ip_def Let_def bufs(1) by simp
  moreover have "ih_ver ?h = 4" "ih_hlen ?h = 5" "ih_offset ?h = 0" "ih_proto ?h = PROTO_TCP"
    by (simp_all add: ipv4_header_new_def PROTO_TCP_def)
  moreover have "tcp_segment_parse (concat bufs) (pseudo_cksum ?h) tcp_segment_new
      = (NoError, ?seg\<lparr>ts_header := (ts_header ?seg)\<lparr>th_cksum := c\<rparr>\<rparr>)"
    using bufs(3) by (cases ?seg) simp
  moreover have "ih_src ?h = ipv4_numeric (source A)" "ih_dst ?h = ipv4_numeric (destination A)"
    by simp_all
  ultimately show ?thesis by blast
qed


text \<open>When \<open>B\<close> takes a segment from \<open>A\<close>, and what it knows afterwards.\<close>

definition takes_from :: "'a fd_adapter_scheme \<Rightarrow> tcp_segment \<Rightarrow> 'b fd_adapter_scheme \<Rightarrow> bool" where
  "takes_from A seg B \<longleftrightarrow>
     (if ad_listen B then addr_port (source B) = addr_port (destination A)
        \<and> th_syn (ts_header seg) \<and> \<not> th_rst (ts_header seg)
      else peers A B)"

definition joined :: "'a fd_adapter_scheme \<Rightarrow> 'b fd_adapter_scheme \<Rightarrow> 'b fd_adapter_scheme" where
  "joined A B =
     (if ad_listen B then set_listening False
        (B\<lparr>ad_cfg := (ad_cfg B)\<lparr>fc_source := destination A, fc_destination := source A\<rparr>\<rparr>)
      else B)"

abbreviation with_cksum :: "u16 \<Rightarrow> tcp_segment \<Rightarrow> tcp_segment" where
  "with_cksum c seg \<equiv> seg\<lparr>ts_header := (ts_header seg)\<lparr>th_cksum := c\<rparr>\<rparr>"

lemma joined_peers: "takes_from A seg B \<Longrightarrow> peers A (joined A B) \<and> \<not> ad_listen (joined A B)"
  by (auto simp: takes_from_def joined_def peers_def set_listening_def)

lemma unwrap_wrapped:
  assumes "takes_from A seg B" "ih_proto h = PROTO_TCP"
    "ih_src h = ipv4_numeric (source A)" "ih_dst h = ipv4_numeric (destination A)"
    "tcp_segment_parse p (pseudo_cksum h) tcp_segment_new = (NoError, with_cksum c (set_ports seg A))"
  shows "unwrap_tcp_in_ip \<lparr>id_header = h\<lparr>ih_cksum := c'\<rparr>, id_payload = [p]\<rparr> B
    = Inr (Some (with_cksum c (set_ports seg A)), joined A B)"
proof (cases "ad_listen B")
  case True
  have "Address (ipv4_numeric (destination A)) (addr_port (source B)) = destination A"
    using assms(1) True by (cases "destination A") (simp add: takes_from_def)
  then show ?thesis
    using assms True
    by (simp add: unwrap_tcp_in_ip_def payload_buffer_def takes_from_def joined_def set_ports_def
        set_listening_def)
next
  case False
  then show ?thesis
    using assms
    by (simp add: unwrap_tcp_in_ip_def payload_buffer_def takes_from_def joined_def set_ports_def peers_def)
qed

text \<open>What \<open>tun_write\<close> puts on the device is a datagram that parses and carries the segment.\<close>

lemma tun_write_works:
  assumes "5 \<le> th_doff (ts_header seg)" "th_doff (ts_header seg) \<le> 15" "length (ts_payload seg) \<le> 65000"
  shows "\<exists>wire h p c c'. tun_write seg A = Inr (wire, set_ports seg A) \<and> length (concat wire) < 2 ^ 61
     \<and> ih_proto h = PROTO_TCP \<and> ih_src h = ipv4_numeric (source A) \<and> ih_dst h = ipv4_numeric (destination A)
     \<and> ipv4_datagram_parse (concat wire) ipv4_datagram_new
         = (NoError, \<lparr>id_header = h\<lparr>ih_cksum := c'\<rparr>, id_payload = [p]\<rparr>)
     \<and> tcp_segment_parse p (pseudo_cksum h) tcp_segment_new = (NoError, with_cksum c (set_ports seg A))"
proof -
  from wrap_tcp_in_ip_works [OF assms(1-3), of A] obtain h bufs c where
    wrap: "wrap_tcp_in_ip seg A = Inr (\<lparr>id_header = h, id_payload = bufs\<rparr>, set_ports seg A)"
    and h: "ih_ver h = 4" "ih_hlen h = 5" "ih_offset h = 0" "ih_proto h = PROTO_TCP"
      "ih_src h = ipv4_numeric (source A)" "ih_dst h = ipv4_numeric (destination A)"
      "unat (ih_len h) = 4 * unat (ih_hlen h) + length (concat bufs)"
    and parse: "tcp_segment_parse (concat bufs) (pseudo_cksum h) tcp_segment_new
      = (NoError, with_cksum c (set_ports seg A))"
    by (elim exE conjE) (rule that)
  have "5 \<le> ih_hlen h" "ih_hlen h \<le> 15" "ih_offset h \<le> 0x1fff" by (simp_all add: h)
  from ipv4_datagram_roundtrip_full [OF h(1) this h(7)] obtain wire c' where
    wire: "ipv4_datagram_serialize \<lparr>id_header = h, id_payload = bufs\<rparr> = Inr wire"
      "length (concat wire) < 2 ^ 61"
      "ipv4_datagram_parse (concat wire) ipv4_datagram_new
        = (NoError, \<lparr>id_header = h\<lparr>ih_cksum := c'\<rparr>, id_payload = [concat bufs]\<rparr>)"
    by blast
  have "tun_write seg A = Inr (wire, set_ports seg A)"
    using wrap wire(1) by (simp add: tun_write_def)
  with wire(2,3) h(4-6) parse show ?thesis by blast
qed

text \<open>C33: A segment written to a TUN device by one adapter and read from the wire by its peer
  arrives as it was, ports and checksum filled in; the same holds for a SYN read by an
  adapter that listens on the port, which then stops listening and is bound to that peer.\<close>

theorem tun_carries_segments:
  assumes "5 \<le> th_doff (ts_header seg)" "th_doff (ts_header seg) \<le> 15" "length (ts_payload seg) \<le> 65000"
    and "takes_from A seg B"
  shows "\<exists>bufs c. tun_write seg A = Inr (bufs, set_ports seg A)
     \<and> tun_read (concat bufs) B = Inr (Some (with_cksum c (set_ports seg A)), joined A B)
     \<and> peers A (joined A B) \<and> \<not> ad_listen (joined A B) \<and> (\<not> ad_listen B \<longrightarrow> joined A B = B)"
proof -
  from tun_write_works [OF assms(1-3), of A] obtain wire h p c c' where
    w: "tun_write seg A = Inr (wire, set_ports seg A)"
      "ipv4_datagram_parse (concat wire) ipv4_datagram_new
        = (NoError, \<lparr>id_header = h\<lparr>ih_cksum := c'\<rparr>, id_payload = [p]\<rparr>)"
    and h: "ih_proto h = PROTO_TCP" "ih_src h = ipv4_numeric (source A)" "ih_dst h = ipv4_numeric (destination A)"
      "tcp_segment_parse p (pseudo_cksum h) tcp_segment_new = (NoError, with_cksum c (set_ports seg A))"
    by (elim exE conjE) (rule that)
  have "tun_read (concat wire) B = Inr (Some (with_cksum c (set_ports seg A)), joined A B)"
    using w(2) unwrap_wrapped [OF assms(4) h] by (simp add: tun_read_def)
  moreover have "\<not> ad_listen B \<longrightarrow> joined A B = B" by (simp add: joined_def)
  ultimately show ?thesis using w(1) joined_peers [OF assms(4)] by blast
qed

text \<open>A client's SYN reaches a listening server.\<close>

definition example_syn :: tcp_segment where
  "example_syn = tcp_segment_new\<lparr>ts_header := tcp_header_new\<lparr>th_syn := True\<rparr>\<rparr>"

definition example_adapter :: "address \<Rightarrow> address \<Rightarrow> bool \<Rightarrow> fd_adapter" where
  "example_adapter src dst l =
     \<lparr>ad_cfg = fd_adapter_config_new\<lparr>fc_source := src, fc_destination := dst\<rparr>, ad_listen = l\<rparr>"

lemmas example_adapter_defs = example_syn_def example_adapter_def fd_adapter_config_new_def
  tcp_segment_new_def tcp_header_new_def takes_from_def joined_def set_listening_def

theorem tun_carries_segments_witness:
  "\<exists>bufs c. tun_read (concat bufs) (example_adapter (Address 0 80) (Address 0 0) True)
     = Inr (Some (with_cksum c (set_ports example_syn (example_adapter (Address 1 1000) (Address 2 80) False))),
       example_adapter (Address 2 80) (Address 1 1000) False)"
  using tun_carries_segments [of example_syn "example_adapter (Address 1 1000) (Address 2 80) False"
      "example_adapter (Address 0 80) (Address 0 0) True"]
  by (auto simp: example_adapter_defs)

text \<open>C34: What an adapter passes up comes from its peer: a TCP segment with a good checksum,
  addressed to the adapter's address and port and sent from its peer's. An adapter that
  listens takes only a SYN without RST and is bound to its sender by it; nothing else
  changes the adapter.\<close>

theorem unwrap_accepts_only_peer:
  assumes "unwrap_tcp_in_ip d ad = Inr (seg, ad')"
  shows "case seg of None \<Rightarrow> ad' = ad
    | Some seg \<Rightarrow> ih_proto (id_header d) = PROTO_TCP
        \<and> (\<exists>p. payload_buffer (id_payload d) = Inr p
             \<and> tcp_segment_parse p (pseudo_cksum (id_header d)) tcp_segment_new = (NoError, seg))
        \<and> source ad' = Address (ih_dst (id_header d)) (th_dport (ts_header seg))
        \<and> destination ad' = Address (ih_src (id_header d)) (th_sport (ts_header seg))
        \<and> \<not> ad_listen ad'
        \<and> (if ad_listen ad then th_syn (ts_header seg) \<and> \<not> th_rst (ts_header seg) else ad' = ad)"
proof (cases seg)
  case None
  then show ?thesis
    using assms by (auto simp: unwrap_tcp_in_ip_def Let_def set_listening_def split: if_splits sum.splits prod.splits)
next
  case (Some tcp)
  have addr: "source ad = Address n p \<longleftrightarrow> ipv4_numeric (source ad) = n \<and> addr_port (source ad) = p"
    "destination ad = Address n p \<longleftrightarrow> ipv4_numeric (destination ad) = n \<and> addr_port (destination ad) = p"
    for n p by (cases "source ad", simp) (cases "destination ad", simp)
  show ?thesis
  proof (cases "ad_listen ad")
    case True
    then show ?thesis
      using assms Some
      by (auto simp: unwrap_tcp_in_ip_def Let_def set_listening_def split: if_splits sum.splits prod.splits)
  next
    case False
    then show ?thesis
      using assms Some
      by (auto simp: unwrap_tcp_in_ip_def addr split: if_splits sum.splits prod.splits)
  qed
qed

theorem unwrap_accepts_only_peer_witness:
  "\<exists>d seg ad'. unwrap_tcp_in_ip d (example_adapter (Address 0 80) (Address 0 0) True) = Inr (Some seg, ad')
     \<and> source ad' = Address (ih_dst (id_header d)) (th_dport (ts_header seg))
     \<and> destination ad' = Address (ih_src (id_header d)) (th_sport (ts_header seg)) \<and> th_syn (ts_header seg)"
proof -
  let ?A = "example_adapter (Address 1 1000) (Address 2 80) False"
  let ?B = "example_adapter (Address 0 80) (Address 0 0) True"
  have "5 \<le> th_doff (ts_header example_syn)" "th_doff (ts_header example_syn) \<le> 15"
    "length (ts_payload example_syn) \<le> 65000"
    by (simp_all add: example_adapter_defs)
  from wrap_tcp_in_ip_works [OF this, of ?A] obtain h bufs c where
    h: "ih_proto h = PROTO_TCP" "ih_src h = ipv4_numeric (source ?A)" "ih_dst h = ipv4_numeric (destination ?A)"
    and parse: "tcp_segment_parse (concat bufs) (pseudo_cksum h) tcp_segment_new
      = (NoError, with_cksum c (set_ports example_syn ?A))"
    by (elim exE conjE) (rule that)
  have takes: "takes_from ?A example_syn ?B" by (simp add: example_adapter_defs)
  have listens: "ad_listen ?B" by (simp add: example_adapter_def)
  note unwraps = unwrap_wrapped [OF takes h parse, of 0]
  from unwrap_accepts_only_peer [OF unwraps] unwraps listens show ?thesis by (simp only: option.case if_True) blast
qed

end
