(* ===== verification/SpongeSocket.thy ===== *)
theory SpongeSocket
  imports EventLoop Adapters TcpConnection
begin

text \<open>
  \<open>libsponge/tcp_helpers/tcp_sponge_socket.{hh,cc}\<close>: the thread that runs a TCP connection
  between a stream socket to the application and a device that carries segments.
\<close>

section \<open>State and device\<close>

text \<open>The descriptors: the thread's end of the socket pair, the device of the adapter, and the
  owner's end.\<close>

abbreviation THREAD_DATA :: fd_ref where "THREAD_DATA \<equiv> 0"
abbreviation DEVICE :: fd_ref where "DEVICE \<equiv> 1"
abbreviation OWNER :: fd_ref where "OWNER \<equiv> 2"

record 'ad sponge = os +
  sk_adapter :: 'ad
  sk_tcp :: "tcp_connection option"
  sk_inbound_shutdown :: bool
  sk_outbound_shutdown :: bool
  sk_fully_acked :: bool

text \<open>The template parameter \<open>AdaptT\<close>: what the socket calls of an adapter.\<close>

record 'ad adapt =
  ao_read :: "kernel \<Rightarrow> 'ad sponge \<Rightarrow> failure + tcp_segment option \<times> 'ad sponge"
  ao_write :: "kernel \<Rightarrow> tcp_segment \<Rightarrow> 'ad sponge \<Rightarrow> failure + 'ad sponge"
  ao_tick :: "kernel \<Rightarrow> u64 \<Rightarrow> 'ad sponge \<Rightarrow> failure + 'ad sponge"

text \<open>\<open>TCPOverIPv4OverTunFdAdapter\<close>: one datagram for each read and write.\<close>

definition tun_adapt_read ::
    "kernel \<Rightarrow> fd_adapter sponge \<Rightarrow> failure + tcp_segment option \<times> fd_adapter sponge" where
  "tun_adapt_read K w =
     (case fd_read K DEVICE (- 1) w of
        Inl e \<Rightarrow> Inl e
      | Inr (bytes, w) \<Rightarrow>
          (case tun_read bytes (sk_adapter w) of
             Inl e \<Rightarrow> Inl e
           | Inr (seg, ad) \<Rightarrow> Inr (seg, w\<lparr>sk_adapter := ad\<rparr>)))"

definition tun_adapt_write :: "kernel \<Rightarrow> tcp_segment \<Rightarrow> fd_adapter sponge \<Rightarrow> failure + fd_adapter sponge" where
  "tun_adapt_write K seg w =
     (case tun_write seg (sk_adapter w) of
        Inl e \<Rightarrow> Inl e
      | Inr (bufs, _) \<Rightarrow> (case fd_write K DEVICE bufs True w of Inl e \<Rightarrow> Inl e | Inr (_, w) \<Rightarrow> Inr w))"

definition tun_adapt :: "fd_adapter adapt" where
  "tun_adapt = \<lparr>ao_read = tun_adapt_read, ao_write = tun_adapt_write, ao_tick = (\<lambda>_ _ w. Inr w)\<rparr>"

text \<open>\<open>TCPOverIPv4OverEthernetAdapter\<close>: the frames that the network interface has queued are
  written one by one.\<close>

fun write_frames :: "kernel \<Rightarrow> tap_output \<Rightarrow> 'a os_scheme \<Rightarrow> failure + 'a os_scheme" where
  "write_frames K [] w = Inr w"
| "write_frames K (f # fs) w =
     (case fd_write K DEVICE f True w of Inl e \<Rightarrow> Inl e | Inr (_, w) \<Rightarrow> write_frames K fs w)"

definition eth_adapt_read ::
    "kernel \<Rightarrow> eth_adapter sponge \<Rightarrow> failure + tcp_segment option \<times> eth_adapter sponge" where
  "eth_adapt_read K w =
     (case fd_read K DEVICE (- 1) w of
        Inl e \<Rightarrow> Inl e
      | Inr (bytes, w) \<Rightarrow>
          (case eth_read bytes (sk_adapter w) of
             Inl e \<Rightarrow> Inl e
           | Inr (seg, out, ad) \<Rightarrow>
               (case write_frames K out (w\<lparr>sk_adapter := ad\<rparr>) of Inl e \<Rightarrow> Inl e | Inr w \<Rightarrow> Inr (seg, w))))"

definition eth_adapt_write :: "kernel \<Rightarrow> tcp_segment \<Rightarrow> eth_adapter sponge \<Rightarrow> failure + eth_adapter sponge" where
  "eth_adapt_write K seg w =
     (case eth_write seg (sk_adapter w) of
        Inl e \<Rightarrow> Inl e
      | Inr (out, ad) \<Rightarrow> write_frames K out (w\<lparr>sk_adapter := ad\<rparr>))"

definition eth_adapt_tick :: "kernel \<Rightarrow> u64 \<Rightarrow> eth_adapter sponge \<Rightarrow> failure + eth_adapter sponge" where
  "eth_adapt_tick K ms w = (case eth_tick ms (sk_adapter w) of (out, ad) \<Rightarrow> write_frames K out (w\<lparr>sk_adapter := ad\<rparr>))"

definition eth_adapt :: "eth_adapter adapt" where
  "eth_adapt = \<lparr>ao_read = eth_adapt_read, ao_write = eth_adapt_write, ao_tick = eth_adapt_tick\<rparr>"

section \<open>The rules of the event loop\<close>

text \<open>The closures dereference \<open>_tcp\<close>.\<close>

definition with_tcp :: "(tcp_connection \<Rightarrow> failure + 'b) \<Rightarrow> 'ad sponge \<Rightarrow> failure + 'b" where
  "with_tcp f w = (case sk_tcp w of None \<Rightarrow> Inl UndefinedBehaviour | Some tcp \<Rightarrow> f tcp)"

declare with_tcp_def [code_unfold]

text \<open>Rule 1: a datagram arrives.\<close>

definition datagram_arrives :: "'ad adapt \<Rightarrow> kernel \<Rightarrow> 'ad sponge \<Rightarrow> failure + 'ad sponge" where
  "datagram_arrives A K w =
     (case ao_read A K w of
        Inl e \<Rightarrow> Inl e
      | Inr (seg, w) \<Rightarrow> with_tcp (\<lambda>tcp.
          (case (case seg of None \<Rightarrow> Inr tcp | Some seg \<Rightarrow> segment_received seg tcp) of
             Inl e \<Rightarrow> Inl e
           | Inr tcp \<Rightarrow>
               let w = w\<lparr>sk_tcp := Some tcp\<rparr>
               in Inr (if fd_eof THREAD_DATA w \<and> cn_bytes_in_flight tcp = 0 \<and> \<not> sk_fully_acked w
                       then w\<lparr>sk_fully_acked := True\<rparr> else w))) w)"

definition datagram_interest :: "'ad sponge \<Rightarrow> failure + bool" where
  "datagram_interest w = with_tcp (\<lambda>tcp. Inr (cn_is_active tcp)) w"

text \<open>Rule 2: the application has written.\<close>

definition outbound_data :: "kernel \<Rightarrow> 'ad sponge \<Rightarrow> failure + 'ad sponge" where
  "outbound_data K w = with_tcp (\<lambda>tcp.
     (case fd_read K THREAD_DATA (cn_remaining_outbound_capacity tcp) w of
        Inl e \<Rightarrow> Inl e
      | Inr (data, w) \<Rightarrow>
          (case cn_write data tcp of (amount_written, tcp) \<Rightarrow>
             if amount_written \<noteq> size_of data
             then Inl (Thrown ''TCPConnection::write() accepted less than advertised length'')
             else Inr (if fd_eof THREAD_DATA w
                       then w\<lparr>sk_tcp := Some (end_input_stream tcp), sk_outbound_shutdown := True\<rparr>
                       else w\<lparr>sk_tcp := Some tcp\<rparr>)))) w"

definition outbound_interest :: "'ad sponge \<Rightarrow> failure + bool" where
  "outbound_interest w = with_tcp (\<lambda>tcp.
     Inr (cn_is_active tcp \<and> \<not> sk_outbound_shutdown w \<and> 0 < cn_remaining_outbound_capacity tcp)) w"

definition outbound_cancel :: "'ad sponge \<Rightarrow> failure + 'ad sponge" where
  "outbound_cancel w = with_tcp (\<lambda>tcp.
     Inr (w\<lparr>sk_tcp := Some (end_input_stream tcp), sk_outbound_shutdown := True\<rparr>)) w"

text \<open>Rule 3: bytes have been reassembled for the application.\<close>

definition inbound_data :: "kernel \<Rightarrow> 'ad sponge \<Rightarrow> failure + 'ad sponge" where
  "inbound_data K w = with_tcp (\<lambda>tcp.
     let inbound = stream_out (cn_receiver tcp);
         amount_to_write = min 65536 (bs_buffer_size inbound);
         buffer = bs_peek_output amount_to_write inbound
     in case fd_write K THREAD_DATA [buffer] False w of
          Inl e \<Rightarrow> Inl e
        | Inr (bytes_written, w) \<Rightarrow>
            let inbound = bs_pop_output bytes_written inbound;
                tcp = tcp\<lparr>cn_receiver := (cn_receiver tcp)
                        \<lparr>tr_reassembler := (tr_reassembler (cn_receiver tcp))\<lparr>re_output := inbound\<rparr>\<rparr>\<rparr>;
                w = w\<lparr>sk_tcp := Some tcp\<rparr>
            in if bs_eof inbound \<or> bs_error inbound then
                 (case socket_shutdown K THREAD_DATA SHUT_WR w of
                    Inl e \<Rightarrow> Inl e | Inr w \<Rightarrow> Inr (w\<lparr>sk_inbound_shutdown := True\<rparr>))
               else Inr w) w"

definition inbound_interest :: "'ad sponge \<Rightarrow> failure + bool" where
  "inbound_interest w = with_tcp (\<lambda>tcp.
     let inbound = stream_out (cn_receiver tcp)
     in Inr (\<not> bs_buffer_empty inbound
             \<or> (bs_eof inbound \<or> bs_error inbound) \<and> \<not> sk_inbound_shutdown w)) w"

text \<open>Rule 4: segments are sent; \<open>send_segments\<close> is the loop on the segments of \<open>segments_out\<close>.\<close>

fun send_segments :: "'ad adapt \<Rightarrow> kernel \<Rightarrow> tcp_segment list \<Rightarrow> 'ad sponge \<Rightarrow> failure + 'ad sponge" where
  "send_segments A K [] w = Inr w"
| "send_segments A K (seg # queue) w =
     (case ao_write A K seg w of
        Inl e \<Rightarrow> Inl e
      | Inr w \<Rightarrow> with_tcp (\<lambda>tcp. send_segments A K queue (w\<lparr>sk_tcp := Some (tcp\<lparr>cn_segments_out := queue\<rparr>)\<rparr>)) w)"

definition segments_leave :: "'ad adapt \<Rightarrow> kernel \<Rightarrow> 'ad sponge \<Rightarrow> failure + 'ad sponge" where
  "segments_leave A K w = with_tcp (\<lambda>tcp. send_segments A K (cn_segments_out tcp) w) w"

definition segments_interest :: "'ad sponge \<Rightarrow> failure + bool" where
  "segments_interest w = with_tcp (\<lambda>tcp. Inr (cn_segments_out tcp \<noteq> [])) w"

definition sponge_rules :: "'ad adapt \<Rightarrow> kernel \<Rightarrow> 'ad sponge rule list" where
  "sponge_rules A K =
     (let rules = add_rule DEVICE In (datagram_arrives A K) datagram_interest Inr [];
          rules = add_rule THREAD_DATA In (outbound_data K) outbound_interest outbound_cancel rules;
          rules = add_rule THREAD_DATA Out (inbound_data K) inbound_interest Inr rules
      in add_rule DEVICE Out (segments_leave A K) segments_interest Inr rules)"

text \<open>\<open>_initialize_TCP\<close>, with the random initial sequence number of the connection.\<close>

definition initialize_TCP ::
    "'ad adapt \<Rightarrow> kernel \<Rightarrow> tcp_config \<Rightarrow> wrapping_int32 \<Rightarrow> 'ad sponge \<Rightarrow> 'ad sponge rule list \<times> 'ad sponge" where
  "initialize_TCP A K config random w = (sponge_rules A K, w\<lparr>sk_tcp := Some (cn_new config random)\<rparr>)"

section \<open>The loop and the thread\<close>

definition TCP_TICK_MS :: int where "TCP_TICK_MS = 10"

text \<open>\<open>None\<close> when the loop is still running after \<open>fuel\<close> rounds.\<close>

fun tcp_loop ::
    "'ad adapt \<Rightarrow> kernel \<Rightarrow> ('ad sponge \<Rightarrow> failure + bool) \<Rightarrow> nat \<Rightarrow> u64 \<Rightarrow> 'ad sponge rule list \<Rightarrow> 'ad sponge \<Rightarrow>
     (failure + 'ad sponge rule list \<times> 'ad sponge) option" where
  "tcp_loop A K condition 0 base_time rules w = None"
| "tcp_loop A K condition (Suc fuel) base_time rules w =
     (case condition w of
        Inl e \<Rightarrow> Some (Inl e)
      | Inr go \<Rightarrow>
          if \<not> go then Some (Inr (rules, w))
          else case wait_next_event K TCP_TICK_MS rules w of
            Inl e \<Rightarrow> Some (Inl e)
          | Inr (ret, rules, w) \<Rightarrow>
              if ret = Exit \<or> k_abort K (os_trace w) then Some (Inr (rules, w))
              else case with_tcp (\<lambda>tcp. Inr (cn_is_active tcp)) w of
                Inl e \<Rightarrow> Some (Inl e)
              | Inr active \<Rightarrow>
                  if active then
                    (case timestamp_ms K w of (next_time, w) \<Rightarrow>
                       (case with_tcp (\<lambda>tcp. ao_tick A K (next_time - base_time)
                               (w\<lparr>sk_tcp := Some (cn_tick (next_time - base_time) tcp)\<rparr>)) w of
                          Inl e \<Rightarrow> Some (Inl e)
                        | Inr w \<Rightarrow> tcp_loop A K condition fuel next_time rules w))
                  else tcp_loop A K condition fuel base_time rules w)"

definition tcp_loop_start ::
    "'ad adapt \<Rightarrow> kernel \<Rightarrow> ('ad sponge \<Rightarrow> failure + bool) \<Rightarrow> nat \<Rightarrow> 'ad sponge rule list \<Rightarrow> 'ad sponge \<Rightarrow>
     (failure + 'ad sponge rule list \<times> 'ad sponge) option" where
  "tcp_loop_start A K condition fuel rules w =
     (case timestamp_ms K w of (base_time, w) \<Rightarrow> tcp_loop A K condition fuel base_time rules w)"

definition state_is :: "state list \<Rightarrow> 'ad sponge \<Rightarrow> failure + bool" where
  "state_is states w = with_tcp (\<lambda>tcp. Inr (\<exists>s \<in> set states. st_eq (cn_state tcp) (official s))) w"

definition sponge_connect ::
    "'x fd_adapter_scheme adapt \<Rightarrow> kernel \<Rightarrow> nat \<Rightarrow> tcp_config \<Rightarrow> fd_adapter_config \<Rightarrow> wrapping_int32 \<Rightarrow>
     'x fd_adapter_scheme sponge \<Rightarrow>
     (failure + 'x fd_adapter_scheme sponge rule list \<times> 'x fd_adapter_scheme sponge) option" where
  "sponge_connect A K fuel c_tcp c_ad random w =
     (if sk_tcp w \<noteq> None
      then Some (Inl (Thrown ''connect() with TCPConnection already initialized''))
      else case initialize_TCP A K c_tcp random w of
        (rules, w) \<Rightarrow>
          let w = w\<lparr>sk_adapter := (sk_adapter w)\<lparr>ad_cfg := c_ad\<rparr>\<rparr>;
              w = w\<lparr>sk_tcp := map_option connect (sk_tcp w)\<rparr>
          in case with_tcp (\<lambda>tcp. Inr (st_eq (cn_state tcp) (official SYN_SENT))) w of
               Inl e \<Rightarrow> Some (Inl e)
             | Inr expected \<Rightarrow>
                 if \<not> expected then Some (Inl (Thrown ''After TCPConnection::connect(), state was''))
                 else tcp_loop_start A K (state_is [SYN_SENT]) fuel rules w)"

definition sponge_listen_and_accept ::
    "'x fd_adapter_scheme adapt \<Rightarrow> kernel \<Rightarrow> nat \<Rightarrow> tcp_config \<Rightarrow> fd_adapter_config \<Rightarrow> wrapping_int32 \<Rightarrow>
     'x fd_adapter_scheme sponge \<Rightarrow>
     (failure + 'x fd_adapter_scheme sponge rule list \<times> 'x fd_adapter_scheme sponge) option" where
  "sponge_listen_and_accept A K fuel c_tcp c_ad random w =
     (if sk_tcp w \<noteq> None
      then Some (Inl (Thrown ''listen_and_accept() with TCPConnection already initialized''))
      else case initialize_TCP A K c_tcp random w of
        (rules, w) \<Rightarrow>
          let w = w\<lparr>sk_adapter := (sk_adapter w)\<lparr>ad_cfg := c_ad\<rparr>\<rparr>;
              w = w\<lparr>sk_adapter := set_listening True (sk_adapter w)\<rparr>
          in tcp_loop_start A K (state_is [LISTEN, SYN_RCVD, SYN_SENT]) fuel rules w)"

text \<open>\<open>_tcp_main\<close>, the thread, on the rules that \<open>connect\<close> or \<open>listen_and_accept\<close> left; an
  exception is printed and thrown again. The last step destroys the connection.\<close>

definition tcp_main ::
    "'ad adapt \<Rightarrow> kernel \<Rightarrow> nat \<Rightarrow> 'ad sponge rule list \<Rightarrow> 'ad sponge \<Rightarrow> (failure + 'ad sponge) option" where
  "tcp_main A K fuel rules w =
     (if sk_tcp w = None then Some (Inl (Thrown ''no TCP''))
      else case tcp_loop_start A K (\<lambda>_. Inr True) fuel rules w of
        None \<Rightarrow> None
      | Some (Inl e) \<Rightarrow> Some (Inl e)
      | Some (Inr (_, w)) \<Rightarrow>
          (case socket_shutdown K OWNER SHUT_RDWR w of
             Inl e \<Rightarrow> Some (Inl e)
           | Inr w \<Rightarrow> Some (Inr (w\<lparr>sk_tcp := None\<rparr>))))"

section \<open>The sockets of the applications\<close>

definition cs144_connect ::
    "kernel \<Rightarrow> nat \<Rightarrow> u16 \<Rightarrow> wrapping_int32 \<Rightarrow> address \<Rightarrow> fd_adapter sponge \<Rightarrow>
     (failure + fd_adapter sponge rule list \<times> fd_adapter sponge) option" where
  "cs144_connect K fuel random_port random address w =
     (let tcp_config = tcp_config_new\<lparr>cfg_rt_timeout := 100\<rparr>;
          multiplexer_config = fd_adapter_config_new
            \<lparr>fc_source := Address 0xA9FE9009 random_port, fc_destination := address\<rparr>
      in sponge_connect tun_adapt K fuel tcp_config multiplexer_config random w)"

unbundle bit_operations_syntax

text \<open>The bytes drawn from \<open>random_device\<close> are the argument.\<close>

fun random_private_ethernet_address :: "ethernet_address \<Rightarrow> ethernet_address" where
  "random_private_ethernet_address (EthernetAddress a b c d e f) =
     EthernetAddress ((a OR 0x02) AND 0xfe) b c d e f"

definition LOCAL_TAP_IP_ADDRESS :: u32 where "LOCAL_TAP_IP_ADDRESS = 0xA9FE0A09"
definition LOCAL_TAP_NEXT_HOP_ADDRESS :: u32 where "LOCAL_TAP_NEXT_HOP_ADDRESS = 0xA9FE0A01"

definition full_stack_adapter :: "ethernet_address \<Rightarrow> tap_output \<times> eth_adapter" where
  "full_stack_adapter random =
     eth_new (random_private_ethernet_address random) (Address LOCAL_TAP_IP_ADDRESS 0)
       (Address LOCAL_TAP_NEXT_HOP_ADDRESS 0)"

definition full_stack_connect ::
    "kernel \<Rightarrow> nat \<Rightarrow> u16 \<Rightarrow> wrapping_int32 \<Rightarrow> address \<Rightarrow> eth_adapter sponge \<Rightarrow>
     (failure + eth_adapter sponge rule list \<times> eth_adapter sponge) option" where
  "full_stack_connect K fuel random_port random address w =
     (let tcp_config = tcp_config_new\<lparr>cfg_rt_timeout := 100\<rparr>;
          multiplexer_config = fd_adapter_config_new
            \<lparr>fc_source := Address LOCAL_TAP_IP_ADDRESS random_port, fc_destination := address\<rparr>
      in sponge_connect eth_adapt K fuel tcp_config multiplexer_config random w)"

end
