(* ===== verification/TcpTransfer.thy ===== *)
theory TcpTransfer
  imports TcpSending
begin

text \<open>
  One sender and one receiver (\<open>tcp_sender.cc\<close>, \<open>tcp_receiver.cc\<close>) with a network in
  between that may lose, repeat and reorder both segments and acknowledgments: the
  composition of the two components, as a step relation.
\<close>

section \<open>The network\<close>

text \<open>
  The segments the sender has popped from its queue and the acknowledgments the receiver has
  produced stay available for ever: the network may deliver each of them any number of times,
  at any time, or never.
\<close>

type_synonym net = "tx_state \<times> (wrapping_int32 \<times> u16) list \<times> byte list \<times> tcp_receiver"

inductive net_step :: "net \<Rightarrow> net \<Rightarrow> bool" where
  sender: "(\<forall>a w. x \<noteq> TxAck a w) \<Longrightarrow> net_step (t, acks, rx) (tx_step x t, acks, rx)"
| deliver: "seg \<in> set sent \<Longrightarrow> rx_step (RxSegment seg) rx = Inr rx' \<Longrightarrow>
    net_step ((W, sent, s), acks, rx) ((W, sent, s), acks, rx')"
| read_out: "rx_step (RxRead n) rx = Inr rx' \<Longrightarrow> net_step (t, acks, rx) (t, acks, rx')"
| reply: "tr_ackno r = Some a \<Longrightarrow> net_step (t, acks, del, r) (t, acks @ [(a, w)], del, r)"
| acknowledge: "(a, w) \<in> set acks \<Longrightarrow> net_step (t, acks, rx) (tx_step (TxAck a w) t, acks, rx)"

inductive_cases net_stepE: "net_step (t, acks, del, r) n'"

definition net_start :: "u64 \<Rightarrow> u16 \<Rightarrow> wrapping_int32 option \<Rightarrow> wrapping_int32 \<Rightarrow> u64 \<Rightarrow> net" where
  "net_start send_cap timeout fixed random recv_cap =
     (([], [], sn_new send_cap timeout fixed random), [], [], tr_new recv_cap)"

text \<open>Bytes once delivered to the reading application stay delivered.\<close>

lemma net_step_delivered:
  "net_step (t, acks, del, r) n' \<Longrightarrow> \<exists>d. fst (snd (snd n')) = del @ d"
  by (erule net_stepE) (auto split: sum.splits prod.splits)

section \<open>The invariant\<close>

text \<open>The absolute sequence number the receiver acknowledges, 0 before the SYN.\<close>

definition rx_level :: "tcp_receiver \<Rightarrow> nat" where
  "rx_level r = (if tr_isn r = None then 0
     else tr_next r + 1 + (if bs_input_ended (stream_out r) then 1 else 0))"

text \<open>\<open>P\<close> is the part of the stream already sent.\<close>

definition rx_follows :: "byte list \<Rightarrow> wrapping_int32 \<Rightarrow> byte list \<Rightarrow> tcp_receiver \<Rightarrow> bool" where
  "rx_follows P isn del r \<longleftrightarrow> tr_ok P isn r \<and> excerpt P 0 (del @ bs_buffer (stream_out r))
     \<and> length del = re_read (tr_reassembler r)"

definition net_ok :: "u64 \<Rightarrow> wrapping_int32 \<Rightarrow> net \<Rightarrow> bool" where
  "net_ok cap isn = (\<lambda>((W, sent, s), acks, del, r). tx_ok (W, sent, s) \<and> sn_isn s = isn
     \<and> tr_capacity r = cap
     \<and> (length W + 3 < 2 ^ 31 \<longrightarrow> rx_follows (take (sn_read s) W) isn del r
         \<and> (tr_fin_received r \<longrightarrow> sn_fin_sent s)
         \<and> (\<forall>(a, w) \<in> set acks. \<exists>n. a = wrap (of_nat n) isn \<and> n \<le> rx_level r)
         \<and> unat (sn_ackno s) \<le> rx_level r))"

text \<open>The sent part grows only before the FIN, so the receiver keeps following it.\<close>

lemma tr_ok_append:
  assumes "tr_ok P isn r" "tr_fin_received r \<longrightarrow> d = []"
  shows "tr_ok (P @ d) isn r"
proof (cases "d = []")
  case False
  then have "\<not> tr_fin_received r" using assms(2) by blast
  then have open_end: "re_eof (tr_reassembler r) = - 1" "\<not> bs_input_ended (re_output (tr_reassembler r))"
    using assms(1) by (auto simp: tr_ok_def stream_out_def)
  then have "re_tracks (P @ d) (tr_reassembler r)"
    using assms(1) by (auto simp: tr_ok_def re_tracks_def re_holds_def intro: excerpt_append)
  then show ?thesis using assms(1) by (simp add: tr_ok_def)
qed (use assms(1) in simp)

lemma rx_follows_append:
  "rx_follows P isn del r \<Longrightarrow> tr_fin_received r \<longrightarrow> d = [] \<Longrightarrow> rx_follows (P @ d) isn del r"
  by (simp add: rx_follows_def tr_ok_append excerpt_append)

lemma rx_follows_next: "rx_follows P isn del r \<Longrightarrow> tr_next r \<le> length P"
  by (auto simp: rx_follows_def tr_ok_def dest: re_tracksD(3))


section \<open>Every step keeps the invariant\<close>

text \<open>What any operation of the sender does to the part already sent.\<close>

lemma tx_step_sent:
  assumes ok: "tx_ok (W, sent, s)" and step: "tx_step x (W, sent, s) = (W', sent', s')"
    and len: "length W' < 2 ^ 62"
  shows "sent_more s s'" "take (sn_read s) W' = take (sn_read s) W"
    "(\<forall>a w. x \<noteq> TxAck a w) \<Longrightarrow> sn_ackno s' = sn_ackno s"
proof -
  have "length W \<le> length W'" using tx_step_grows [of "(W, sent, s)" x] step by simp
  then have sok: "sn_ok W s" using ok len by (simp add: tx_ok_def)
  show "sent_more s s'"
  proof (cases x)
    case (TxWrite d)
    then show ?thesis using step by (auto simp: bs_write_eq [OF sn_okD(1) [OF sok]] sent_more_def)
  next
    case (TxTick ms)
    then show ?thesis using step by (auto simp: sent_more_def)
  qed (use step fill_window_sent_more [OF sok] ack_received_sent_more [OF sok]
      in \<open>auto simp: sent_more_def bs_end_input_def bs_set_error_def send_empty_segment_def\<close>)
  show "take (sn_read s) W' = take (sn_read s) W"
    using step sn_okD(4) [OF sok] by (cases x) auto
  show "sn_ackno s' = sn_ackno s" if "\<forall>a w. x \<noteq> TxAck a w"
    using that step by (cases x) (auto simp: send_empty_segment_def)
qed

lemma ack_received_ackno:
  "sn_ackno (ack_received a w s) = (let A = unwrap a (sn_isn s) (sn_ackno s)
     in if sn_next_seqno s < A then sn_ackno s else max (sn_ackno s) A)"
  by (auto simp: ack_received_def Let_def max_def)

lemma rx_level_le:
  assumes "rx_follows P isn del r"
  shows "rx_level r \<le> length P + 2"
  using rx_follows_next [OF assms] by (simp add: rx_level_def)

text \<open>The sender's own steps.\<close>

lemma net_ok_sender:
  assumes ok: "net_ok cap isn ((W, sent, s), acks, del, r)"
    and step: "tx_step x (W, sent, s) = (W', sent', s')"
    and ack: "\<And>a w. x = TxAck a w \<Longrightarrow> (a, w) \<in> set acks"
  shows "net_ok cap isn ((W', sent', s'), acks, del, r)"
proof -
  have tx: "tx_ok (W, sent, s)" using ok by (simp add: net_ok_def)
  have isn': "sn_isn s' = isn"
    using tx_run_isn [of "[x]" "(W, sent, s)"] step ok by (simp add: net_ok_def)
  have "length W \<le> length W'" using tx_step_grows [of "(W, sent, s)" x] step by simp
  show ?thesis
    unfolding net_ok_def prod.case
  proof (intro conjI impI)
    show "tx_ok (W', sent', s')" using tx_step_ok [OF tx, of x] step by simp
    show "tr_capacity r = cap" using ok by (simp add: net_ok_def)
    assume len: "length W' + 3 < 2 ^ 31"
    then have len': "length W' < 2 ^ 62" "length W + 3 < 2 ^ 31" using \<open>length W \<le> length W'\<close> by simp_all
    have old: "rx_follows (take (sn_read s) W) isn del r" "tr_fin_received r \<longrightarrow> sn_fin_sent s"
      "\<forall>(a, w) \<in> set acks. \<exists>n. a = wrap (of_nat n) isn \<and> n \<le> rx_level r"
      "unat (sn_ackno s) \<le> rx_level r" "sn_isn s = isn"
      using ok len'(2) by (simp_all add: net_ok_def)
    note sent = tx_step_sent [OF tx step len'(1)]
    obtain d where d: "take (sn_read s') W' = take (sn_read s) W @ d" "sn_fin_sent s \<longrightarrow> d = []"
      using sent_prefix_grows [OF sent(1,2)] .
    show "rx_follows (take (sn_read s') W') isn del r"
      unfolding d(1) using old(1,2) d(2) by (intro rx_follows_append) auto
    show "tr_fin_received r \<Longrightarrow> sn_fin_sent s'" using old(2) sent(1) by (simp add: sent_more_def)
    show "\<forall>(a, w) \<in> set acks. \<exists>n. a = wrap (of_nat n) isn \<and> n \<le> rx_level r" by (rule old(3))
    show "unat (sn_ackno s') \<le> rx_level r"
    proof (cases "\<exists>a w. x = TxAck a w")
      case True
      then obtain a w where x: "x = TxAck a w" by blast
      then have s': "s' = ack_received a w s" using step by simp
      obtain n where n: "a = wrap (of_nat n) isn" "n \<le> rx_level r"
        using old(3) ack [OF x] by blast
      have "rx_level r \<le> length W + 2" using rx_level_le [OF old(1)] by simp
      then have small: "n < 2 ^ 31" "unat (sn_ackno s) < 2 ^ 31" using n(2) old(4) len'(2) by simp_all
      then have un: "unat (of_nat n :: u64) = n" by (intro unat_of_nat_u64) simp
      have "unwrap a (sn_isn s) (sn_ackno s) = of_nat n"
        unfolding n(1) old(5)
        by (rule unwrap_wrap_near) (use small in \<open>simp add: un del: of_nat_unat\<close>)
      then show ?thesis
        unfolding s' ack_received_ackno using old(4) n(2) un by (auto simp: Let_def max_def)
    next
      case False
      then show ?thesis using sent(3) old(4) by simp
    qed
  qed (rule isn')
qed


text \<open>The receiver's steps: it takes any segment the sender has emitted, and reads.\<close>

lemma rx_level_mono:
  assumes "tr_next r \<le> tr_next r'" "tr_isn r' = None \<longrightarrow> tr_isn r = None"
    "bs_input_ended (stream_out r) \<longrightarrow> bs_input_ended (stream_out r')"
  shows "rx_level r \<le> rx_level r'"
  using assms by (auto simp: rx_level_def)

lemma deliver_follows:
  assumes follows: "rx_follows P isn del r" and len: "length P < 2 ^ 31 - 1"
    and seg: "carries_nothing seg \<or> (\<exists>i. stream_segment P isn seg i)"
  shows "\<exists>r'. tr_segment_received seg r = Inr r' \<and> rx_follows P isn del r'
    \<and> tr_capacity r' = tr_capacity r \<and> rx_level r \<le> rx_level r'
    \<and> (tr_fin_received r' \<longrightarrow> tr_fin_received r \<or> th_fin (ts_header seg))"
proof -
  have "\<exists>i. segment_at P isn (tr_next r) seg i"
    using seg
  proof
    assume "\<exists>i. stream_segment P isn seg i"
    then obtain i where i: "stream_segment P isn seg i" by blast
    then have "i \<le> length P" by (simp add: stream_segment_def excerpt_def)
    moreover obtain k where k: "tr_next r = k" by blast
    moreover have "length P < 2147483647" "k \<le> length P"
      using rx_follows_next [OF follows] len k by simp_all
    ultimately have "\<bar>int i - int k\<bar> < 2147483647" by linarith
    then have "\<bar>int i - int (tr_next r)\<bar> < 2 ^ 31 - 1" unfolding k by simp
    then show ?thesis using i unfolding segment_at_def by blast
  qed (simp add: segment_at_def)
  then obtain i where at: "segment_at P isn (tr_next r) seg i" by blast
  have ok: "tr_ok P isn r" and small: "length P < 2 ^ 62"
    using follows len by (simp_all add: rx_follows_def)
  from segment_received_ok [OF ok at small] obtain r' where r':
    "tr_segment_received seg r = Inr r'" "tr_ok P isn r'" "tr_capacity r' = tr_capacity r"
    "re_read (tr_reassembler r') = re_read (tr_reassembler r)"
    "tr_isn r' = None \<longleftrightarrow> tr_isn r = None \<and> \<not> th_syn (ts_header seg)" "tr_next r \<le> tr_next r'"
    "bs_input_ended (stream_out r) \<longrightarrow> bs_input_ended (stream_out r')"
    "tr_fin_received r' \<longrightarrow> tr_fin_received r \<or> th_fin (ts_header seg)"
    by (elim exE conjE) (rule that)
  have "excerpt P 0 (take (length del) (del @ bs_buffer (stream_out r)))"
    using follows unfolding rx_follows_def by (intro pieces_of.prefix) simp
  moreover have "excerpt P (length del) (bs_buffer (stream_out r'))"
    using r'(2,4) follows re_tracksD(2)
    by (force simp: tr_ok_def re_holds_def stream_out_def rx_follows_def)
  ultimately have "excerpt P 0 (del @ bs_buffer (stream_out r'))"
    by (intro excerpt_join) simp_all
  then have "rx_follows P isn del r'" using r'(2,4) follows by (simp add: rx_follows_def)
  then show ?thesis using r' rx_level_mono [of r r'] by simp
qed

lemma read_follows:
  assumes follows: "rx_follows P isn del r" and len: "length P + unat (tr_capacity r) < 2 ^ 62"
    and read: "rx_step (RxRead n) (del, r) = Inr (del', r')"
  shows "rx_follows P isn del' r'" "tr_capacity r' = tr_capacity r" "rx_level r' = rx_level r"
    "tr_fin_received r' = tr_fin_received r"
proof -
  have ok: "tr_ok P isn r" using follows by (simp add: rx_follows_def)
  have single: "honest_run P isn [RxRead n] (del, r)" by (simp add: split_beta)
  have run: "rx_run [RxRead n] (del, r) = Inr (del', r')" using read by (simp add: split_beta)
  from rx_run_tracks [OF ok _ _ single len] follows run
  show "rx_follows P isn del' r'" "tr_capacity r' = tr_capacity r"
    by (auto simp: rx_follows_def)
  show "rx_level r' = rx_level r" "tr_fin_received r' = tr_fin_received r"
    using read by (auto simp: rx_level_def split_beta stream_out_def)
qed

lemma net_ok_receiver:
  assumes ok: "net_ok cap isn ((W, sent, s), acks, del, r)" and cap: "unat cap < 2 ^ 61"
    and step: "rx_step x (del, r) = Inr (del', r')"
    and seg: "\<And>seg. x = RxSegment seg \<Longrightarrow> seg \<in> set sent"
  shows "net_ok cap isn ((W, sent, s), acks, del', r')"
proof (cases "length W + 3 < 2 ^ 31")
  case False
  have "tr_capacity r' = tr_capacity r"
    using step by (cases x) (auto simp: tr_segment_received_def Let_def split: option.splits sum.splits if_splits prod.splits)
  then show ?thesis using ok False by (simp add: net_ok_def)
next
  case True
  let ?P = "take (sn_read s) W"
  have old: "rx_follows ?P isn del r" "tr_fin_received r \<longrightarrow> sn_fin_sent s"
    "\<forall>(a, w) \<in> set acks. \<exists>n. a = wrap (of_nat n) isn \<and> n \<le> rx_level r"
    "unat (sn_ackno s) \<le> rx_level r" "sn_isn s = isn" "tr_capacity r = cap" "tx_ok (W, sent, s)"
    using ok True by (simp_all add: net_ok_def)
  have emitted: "\<forall>seg \<in> set sent. emitted_ok W s seg"
    using old(7) True by (simp add: tx_ok_def)
  have new: "rx_follows ?P isn del' r' \<and> tr_capacity r' = cap \<and> rx_level r \<le> rx_level r'
      \<and> (tr_fin_received r' \<longrightarrow> sn_fin_sent s)"
  proof (cases x)
    case (RxSegment seg)
    then have e: "emitted_ok W s seg" using seg emitted by blast
    have "length ?P < 2 ^ 31 - 1" using True by simp
    moreover have "carries_nothing seg \<or> (\<exists>i. stream_segment ?P isn seg i)"
      using e old(5) by (simp add: emitted_ok_def)
    ultimately obtain r1 where r1: "tr_segment_received seg r = Inr r1" "rx_follows ?P isn del r1"
      "tr_capacity r1 = tr_capacity r" "rx_level r \<le> rx_level r1"
      "tr_fin_received r1 \<longrightarrow> tr_fin_received r \<or> th_fin (ts_header seg)"
      using deliver_follows [OF old(1)] by blast
    then have "del' = del" "r' = r1" using step RxSegment by simp_all
    then show ?thesis using r1 old(2,6) e by (auto simp: emitted_ok_def)
  next
    case (RxRead n)
    have "length ?P + unat (tr_capacity r) < 2 ^ 62" using True cap old(6) by simp
    from read_follows [OF old(1) this step [unfolded RxRead]] show ?thesis
      using old(2,6) by simp
  qed
  have "\<exists>n. a = wrap (of_nat n) isn \<and> n \<le> rx_level r'" if "(a, w) \<in> set acks" for a w
    using old(3) that new by (blast intro: order_trans)
  then show ?thesis using new old(4,5,7) by (auto simp: net_ok_def)
qed

lemma net_ok_reply:
  assumes ok: "net_ok cap isn (t, acks, del, r)" and "tr_ackno r = Some a"
  shows "net_ok cap isn (t, acks @ [(a, w)], del, r)"
proof -
  obtain W sent s where t: "t = (W, sent, s)" by (cases t)
  have "\<exists>n. a = wrap (of_nat n) isn \<and> n \<le> rx_level r"
    if len: "length W + 3 < 2 ^ 31"
  proof -
    have "tr_ok (take (sn_read s) W) isn r" using ok len by (simp add: net_ok_def t rx_follows_def)
    from tr_ackno_eq [OF this] have "a = wrap (of_nat (rx_level r)) isn"
      using assms(2) by (simp add: rx_level_def split: if_splits)
    then show ?thesis by blast
  qed
  then show ?thesis using ok by (auto simp: net_ok_def t)
qed

lemma net_ok_start:
  assumes "unat cap < 2 ^ 61"
  shows "net_ok cap (case fixed of Some i \<Rightarrow> i | None \<Rightarrow> random) (net_start scap timeout fixed random cap)"
proof -
  let ?s = "sn_new scap timeout fixed random"
  have "tx_ok ([], [], ?s)" using sn_new_ok by (simp add: tx_ok_def) (simp add: sn_new_def)
  moreover have "rx_follows [] isn [] (tr_new cap)" for isn
    using re_new_tracks [of cap "[]"] assms
    by (simp add: rx_follows_def tr_ok_def tr_new_def stream_out_def) (simp add: re_new_def bs_new_def excerpt_def)
  moreover have "\<not> tr_fin_received (tr_new cap)" "tr_capacity (tr_new cap) = cap"
    by (simp_all add: tr_new_def)
  ultimately show ?thesis by (simp add: net_ok_def net_start_def) (simp add: sn_new_def)
qed

lemma net_step_ok:
  assumes "net_step n n'" "net_ok cap isn n" "unat cap < 2 ^ 61"
  shows "net_ok cap isn n'"
  using assms
proof (induction rule: net_step.induct)
  case (sender x t acks rx)
  then show ?case by (cases t; cases rx; cases "tx_step x t") (auto intro: net_ok_sender)
next
  case (deliver seg sent rx rx' W s acks)
  then show ?case by (cases rx; cases rx') (auto simp del: rx_step.simps intro: net_ok_receiver)
next
  case (read_out n rx rx' t acks)
  then show ?case by (cases t; cases rx; cases rx') (blast intro: net_ok_receiver)
next
  case (reply r a t acks del w)
  then show ?case by (blast intro: net_ok_reply)
next
  case (acknowledge a w acks t rx)
  then show ?case
    by (cases t; cases rx; cases "tx_step (TxAck a w) t") (auto simp del: tx_step.simps intro: net_ok_sender)
qed

abbreviation net_run :: "net \<Rightarrow> net \<Rightarrow> bool" where
  "net_run \<equiv> net_step\<^sup>*\<^sup>*"

lemma net_run_ok:
  assumes "net_run (net_start scap timeout fixed random cap) n" "unat cap < 2 ^ 61"
  shows "net_ok cap (case fixed of Some i \<Rightarrow> i | None \<Rightarrow> random) n"
  using assms(1)
proof (induction rule: rtranclp_induct)
  case base
  show ?case by (rule net_ok_start [OF assms(2)])
next
  case (step n n')
  then show ?case using net_step_ok assms(2) by blast
qed


section \<open>The transfer is correct\<close>

text \<open>What the invariant says of the bytes delivered, and of a finished transfer.\<close>

lemma net_ok_prefix:
  assumes "net_ok cap isn ((W, sent, s), acks, del, r)" and "length W + 3 < 2 ^ 31"
  shows "del @ bs_buffer (stream_out r) = take (tr_next r) W
     \<and> tr_next r \<le> unat (bs_bytes_read (sn_stream s))
     \<and> (bs_input_ended (stream_out r) \<longrightarrow> tr_next r = length W \<and> bs_input_ended (sn_stream s))
     \<and> unat (sn_ackno s) \<le> rx_level r
     \<and> (\<forall>seg \<in> set sent. \<exists>r'. tr_segment_received seg r = Inr r')"
proof -
  let ?P = "take (sn_read s) W"
  have inv: "rx_follows ?P isn del r" "tr_fin_received r \<longrightarrow> sn_fin_sent s"
    "unat (sn_ackno s) \<le> rx_level r" "tx_ok (W, sent, s)" "sn_isn s = isn"
    using assms by (simp_all add: net_ok_def)
  have sok: "sn_ok W s" and emitted: "\<forall>seg \<in> set sent. emitted_ok W s seg"
    using inv(4) assms(2) by (simp_all add: tx_ok_def)
  note sn = sn_okD [OF sok]
  have tok: "tr_ok ?P isn r" using inv(1) by (simp add: rx_follows_def)
  have next_le: "tr_next r \<le> sn_read s" using rx_follows_next [OF inv(1)] by simp
  have "length (del @ bs_buffer (stream_out r)) = tr_next r"
    using inv(1) re_okD(4) re_tracksD(1) by (fastforce simp: rx_follows_def tr_ok_def stream_out_def)
  then have prefix: "del @ bs_buffer (stream_out r) = take (tr_next r) W"
    using inv(1) next_le by (simp add: rx_follows_def excerpt_def min_absorb1)
  have complete: "tr_next r = length W \<and> bs_input_ended (sn_stream s)" if "bs_input_ended (stream_out r)"
  proof -
    have "tr_next r = length ?P" "tr_fin_received r"
      using that tok by (simp_all add: tr_ok_def re_tracks_def stream_out_def)
    then show ?thesis using inv(2) sn(3,4,7) by simp
  qed
  have safe: "\<exists>r'. tr_segment_received seg r = Inr r'" if "seg \<in> set sent" for seg
  proof -
    have "carries_nothing seg \<or> (\<exists>i. stream_segment ?P isn seg i)"
      using emitted that inv(5) by (simp add: emitted_ok_def)
    moreover have "length ?P < 2 ^ 31 - 1" using assms(2) by simp
    ultimately show ?thesis using deliver_follows [OF inv(1)] by blast
  qed
  show ?thesis using prefix next_le complete inv(3) safe by blast
qed

lemma net_ok_complete:
  assumes "net_ok cap isn ((W, sent, s), acks, del, r)" and "length W + 3 < 2 ^ 31"
    and "sn_fin_sent s" "sn_bytes_in_flight s = 0"
  shows "del @ bs_buffer (stream_out r) = W \<and> bs_input_ended (stream_out r)"
proof -
  have inv: "rx_follows (take (sn_read s) W) isn del r"
    "unat (sn_ackno s) \<le> rx_level r" "tx_ok (W, sent, s)"
    using assms(1,2) by (simp_all add: net_ok_def)
  have sok: "sn_ok W s" using inv(3) assms(2) by (simp add: tx_ok_def)
  note sn = sn_okD [OF sok]
  have all: "sn_read s = length W" using sn(3,4,7) assms(3) by simp
  have "sn_syn_sent s" using sn(6) assms(3) by blast
  then have "unat (sn_next_seqno s) = length W + 2" using sn(5) all assms(3) by simp
  then have "length W + 2 \<le> rx_level r"
    using bytes_in_flight_eq(2) [OF sok] assms(4) inv(2) by simp
  moreover have "tr_next r \<le> length W" using rx_follows_next [OF inv(1)] by simp
  ultimately have full: "tr_next r = length W" "bs_input_ended (stream_out r)"
    by (auto simp: rx_level_def split: if_splits)
  have "length (del @ bs_buffer (stream_out r)) = tr_next r"
    using inv(1) re_okD(4) re_tracksD(1) by (fastforce simp: rx_follows_def tr_ok_def stream_out_def)
  then have "del @ bs_buffer (stream_out r) = take (tr_next r) W"
    using inv(1) full(1) all by (simp add: rx_follows_def excerpt_def)
  then show ?thesis using full by simp
qed

text \<open>Over a network that loses, repeats and reorders segments and acknowledgments at
  will, the receiver never fails on a segment, and what it has delivered and buffers is
  exactly a prefix of what the application wrote at the sender, no longer than what was sent.
  It ends its stream only when that is the whole of an ended stream; and the sender takes as
  acknowledged only what the receiver has assembled.\<close>

theorem transfer_delivers_prefix:
  assumes "net_run (net_start scap timeout fixed random cap) ((W, sent, s), acks, del, r)"
    and "length W + 3 < 2 ^ 31" "unat cap < 2 ^ 61"
  shows "del @ bs_buffer (stream_out r) = take (tr_next r) W
     \<and> tr_next r \<le> unat (bs_bytes_read (sn_stream s))
     \<and> (bs_input_ended (stream_out r) \<longrightarrow> tr_next r = length W \<and> bs_input_ended (sn_stream s))
     \<and> unat (sn_ackno s) \<le> rx_level r
     \<and> (\<forall>seg \<in> set sent. \<exists>r'. tr_segment_received seg r = Inr r')"
  by (rule net_ok_prefix [OF net_run_ok [OF assms(1,3)] assms(2)])

text \<open>When the sender has sent its FIN and nothing is in flight any more, the transfer is
  complete: the receiver has delivered or buffers every byte ever written, and its stream has
  ended.\<close>

theorem transfer_completes:
  assumes "net_run (net_start scap timeout fixed random cap) ((W, sent, s), acks, del, r)"
    and "length W + 3 < 2 ^ 31" "unat cap < 2 ^ 61"
    and "sn_fin_sent s" "sn_bytes_in_flight s = 0"
  shows "del @ bs_buffer (stream_out r) = W \<and> bs_input_ended (stream_out r)"
  by (rule net_ok_complete [OF net_run_ok [OF assms(1,3)] assms(2,4,5)])

text \<open>An executable schedule of the network, for concrete runs.\<close>

datatype net_op = Sender tx_op | Deliver nat | ReadOut u64 | Reply u16 | Acknowledge nat

fun net_exec :: "net_op \<Rightarrow> net \<Rightarrow> net option" where
  "net_exec (Sender x) (t, acks, rx) =
     (case x of TxAck _ _ \<Rightarrow> None | _ \<Rightarrow> Some (tx_step x t, acks, rx))"
| "net_exec (Deliver i) ((W, sent, s), acks, rx) =
     (if i < length sent then
        (case rx_step (RxSegment (sent ! i)) rx of Inl _ \<Rightarrow> None | Inr rx' \<Rightarrow> Some ((W, sent, s), acks, rx'))
      else None)"
| "net_exec (ReadOut n) (t, acks, rx) =
     (case rx_step (RxRead n) rx of Inl _ \<Rightarrow> None | Inr rx' \<Rightarrow> Some (t, acks, rx'))"
| "net_exec (Reply w) (t, acks, del, r) =
     (case tr_ackno r of None \<Rightarrow> None | Some a \<Rightarrow> Some (t, acks @ [(a, w)], del, r))"
| "net_exec (Acknowledge i) (t, acks, rx) =
     (if i < length acks then
        (case acks ! i of (a, w) \<Rightarrow> Some (tx_step (TxAck a w) t, acks, rx))
      else None)"

fun net_exec_all :: "net_op list \<Rightarrow> net \<Rightarrow> net option" where
  "net_exec_all [] n = Some n"
| "net_exec_all (x # xs) n = (case net_exec x n of None \<Rightarrow> None | Some n' \<Rightarrow> net_exec_all xs n')"

lemma net_exec_step: "net_exec x n = Some n' \<Longrightarrow> net_step n n'"
  by (induction x n rule: net_exec.induct)
    (auto split: sum.splits option.splits if_splits prod.splits tx_op.splits
      simp del: tx_step.simps rx_step.simps intro: net_step.intros nth_mem,
      metis nth_mem net_step.acknowledge)

lemma net_exec_run: "net_exec_all xs n = Some n' \<Longrightarrow> net_run n n'"
  by (induction xs arbitrary: n)
    (auto split: option.splits intro: converse_rtranclp_into_rtranclp net_exec_step)


text \<open>A complete transfer of two segments: the first is delivered twice, after the second.\<close>

abbreviation net_example :: "net_op list" where
  "net_example \<equiv> [Sender TxFill, Sender TxPop, Deliver 0, Reply 9, Acknowledge 0,
     Sender (TxWrite [1, 2]), Sender TxFill, Sender TxPop, Sender (TxWrite [3]), Sender TxEnd,
     Sender TxFill, Sender TxPop, Deliver 2, Deliver 1, Deliver 1, ReadOut 2, Reply 9, Acknowledge 1]"

abbreviation net_example_end :: "net option" where
  "net_example_end \<equiv> net_exec_all net_example
     (net_start 10 1000 (Some (WrappingInt32 0xFFFFFFFE)) (WrappingInt32 0) 10)"

lemma net_example_runs:
  "case net_example_end of None \<Rightarrow> False
   | Some ((W, sent, s), acks, del, r) \<Rightarrow> W = [1, 2, 3] \<and> sn_fin_sent s \<and> sn_bytes_in_flight s = 0
       \<and> del = [1, 2]"
  by code_simp

lemma net_example_reached:
  obtains W sent s acks del r where "net_example_end = Some ((W, sent, s), acks, del, r)"
    "net_run (net_start 10 1000 (Some (WrappingInt32 0xFFFFFFFE)) (WrappingInt32 0) 10)
       ((W, sent, s), acks, del, r)"
    "W = [1, 2, 3]" "sn_fin_sent s" "sn_bytes_in_flight s = 0" "del = [1, 2]"
proof -
  obtain W sent s acks del r where e: "net_example_end = Some ((W, sent, s), acks, del, r)"
    using net_example_runs by (cases net_example_end) (auto simp del: net_exec_all.simps)
  show thesis
    by (rule that [OF e net_exec_run [OF e]]) (use net_example_runs in \<open>simp_all only: e option.case prod.case\<close>)
qed

theorem transfer_delivers_prefix_witness:
  "case net_example_end of None \<Rightarrow> False
   | Some ((W, sent, s), acks, del, r) \<Rightarrow> del @ bs_buffer (stream_out r) = take (tr_next r) W
       \<and> unat (sn_ackno s) \<le> rx_level r"
proof -
  obtain W sent s acks del r where e: "net_example_end = Some ((W, sent, s), acks, del, r)"
    and run: "net_run (net_start 10 1000 (Some (WrappingInt32 0xFFFFFFFE)) (WrappingInt32 0) 10)
       ((W, sent, s), acks, del, r)" and W: "W = [1, 2, 3]"
    by (rule net_example_reached)
  have "length W + 3 < 2 ^ 31" unfolding W by simp
  from transfer_delivers_prefix [OF run this] show ?thesis unfolding e by simp
qed

theorem transfer_completes_witness:
  "case net_example_end of None \<Rightarrow> False
   | Some ((W, sent, s), acks, del, r) \<Rightarrow> del @ bs_buffer (stream_out r) = [1, 2, 3]"
proof -
  obtain W sent s acks del r where e: "net_example_end = Some ((W, sent, s), acks, del, r)"
    and run: "net_run (net_start 10 1000 (Some (WrappingInt32 0xFFFFFFFE)) (WrappingInt32 0) 10)
       ((W, sent, s), acks, del, r)"
    and final: "W = [1, 2, 3]" "sn_fin_sent s" "sn_bytes_in_flight s = 0"
    by (rule net_example_reached)
  have "length W + 3 < 2 ^ 31" unfolding final by simp
  from transfer_completes [OF run this _ final(2,3)] show ?thesis unfolding e final(1) by simp
qed

end
