(* ===== verification/TcpPair.thy ===== *)
theory TcpPair
  imports TcpConnection TcpTransfer
begin

text \<open>
  Two endpoints of \<open>tcp_connection.cc\<close> joined by a network that may lose, repeat and reorder
  whatever either of them has sent: the composition of all of TCP. Each direction of it is
  shown to be a run of the one-way transfer of \<open>TcpTransfer\<close>.
\<close>

section \<open>The endpoints and the network\<close>

text \<open>
  What the owner of a connection does with it. \<open>CnReceive i\<close> is the arrival of the \<open>i\<close>-th
  segment the peer has ever put on the wire, \<open>CnPop\<close> takes the next segment from
  \<open>segments_out\<close> and puts it on the wire, \<open>CnRead\<close> reads from \<open>inbound_stream\<close>. The
  application connects only while the connection is active.
\<close>

datatype cn_op = CnConnect | CnWrite "byte list" | CnEnd | CnTick u64 | CnRead u64
  | CnReceive nat | CnPop | CnDestroy

text \<open>An endpoint: the bytes its stream has accepted, the bytes its application has read, the
  segments it has put on the wire, and the connection.\<close>

type_synonym endpoint = "byte list \<times> byte list \<times> tcp_segment list \<times> tcp_connection"

definition cn_read :: "u64 \<Rightarrow> tcp_connection \<Rightarrow> byte list \<times> tcp_connection" where
  "cn_read n c =
     (let (d, out) = bs_read n (stream_out (cn_receiver c))
      in (d, c\<lparr>cn_receiver := (cn_receiver c)
               \<lparr>tr_reassembler := (tr_reassembler (cn_receiver c))\<lparr>re_output := out\<rparr>\<rparr>\<rparr>))"

fun cn_step :: "cn_op \<Rightarrow> tcp_segment list \<Rightarrow> endpoint \<Rightarrow> failure + endpoint" where
  "cn_step CnConnect wire (W, del, sent, c) =
     Inr (W, del, sent, if cn_is_active c then connect c else c)"
| "cn_step (CnWrite d) wire (W, del, sent, c) =
     (let (n, c) = cn_write d c in Inr (W @ take (unat n) d, del, sent, c))"
| "cn_step CnEnd wire (W, del, sent, c) = Inr (W, del, sent, end_input_stream c)"
| "cn_step (CnTick ms) wire (W, del, sent, c) = Inr (W, del, sent, cn_tick ms c)"
| "cn_step (CnRead n) wire (W, del, sent, c) =
     (let (d, c) = cn_read n c in Inr (W, del @ d, sent, c))"
| "cn_step (CnReceive i) wire (W, del, sent, c) =
     (if i < length wire
      then (case segment_received (wire ! i) c of Inl e \<Rightarrow> Inl e | Inr c \<Rightarrow> Inr (W, del, sent, c))
      else Inr (W, del, sent, c))"
| "cn_step CnPop wire (W, del, sent, c) =
     Inr (W, del, sent @ take 1 (cn_segments_out c), c\<lparr>cn_segments_out := drop 1 (cn_segments_out c)\<rparr>)"
| "cn_step CnDestroy wire (W, del, sent, c) = Inr (W, del, sent, destroy c)"

abbreviation on_the_wire :: "endpoint \<Rightarrow> tcp_segment list" where
  "on_the_wire e \<equiv> fst (snd (snd e))"

text \<open>An event is an operation at the first (\<open>True\<close>) or the second endpoint.\<close>

type_synonym event = "bool \<times> cn_op"

definition pair_step :: "event \<Rightarrow> endpoint \<times> endpoint \<Rightarrow> failure + endpoint \<times> endpoint" where
  "pair_step x p = (case p of (a, b) \<Rightarrow>
     if fst x then (case cn_step (snd x) (on_the_wire b) a of Inl e \<Rightarrow> Inl e | Inr a \<Rightarrow> Inr (a, b))
     else (case cn_step (snd x) (on_the_wire a) b of Inl e \<Rightarrow> Inl e | Inr b \<Rightarrow> Inr (a, b)))"

fun pair_run :: "event list \<Rightarrow> endpoint \<times> endpoint \<Rightarrow> failure + endpoint \<times> endpoint" where
  "pair_run [] p = Inr p"
| "pair_run (x # xs) p = (case pair_step x p of Inl e \<Rightarrow> Inl e | Inr p \<Rightarrow> pair_run xs p)"

definition fresh :: "tcp_config \<Rightarrow> wrapping_int32 \<Rightarrow> endpoint" where
  "fresh cfg random = ([], [], [], cn_new cfg random)"

text \<open>How many bytes the applications try to write in a run.\<close>

fun offered :: "event list \<Rightarrow> nat" where
  "offered [] = 0"
| "offered ((_, CnWrite d) # xs) = length d + offered xs"
| "offered (_ # xs) = offered xs"

section \<open>The simulation\<close>

text \<open>A reset sets the error flag of the receiver's stream, which nothing in \<open>TcpTransfer\<close> does.\<close>

definition clear :: "tcp_receiver \<Rightarrow> tcp_receiver" where
  "clear r = r\<lparr>tr_reassembler := (tr_reassembler r)\<lparr>re_output := (stream_out r)\<lparr>bs_error := False\<rparr>\<rparr>\<rparr>"

text \<open>A segment of the connection: a reset, or one that the sender has sent, with an
  acknowledgment that the receiver has given.\<close>

definition genuine :: "tcp_segment list \<Rightarrow> (wrapping_int32 \<times> u16) list \<Rightarrow> tcp_segment \<Rightarrow> bool" where
  "genuine tx acks seg \<longleftrightarrow> th_rst (ts_header seg) \<or>
     (\<exists>seg0 \<in> set tx. bare seg = bare seg0) \<and>
     (th_ack (ts_header seg) \<longrightarrow> (th_ackno (ts_header seg), th_win (ts_header seg)) \<in> set acks)"

lemma genuine_mono: "genuine tx acks seg \<Longrightarrow> genuine (tx @ tx') (acks @ acks') seg"
  by (auto simp: genuine_def)

text \<open>One endpoint (its accepted and delivered bytes, the segments it has produced, its sender
  and receiver) against the other, \<open>peer\<close>: the outgoing direction is a run of the transfer
  from \<open>n1\<close>, the incoming one a run from \<open>n2\<close>.\<close>

definition half ::
    "net \<Rightarrow> net \<Rightarrow> net \<Rightarrow> byte list \<Rightarrow> byte list \<Rightarrow> tcp_segment list \<Rightarrow> tcp_sender \<Rightarrow> tcp_receiver \<Rightarrow> bool" where
  "half n1 n2 peer W del out s r \<longleftrightarrow> (case peer of (t, acks', del', r') \<Rightarrow>
     \<exists>tx acks. net_run n1 ((W, tx, s), acks', del', clear r') \<and> net_run n2 (t, acks, del, clear r)
       \<and> (\<forall>seg \<in> set out. genuine tx acks seg))"

definition sim :: "net \<Rightarrow> net \<Rightarrow> endpoint \<times> endpoint \<Rightarrow> bool" where
  "sim n1 n2 p \<longleftrightarrow> (case p of ((W, del, sent, c), (W', del', sent', c')) \<Rightarrow>
     \<exists>tx' acks'. half n1 n2 ((W', tx', cn_sender c'), acks', del', cn_receiver c')
         W del (sent @ cn_segments_out c) (cn_sender c) (cn_receiver c)
       \<and> (\<forall>seg \<in> set (sent' @ cn_segments_out c'). genuine tx' acks' seg))"

lemma sim_swap: "sim n1 n2 (a, b) \<longleftrightarrow> sim n2 n1 (b, a)"
  by (cases a; cases b) (auto simp: sim_def half_def)

section \<open>Elementary steps of one endpoint\<close>

text \<open>The operations of the sender alone.\<close>

lemma half_sender:
  assumes "half n1 n2 peer W del out s r" "\<forall>a w. x \<noteq> TxAck a w"
    and step: "\<And>tx. tx_step x (W, tx, s) = (W', tx @ d, s')"
  shows "half n1 n2 peer W' del out s' r"
proof -
  obtain t acks' del' r' where peer: "peer = (t, acks', del', r')" by (cases peer)
  from assms(1) obtain tx acks where h: "net_run n1 ((W, tx, s), acks', del', clear r')"
    "net_run n2 (t, acks, del, clear r)" "\<forall>seg \<in> set out. genuine tx acks seg"
    unfolding half_def peer by auto
  have "net_run n1 ((W', tx @ d, s'), acks', del', clear r')"
    using rtranclp.rtrancl_into_rtrancl [OF h(1) net_step.sender [OF assms(2)]] unfolding step .
  moreover have "\<forall>seg \<in> set out. genuine (tx @ d) acks seg"
    using h(3) genuine_mono [of tx acks _ d "[]"] by simp
  ultimately show ?thesis using h(2) unfolding half_def peer by auto
qed

lemmas half_fill = half_sender [where x = TxFill and d = "[]", simplified]
  and half_end = half_sender [where x = TxEnd and d = "[]", simplified]
  and half_tick = half_sender [where x = "TxTick ms" and d = "[]" for ms, simplified]
  and half_empty = half_sender [where x = TxEmpty and d = "[]", simplified]
  and half_error = half_sender [where x = TxError and d = "[]", simplified]
  and half_write = half_sender [where x = "TxWrite b" and d = "[]" for b, simplified]

text \<open>An acknowledgment of the peer reaches the sender.\<close>

lemma half_ack:
  assumes "half n1 n2 (t, acks', del', r') W del out s r" "(a, w) \<in> set acks'"
  shows "half n1 n2 (t, acks', del', r') W del out (ack_received a w s) r"
proof -
  from assms(1) obtain tx acks where h: "net_run n1 ((W, tx, s), acks', del', clear r')"
    "net_run n2 (t, acks, del, clear r)" "\<forall>seg \<in> set out. genuine tx acks seg"
    unfolding half_def by auto
  have "net_run n1 ((W, tx, ack_received a w s), acks', del', clear r')"
    using rtranclp.rtrancl_into_rtrancl [OF h(1) net_step.acknowledge [OF assms(2)]] by simp
  then show ?thesis using h(2,3) unfolding half_def by auto
qed

text \<open>The oldest segment of the sender leaves the connection, stamped.\<close>

lemma clear_acks [simp]: "tr_ackno (clear r) = tr_ackno r" "tr_window_size (clear r) = tr_window_size r"
  by (simp_all add: clear_def tr_ackno_def tr_window_size_def stream_out_def Let_def split: option.split)

lemma half_pop:
  assumes "half n1 n2 peer W del out s r" "sn_segments_out s = seg # segs" "\<not> th_ack (ts_header seg)"
  shows "half n1 n2 peer W del (out @ [stamp r seg]) (s\<lparr>sn_segments_out := segs\<rparr>) r"
proof -
  obtain t acks' del' r' where peer: "peer = (t, acks', del', r')" by (cases peer)
  from assms(1) obtain tx acks where h: "net_run n1 ((W, tx, s), acks', del', clear r')"
    "net_run n2 (t, acks, del, clear r)" "\<forall>seg \<in> set out. genuine tx acks seg"
    unfolding half_def peer by auto
  have sent: "net_run n1 ((W, tx @ [seg], s\<lparr>sn_segments_out := segs\<rparr>), acks', del', clear r')"
    using rtranclp.rtrancl_into_rtrancl [OF h(1) net_step.sender [of TxPop]] assms(2) by simp
  obtain acks2 where acks2: "net_run n2 (t, acks @ acks2, del, clear r)"
    "tr_ackno r \<noteq> None \<longrightarrow> (th_ackno (ts_header (stamp r seg)), th_win (ts_header (stamp r seg))) \<in> set acks2"
  proof (cases "tr_ackno r")
    case None
    then show ?thesis using that [of "[]"] h(2) by simp
  next
    case (Some a)
    then have "tr_ackno (clear r) = Some a" by simp
    from rtranclp.rtrancl_into_rtrancl [OF h(2) net_step.reply [OF this]] show ?thesis
      using that Some stamp_ack(2) [OF Some] by (metis list.set_intros(1))
  qed
  have "genuine (tx @ [seg]) (acks @ acks2) (stamp r seg)"
    using acks2(2) assms(3) by (auto simp: genuine_def stamp_ack(1))
  moreover have "\<forall>seg' \<in> set out. genuine (tx @ [seg]) (acks @ acks2) seg'"
    using h(3) genuine_mono by blast
  ultimately show ?thesis
    unfolding half_def peer prod.case
    by (intro exI [of _ "tx @ [seg]"] exI [of _ "acks @ acks2"]) (use sent acks2(1) in auto)
qed

lemma half_push:
  assumes "half n1 n2 peer W del out s r" "\<forall>seg \<in> set (sn_segments_out s). \<not> th_ack (ts_header seg)"
  shows "half n1 n2 peer W del (out @ map (stamp r) (sn_segments_out s)) (s\<lparr>sn_segments_out := []\<rparr>) r"
  using assms
proof (induction "sn_segments_out s" arbitrary: s out)
  case Nil
  have "s\<lparr>sn_segments_out := []\<rparr> = s" using Nil.hyps by (cases s) simp
  then show ?case using Nil.prems(1) by (simp only: Nil.hyps [symmetric] list.map append_Nil2)
next
  case (Cons seg segs)
  have "half n1 n2 peer W del (out @ [stamp r seg]) (s\<lparr>sn_segments_out := segs\<rparr>) r"
    using Cons.hyps(2) Cons.prems by (intro half_pop) (simp_all flip: Cons.hyps(2))
  then have "half n1 n2 peer W del ((out @ [stamp r seg]) @ map (stamp r) segs) (s\<lparr>sn_segments_out := []\<rparr>) r"
    using Cons.hyps(1) [of "s\<lparr>sn_segments_out := segs\<rparr>" "out @ [stamp r seg]"] Cons.prems(2)
    by (simp flip: Cons.hyps(2))
  then show ?case by (simp flip: Cons.hyps(2))
qed

text \<open>The receiver takes a segment of the peer, and never fails; the error flag stays as it is.\<close>

lemma bs_write_keeps_error [simp]: "bs_error (snd (bs_write d b)) = bs_error b"
  by (simp add: bs_write_def Let_def)

lemma re_store_error: "re_store data i n new_idx r = Inr r2 \<Longrightarrow> bs_error (re_output r2) = bs_error (re_output r)"
  by (auto simp: re_store_def Let_def split_beta split: if_splits sum.splits)

lemma re_assemble_error: "re_assemble strs r = Inr r3 \<Longrightarrow> bs_error (re_output r3) = bs_error (re_output r)"
proof (induction strs arbitrary: r)
  case (Cons entry rest)
  obtain idx str where entry: "entry = (idx, str)" by (cases entry)
  obtain n b where w: "bs_write str (re_output r) = (n, b)" by (cases "bs_write str (re_output r)")
  have "bs_error b = bs_error (re_output r)" using bs_write_keeps_error [of str "re_output r"] w by simp
  then show ?case
    using Cons.prems Cons.IH by (fastforce simp: entry w Let_def split: if_splits sum.splits)
qed simp

lemma re_push_error:
  assumes "re_push data index eof r = Inr r'"
  shows "bs_error (re_output r') = bs_error (re_output r)"
  using assms re_store_error re_assemble_error
  by (fastforce simp: re_push_def re_finish_def bs_end_input_def Let_def split_beta split: if_splits sum.splits)

lemma tr_segment_received_error:
  assumes "tr_segment_received seg r = Inr r'"
  shows "bs_error (stream_out r') = bs_error (stream_out r)"
  using assms re_push_error
  by (fastforce simp: tr_segment_received_def stream_out_def Let_def split: option.splits sum.splits if_splits)

lemma clear_id: "\<not> bs_error (stream_out r) \<Longrightarrow> clear r = r"
  by (simp add: clear_def stream_out_def)

definition net_good :: "net \<Rightarrow> bool" where
  "net_good n \<longleftrightarrow> (\<exists>cap isn. \<forall>n'. net_run n n' \<longrightarrow> net_ok cap isn n')"

lemma net_good_start: "unat cap < 2 ^ 61 \<Longrightarrow> net_good (net_start scap timeout fixed random cap)"
  unfolding net_good_def using net_run_ok by blast

lemma half_receive:
  assumes half: "half n1 n2 ((W', tx', s'), acks', del', r') W del out s r"
    and seg: "genuine tx' acks' seg" "\<not> th_rst (ts_header seg)"
    and good: "net_good n2" "length W' + 3 < 2 ^ 31" and no_error: "\<not> bs_error (stream_out r)"
  shows "\<exists>r2. tr_segment_received seg r = Inr r2
    \<and> half n1 n2 ((W', tx', s'), acks', del', r') W del out s r2 \<and> \<not> bs_error (stream_out r2)"
proof -
  from half obtain tx acks where h: "net_run n1 ((W, tx, s), acks', del', clear r')"
    "net_run n2 ((W', tx', s'), acks, del, r)" "\<forall>seg \<in> set out. genuine tx acks seg"
    unfolding half_def clear_id [OF no_error] by auto
  obtain seg0 where seg0: "seg0 \<in> set tx'" "bare seg = bare seg0" using seg by (auto simp: genuine_def)
  obtain cap isn where "net_ok cap isn ((W', tx', s'), acks, del, r)"
    using good(1) h(2) unfolding net_good_def by blast
  from net_ok_prefix [OF this good(2)] obtain r2 where r2: "tr_segment_received seg0 r = Inr r2"
    using seg0(1) by blast
  have "rx_step (RxSegment seg0) (del, r) = Inr (del, r2)" using r2 by simp
  from rtranclp.rtrancl_into_rtrancl [OF h(2) net_step.deliver [OF seg0(1) this]]
  have run: "net_run n2 ((W', tx', s'), acks, del, r2)" .
  have clean: "\<not> bs_error (stream_out r2)" using tr_segment_received_error [OF r2] no_error by simp
  have "half n1 n2 ((W', tx', s'), acks', del', r') W del out s r2"
    unfolding half_def prod.case clear_id [OF clean] using h(1,3) run by blast
  then show ?thesis using r2 clean tr_segment_received_bare [OF seg0(2), of r] by simp
qed

text \<open>The application reads.\<close>

lemma half_read:
  assumes "half n1 n2 peer W del out s r" "bs_read n (stream_out r) = (d, b)"
  shows "half n1 n2 peer W (del @ d) out s (r\<lparr>tr_reassembler := (tr_reassembler r)\<lparr>re_output := b\<rparr>\<rparr>)"
proof -
  obtain t acks' del' r' where peer: "peer = (t, acks', del', r')" by (cases peer)
  let ?r = "r\<lparr>tr_reassembler := (tr_reassembler r)\<lparr>re_output := b\<rparr>\<rparr>"
  from assms(1) obtain tx acks where h: "net_run n1 ((W, tx, s), acks', del', clear r')"
    "net_run n2 (t, acks, del, clear r)" "\<forall>seg \<in> set out. genuine tx acks seg"
    unfolding half_def peer by auto
  have "rx_step (RxRead n) (del, clear r) = Inr (del @ d, clear ?r)"
    using assms(2)
    by (auto simp: clear_def stream_out_def bs_read_def bs_peek_output_def bs_pop_output_def
        bs_buffer_size_def Let_def)
  from rtranclp.rtrancl_into_rtrancl [OF h(2) net_step.read_out [OF this]]
  show ?thesis unfolding half_def peer prod.case using h(1,3) by blast
qed

text \<open>A reset of the connection fails both streams, which \<open>clear\<close> hides.\<close>

lemma clear_fail [simp]: "clear (fail_stream_out r) = clear r"
  by (simp add: clear_def stream_out_def bs_set_error_def)

lemma half_fail: "half n1 n2 peer W del out s (fail_stream_out r) = half n1 n2 peer W del out s r"
  by (simp only: half_def clear_fail)

lemma half_reset:
  assumes "half n1 n2 peer W del out s r" "th_rst (ts_header seg)"
  shows "half n1 n2 peer W del (out @ [seg]) s r"
  using assms unfolding half_def by (auto simp: genuine_def split: prod.splits)

section \<open>The operations of a connection\<close>

text \<open>
  Once its input has ended, the sender has sent the FIN or is stopped by the window: every
  operation that ends the input or moves the window fills it.
\<close>

definition filled :: "tcp_sender \<Rightarrow> bool" where
  "filled s \<longleftrightarrow> (bs_input_ended (sn_stream s) \<longrightarrow> sn_fin_sent s
     \<or> unat (sn_ackno s) + max 1 (unat (sn_window_size s)) \<le> unat (sn_next_seqno s))"

lemma filled_fill: "sn_ok W s \<Longrightarrow> filled (fill_window s)"
  using fill_window_fills(2) [OF _ refl, of W s] by (auto simp: filled_def nothing_to_send_def)

lemma filled_empty [simp]: "filled (send_empty_segment s) = filled s"
  by (simp add: filled_def send_empty_segment_def)

lemma filled_ack:
  assumes "sn_ok W s" "filled s"
  shows "filled (ack_received a w s)"
proof (cases "sn_next_seqno s < unwrap a (sn_isn s) (sn_ackno s)")
  case True
  then show ?thesis using assms by (simp add: ack_received_def)
next
  case False
  have stop: "filled (if sn_outstanding_segments t = [] then t\<lparr>sn_timer_running := False\<rparr> else t) = filled t" for t
    by (simp add: filled_def)
  have "sn_ok W (take_ack (unwrap a (sn_isn s) (sn_ackno s)) s)"
    using assms(1) False by (intro take_ack_ok) simp_all
  then show ?thesis
    unfolding ack_received_eq [OF refl False refl refl] stop by (simp add: filled_fill)
qed

lemma filled_done:
  assumes "sn_ok W s" "filled s" "bs_eof (sn_stream s)" "sn_bytes_in_flight s = 0"
  shows "sn_fin_sent s"
proof -
  have "sn_ackno s = sn_next_seqno s" using bytes_in_flight_eq(2) [OF assms(1)] assms(4) by simp
  then show ?thesis using assms(2,3) by (auto simp: filled_def bs_eof_def)
qed

lemma fill_keeps_done:
  assumes ok: "sn_ok W s" and fin: "sn_fin_sent s" "sn_bytes_in_flight s = 0"
  shows "sn_fin_sent (fill_window s) \<and> sn_bytes_in_flight (fill_window s) = 0"
proof -
  have sent: "sn_fin_sent (fill_window s)" "sn_read (fill_window s) = sn_read s"
    using fill_window_sent_more [OF ok] fin(1) by (simp_all add: sent_more_def)
  note ok' = fill_window_ok [OF ok]
  have "sn_syn_sent s" "sn_syn_sent (fill_window s)"
    using sn_okD(6) [OF ok] sn_okD(6) [OF ok'] fin(1) sent(1) by blast+
  then have "sn_next_seqno (fill_window s) = sn_next_seqno s"
    using sn_okD(5) [OF ok] sn_okD(5) [OF ok'] fin(1) sent by (simp add: word_unat_eq_iff)
  then show ?thesis
    using bytes_in_flight_eq(2) [OF ok] bytes_in_flight_eq(2) [OF ok'] fin(2) sent(1) by simp
qed

definition finished :: "tcp_connection \<Rightarrow> bool" where
  "finished c \<longleftrightarrow> bs_input_ended (stream_out (cn_receiver c)) \<and> sn_fin_sent (cn_sender c)
     \<and> sn_bytes_in_flight (cn_sender c) = 0"

definition cn_ok :: "tcp_connection \<Rightarrow> bool" where
  "cn_ok c \<longleftrightarrow> filled (cn_sender c) \<and> (cn_is_active c \<longrightarrow> \<not> bs_error (stream_out (cn_receiver c)))
     \<and> (\<not> cn_is_active c \<and> \<not> bs_error (sn_stream (cn_sender c)) \<longrightarrow> finished c)"

text \<open>An endpoint against its peer, with what the connection itself keeps.\<close>

definition facing :: "net \<Rightarrow> net \<Rightarrow> net \<Rightarrow> endpoint \<Rightarrow> bool" where
  "facing n1 n2 peer = (\<lambda>(W, del, sent, c).
     half n1 n2 peer W del (sent @ cn_segments_out c) (cn_sender c) (cn_receiver c) \<and> cn_ok c)"

lemma half_sn_ok:
  assumes "half n1 n2 peer W del out s r" "net_good n1" "length W + 3 < 2 ^ 31"
  shows "sn_ok W s"
proof -
  obtain t acks' del' r' where peer: "peer = (t, acks', del', r')" by (cases peer)
  from assms(1) obtain tx where run: "net_run n1 ((W, tx, s), acks', del', clear r')"
    unfolding half_def peer by auto
  obtain cap isn where "net_ok cap isn ((W, tx, s), acks', del', clear r')"
    using assms(2) run unfolding net_good_def by blast
  then show ?thesis using assms(3) by (simp add: net_ok_def tx_ok_def)
qed

lemma half_emit:
  assumes "half n1 n2 peer W del out s r" "net_good n1" "length W + 3 < 2 ^ 31"
  shows "half n1 n2 peer W del (out @ map (stamp r) (sn_segments_out s)) (s\<lparr>sn_segments_out := []\<rparr>) r"
  using half_push [OF assms(1)] sn_okD(11) [OF half_sn_ok [OF assms]] by (auto simp: emitted_ok_def)

lemma cn_ok_push [simp]: "cn_ok (push_segments_out c) = cn_ok c"
  by (simp add: push_segments_out_eq cn_ok_def filled_def finished_def sn_bytes_in_flight_def)

lemma facing_push:
  assumes "facing n1 n2 peer (W, del, sent, c)" "net_good n1" "length W + 3 < 2 ^ 31"
  shows "facing n1 n2 peer (W, del, sent, push_segments_out c)"
  using half_emit [of n1 n2 peer W del "sent @ cn_segments_out c" "cn_sender c" "cn_receiver c"] assms
  by (simp add: facing_def push_segments_out_eq) (simp add: cn_ok_def filled_def finished_def sn_bytes_in_flight_def)

text \<open>Filling the window, then sending, as most operations end.\<close>

lemma sn_fill_round_error:
  assumes "sn_next_seqno s < right" "sn_fill_round right s = (c, s')"
  shows "bs_error (sn_stream s') = bs_error (sn_stream s)"
  using assms by (cases rule: sn_fill_round_cases) (simp_all add: bs_read_def bs_pop_output_def Let_def)

lemma fill_window_error [simp]: "bs_error (sn_stream (fill_window s)) = bs_error (sn_stream s)"
  unfolding fill_window_def Let_def
  by (rule sn_fill_loop_inv [where P = "\<lambda>t. bs_error (sn_stream t) = bs_error (sn_stream s)"])
    (simp_all add: sn_fill_round_error)

lemma facing_fill:
  assumes half: "half n1 n2 peer W del (sent @ cn_segments_out c) s (cn_receiver c)"
    and good: "net_good n1" "length W + 3 < 2 ^ 31"
    and live: "cn_is_active c \<longrightarrow> \<not> bs_error (stream_out (cn_receiver c))"
    and dead: "\<not> cn_is_active c \<and> \<not> bs_error (sn_stream s) \<longrightarrow> finished (c\<lparr>cn_sender := s\<rparr>)"
  shows "facing n1 n2 peer (W, del, sent, c\<lparr>cn_sender := fill_window s\<rparr>)"
proof -
  note ok = half_sn_ok [OF half good]
  have "cn_ok (c\<lparr>cn_sender := fill_window s\<rparr>)"
    using filled_fill [OF ok] live dead fill_keeps_done [OF ok] by (auto simp: cn_ok_def finished_def)
  then show ?thesis using half_fill [OF half] by (simp add: facing_def)
qed

text \<open>Resetting the connection.\<close>

lemma half_drop:
  "half n1 n2 peer W del out s r \<Longrightarrow> sn_segments_out s = seg # segs \<Longrightarrow>
     half n1 n2 peer W del out (s\<lparr>sn_segments_out := segs\<rparr>) r"
  by (erule half_sender [where x = TxPop and d = "[seg]"]) simp_all

lemma facing_unclean:
  assumes half: "half n1 n2 peer W del (sent @ cn_segments_out c) (cn_sender c) (cn_receiver c)"
    and filled: "filled (cn_sender c)"
  shows "facing n1 n2 peer (W, del, sent, unclean_shutdown b c)"
proof -
  let ?s = "fail_stream_in (cn_sender c)"
  have failed: "half n1 n2 peer W del (sent @ cn_segments_out c) ?s (fail_stream_out (cn_receiver c))"
    using half_error [OF half] by (simp add: half_fail)
  have error: "bs_error (sn_stream ?s)" by (simp add: bs_set_error_def)
  have filled': "filled ?s" using filled by (simp add: filled_def bs_set_error_def)
  show ?thesis
  proof (cases b)
    case False
    then show ?thesis
      using failed error filled' by (simp add: unclean_shutdown_def facing_def cn_ok_def Let_def)
  next
    case True
    obtain seg segs where segs: "sn_segments_out (send_empty_segment ?s) = seg # segs"
      by (cases "sn_segments_out (send_empty_segment ?s)") (auto simp: send_empty_segment_def)
    have "filled (send_empty_segment ?s)" "bs_error (sn_stream (send_empty_segment ?s))"
      using error filled' by (simp_all, simp add: send_empty_segment_def)
    moreover have "th_rst (ts_header (seg\<lparr>ts_header := (ts_header seg)\<lparr>th_ack := False, th_rst := True\<rparr>\<rparr>))"
      by simp
    note half_reset [OF half_drop [OF half_empty [OF failed] segs] this]
    ultimately show ?thesis
      using True segs by (simp add: unclean_shutdown_def facing_def cn_ok_def filled_def Let_def)
  qed
qed

text \<open>A segment of the peer arrives.\<close>

lemma facing_answer:
  assumes half: "half n1 n2 (t, acks', del', r') W del (sent @ cn_segments_out c) (cn_sender c) (cn_receiver c)"
    and good: "net_good n1" "length W + 3 < 2 ^ 31"
    and seg: "genuine tx' acks' seg" "\<not> th_rst (ts_header seg)"
    and live: "cn_is_active c" "\<not> bs_error (stream_out (cn_receiver c))" "filled (cn_sender c)"
  shows "facing n1 n2 (t, acks', del', r') (W, del, sent, answer_segment seg c)"
proof -
  let ?peer = "(t, acks', del', r')"
  define s1 where "s1 = (if th_ack (ts_header seg)
    then ack_received (th_ackno (ts_header seg)) (th_win (ts_header seg)) (cn_sender c) else cn_sender c)"
  have half1: "half n1 n2 ?peer W del (sent @ cn_segments_out c) s1 (cn_receiver c)"
    using half_ack [OF half] half seg by (simp add: genuine_def s1_def)
  have filled1: "filled s1" using filled_ack [OF half_sn_ok [OF half good]] live(3) by (simp add: s1_def)
  define c1 where "c1 = (let c = c\<lparr>cn_sender := s1\<rparr> in
    if bs_input_ended (stream_out (cn_receiver c)) \<and> \<not> bs_eof (sn_stream (cn_sender c))
    then c\<lparr>cn_linger_after_streams_finish := False\<rparr> else c)"
  have c1: "cn_sender c1 = s1" "cn_receiver c1 = cn_receiver c" "cn_segments_out c1 = cn_segments_out c"
    "cn_is_active c1"
    using live(1) by (simp_all add: c1_def Let_def)
  define s2 where "s2 = (if 0 < length_in_sequence_space seg \<or> keep_alive seg c1
    then if sn_segments_out (fill_window s1) = [] then send_empty_segment (fill_window s1) else fill_window s1
    else s1)"
  have eq: "answer_segment seg c = push_segments_out (c1\<lparr>cn_sender := s2\<rparr>)"
    unfolding answer_segment_def s2_def c1_def s1_def Let_def by (cases c) simp
  have half2: "half n1 n2 ?peer W del (sent @ cn_segments_out c) s2 (cn_receiver c)"
    using half1 half_fill [OF half1] half_empty [OF half_fill [OF half1]] by (simp add: s2_def)
  have "filled (fill_window s1)" using filled_fill [OF half_sn_ok [OF half1 good]] .
  then have "filled s2" using filled1 by (simp add: s2_def)
  then have "cn_ok (c1\<lparr>cn_sender := s2\<rparr>)" using c1 live(2) by (simp add: cn_ok_def)
  then have "facing n1 n2 ?peer (W, del, sent, c1\<lparr>cn_sender := s2\<rparr>)"
    using half2 c1 by (simp add: facing_def)
  then show ?thesis unfolding eq by (rule facing_push) (rule good)+
qed

lemma facing_receive:
  assumes facing: "facing n1 n2 ((W', tx', s'), acks', del', r') (W, del, sent, c)"
    and good: "net_good n1" "length W + 3 < 2 ^ 31" "net_good n2" "length W' + 3 < 2 ^ 31"
    and seg: "genuine tx' acks' seg"
  shows "\<exists>c'. segment_received seg c = Inr c'
    \<and> facing n1 n2 ((W', tx', s'), acks', del', r') (W, del, sent, c')"
proof (cases "cn_is_active c")
  case False
  then show ?thesis using facing by (simp add: segment_received_def)
next
  case True
  let ?peer = "((W', tx', s'), acks', del', r')"
  let ?c = "c\<lparr>cn_time_since_last_segment_received := 0\<rparr>"
  have half: "half n1 n2 ?peer W del (sent @ cn_segments_out c) (cn_sender c) (cn_receiver c)"
    and live: "\<not> bs_error (stream_out (cn_receiver c))" "filled (cn_sender c)"
    using facing True by (simp_all add: facing_def cn_ok_def)
  show ?thesis
  proof (cases "th_rst (ts_header seg)")
    case rst: True
    have "facing n1 n2 ?peer (W, del, sent, unclean_shutdown False ?c)"
      using half live by (intro facing_unclean) simp_all
    then show ?thesis using True rst by (simp add: segment_received_def)
  next
    case False
    from half_receive [OF half seg False good(3,4) live(1)] obtain r2 where
      r2: "tr_segment_received seg (cn_receiver c) = Inr r2"
      "half n1 n2 ?peer W del (sent @ cn_segments_out c) (cn_sender c) r2" "\<not> bs_error (stream_out r2)"
      by blast
    have "facing n1 n2 ?peer (W, del, sent, answer_segment seg (?c\<lparr>cn_receiver := r2\<rparr>))"
      by (rule facing_answer [OF _ good(1,2) seg False]) (use r2(2,3) True live(2) in simp_all)
    then show ?thesis using True False r2(1) by (simp add: segment_received_def)
  qed
qed

text \<open>The passing of time.\<close>

lemma facing_tick:
  assumes facing: "facing n1 n2 peer (W, del, sent, c)" and good: "net_good n1" "length W + 3 < 2 ^ 31"
  shows "facing n1 n2 peer (W, del, sent, cn_tick ms c)"
proof (cases "cn_is_active c")
  case False
  then show ?thesis using facing by (simp add: cn_tick_def)
next
  case True
  let ?s = "sn_tick ms (cn_sender c)"
  let ?c = "c\<lparr>cn_time_since_last_segment_received := cn_time_since_last_segment_received c + ms,
    cn_sender := ?s\<rparr>"
  have half: "half n1 n2 peer W del (sent @ cn_segments_out c) ?s (cn_receiver c)"
    and live: "\<not> bs_error (stream_out (cn_receiver c))" "filled ?s"
    using facing True half_tick [of n1 n2 peer W del "sent @ cn_segments_out c" "cn_sender c"]
    by (simp_all add: facing_def cn_ok_def filled_def)
  show ?thesis
  proof (cases "MAX_RETX_ATTEMPTS < sn_consecutive_retransmissions ?s")
    case give_up: True
    have "facing n1 n2 peer (W, del, sent, unclean_shutdown True ?c)"
      using half live(2) by (intro facing_unclean) simp_all
    then show ?thesis using True give_up by (simp add: cn_tick_def Let_def)
  next
    case False
    have "cn_ok ?c" using live True by (simp add: cn_ok_def)
    then have pushed: "facing n1 n2 peer (W, del, sent, push_segments_out ?c)"
      using half by (intro facing_push [OF _ good]) (simp add: facing_def)
    let ?d = "push_segments_out ?c"
    have over: "facing n1 n2 peer (W, del, sent, ?d\<lparr>cn_is_active := False\<rparr>)"
      if "bs_input_ended (stream_out (cn_receiver ?d))" "bs_eof (sn_stream (cn_sender ?d))"
        "sn_bytes_in_flight (cn_sender ?d) = 0"
    proof -
      have "half n1 n2 peer W del (sent @ cn_segments_out ?d) (cn_sender ?d) (cn_receiver ?d)" "filled (cn_sender ?d)"
        using pushed by (simp_all add: facing_def cn_ok_def)
      moreover from this have "sn_fin_sent (cn_sender ?d)"
        using filled_done [OF half_sn_ok [OF _ good]] that(2,3) by blast
      ultimately show ?thesis using that by (simp add: facing_def cn_ok_def finished_def)
    qed
    have "cn_tick ms c = ?d \<or> (cn_tick ms c = ?d\<lparr>cn_is_active := False\<rparr>
        \<and> bs_input_ended (stream_out (cn_receiver ?d)) \<and> bs_eof (sn_stream (cn_sender ?d))
        \<and> sn_bytes_in_flight (cn_sender ?d) = 0)"
      using True False unfolding cn_tick_def Let_def by simp
    then show ?thesis using pushed over by (elim disjE conjE) (simp_all only:)
  qed
qed

section \<open>The operations of an endpoint\<close>

text \<open>No operation fails, and each keeps the endpoint facing its peer.\<close>

fun offer :: "cn_op \<Rightarrow> nat" where
  "offer (CnWrite d) = length d"
| "offer _ = 0"

lemma facing_write:
  assumes facing: "facing n1 n2 peer (W, del, sent, c)"
    and good: "net_good n1" "length W + length d + 3 < 2 ^ 31" and wr: "cn_write d c = (n, c')"
  shows "facing n1 n2 peer (W @ take (unat n) d, del, sent, c')"
proof (cases "cn_is_active c")
  case False
  then show ?thesis using facing wr by (simp add: cn_write_def)
next
  case True
  let ?b = "sn_stream (cn_sender c)"
  have half: "half n1 n2 peer W del (sent @ cn_segments_out c) (cn_sender c) (cn_receiver c)"
    and live: "\<not> bs_error (stream_out (cn_receiver c))"
    using facing True by (simp_all add: facing_def cn_ok_def)
  have "bs_ok ?b" using sn_okD(1) half_sn_ok [OF half good(1)] good(2) by simp
  then have n: "unat (fst (bs_write d ?b)) = accepted d ?b"
    using accepted_le(3) [of d ?b] by (simp add: bs_write_eq unat_of_nat_u64)
  let ?s = "(cn_sender c)\<lparr>sn_stream := snd (bs_write d ?b)\<rparr>"
  let ?W = "W @ take (accepted d ?b) d"
  have len: "length ?W + 3 < 2 ^ 31" using good(2) by simp
  have "facing n1 n2 peer (?W, del, sent, c\<lparr>cn_sender := fill_window ?s\<rparr>)"
    by (rule facing_fill [OF half_write [OF half] good(1) len]) (use True live in simp_all)
  then have "facing n1 n2 peer (?W, del, sent, push_segments_out (c\<lparr>cn_sender := fill_window ?s\<rparr>))"
    by (rule facing_push) (rule good(1) len)+
  then show ?thesis using True wr n by (auto simp: cn_write_def Let_def split_beta)
qed

lemma facing_end:
  assumes facing: "facing n1 n2 peer (W, del, sent, c)" and good: "net_good n1" "length W + 3 < 2 ^ 31"
  shows "facing n1 n2 peer (W, del, sent, end_input_stream c)"
proof -
  let ?s = "(cn_sender c)\<lparr>sn_stream := bs_end_input (sn_stream (cn_sender c))\<rparr>"
  have half: "half n1 n2 peer W del (sent @ cn_segments_out c) (cn_sender c) (cn_receiver c)"
    and ok: "cn_ok c" using facing by (simp_all add: facing_def)
  have "facing n1 n2 peer (W, del, sent, c\<lparr>cn_sender := fill_window ?s\<rparr>)"
    by (rule facing_fill [OF half_end [OF half] good])
      (use ok in \<open>simp_all add: cn_ok_def finished_def sn_bytes_in_flight_def bs_end_input_def\<close>)
  from facing_push [OF this good] show ?thesis by (simp add: end_input_stream_def Let_def)
qed

lemma facing_connect:
  assumes facing: "facing n1 n2 peer (W, del, sent, c)" and good: "net_good n1" "length W + 3 < 2 ^ 31"
    and active: "cn_is_active c"
  shows "facing n1 n2 peer (W, del, sent, connect c)"
proof -
  have half: "half n1 n2 peer W del (sent @ cn_segments_out c) (cn_sender c) (cn_receiver c)"
    and ok: "cn_ok c" using facing by (simp_all add: facing_def)
  have "facing n1 n2 peer (W, del, sent, c\<lparr>cn_sender := fill_window (cn_sender c)\<rparr>)"
    by (rule facing_fill [OF half good]) (use ok active in \<open>simp_all add: cn_ok_def\<close>)
  moreover have "c\<lparr>cn_sender := fill_window (cn_sender c)\<rparr>
      = c\<lparr>cn_sender := fill_window (cn_sender c), cn_is_active := True\<rparr>"
    using active by (cases c) simp
  ultimately show ?thesis using facing_push [OF _ good] by (simp add: connect_def Let_def)
qed

lemma facing_destroy:
  assumes "facing n1 n2 peer (W, del, sent, c)"
  shows "facing n1 n2 peer (W, del, sent, destroy c)"
  using assms facing_unclean [of n1 n2 peer W del sent c] by (simp add: destroy_def facing_def cn_ok_def)

lemma facing_read:
  assumes "facing n1 n2 peer (W, del, sent, c)" "cn_read n c = (d, c')"
  shows "facing n1 n2 peer (W, del @ d, sent, c')"
proof -
  obtain b where b: "bs_read n (stream_out (cn_receiver c)) = (d, b)"
    using assms(2) by (auto simp: cn_read_def split: prod.splits)
  have keeps: "bs_error b = bs_error (stream_out (cn_receiver c))"
    "bs_input_ended b = bs_input_ended (stream_out (cn_receiver c))"
    using b by (auto simp: bs_read_def bs_pop_output_def Let_def)
  let ?r = "(cn_receiver c)\<lparr>tr_reassembler := (tr_reassembler (cn_receiver c))\<lparr>re_output := b\<rparr>\<rparr>"
  have c': "c' = c\<lparr>cn_receiver := ?r\<rparr>" using assms(2) b by (simp add: cn_read_def)
  have half: "half n1 n2 peer W del (sent @ cn_segments_out c) (cn_sender c) (cn_receiver c)"
    and ok: "cn_ok c" using assms(1) by (simp_all add: facing_def)
  have "stream_out ?r = b" by (simp add: stream_out_def)
  then have "cn_ok c'" using ok keeps unfolding c' cn_ok_def finished_def by simp
  then show ?thesis using half_read [OF half b] by (simp add: facing_def c')
qed

lemma facing_pop:
  assumes "facing n1 n2 peer (W, del, sent, c)"
  shows "facing n1 n2 peer (W, del, sent @ take 1 (cn_segments_out c),
    c\<lparr>cn_segments_out := drop 1 (cn_segments_out c)\<rparr>)"
  using assms by (simp add: facing_def cn_ok_def finished_def)

lemma facing_step:
  assumes facing: "facing n1 n2 ((W', tx', s'), acks', del', r') (W, del, sent, c)"
    and good: "net_good n1" "length W + offer x + 3 < 2 ^ 31" "net_good n2" "length W' + 3 < 2 ^ 31"
    and wire: "\<forall>seg \<in> set wire. genuine tx' acks' seg"
  shows "\<exists>W2 del2 sent2 c2. cn_step x wire (W, del, sent, c) = Inr (W2, del2, sent2, c2)
    \<and> facing n1 n2 ((W', tx', s'), acks', del', r') (W2, del2, sent2, c2) \<and> length W2 \<le> length W + offer x"
proof -
  let ?peer = "((W', tx', s'), acks', del', r')"
  have len: "length W + 3 < 2 ^ 31" using good(2) by simp
  show ?thesis
  proof (cases x)
    case (CnWrite d)
    obtain n c2 where w: "cn_write d c = (n, c2)" by (cases "cn_write d c")
    have "facing n1 n2 ?peer (W @ take (unat n) d, del, sent, c2)"
      using good(2) CnWrite by (intro facing_write [OF facing good(1) _ w]) simp
    then show ?thesis using w CnWrite by simp
  next
    case (CnRead n)
    obtain d c2 where r: "cn_read n c = (d, c2)" by (cases "cn_read n c")
    show ?thesis using facing_read [OF facing r] r CnRead by simp
  next
    case (CnReceive i)
    show ?thesis
    proof (cases "i < length wire")
      case True
      then have "genuine tx' acks' (wire ! i)" using wire by simp
      from facing_receive [OF facing good(1) len good(3,4) this] obtain c2 where
        "segment_received (wire ! i) c = Inr c2" "facing n1 n2 ?peer (W, del, sent, c2)" by blast
      then show ?thesis using True CnReceive by simp
    qed (use facing CnReceive in simp)
  next
    case CnConnect
    then show ?thesis using facing facing_connect [OF facing good(1) len] by (cases "cn_is_active c") simp_all
  next
    case CnEnd
    then show ?thesis using facing_end [OF facing good(1) len] by simp
  next
    case (CnTick ms)
    then show ?thesis using facing_tick [OF facing good(1) len] by simp
  next
    case CnPop
    then show ?thesis using facing_pop [OF facing] by simp
  next
    case CnDestroy
    then show ?thesis using facing_destroy [OF facing] by simp
  qed
qed

section \<open>Runs of two endpoints\<close>

definition pair_ok :: "net \<Rightarrow> net \<Rightarrow> endpoint \<times> endpoint \<Rightarrow> bool" where
  "pair_ok n1 n2 = (\<lambda>((W, del, sent, c), (W', del', sent', c')).
     sim n1 n2 ((W, del, sent, c), (W', del', sent', c')) \<and> cn_ok c \<and> cn_ok c')"

lemma pair_ok_swap: "pair_ok n1 n2 (a, b) \<longleftrightarrow> pair_ok n2 n1 (b, a)"
  using sim_swap [of n1 n2 a b] by (cases a; cases b) (auto simp: pair_ok_def)

abbreviation bytes_of :: "endpoint \<times> endpoint \<Rightarrow> nat" where
  "bytes_of p \<equiv> length (fst (fst p)) + length (fst (snd p))"

lemma pair_ok_first:
  assumes ok: "pair_ok n1 n2 (a, b)" and good: "net_good n1" "net_good n2"
    and len: "bytes_of (a, b) + offer x + 3 < 2 ^ 31"
  shows "\<exists>a'. cn_step x (on_the_wire b) a = Inr a' \<and> pair_ok n1 n2 (a', b)
    \<and> length (fst a') \<le> length (fst a) + offer x"
proof -
  obtain W del sent c where a: "a = (W, del, sent, c)" by (cases a)
  obtain W' del' sent' c' where b: "b = (W', del', sent', c')" by (cases b)
  obtain tx' acks' where h: "half n1 n2 ((W', tx', cn_sender c'), acks', del', cn_receiver c')
         W del (sent @ cn_segments_out c) (cn_sender c) (cn_receiver c)"
       "\<forall>seg \<in> set (sent' @ cn_segments_out c'). genuine tx' acks' seg" and cn: "cn_ok c" "cn_ok c'"
    using ok by (auto simp: pair_ok_def sim_def a b)
  have facing: "facing n1 n2 ((W', tx', cn_sender c'), acks', del', cn_receiver c') (W, del, sent, c)"
    using h(1) cn(1) by (simp add: facing_def)
  have small: "length W + offer x + 3 < 2 ^ 31" "length W' + 3 < 2 ^ 31" "\<forall>seg \<in> set sent'. genuine tx' acks' seg"
    using len h(2) by (simp_all add: a b)
  obtain W2 del2 sent2 c2 where n: "cn_step x sent' (W, del, sent, c) = Inr (W2, del2, sent2, c2)"
    "facing n1 n2 ((W', tx', cn_sender c'), acks', del', cn_receiver c') (W2, del2, sent2, c2)"
    "length W2 \<le> length W + offer x"
    using facing_step [OF facing good(1) small(1) good(2) small(2,3)] by blast
  have "pair_ok n1 n2 ((W2, del2, sent2, c2), b)"
    using n(2) h(2) cn(2) by (auto simp: pair_ok_def sim_def facing_def b)
  then show ?thesis using n(1,3) by (simp add: a b)
qed

lemma pair_ok_step:
  assumes ok: "pair_ok n1 n2 p" and good: "net_good n1" "net_good n2"
    and len: "bytes_of p + offer (snd x) + 3 < 2 ^ 31"
  shows "\<exists>p'. pair_step x p = Inr p' \<and> pair_ok n1 n2 p' \<and> bytes_of p' \<le> bytes_of p + offer (snd x)"
proof -
  obtain a b where p: "p = (a, b)" by (cases p)
  show ?thesis
  proof (cases "fst x")
    case True
    from len have "bytes_of (a, b) + offer (snd x) + 3 < 2 ^ 31" by (simp add: p)
    from pair_ok_first [OF ok [unfolded p] good this] obtain a' where
      "cn_step (snd x) (on_the_wire b) a = Inr a'" "pair_ok n1 n2 (a', b)"
      "length (fst a') \<le> length (fst a) + offer (snd x)" by blast
    then show ?thesis using True by (auto simp: pair_step_def p)
  next
    case False
    have swapped: "pair_ok n2 n1 (b, a)" using ok pair_ok_swap by (simp add: p)
    have "bytes_of (b, a) + offer (snd x) + 3 < 2 ^ 31" using len by (simp add: p)
    from pair_ok_first [OF swapped good(2,1) this] obtain b' where
      "cn_step (snd x) (on_the_wire a) b = Inr b'" "pair_ok n2 n1 (b', a)"
      "length (fst b') \<le> length (fst b) + offer (snd x)" by blast
    then show ?thesis using False pair_ok_swap by (auto simp: pair_step_def p)
  qed
qed

lemma offered_Cons: "offered (x # xs) = offer (snd x) + offered xs"
  by (cases x; cases "snd x") simp_all

lemma pair_ok_run:
  assumes "pair_ok n1 n2 p" "net_good n1" "net_good n2" "bytes_of p + offered events + 3 < 2 ^ 31"
  shows "\<exists>p'. pair_run events p = Inr p' \<and> pair_ok n1 n2 p' \<and> bytes_of p' + 3 < 2 ^ 31"
  using assms
proof (induction events arbitrary: p)
  case (Cons x events)
  have "bytes_of p + offer (snd x) + 3 < 2 ^ 31" using Cons.prems(4) by (simp add: offered_Cons)
  from pair_ok_step [OF Cons.prems(1-3) this] obtain p1 where
    p1: "pair_step x p = Inr p1" "pair_ok n1 n2 p1" "bytes_of p1 \<le> bytes_of p + offer (snd x)" by blast
  have "bytes_of p1 + offered events + 3 < 2 ^ 31" using p1(3) Cons.prems(4) by (simp add: offered_Cons)
  from Cons.IH [OF p1(2) Cons.prems(2,3) this] show ?case using p1(1) by simp
qed simp

text \<open>The one-way transfer from one connection to another, and two new connections.\<close>

definition transfer_of :: "tcp_config \<Rightarrow> wrapping_int32 \<Rightarrow> tcp_config \<Rightarrow> net" where
  "transfer_of from random to = net_start (cfg_send_capacity from) (cfg_rt_timeout from)
     (cfg_fixed_isn from) random (cfg_recv_capacity to)"

lemma pair_ok_fresh:
  "pair_ok (transfer_of cfg random cfg') (transfer_of cfg' random' cfg) (fresh cfg random, fresh cfg' random')"
proof -
  have clear: "clear (tr_new cap) = tr_new cap" for cap
    by (rule clear_id) (simp add: tr_new_def stream_out_def re_new_def bs_new_def)
  have "cn_ok (cn_new cfg random)" for cfg random
    by (simp add: cn_ok_def filled_def cn_new_def tr_new_def stream_out_def re_new_def bs_new_def sn_new_def)
  then show ?thesis
    unfolding pair_ok_def sim_def half_def fresh_def prod.case
    by (auto simp: transfer_of_def net_start_def cn_new_def clear intro!: exI [of _ "[]"])
qed

lemma pair_ok_parts:
  assumes "pair_ok n1 n2 ((W, del, sent, c), (W', del', sent', c'))"
  obtains tx acks tx' acks' where
    "net_run n1 ((W, tx, cn_sender c), acks', del', clear (cn_receiver c'))"
    "net_run n2 ((W', tx', cn_sender c'), acks, del, clear (cn_receiver c))"
    "\<forall>seg \<in> set (sent @ cn_segments_out c). genuine tx acks seg"
    "\<forall>seg \<in> set (sent' @ cn_segments_out c'). genuine tx' acks' seg" "cn_ok c" "cn_ok c'"
  using assms unfolding pair_ok_def sim_def half_def prod.case by (elim exE conjE) (rule that)

lemma pair_runs:
  assumes "unat (cfg_recv_capacity cfg) < 2 ^ 61" "unat (cfg_recv_capacity cfg') < 2 ^ 61"
    and "offered events + 3 < 2 ^ 31"
  obtains W del sent c W' del' sent' c' where
    "pair_run events (fresh cfg random, fresh cfg' random') = Inr ((W, del, sent, c), (W', del', sent', c'))"
    "pair_ok (transfer_of cfg random cfg') (transfer_of cfg' random' cfg) ((W, del, sent, c), (W', del', sent', c'))"
    "length W + 3 < 2 ^ 31" "length W' + 3 < 2 ^ 31"
proof -
  have good: "net_good (transfer_of cfg random cfg')" "net_good (transfer_of cfg' random' cfg)"
    unfolding transfer_of_def by (rule net_good_start; fact)+
  have "bytes_of (fresh cfg random, fresh cfg' random') + offered events + 3 < 2 ^ 31"
    using assms(3) by (simp add: fresh_def)
  from pair_ok_run [OF pair_ok_fresh good this] obtain p' where
    p': "pair_run events (fresh cfg random, fresh cfg' random') = Inr p'"
    "pair_ok (transfer_of cfg random cfg') (transfer_of cfg' random' cfg) p'" "bytes_of p' + 3 < 2 ^ 31"
    by blast
  obtain W del sent c W' del' sent' c' where eq: "p' = ((W, del, sent, c), (W', del', sent', c'))"
    by (metis prod.exhaust)
  have "length W + 3 < 2 ^ 31" "length W' + 3 < 2 ^ 31" using p'(3) by (simp_all add: eq)
  then show thesis by (rule that [OF p'(1,2) [unfolded eq]])
qed

text \<open>C4: Two connections, joined by a network that loses, repeats and reorders segments, do
  nothing but two one-way transfers: whatever the applications do and the network delivers,
  connecting, writing, reading, ending, ticking, giving up and resetting included, no
  operation fails, and each sender with the peer's receiver is in a state that the one-way
  transfer of \<open>TcpTransfer\<close> can reach; only the error flag that a reset sets is not its.
  Everything on the wire is a reset or one of the sender's segments that acknowledges what the
  receiver has acknowledged.\<close>

theorem connections_refine_transfers:
  assumes "unat (cfg_recv_capacity cfg) < 2 ^ 61" "unat (cfg_recv_capacity cfg') < 2 ^ 61"
    and "offered events + 3 < 2 ^ 31"
  shows "\<exists>W del sent c W' del' sent' c' tx acks tx' acks'.
     pair_run events (fresh cfg random, fresh cfg' random') = Inr ((W, del, sent, c), (W', del', sent', c'))
     \<and> net_run (transfer_of cfg random cfg') ((W, tx, cn_sender c), acks', del', clear (cn_receiver c'))
     \<and> net_run (transfer_of cfg' random' cfg) ((W', tx', cn_sender c'), acks, del, clear (cn_receiver c))
     \<and> (\<forall>seg \<in> set (sent @ cn_segments_out c). genuine tx acks seg)
     \<and> (\<forall>seg \<in> set (sent' @ cn_segments_out c'). genuine tx' acks' seg)"
  by (rule pair_runs [OF assms, of random random'], erule pair_ok_parts) blast

text \<open>What each application gets.\<close>

definition receives :: "endpoint \<Rightarrow> byte list" where
  "receives e = (case e of (W, del, sent, c) \<Rightarrow> del @ bs_buffer (stream_out (cn_receiver c)))"

lemma clear_stream [simp]:
  "bs_buffer (stream_out (clear r)) = bs_buffer (stream_out r)"
  "bs_input_ended (stream_out (clear r)) = bs_input_ended (stream_out r)"
  "tr_next (clear r) = tr_next r"
  by (simp_all add: clear_def stream_out_def)

lemma pair_prefix:
  assumes "net_run (transfer_of cfg random cfg') ((W, tx, s), acks', del', clear r')"
    and "unat (cfg_recv_capacity cfg') < 2 ^ 61" "length W + 3 < 2 ^ 31"
  shows "del' @ bs_buffer (stream_out r') = take (tr_next r') W"
    and "bs_input_ended (stream_out r') \<Longrightarrow> tr_next r' = length W \<and> bs_input_ended (sn_stream s)"
    and "sn_fin_sent s \<Longrightarrow> sn_bytes_in_flight s = 0 \<Longrightarrow>
      del' @ bs_buffer (stream_out r') = W \<and> bs_input_ended (stream_out r')"
proof -
  have ok: "net_ok (cfg_recv_capacity cfg') (case cfg_fixed_isn cfg of Some i \<Rightarrow> i | None \<Rightarrow> random)
    ((W, tx, s), acks', del', clear r')"
    using net_run_ok [OF _ assms(2)] assms(1) by (simp add: transfer_of_def)
  show "del' @ bs_buffer (stream_out r') = take (tr_next r') W"
    "bs_input_ended (stream_out r') \<Longrightarrow> tr_next r' = length W \<and> bs_input_ended (sn_stream s)"
    using net_ok_prefix [OF ok assms(3)] by simp_all
  show "sn_fin_sent s \<Longrightarrow> sn_bytes_in_flight s = 0 \<Longrightarrow>
      del' @ bs_buffer (stream_out r') = W \<and> bs_input_ended (stream_out r')"
    using net_ok_complete [OF ok assms(3)] by simp
qed

text \<open>Whatever two connected endpoints and the network between them do.\<close>

lemma pair_delivers:
  assumes "unat (cfg_recv_capacity cfg) < 2 ^ 61" "unat (cfg_recv_capacity cfg') < 2 ^ 61"
    and "offered events + 3 < 2 ^ 31"
  shows "case pair_run events (fresh cfg random, fresh cfg' random') of
       Inl _ \<Rightarrow> False
     | Inr ((W, del, sent, c), (W', del', sent', c')) \<Rightarrow>
         (\<exists>n. receives (W', del', sent', c') = take n W) \<and> (\<exists>n. receives (W, del, sent, c) = take n W')
         \<and> (bs_input_ended (stream_out (cn_receiver c')) \<longrightarrow>
              receives (W', del', sent', c') = W \<and> bs_input_ended (sn_stream (cn_sender c)))
         \<and> (bs_input_ended (stream_out (cn_receiver c)) \<longrightarrow>
              receives (W, del, sent, c) = W' \<and> bs_input_ended (sn_stream (cn_sender c')))"
proof -
  obtain W del sent c W' del' sent' c' where
    run: "pair_run events (fresh cfg random, fresh cfg' random') = Inr ((W, del, sent, c), (W', del', sent', c'))"
    and ok: "pair_ok (transfer_of cfg random cfg') (transfer_of cfg' random' cfg)
      ((W, del, sent, c), (W', del', sent', c'))"
    and len: "length W + 3 < 2 ^ 31" "length W' + 3 < 2 ^ 31"
    by (rule pair_runs [OF assms])
  obtain tx acks tx' acks' where
    to_peer: "net_run (transfer_of cfg random cfg') ((W, tx, cn_sender c), acks', del', clear (cn_receiver c'))"
    and from_peer: "net_run (transfer_of cfg' random' cfg) ((W', tx', cn_sender c'), acks, del, clear (cn_receiver c))"
    by (rule pair_ok_parts [OF ok])
  note to_peer = pair_prefix [OF to_peer assms(2) len(1)]
    and from_peer = pair_prefix [OF from_peer assms(1) len(2)]
  show ?thesis
    unfolding run sum.case prod.case receives_def using to_peer(1,2) from_peer(1,2) by auto
qed

text \<open>C2: Whatever two connected endpoints and the network between them do, each application
  receives exactly a prefix of what the other one wrote, and sees the end of its stream only
  after all of it, when the other one has ended its own.\<close>

theorem connections_deliver_prefixes:
  assumes "unat (cfg_recv_capacity cfg) < 2 ^ 61" "unat (cfg_recv_capacity cfg') < 2 ^ 61"
    and "offered events + 3 < 2 ^ 31"
  shows "case pair_run events (fresh cfg random, fresh cfg' random') of
       Inl _ \<Rightarrow> False
     | Inr ((W, del, sent, c), (W', del', sent', c')) \<Rightarrow>
         (\<exists>n. receives (W', del', sent', c') = take n W) \<and> (\<exists>n. receives (W, del, sent, c) = take n W')
         \<and> (bs_input_ended (stream_out (cn_receiver c')) \<longrightarrow>
              receives (W', del', sent', c') = W \<and> bs_input_ended (sn_stream (cn_sender c)))
         \<and> (bs_input_ended (stream_out (cn_receiver c)) \<longrightarrow>
              receives (W, del, sent, c) = W' \<and> bs_input_ended (sn_stream (cn_sender c')))"
  by (rule pair_delivers [OF assms])

text \<open>C3: A connection that has ended without an error has transferred everything in both
  directions: it has received all that the other application wrote before it ended its
  stream, and all that its own application wrote has been received by the other, the end of
  the stream included.\<close>

theorem closed_connection_is_complete:
  assumes "unat (cfg_recv_capacity cfg) < 2 ^ 61" "unat (cfg_recv_capacity cfg') < 2 ^ 61"
    and "offered events + 3 < 2 ^ 31"
    and run: "pair_run events (fresh cfg random, fresh cfg' random')
      = Inr ((W, del, sent, c), (W', del', sent', c'))"
    and closed: "\<not> cn_is_active c" "\<not> bs_error (sn_stream (cn_sender c))"
  shows "receives (W, del, sent, c) = W' \<and> bs_input_ended (stream_out (cn_receiver c))
     \<and> bs_input_ended (sn_stream (cn_sender c'))
     \<and> receives (W', del', sent', c') = W \<and> bs_input_ended (stream_out (cn_receiver c'))"
proof -
  have pair: "pair_ok (transfer_of cfg random cfg') (transfer_of cfg' random' cfg)
      ((W, del, sent, c), (W', del', sent', c'))" and len: "length W + 3 < 2 ^ 31" "length W' + 3 < 2 ^ 31"
    by (rule pair_runs [OF assms(1-3), of random random'], use run in simp)+
  obtain tx acks tx' acks' where
    to_peer: "net_run (transfer_of cfg random cfg') ((W, tx, cn_sender c), acks', del', clear (cn_receiver c'))"
    and from_peer: "net_run (transfer_of cfg' random' cfg) ((W', tx', cn_sender c'), acks, del, clear (cn_receiver c))"
    and ok: "cn_ok c"
    by (rule pair_ok_parts [OF pair])
  have fin: "bs_input_ended (stream_out (cn_receiver c))" "sn_fin_sent (cn_sender c)"
    "sn_bytes_in_flight (cn_sender c) = 0"
    using ok closed by (simp_all add: cn_ok_def finished_def)
  note to_peer = pair_prefix [OF to_peer assms(2) len(1)]
    and from_peer = pair_prefix [OF from_peer assms(1) len(2)]
  show ?thesis
    unfolding receives_def prod.case
    using to_peer(3) [OF fin(2,3)] from_peer(1) from_peer(2) [OF fin(1)] fin(1) by simp
qed

text \<open>A whole connection: handshake, two bytes one way and one the other with the first one
  lost and retransmitted, and both ways of closing it.\<close>

definition example_cfg :: "u32 \<Rightarrow> tcp_config" where
  "example_cfg isn = tcp_config_new\<lparr>cfg_fixed_isn := Some (WrappingInt32 isn)\<rparr>"

abbreviation example_events :: "event list" where
  "example_events \<equiv>
     [(True, CnConnect), (True, CnPop), (False, CnReceive 0), (False, CnPop), (True, CnReceive 0), (True, CnPop),
      (True, CnWrite [104, 105]), (True, CnPop), (True, CnTick 1000), (True, CnPop),
      (False, CnReceive 1), (False, CnReceive 3), (False, CnWrite [33]), (False, CnPop), (False, CnPop),
      (True, CnReceive 1), (True, CnReceive 2), (True, CnPop), (True, CnEnd), (True, CnPop),
      (False, CnReceive 4), (False, CnReceive 5), (False, CnRead 1), (False, CnPop), (False, CnEnd), (False, CnPop),
      (True, CnReceive 3), (True, CnReceive 4), (True, CnPop), (False, CnReceive 6), (False, CnTick 1),
      (True, CnTick 10000)]"

definition example_runs :: "u32 \<Rightarrow> u32 \<Rightarrow> failure + endpoint \<times> endpoint" where
  "example_runs isn isn' = pair_run example_events
     (fresh (example_cfg isn) (WrappingInt32 0), fresh (example_cfg isn') (WrappingInt32 0))"

abbreviation example_run :: "failure + endpoint \<times> endpoint" where
  "example_run \<equiv> example_runs 0xFFFFFFFF 7"

lemma example_run_closes:
  "case example_run of Inl _ \<Rightarrow> False
   | Inr ((W, del, sent, c), (W', del', sent', c')) \<Rightarrow> W = [104, 105] \<and> W' = [33] \<and> del' = [104]
       \<and> \<not> cn_is_active c \<and> \<not> bs_error (sn_stream (cn_sender c))
       \<and> \<not> cn_is_active c' \<and> bs_input_ended (stream_out (cn_receiver c))"
  by code_simp

lemma example_reached:
  obtains W del sent c W' del' sent' c' where
    "example_run = Inr ((W, del, sent, c), (W', del', sent', c'))" "W = [104, 105]" "W' = [33]" "del' = [104]"
    "\<not> cn_is_active c" "\<not> bs_error (sn_stream (cn_sender c))" "bs_input_ended (stream_out (cn_receiver c))"
proof -
  obtain p where p: "example_run = Inr p" using example_run_closes by (cases example_run) simp_all
  obtain W del sent c W' del' sent' c' where eq: "p = ((W, del, sent, c), (W', del', sent', c'))"
    by (metis prod.exhaust)
  show thesis by (rule that [OF p [unfolded eq]]) (use example_run_closes in \<open>simp_all add: p eq\<close>)
qed

lemma example_hypotheses:
  "unat (cfg_recv_capacity (example_cfg isn)) < 2 ^ 61" "offered example_events + 3 < 2 ^ 31"
  by (simp_all add: example_cfg_def tcp_config_new_def)

theorem connections_refine_transfers_witness:
  "\<exists>W tx s acks del' r'. net_run (transfer_of (example_cfg 0xFFFFFFFF) (WrappingInt32 0) (example_cfg 7))
     ((W, tx, s), acks, del', r') \<and> W = [104, 105] \<and> del' = [104]"
proof -
  obtain W del sent c W' del' sent' c' where
    r: "example_run = Inr ((W, del, sent, c), (W', del', sent', c'))" "W = [104, 105]" "del' = [104]"
    by (rule example_reached)
  from connections_refine_transfers [OF example_hypotheses(1) [of "0xFFFFFFFF"] example_hypotheses(1) [of 7] example_hypotheses(2),
      where random = "WrappingInt32 0" and random' = "WrappingInt32 0", folded example_runs_def, unfolded r(1)]
  show ?thesis using r(2,3) by auto
qed

theorem connections_deliver_prefixes_witness:
  "case example_run of Inl _ \<Rightarrow> False | Inr (a, b) \<Rightarrow> receives a = [33]"
proof -
  obtain W del sent c W' del' sent' c' where
    r: "example_run = Inr ((W, del, sent, c), (W', del', sent', c'))" "W' = [33]"
    and ended: "bs_input_ended (stream_out (cn_receiver c))"
    by (rule example_reached)
  from connections_deliver_prefixes [OF example_hypotheses(1) [of "0xFFFFFFFF"] example_hypotheses(1) [of 7] example_hypotheses(2),
      where random = "WrappingInt32 0" and random' = "WrappingInt32 0", folded example_runs_def, unfolded r(1)]
  show ?thesis unfolding r(1) using r(2) ended by simp
qed

theorem closed_connection_is_complete_witness:
  "case example_run of Inl _ \<Rightarrow> False | Inr (a, b) \<Rightarrow> receives a = [33] \<and> receives b = [104, 105]"
proof -
  obtain W del sent c W' del' sent' c' where
    r: "example_run = Inr ((W, del, sent, c), (W', del', sent', c'))" "W = [104, 105]" "W' = [33]"
    and closed: "\<not> cn_is_active c" "\<not> bs_error (sn_stream (cn_sender c))"
    by (rule example_reached)
  from closed_connection_is_complete [OF example_hypotheses(1) example_hypotheses(1) example_hypotheses(2)
      r(1) [unfolded example_runs_def] closed]
  show ?thesis unfolding r(1) using r(2,3) by simp
qed

end
