(* ===== verification/ConnectionSafety.thy ===== *)
theory ConnectionSafety
  imports TcpPair
begin

text \<open>
  What a connection keeps whatever segments it receives, forged ones included: its parts
  stay consistent, no operation fails, and what it puts on the wire can be serialized.
\<close>

section \<open>The sender\<close>

definition plain :: "tcp_segment \<Rightarrow> bool" where
  "plain seg \<longleftrightarrow> th_doff (ts_header seg) = 5 \<and> length (ts_payload seg) \<le> 1000"

lemma plain_stamp [simp]: "plain (stamp r seg) = plain seg"
  by (simp add: plain_def stamp_def Let_def split: option.split)

definition sn_sound :: "tcp_sender \<Rightarrow> bool" where
  "sn_sound s \<longleftrightarrow> bs_ok (sn_stream s)
     \<and> (\<forall>p \<in> set (sn_outstanding_segments s). plain (snd p)) \<and> (\<forall>seg \<in> set (sn_segments_out s). plain seg)"

lemma sm_assign_values: "p \<in> set (sm_assign k v m) \<Longrightarrow> p = (k, v) \<or> p \<in> set m"
  by (induction k v m rule: sm_assign.induct) (auto split: if_splits)

lemma sn_track_sound:
  assumes "bs_ok (sn_stream s)" "sn_outstanding_segments s = sn_outstanding_segments s0"
    "sn_segments_out s = sn_segments_out s0" "sn_sound s0" "plain seg"
  shows "sn_sound (sn_track n seg s)"
  using assms by (auto simp: sn_sound_def sn_track_def Let_def dest!: sm_assign_values)

lemma sn_fill_round_sound:
  assumes "sn_sound s" "sn_next_seqno s < right" "sn_fill_round right s = (c, s')"
  shows "sn_sound s'"
  using assms(2,3)
proof (cases rule: sn_fill_round_cases)
  case (syn seg)
  have "plain seg" by (simp add: syn(3) plain_def tcp_segment_new_def tcp_header_new_def)
  then show ?thesis unfolding syn(4) using assms(1) by (intro sn_track_sound) (auto simp: sn_sound_def)
next
  case (fin seg)
  have "plain seg" by (simp add: fin(5) plain_def tcp_segment_new_def tcp_header_new_def)
  then show ?thesis unfolding fin(6) using assms(1) by (intro sn_track_sound) (auto simp: sn_sound_def)
next
  case idle
  then show ?thesis using assms(1) by simp
next
  case (data n fin)
  have ok: "bs_ok (sn_stream s)" using assms(1) by (simp add: sn_sound_def)
  have "length (fst (bs_read n (sn_stream s))) \<le> unat n"
    using ok by (simp add: bs_read_def bs_peek_eq)
  also have "unat n \<le> 1000" using data(5) by (simp add: word_le_nat_alt)
  finally have "plain (data_segment n fin s)"
    by (simp add: data_segment_def plain_def tcp_segment_new_def tcp_header_new_def)
  moreover have "bs_ok (snd (bs_read n (sn_stream s)))" using ok by (simp add: bs_read_def bs_pop_ok)
  ultimately show ?thesis unfolding data(8) using assms(1) by (intro sn_track_sound) auto
qed

lemma fill_window_sound: "sn_sound s \<Longrightarrow> sn_sound (fill_window s)"
  unfolding fill_window_def Let_def by (rule sn_fill_loop_inv [where P = sn_sound]) (rule sn_fill_round_sound)

lemma ack_received_sound:
  assumes "sn_sound s"
  shows "sn_sound (ack_received a w s)"
proof -
  let ?A = "unwrap a (sn_isn s) (sn_ackno s)"
  show ?thesis
  proof (cases "sn_next_seqno s < ?A")
    case True
    then show ?thesis using assms by (simp add: ack_received_def)
  next
    case False
    have "sn_sound ((take_ack ?A s)\<lparr>sn_window_size := w, sn_timer := t, sn_rto := r,
        sn_consecutive_retransmissions := n\<rparr>)" for t r n
      using assms by (auto simp: sn_sound_def take_ack_def)
    from fill_window_sound [OF this] show ?thesis
      unfolding ack_received_eq [OF refl False refl refl] by (simp add: sn_sound_def)
  qed
qed

lemma sn_tick_sound:
  assumes "sn_sound s"
  shows "sn_sound (sn_tick ms s)"
proof (cases "sn_outstanding_segments s")
  case Nil
  then show ?thesis using assms by (simp add: sn_tick_def sn_sound_def Let_def)
next
  case (Cons p m)
  then show ?thesis using assms by (cases p) (auto simp: sn_tick_def sn_sound_def Let_def)
qed

lemma send_empty_segment_sound: "sn_sound s \<Longrightarrow> sn_sound (send_empty_segment s)"
  by (auto simp: sn_sound_def send_empty_segment_def plain_def tcp_segment_new_def tcp_header_new_def Let_def)

lemma fill_window_input_ended [simp]:
  "bs_input_ended (sn_stream (fill_window s)) = bs_input_ended (sn_stream s)"
  by (simp add: fill_window_def Let_def)

lemma ack_received_flags [simp]:
  "bs_error (sn_stream (ack_received a w s)) = bs_error (sn_stream s)"
  "bs_input_ended (sn_stream (ack_received a w s)) = bs_input_ended (sn_stream s)"
  by (simp_all add: ack_received_def Let_def)

lemma sn_tick_flags [simp]: "sn_stream (sn_tick ms s) = sn_stream s"
  by (simp add: sn_tick_def Let_def split: list.split)

section \<open>The connection\<close>

definition cn_sound :: "tcp_connection \<Rightarrow> bool" where
  "cn_sound c \<longleftrightarrow> sn_sound (cn_sender c) \<and> re_ok (tr_reassembler (cn_receiver c))
     \<and> (\<forall>seg \<in> set (cn_segments_out c). plain seg)
     \<and> (cn_is_active c \<longrightarrow> \<not> bs_error (sn_stream (cn_sender c)))"

text \<open>What no operation but reading changes.\<close>

definition same_reads :: "tcp_connection \<Rightarrow> tcp_connection \<Rightarrow> bool" where
  "same_reads c c' \<longleftrightarrow> re_capacity (tr_reassembler (cn_receiver c')) = re_capacity (tr_reassembler (cn_receiver c))
     \<and> re_read (tr_reassembler (cn_receiver c')) = re_read (tr_reassembler (cn_receiver c))"

definition ended :: "tcp_connection \<Rightarrow> bool" where
  "ended c = bs_input_ended (sn_stream (cn_sender c))"

lemma cn_push_sound [simp]:
  "cn_sound c \<Longrightarrow> cn_sound (push_segments_out c)"
  "same_reads c (push_segments_out c') = same_reads c c'"
  "ended (push_segments_out c) = ended c"
  "cn_is_active (push_segments_out c) = cn_is_active c"
  by (auto simp: push_segments_out_eq cn_sound_def sn_sound_def same_reads_def ended_def)

lemma cn_new_sound: "unat (cfg_recv_capacity cfg) < 2 ^ 61 \<Longrightarrow> cn_sound (cn_new cfg random)"
  using re_new_ok [of "cfg_recv_capacity cfg"]
  by (simp add: cn_sound_def cn_new_def tr_new_def sn_sound_def sn_new_def bs_new_def re_new_start bs_ok_def)

lemma re_ok_error [simp]:
  "re_ok (r\<lparr>re_output := bs_set_error (re_output r)\<rparr>) = re_ok r"
  by (simp add: re_ok_def bs_set_error_def bs_ok_def)

lemma unclean_shutdown_sound:
  assumes "cn_sound c"
  shows "cn_sound (unclean_shutdown b c)" "same_reads c (unclean_shutdown b c)"
    "ended (unclean_shutdown b c) = ended c"
proof -
  let ?s = "fail_stream_in (cn_sender c)"
  let ?c = "c\<lparr>cn_sender := ?s, cn_receiver := fail_stream_out (cn_receiver c), cn_is_active := False\<rparr>"
  have s: "sn_sound ?s" using assms by (simp add: cn_sound_def sn_sound_def)
  then have c: "cn_sound ?c" "same_reads c ?c" "ended ?c = ended c"
    using assms by (simp_all add: cn_sound_def same_reads_def ended_def stream_out_def) (simp_all add: bs_set_error_def)
  obtain rst queue where queue: "sn_segments_out (send_empty_segment ?s) = rst # queue"
    by (cases "sn_segments_out (send_empty_segment ?s)") (auto simp: send_empty_segment_def)
  have "sn_sound (send_empty_segment ?s)" by (rule send_empty_segment_sound [OF s])
  then have "plain rst" "sn_sound ((send_empty_segment ?s)\<lparr>sn_segments_out := queue\<rparr>)"
    by (simp_all add: sn_sound_def queue)
  moreover have "unclean_shutdown b c = (if b then ?c\<lparr>cn_sender := (send_empty_segment ?s)\<lparr>sn_segments_out := queue\<rparr>,
      cn_segments_out := cn_segments_out c @ [rst\<lparr>ts_header := (ts_header rst)\<lparr>th_ack := False, th_rst := True\<rparr>\<rparr>]\<rparr>
    else ?c)"
    by (simp add: unclean_shutdown_def Let_def queue)
  ultimately show "cn_sound (unclean_shutdown b c)" "same_reads c (unclean_shutdown b c)"
    "ended (unclean_shutdown b c) = ended c"
    using c by (auto simp: cn_sound_def same_reads_def ended_def plain_def send_empty_segment_def)
qed

lemma answer_segment_sound:
  assumes "cn_sound c"
  shows "cn_sound (answer_segment seg c)" "same_reads c (answer_segment seg c)"
    "ended (answer_segment seg c) = ended c" "cn_is_active (answer_segment seg c) = cn_is_active c"
proof -
  define s1 where "s1 = (if th_ack (ts_header seg)
    then ack_received (th_ackno (ts_header seg)) (th_win (ts_header seg)) (cn_sender c) else cn_sender c)"
  have s1: "sn_sound s1" "bs_error (sn_stream s1) = bs_error (sn_stream (cn_sender c))"
    "bs_input_ended (sn_stream s1) = bs_input_ended (sn_stream (cn_sender c))"
    using assms ack_received_sound by (simp_all add: s1_def cn_sound_def)
  define c1 where "c1 = (let c = c\<lparr>cn_sender := s1\<rparr> in
    if bs_input_ended (stream_out (cn_receiver c)) \<and> \<not> bs_eof (sn_stream (cn_sender c))
    then c\<lparr>cn_linger_after_streams_finish := False\<rparr> else c)"
  define s2 where "s2 = (if 0 < length_in_sequence_space seg \<or> keep_alive seg c1
    then if sn_segments_out (fill_window s1) = [] then send_empty_segment (fill_window s1) else fill_window s1
    else s1)"
  have eq: "answer_segment seg c = push_segments_out (c1\<lparr>cn_sender := s2\<rparr>)"
    unfolding answer_segment_def s2_def c1_def s1_def Let_def by (cases c) simp
  have s2: "sn_sound s2" "bs_error (sn_stream s2) = bs_error (sn_stream s1)"
    "bs_input_ended (sn_stream s2) = bs_input_ended (sn_stream s1)"
    using s1(1) by (simp_all add: s2_def fill_window_sound send_empty_segment_sound)
      (simp_all add: send_empty_segment_def)
  have "cn_sound (c1\<lparr>cn_sender := s2\<rparr>)" "same_reads c (c1\<lparr>cn_sender := s2\<rparr>)"
    "ended (c1\<lparr>cn_sender := s2\<rparr>) = ended c" "cn_is_active (c1\<lparr>cn_sender := s2\<rparr>) = cn_is_active c"
    using assms s1 s2 by (simp_all add: cn_sound_def same_reads_def ended_def c1_def Let_def)
  then show "cn_sound (answer_segment seg c)" "same_reads c (answer_segment seg c)"
    "ended (answer_segment seg c) = ended c" "cn_is_active (answer_segment seg c) = cn_is_active c"
    unfolding eq by simp_all
qed

lemma segment_received_sound:
  assumes "cn_sound c" "length (ts_payload seg) < 2 ^ 62"
  shows "\<exists>c'. segment_received seg c = Inr c' \<and> cn_sound c' \<and> same_reads c c' \<and> ended c' = ended c
    \<and> (cn_is_active c' \<longleftrightarrow> cn_is_active c \<and> \<not> th_rst (ts_header seg))"
proof (cases "cn_is_active c")
  case False
  then show ?thesis using assms(1) by (simp add: segment_received_def same_reads_def)
next
  case True
  let ?c = "c\<lparr>cn_time_since_last_segment_received := 0\<rparr>"
  have c: "cn_sound ?c" "same_reads c x = same_reads ?c x" "ended ?c = ended c" for x
    using assms(1) by (simp_all add: cn_sound_def same_reads_def ended_def)
  show ?thesis
  proof (cases "th_rst (ts_header seg)")
    case rst: True
    then show ?thesis
      using True unclean_shutdown_sound [OF c(1), of False] c(2,3)
      by (simp add: segment_received_def) (simp add: unclean_shutdown_def Let_def)
  next
    case False
    have "re_ok (tr_reassembler (cn_receiver c))" using assms(1) by (simp add: cn_sound_def)
    from segment_received_safe [OF this assms(2)] obtain r where
      r: "tr_segment_received seg (cn_receiver c) = Inr r" "re_ok (tr_reassembler r)"
      "re_capacity (tr_reassembler r) = re_capacity (tr_reassembler (cn_receiver c))"
      "re_read (tr_reassembler r) = re_read (tr_reassembler (cn_receiver c))"
      by blast
    have "cn_sound (?c\<lparr>cn_receiver := r\<rparr>)" using c(1) r(2) by (simp add: cn_sound_def)
    from answer_segment_sound [OF this, of seg] show ?thesis
      using True False r by (simp add: segment_received_def same_reads_def ended_def)
  qed
qed

lemma cn_write_sound:
  assumes "cn_sound c"
  shows "cn_sound (snd (cn_write d c))" "same_reads c (snd (cn_write d c))"
    "ended (snd (cn_write d c)) = ended c" "cn_is_active (snd (cn_write d c)) = cn_is_active c"
    "cn_is_active c \<Longrightarrow> \<not> ended c \<Longrightarrow> length d \<le> unat (cn_remaining_outbound_capacity c) \<Longrightarrow>
       fst (cn_write d c) = size_of d"
proof -
  let ?st = "sn_stream (cn_sender c)"
  have ok: "bs_ok ?st" using assms by (simp add: cn_sound_def sn_sound_def)
  have w: "bs_ok (snd (bs_write d ?st))" "bs_error (snd (bs_write d ?st)) = bs_error ?st"
    "bs_input_ended (snd (bs_write d ?st)) = bs_input_ended ?st"
    using ok by (simp_all add: bs_write_ok) (simp_all add: bs_write_def Let_def)
  have "sn_sound ((cn_sender c)\<lparr>sn_stream := snd (bs_write d ?st)\<rparr>)"
    using assms w(1) by (simp add: cn_sound_def sn_sound_def)
  note s = fill_window_sound [OF this]
  let ?c = "c\<lparr>cn_sender := fill_window ((cn_sender c)\<lparr>sn_stream := snd (bs_write d ?st)\<rparr>)\<rparr>"
  have c: "cn_sound ?c" using assms s w by (simp add: cn_sound_def)
  have eq: "cn_write d c = (if cn_is_active c then (fst (bs_write d ?st), push_segments_out ?c) else (0, c))"
    by (simp add: cn_write_def Let_def split_beta)
  show "cn_sound (snd (cn_write d c))" "same_reads c (snd (cn_write d c))"
    "ended (snd (cn_write d c)) = ended c" "cn_is_active (snd (cn_write d c)) = cn_is_active c"
    using c assms w(3) by (simp_all add: eq) (simp_all add: same_reads_def ended_def)
  show "fst (cn_write d c) = size_of d"
    if "cn_is_active c" "\<not> ended c" "length d \<le> unat (cn_remaining_outbound_capacity c)"
  proof -
    have room: "length d \<le> bs_room ?st"
      using that(3) unat_remaining [OF ok] by (simp add: cn_remaining_outbound_capacity_def)
    also have "\<dots> < 2 ^ 64" using unat_lt_u64 [of "bs_capacity ?st"] by simp
    finally have "accepted d ?st = length d"
      using room that(1,2) assms by (simp add: accepted_fits ended_def cn_sound_def)
    then show ?thesis using that(1) by (simp add: eq bs_write_eq [OF ok] size_of_def)
  qed
qed

lemma end_input_stream_sound:
  assumes "cn_sound c"
  shows "cn_sound (end_input_stream c)" "same_reads c (end_input_stream c)"
    "cn_is_active (end_input_stream c) = cn_is_active c"
proof -
  have "sn_sound ((cn_sender c)\<lparr>sn_stream := bs_end_input (sn_stream (cn_sender c))\<rparr>)"
    using assms by (simp add: cn_sound_def sn_sound_def)
  note s = fill_window_sound [OF this]
  let ?c = "c\<lparr>cn_sender := fill_window ((cn_sender c)\<lparr>sn_stream := bs_end_input (sn_stream (cn_sender c))\<rparr>)\<rparr>"
  have eq: "end_input_stream c = push_segments_out ?c" by (simp add: end_input_stream_def Let_def)
  have "cn_sound ?c" "same_reads c ?c"
    using assms s by (simp_all add: cn_sound_def same_reads_def bs_end_input_def)
  then show "cn_sound (end_input_stream c)" "same_reads c (end_input_stream c)"
    "cn_is_active (end_input_stream c) = cn_is_active c"
    unfolding eq by simp_all
qed

lemma connect_sound:
  assumes "cn_sound c" "cn_is_active c"
  shows "cn_sound (connect c)" "same_reads c (connect c)" "ended (connect c) = ended c"
proof -
  let ?c = "c\<lparr>cn_sender := fill_window (cn_sender c), cn_is_active := True\<rparr>"
  have eq: "connect c = push_segments_out ?c" by (simp add: connect_def Let_def)
  have "cn_sound ?c" "same_reads c ?c" "ended ?c = ended c"
    using assms fill_window_sound [of "cn_sender c"] by (simp_all add: cn_sound_def same_reads_def ended_def)
  then show "cn_sound (connect c)" "same_reads c (connect c)" "ended (connect c) = ended c"
    unfolding eq by simp_all
qed

lemma cn_tick_sound:
  assumes "cn_sound c"
  shows "cn_sound (cn_tick ms c)" "same_reads c (cn_tick ms c)" "ended (cn_tick ms c) = ended c"
proof -
  let ?c = "c\<lparr>cn_time_since_last_segment_received := cn_time_since_last_segment_received c + ms,
    cn_sender := sn_tick ms (cn_sender c)\<rparr>"
  have c: "cn_sound ?c" "same_reads c ?c" "ended ?c = ended c"
    using assms sn_tick_sound [of "cn_sender c"] by (simp_all add: cn_sound_def same_reads_def ended_def)
  have trans: "same_reads c x" if "same_reads ?c x" for x
    using c(2) that by (simp add: same_reads_def)
  have off: "cn_sound (d\<lparr>cn_is_active := False\<rparr>)" "same_reads c (d\<lparr>cn_is_active := False\<rparr>) = same_reads c d"
    "ended (d\<lparr>cn_is_active := False\<rparr>) = ended d" if "cn_sound d" for d
    using that by (simp_all add: cn_sound_def same_reads_def ended_def)
  note push = cn_push_sound(1) [OF c(1)]
  have "cn_sound (cn_tick ms c) \<and> same_reads c (cn_tick ms c) \<and> ended (cn_tick ms c) = ended c"
  proof (cases "cn_is_active c")
    case False
    then show ?thesis using assms by (simp add: cn_tick_def same_reads_def)
  next
    case True
    show ?thesis
    proof (cases "MAX_RETX_ATTEMPTS < sn_consecutive_retransmissions (sn_tick ms (cn_sender c))")
      case give_up: True
      then have "cn_tick ms c = unclean_shutdown True ?c" using True by (simp add: cn_tick_def Let_def)
      then show ?thesis using unclean_shutdown_sound [OF c(1), of True] trans c(3) by simp
    next
      case False
      then have "cn_tick ms c \<in> {push_segments_out ?c, (push_segments_out ?c)\<lparr>cn_is_active := False\<rparr>}"
        using True by (simp add: cn_tick_def Let_def)
      then show ?thesis using push off [OF push] c(2,3) by auto
    qed
  qed
  then show "cn_sound (cn_tick ms c)" "same_reads c (cn_tick ms c)" "ended (cn_tick ms c) = ended c"
    by blast+
qed

text \<open>Reading from the inbound stream, bounded by what a reassembler can count.\<close>

lemma cn_read_sound:
  assumes "cn_sound c"
    and "re_read (tr_reassembler (cn_receiver c)) + min (unat n) (length (bs_buffer (stream_out (cn_receiver c))))
      + unat (re_capacity (tr_reassembler (cn_receiver c))) < 2 ^ 62"
    and "cn_read n c = (d, c')"
  shows "cn_sound c'" "cn_is_active c' = cn_is_active c" "cn_sender c' = cn_sender c"
    "cn_segments_out c' = cn_segments_out c"
    "re_capacity (tr_reassembler (cn_receiver c')) = re_capacity (tr_reassembler (cn_receiver c))"
    "d = take (unat n) (bs_buffer (stream_out (cn_receiver c)))"
    "re_read (tr_reassembler (cn_receiver c')) = re_read (tr_reassembler (cn_receiver c)) + length d"
proof -
  let ?re = "tr_reassembler (cn_receiver c)"
  have re: "re_ok ?re" using assms(1) by (simp add: cn_sound_def)
  have read: "bs_ok (re_output ?re)" using re by (simp add: re_ok_def)
  note ok = re_read_ok [OF re assms(2) [unfolded stream_out_def]]
  have c': "c' = c\<lparr>cn_receiver := (cn_receiver c)\<lparr>tr_reassembler := ?re\<lparr>re_output := snd (bs_read n (re_output ?re))\<rparr>\<rparr>\<rparr>"
    and d: "d = fst (bs_read n (re_output ?re))"
    using assms(3) by (auto simp: cn_read_def stream_out_def split_beta Let_def)
  show d': "d = take (unat n) (bs_buffer (stream_out (cn_receiver c)))"
    using d bs_read_eq [OF read] by (simp add: stream_out_def)
  show "cn_sound c'" "cn_is_active c' = cn_is_active c" "cn_sender c' = cn_sender c"
    "cn_segments_out c' = cn_segments_out c"
    "re_capacity (tr_reassembler (cn_receiver c')) = re_capacity (tr_reassembler (cn_receiver c))"
    using assms(1) ok(1) unfolding c' by (simp_all add: cn_sound_def)
  show "re_read (tr_reassembler (cn_receiver c')) = re_read ?re + length d"
    using ok(2) unfolding c' d' by (simp add: stream_out_def min.commute)
qed

section \<open>Runs of one endpoint\<close>

text \<open>What happens to an endpoint: the arrival of a segment (\<open>Inl\<close>) or one of its operations.\<close>

fun ep_run :: "(tcp_segment + cn_op) list \<Rightarrow> endpoint \<Rightarrow> failure + endpoint" where
  "ep_run [] e = Inr e"
| "ep_run (x # xs) e =
     (case (case x of Inl seg \<Rightarrow> cn_step (CnReceive 0) [seg] e | Inr op \<Rightarrow> cn_step op [] e) of
        Inl f \<Rightarrow> Inl f | Inr e' \<Rightarrow> ep_run xs e')"

lemma ep_run_append:
  "ep_run (xs @ ys) e = (case ep_run xs e of Inl f \<Rightarrow> Inl f | Inr e' \<Rightarrow> ep_run ys e')"
  by (induction xs arbitrary: e) (simp_all split: sum.split)

text \<open>How many bytes the application asks for.\<close>

fun asked :: "(tcp_segment + cn_op) list \<Rightarrow> nat" where
  "asked [] = 0"
| "asked (Inr (CnRead n) # xs) = unat n + asked xs"
| "asked (_ # xs) = asked xs"

lemma ep_step_sound:
  assumes c: "cn_sound c" and x: "\<forall>seg. x = Inl seg \<longrightarrow> length (ts_payload seg) < 2 ^ 62"
    and "re_read (tr_reassembler (cn_receiver c)) + asked [x] + unat (re_capacity (tr_reassembler (cn_receiver c))) < 2 ^ 62"
  shows "\<exists>W' del' segs c'. ep_run [x] (W, del, snt, c) = Inr (W', del', snt @ segs, c') \<and> cn_sound c'
    \<and> (\<forall>seg \<in> set segs. plain seg)
    \<and> re_capacity (tr_reassembler (cn_receiver c')) = re_capacity (tr_reassembler (cn_receiver c))
    \<and> re_read (tr_reassembler (cn_receiver c')) \<le> re_read (tr_reassembler (cn_receiver c)) + asked [x]"
proof (cases x)
  case (Inl seg)
  then show ?thesis using segment_received_sound [OF c, of seg] x by (auto simp: same_reads_def)
next
  case (Inr op)
  show ?thesis
  proof (cases op)
    case CnConnect
    then show ?thesis using Inr c connect_sound [OF c] by (simp add: same_reads_def)
  next
    case (CnWrite d)
    then show ?thesis using Inr cn_write_sound(1,2) [OF c, of d] by (simp add: same_reads_def split_beta)
  next
    case CnEnd
    then show ?thesis using Inr end_input_stream_sound [OF c] by (simp add: same_reads_def)
  next
    case (CnTick ms)
    then show ?thesis using Inr cn_tick_sound [OF c, of ms] by (simp add: same_reads_def)
  next
    case (CnRead n)
    obtain d c' where read: "cn_read n c = (d, c')" by fastforce
    have "re_read (tr_reassembler (cn_receiver c)) + min (unat n) (length (bs_buffer (stream_out (cn_receiver c))))
        + unat (re_capacity (tr_reassembler (cn_receiver c))) < 2 ^ 62"
      using assms(3) CnRead Inr by simp
    note c' = cn_read_sound [OF c this read]
    then have "length d \<le> unat n" by simp
    then show ?thesis using Inr CnRead read c'(1,5,7) by simp
  next
    case (CnReceive i)
    then show ?thesis using Inr c by simp
  next
    case CnPop
    have "cn_sound (c\<lparr>cn_segments_out := drop 1 (cn_segments_out c)\<rparr>)" "\<forall>seg \<in> set (take 1 (cn_segments_out c)). plain seg"
      using c by (auto simp: cn_sound_def dest: in_set_dropD in_set_takeD)
    then show ?thesis using Inr CnPop by simp
  next
    case CnDestroy
    then show ?thesis using Inr c unclean_shutdown_sound [OF c, of True]
      by (auto simp: destroy_def same_reads_def)
  qed
qed

lemma ep_run_sound:
  assumes "cn_sound c" "\<forall>seg. Inl seg \<in> set ops \<longrightarrow> length (ts_payload seg) < 2 ^ 62"
    and "re_read (tr_reassembler (cn_receiver c)) + asked ops + unat (re_capacity (tr_reassembler (cn_receiver c))) < 2 ^ 62"
    and "\<forall>seg \<in> set snt. plain seg"
  shows "\<exists>W' del' snt' c'. ep_run ops (W, del, snt, c) = Inr (W', del', snt', c') \<and> cn_sound c'
    \<and> (\<forall>seg \<in> set snt'. plain seg)"
  using assms
proof (induction ops arbitrary: W del snt c)
  case (Cons x ops)
  have split: "asked (x # ops) = asked [x] + asked ops" by (cases x; cases "projr x") simp_all
  have "\<forall>seg. x = Inl seg \<longrightarrow> length (ts_payload seg) < 2 ^ 62" using Cons.prems(2) by simp
  moreover have "re_read (tr_reassembler (cn_receiver c)) + asked [x] + unat (re_capacity (tr_reassembler (cn_receiver c))) < 2 ^ 62"
    using Cons.prems(3) split by simp
  ultimately obtain W' del' segs c' where step: "ep_run [x] (W, del, snt, c) = Inr (W', del', snt @ segs, c')"
    "cn_sound c'" "\<forall>seg \<in> set segs. plain seg"
    "re_capacity (tr_reassembler (cn_receiver c')) = re_capacity (tr_reassembler (cn_receiver c))"
    "re_read (tr_reassembler (cn_receiver c')) \<le> re_read (tr_reassembler (cn_receiver c)) + asked [x]"
    using ep_step_sound [OF Cons.prems(1)] by blast
  have "re_read (tr_reassembler (cn_receiver c')) + asked ops + unat (re_capacity (tr_reassembler (cn_receiver c'))) < 2 ^ 62"
    using step(4,5) Cons.prems(3) split by simp
  moreover have "\<forall>seg. Inl seg \<in> set ops \<longrightarrow> length (ts_payload seg) < 2 ^ 62" using Cons.prems(2) by simp
  moreover have "\<forall>seg \<in> set (snt @ segs). plain seg" using Cons.prems(4) step(3) by auto
  ultimately obtain W2 del2 snt2 c2 where
    "ep_run ops (W', del', snt @ segs, c') = Inr (W2, del2, snt2, c2)" "cn_sound c2" "\<forall>seg \<in> set snt2. plain seg"
    using Cons.IH [OF step(2), of "snt @ segs" W' del'] by blast
  then show ?case using step(1) ep_run_append [of "[x]" ops] by simp
qed simp

text \<open>C16: A connection is never brought out of its well-formed states: whatever its owner does
  with it and whatever segments arrive, forged ones included, no operation throws or fails an
  assertion, its streams stay within their capacities, the reassembler's pieces consistent,
  and every segment it sends can be serialized and has at most 1000 bytes of payload.\<close>

theorem connection_stays_well_formed:
  assumes "unat (cfg_recv_capacity cfg) < 2 ^ 61"
    and "\<forall>seg. Inl seg \<in> set ops \<longrightarrow> length (ts_payload seg) < 2 ^ 62" "asked ops < 2 ^ 61"
  shows "\<exists>W del snt c. ep_run ops (fresh cfg random) = Inr (W, del, snt, c)
     \<and> bs_ok (sn_stream (cn_sender c)) \<and> re_ok (tr_reassembler (cn_receiver c))
     \<and> (\<forall>seg \<in> set (snt @ cn_segments_out c @ map snd (sn_outstanding_segments (cn_sender c))). plain seg)"
proof -
  have "re_read (tr_reassembler (cn_receiver (cn_new cfg random))) = 0"
    "re_capacity (tr_reassembler (cn_receiver (cn_new cfg random))) = cfg_recv_capacity cfg"
    using re_new_start [where cap = "cfg_recv_capacity cfg"] by (simp_all add: cn_new_def tr_new_def)
  then have "\<exists>W del snt c. ep_run ops (fresh cfg random) = Inr (W, del, snt, c) \<and> cn_sound c \<and> (\<forall>seg \<in> set snt. plain seg)"
    unfolding fresh_def by (intro ep_run_sound cn_new_sound) (use assms in simp_all)
  then show ?thesis unfolding cn_sound_def sn_sound_def by fastforce
qed

definition forged_syn :: tcp_segment where
  "forged_syn = tcp_segment_new\<lparr>ts_header := tcp_header_new\<lparr>th_syn := True, th_fin := True\<rparr>, ts_payload := [1, 2]\<rparr>"

theorem connection_stays_well_formed_witness:
  "\<exists>W del snt c. ep_run [Inl forged_syn, Inr (CnRead 2), Inr CnPop] (fresh tcp_config_new (WrappingInt32 0))
       = Inr (W, del, snt, c) \<and> re_ok (tr_reassembler (cn_receiver c))"
proof -
  let ?ops = "[Inl forged_syn, Inr (CnRead 2), Inr CnPop]"
  have "unat (cfg_recv_capacity tcp_config_new) < 2 ^ 61" by (simp add: tcp_config_new_def)
  moreover have "\<forall>seg. Inl seg \<in> set ?ops \<longrightarrow> length (ts_payload seg) < 2 ^ 62" "asked ?ops < 2 ^ 61"
    by (simp_all add: forged_syn_def)
  ultimately show ?thesis
    using connection_stays_well_formed [of tcp_config_new ?ops "WrappingInt32 0"] by blast
qed

end
