(* ===== verification/SpongeStory.thy ===== *)
theory SpongeStory
  imports SpongeSocket ConnectionSafety
begin

text \<open>
  How the trace of a thread is explained by a run of an endpoint of \<open>TcpPair\<close>: a story tells
  the system calls and the operations of the endpoint in one order, in which every segment
  is received after its datagram was read and sent before its datagram is written.
\<close>

section \<open>Operations of an endpoint\<close>

text \<open>What has been sent stays sent.\<close>

lemma ep_run_sent:
  assumes "ep_run [x] (W, del, out, c) = Inr (W', del', out', c')"
  shows "\<exists>segs. out' = out @ segs"
  using assms
proof (cases x)
  case (Inr op)
  then show ?thesis using assms by (cases op) (auto simp: Let_def split: prod.splits)
qed (auto split: sum.splits)

text \<open>The bytes that the application asks to be written.\<close>

fun requested :: "(tcp_segment + cn_op) list \<Rightarrow> byte list" where
  "requested [] = []"
| "requested (Inr (CnWrite d) # xs) = d @ requested xs"
| "requested (_ # xs) = requested xs"

lemma requested_append [simp]: "requested (xs @ ys) = requested xs @ requested ys"
  by (induction xs rule: requested.induct) simp_all

section \<open>Segments and datagrams\<close>

text \<open>The segments that the adapter may have read from the device in a trace, and the bytes it
  writes for a segment.\<close>

definition arrived :: "int \<Rightarrow> sys_event list \<Rightarrow> tcp_segment \<Rightarrow> bool" where
  "arrived dev tr seg \<longleftrightarrow> (\<exists>bytes ad ad'. SysRead dev bytes \<in> set tr \<and> tun_read bytes (ad :: fd_adapter) = Inr (Some seg, ad'))"

definition datagram_of :: "tcp_segment \<Rightarrow> byte list \<Rightarrow> bool" where
  "datagram_of seg bytes \<longleftrightarrow> (\<exists>ad bufs seg'. tun_write seg (ad :: fd_adapter) = Inr (bufs, seg') \<and> bytes = concat bufs)"

lemma arrived_append [simp]: "arrived dev tr seg \<Longrightarrow> arrived dev (tr @ tr') seg"
  by (auto simp: arrived_def)

section \<open>Stories\<close>

type_synonym item = "sys_event + tcp_segment + cn_op"

fun events_of :: "item list \<Rightarrow> sys_event list" where
  "events_of [] = []"
| "events_of (Inl e # log) = e # events_of log"
| "events_of (Inr _ # log) = events_of log"

fun ops_of :: "item list \<Rightarrow> (tcp_segment + cn_op) list" where
  "ops_of [] = []"
| "ops_of (Inl _ # log) = ops_of log"
| "ops_of (Inr x # log) = x # ops_of log"

lemma events_of_append [simp]: "events_of (xs @ ys) = events_of xs @ events_of ys"
  by (induction xs rule: events_of.induct) simp_all

lemma ops_of_append [simp]: "ops_of (xs @ ys) = ops_of xs @ ops_of ys"
  by (induction xs rule: ops_of.induct) simp_all

lemma events_map [simp]: "events_of (map Inl tr) = tr" "ops_of (map Inl tr) = []"
  by (induction tr) simp_all

lemma ops_map [simp]: "events_of (map Inr xs) = []" "ops_of (map Inr xs) = xs"
  by (induction xs) simp_all

text \<open>\<open>whole\<close> says that the device takes each datagram in one piece.\<close>

inductive story :: "bool \<Rightarrow> int \<Rightarrow> endpoint \<Rightarrow> item list \<Rightarrow> endpoint \<Rightarrow> bool"
  for whole :: bool and dev :: int and start :: endpoint where
  begins: "story whole dev start [] start"
| event: "story whole dev start (log @ [Inl e]) (W, del, out, c)"
    if "story whole dev start log (W, del, out, c)"
      "\<forall>bytes. e = SysWrite dev bytes \<and> whole \<longrightarrow> (\<exists>seg \<in> set out. plain seg \<and> datagram_of seg bytes)"
| operation: "story whole dev start (log @ [Inr x]) e'"
    if "story whole dev start log e" "ep_run [x] e = Inr e'"
      "\<forall>seg. x = Inl seg \<longrightarrow> arrived dev (events_of log) seg"

inductive_cases story_NilE: "story whole dev start [] e"
inductive_cases story_eventE: "story whole dev start (log @ [Inl ev]) e"
inductive_cases story_operationE: "story whole dev start (log @ [Inr x]) e"

lemma story_run: "story whole dev start log e \<Longrightarrow> ep_run (ops_of log) start = Inr e"
  by (induction rule: story.induct) (simp_all add: ep_run_append)

lemma story_arrived:
  "story whole dev start log e \<Longrightarrow> Inl seg \<in> set (ops_of log) \<Longrightarrow> arrived dev (events_of log) seg"
  by (induction rule: story.induct) auto

lemma story_sent:
  assumes "story whole dev start log (W, del, out, c)" whole "SysWrite dev bytes \<in> set (events_of log)"
  shows "\<exists>seg \<in> set out. plain seg \<and> datagram_of seg bytes"
  using assms(1,3)
proof (induction log "(W, del, out, c)" arbitrary: W del out c rule: story.induct)
  case (event log W del out c e)
  then show ?case using assms(2) by auto
next
  case (operation log e x)
  obtain W0 del0 out0 c0 where e: "e = (W0, del0, out0, c0)" by (metis prod.exhaust)
  from ep_run_sent [OF operation(3) [unfolded e]] operation(2) [OF e] operation(5) show ?case by auto
qed simp

text \<open>A step: some events, operations, some events.\<close>

lemma story_events:
  assumes "story whole dev start log (W, del, out, c)"
    and "\<forall>bytes. SysWrite dev bytes \<in> set tr \<and> whole \<longrightarrow> (\<exists>seg \<in> set out. plain seg \<and> datagram_of seg bytes)"
  shows "story whole dev start (log @ map Inl tr) (W, del, out, c)"
  using assms(2)
proof (induction tr rule: rev_induct)
  case (snoc e tr)
  then have "story whole dev start (log @ map Inl tr) (W, del, out, c)" by auto
  from story.event [OF this] snoc.prems show ?case by auto
qed (simp add: assms(1))

lemma story_operations:
  assumes "story whole dev start log e" "ep_run xs e = Inr e'"
    and "\<forall>seg. Inl seg \<in> set xs \<longrightarrow> arrived dev (events_of log) seg"
  shows "story whole dev start (log @ map Inr xs) e'"
  using assms(2,3)
proof (induction xs arbitrary: e' rule: rev_induct)
  case Nil
  then show ?case using assms(1) by simp
next
  case (snoc x xs)
  from snoc.prems(1) obtain e1 where e1: "ep_run xs e = Inr e1" "ep_run [x] e1 = Inr e'"
    by (simp add: ep_run_append split: sum.splits)
  have "story whole dev start (log @ map Inr xs) e1" by (rule snoc.IH [OF e1(1)]) (use snoc.prems(2) in simp)
  from story.operation [OF this e1(2)] snoc.prems(2) show ?case by simp
qed

section \<open>What explains a trace\<close>

text \<open>
  The state of the thread between two steps: its connection has come about by a run of an
  endpoint, in which the bytes written are those read from the application and the bytes
  read those given to the application; the segments that arrived were read from the device,
  and those sent are on it, as datagrams, in order.
\<close>

definition explained ::
    "bool \<Rightarrow> tcp_config \<Rightarrow> wrapping_int32 \<Rightarrow> int \<Rightarrow> int \<Rightarrow> sys_event list \<Rightarrow> tcp_connection \<Rightarrow> bool" where
  "explained whole cfg random td dev tr c \<longleftrightarrow> (\<exists>log out grams.
     story whole dev (fresh cfg random) log (read_from td tr, written td tr, out, c)
     \<and> events_of log = tr \<and> requested (ops_of log) = read_from td tr
     \<and> list_all2 datagram_of out grams \<and> written dev tr = concat grams)"

text \<open>A step of the endpoint explains more of the trace: the events before it and those after.\<close>

lemma explained_step:
  assumes "explained whole cfg random td dev tr c"
    and step: "\<And>W del out. ep_run ops (W, del, out, c)
      = Inr (W @ read_from td (tr1 @ tr2), del @ written td (tr1 @ tr2), out @ segs, c')"
    and "requested ops = read_from td (tr1 @ tr2)"
    and "\<forall>seg. Inl seg \<in> set ops \<longrightarrow> arrived dev (tr @ tr1) seg"
    and "\<forall>bytes. SysWrite dev bytes \<notin> set tr1"
    and "\<forall>bytes. SysWrite dev bytes \<in> set tr2 \<and> whole \<longrightarrow> (\<exists>seg \<in> set segs. plain seg \<and> datagram_of seg bytes)"
    and "list_all2 datagram_of segs grams" "written dev (tr1 @ tr2) = concat grams"
  shows "explained whole cfg random td dev (tr @ tr1 @ tr2) c'"
proof -
  from assms(1) obtain log out grams0 where
    h: "story whole dev (fresh cfg random) log (read_from td tr, written td tr, out, c)" "events_of log = tr"
      "requested (ops_of log) = read_from td tr" "list_all2 datagram_of out grams0" "written dev tr = concat grams0"
    unfolding explained_def by blast
  have "story whole dev (fresh cfg random) (log @ map Inl tr1) (read_from td tr, written td tr, out, c)"
    by (rule story_events [OF h(1)]) (use assms(5) in blast)
  from story_operations [OF this step] have "story whole dev (fresh cfg random) ((log @ map Inl tr1) @ map Inr ops)
      (read_from td (tr @ tr1 @ tr2), written td (tr @ tr1 @ tr2), out @ segs, c')"
    using assms(4) h(2) by simp
  from story_events [OF this, of tr2]
  have "story whole dev (fresh cfg random) (log @ map Inl tr1 @ map Inr ops @ map Inl tr2)
      (read_from td (tr @ tr1 @ tr2), written td (tr @ tr1 @ tr2), out @ segs, c')"
    using assms(6) by auto
  moreover have "list_all2 datagram_of (out @ segs) (grams0 @ grams)"
    using h(4) assms(7) by (rule list_all2_appendI)
  ultimately show ?thesis
    unfolding explained_def
    by (intro exI [of _ "log @ map Inl tr1 @ map Inr ops @ map Inl tr2"] exI [of _ "out @ segs"] exI [of _ "grams0 @ grams"])
      (use h(2,3,5) assms(3,8) in simp)
qed

end
