(* ===== verification/SpongeRuns.thy ===== *)
theory SpongeRuns
  imports SpongeStory TcpLifecycle
begin

text \<open>
  The thread of a socket over a TUN device is an endpoint in the sense of \<open>TcpPair\<close>: what the
  application writes to it and reads from it are the streams of the connection, every
  segment it is given was read from the device, and everything it sends goes out there.
\<close>

section \<open>The adapter for TUN devices\<close>

text \<open>Parsing does not invent bytes.\<close>

definition shrinks :: "'a parser \<Rightarrow> bool" where
  "shrinks m \<longleftrightarrow> (\<forall>p. length (np_buffer (snd (run_state m p))) \<le> length (np_buffer p))"

named_theorems shrinks_intros \<open>parsers that do not lengthen the buffer\<close>

lemma shrinks_bind [shrinks_intros]:
  "shrinks m \<Longrightarrow> (\<And>x. shrinks (f x)) \<Longrightarrow> shrinks (State_Monad.bind m f)"
  unfolding shrinks_def by (auto simp: State_Monad.bind_def split_beta intro: order_trans)

lemma shrinks_atoms [shrinks_intros]:
  "shrinks (State_Monad.return x)" "shrinks np_get_error" "shrinks np_get_buffer" "shrinks (np_check_size n)"
  by (simp_all add: shrinks_def State_Monad.return_def np_get_error_def np_get_buffer_def np_check_size_def)

lemma shrinks_state: "(\<And>p. length (np_buffer (snd (f p))) \<le> length (np_buffer p)) \<Longrightarrow> shrinks (State f)"
  by (simp add: shrinks_def)

lemma shrinks_if [shrinks_intros]: "shrinks a \<Longrightarrow> shrinks b \<Longrightarrow> shrinks (if c then a else b)"
  by simp

lemma shrinks_int [shrinks_intros]: "shrinks (np_parse_int n)"
  unfolding np_parse_int_def by (intro shrinks_intros shrinks_state) simp

lemma shrinks_words [shrinks_intros]: "shrinks np_u32" "shrinks np_u16" "shrinks np_u8"
  by (simp_all add: np_u32_def np_u16_def np_u8_def shrinks_int)

lemma shrinks_remove [shrinks_intros]: "shrinks (np_remove_prefix n)"
  unfolding np_remove_prefix_def by (intro shrinks_intros shrinks_state) simp

lemma shrinks_headers: "shrinks tcp_header_parse" "shrinks (ipv4_header_parse h)"
  unfolding tcp_header_parse_def ipv4_header_parse_def ipv4_header_read_def Let_def
  by (intro shrinks_intros)+

lemma tcp_segment_parse_length:
  "length (ts_payload (snd (tcp_segment_parse bytes c seg))) \<le> max (length bytes) (length (ts_payload seg))"
  using shrinks_headers(1) [unfolded shrinks_def, rule_format, of "np_new bytes"]
  by (auto simp: tcp_segment_parse_def np_new_def split_beta)

lemma ipv4_datagram_parse_length:
  "\<exists>p. id_payload (snd (ipv4_datagram_parse bytes d)) = [p] \<and> length p \<le> length bytes"
  using shrinks_headers(2) [unfolded shrinks_def, rule_format, of "id_header d" "np_new bytes"]
  by (auto simp: ipv4_datagram_parse_def np_new_def split_beta Let_def)

text \<open>Reading a datagram does not fail, and gives at most as many bytes as came in.\<close>

lemma tun_read_works:
  "\<exists>seg ad'. tun_read bytes ad = Inr (seg, ad')
     \<and> (\<forall>s. seg = Some s \<longrightarrow> length (ts_payload s) \<le> length bytes)"
proof -
  obtain r d where d: "ipv4_datagram_parse bytes ipv4_datagram_new = (r, d)" by fastforce
  obtain p where p: "id_payload d = [p]" "length p \<le> length bytes"
    using ipv4_datagram_parse_length [of bytes ipv4_datagram_new] by (auto simp: d)
  obtain r' seg where seg: "tcp_segment_parse p (pseudo_cksum (id_header d)) tcp_segment_new = (r', seg)"
    by fastforce
  have "length (ts_payload seg) \<le> length bytes"
    using tcp_segment_parse_length [of p "pseudo_cksum (id_header d)" tcp_segment_new] p(2)
    by (simp add: seg) (simp add: tcp_segment_new_def)
  then show ?thesis
    by (simp add: tun_read_def d unwrap_tcp_in_ip_def payload_buffer_def p(1) seg Let_def)
qed

text \<open>A segment of a connection can be sent as a datagram of a bounded size.\<close>

lemma tun_write_plain:
  assumes "plain seg"
  shows "\<exists>bufs seg'. tun_write seg ad = Inr (bufs, seg') \<and> length (concat bufs) < 2 ^ 61"
proof -
  have "5 \<le> th_doff (ts_header seg)" "th_doff (ts_header seg) \<le> 15" "length (ts_payload seg) \<le> 65000"
    using assms by (simp_all add: plain_def)
  from tun_write_works [OF this, of ad] show ?thesis by blast
qed

section \<open>The invariant of the thread\<close>

definition sponge_ok ::
    "bool \<Rightarrow> tcp_config \<Rightarrow> wrapping_int32 \<Rightarrow> int \<Rightarrow> int \<Rightarrow> fd_adapter sponge \<Rightarrow> bool" where
  "sponge_ok whole cfg random td dev w \<longleftrightarrow> fd_num THREAD_DATA w = td \<and> fd_num DEVICE w = dev
     \<and> length (written td (os_trace w)) < 2 ^ 61
     \<and> (\<exists>c. sk_tcp w = Some c \<and> explained whole cfg random td dev (os_trace w) c \<and> cn_sound c
          \<and> re_read (tr_reassembler (cn_receiver c)) = length (written td (os_trace w))
          \<and> re_capacity (tr_reassembler (cn_receiver c)) = cfg_recv_capacity cfg
          \<and> (\<not> sk_outbound_shutdown w \<longrightarrow> \<not> ended c))"

section \<open>The rules\<close>

text \<open>The failures of the thread: those of system calls, and a write to a connection that has
  just been reset.\<close>

abbreviation short_write :: failure where
  "short_write \<equiv> Thrown ''TCPConnection::write() accepted less than advertised length''"

definition socket_failure :: "bool \<Rightarrow> failure \<Rightarrow> bool" where
  "socket_failure resets e \<longleftrightarrow> e \<in> {Thrown ''read'', Thrown ''writev'', Thrown ''shutdown'',
     Thrown ''EventLoop: error on polled file descriptor''} \<or> resets \<and> e = short_write"

definition no_resets :: "kernel \<Rightarrow> int \<Rightarrow> bool" where
  "no_resets K dev \<longleftrightarrow> (\<forall>tr n bytes (ad :: fd_adapter) seg ad'. k_read K tr dev n = Inr bytes \<longrightarrow>
     tun_read bytes ad = Inr (Some seg, ad') \<longrightarrow> \<not> th_rst (ts_header seg))"

definition still_active :: "'ad sponge \<Rightarrow> bool" where
  "still_active w \<longleftrightarrow> (\<exists>c. sk_tcp w = Some c \<and> cn_is_active c)"

text \<open>When the application's data are read, the stream is still open and, without resets, the
  connection is still active.\<close>

definition sponge_ready :: "bool \<Rightarrow> fd_ref \<times> direction \<Rightarrow> 'ad sponge \<Rightarrow> bool" where
  "sponge_ready resets k w \<longleftrightarrow>
     (k = (THREAD_DATA, In) \<longrightarrow> \<not> sk_outbound_shutdown w \<and> (\<not> resets \<longrightarrow> still_active w))"

lemma no_writes: "\<forall>fd bytes. SysWrite fd bytes \<notin> set tr \<Longrightarrow> written fd tr = []"
  by (auto simp: written_def split: sys_event.splits)

text \<open>A closure has done its work: how the state may have changed.\<close>

lemma sponge_okI:
  assumes ok: "sponge_ok whole cfg random td dev w" "sk_tcp w = Some c"
    and fds: "fd_num THREAD_DATA w' = td" "fd_num DEVICE w' = dev"
    and w': "sk_tcp w' = Some c'" "os_trace w' = os_trace w @ tr1 @ tr2"
    and step: "\<And>W del sent. ep_run ops (W, del, sent, c)
      = Inr (W @ read_from td (tr1 @ tr2), del @ written td (tr1 @ tr2), sent @ segs, c')"
    and "requested ops = read_from td (tr1 @ tr2)"
    and "\<forall>seg. Inl seg \<in> set ops \<longrightarrow> arrived dev (os_trace w @ tr1) seg"
    and "\<forall>bytes. SysWrite dev bytes \<notin> set tr1"
    and "\<forall>bytes. SysWrite dev bytes \<in> set tr2 \<and> whole \<longrightarrow> (\<exists>seg \<in> set segs. plain seg \<and> datagram_of seg bytes)"
    and "list_all2 datagram_of segs grams" "written dev (tr1 @ tr2) = concat grams"
    and sound: "cn_sound c'" "re_capacity (tr_reassembler (cn_receiver c')) = re_capacity (tr_reassembler (cn_receiver c))"
      "re_read (tr_reassembler (cn_receiver c')) = re_read (tr_reassembler (cn_receiver c)) + length (written td (tr1 @ tr2))"
    and "length (written td (os_trace w @ tr1 @ tr2)) < 2 ^ 61"
    and "\<not> sk_outbound_shutdown w' \<Longrightarrow> \<not> ended c'"
  shows "sponge_ok whole cfg random td dev w'"
proof -
  have "explained whole cfg random td dev (os_trace w) c" using ok by (simp add: sponge_ok_def)
  from explained_step [OF this step assms(8-13)]
  show ?thesis using assms unfolding sponge_ok_def by simp
qed

text \<open>When nothing is written or read by the application, and nothing sent.\<close>

lemma sponge_ok_same:
  assumes ok: "sponge_ok whole cfg random td dev w" "sk_tcp w = Some c"
    and fds: "fd_num THREAD_DATA w' = td" "fd_num DEVICE w' = dev"
    and w': "sk_tcp w' = Some c'" "os_trace w' = os_trace w @ tr"
    and tr: "read_from td tr = []" "written td tr = []" "\<forall>fd bytes. SysWrite fd bytes \<notin> set tr"
    and step: "\<And>W del sent. ep_run ops (W, del, sent, c) = Inr (W, del, sent, c')" "requested ops = []"
    and "\<forall>seg. Inl seg \<in> set ops \<longrightarrow> arrived dev (os_trace w @ tr) seg"
    and sound: "cn_sound c'" "same_reads c c'"
    and "\<not> sk_outbound_shutdown w' \<Longrightarrow> \<not> ended c'"
  shows "sponge_ok whole cfg random td dev w'"
  by (rule sponge_okI [OF ok fds, where ops = ops and segs = "[]" and grams = "[]" and ?tr1.0 = tr and ?tr2.0 = "[]"])
    (use assms no_writes [of tr dev] in \<open>simp_all add: same_reads_def sponge_ok_def\<close>)

text \<open>Rule 1.\<close>

lemma datagram_arrives_works:
  assumes K: "kernel_ok K" and ok: "sponge_ok whole cfg random td dev w" and "td \<noteq> dev"
  shows "case datagram_arrives tun_adapt K w of Inl e \<Rightarrow> socket_failure resets e
    | Inr w' \<Rightarrow> sponge_ok whole cfg random td dev w' \<and> (no_resets K dev \<longrightarrow> still_active w \<longrightarrow> still_active w')
        \<and> sk_outbound_shutdown w' = sk_outbound_shutdown w \<and> read_count DEVICE w' = read_count DEVICE w + 1"
proof -
  from ok obtain c where c: "sk_tcp w = Some c" "cn_sound c" "\<not> sk_outbound_shutdown w \<longrightarrow> \<not> ended c"
    and fds: "fd_num THREAD_DATA w = td" "fd_num DEVICE w = dev"
    by (auto simp: sponge_ok_def)
  show ?thesis
  proof (cases "fd_read K DEVICE (- 1) w")
    case (Inl e)
    then show ?thesis
      using fd_read_works [OF K, where fd = DEVICE and limit = "- 1" and w = w]
      by (simp add: datagram_arrives_def tun_adapt_def tun_adapt_read_def socket_failure_def)
  next
    case (Inr r)
    obtain bytes w1 where r: "r = (bytes, w1)" by (cases r)
    from fd_read_works [OF K, where fd = DEVICE and limit = "- 1" and w = w, unfolded Inr r sum.case prod.case] obtain x where
      x: "used (os_fds w DEVICE) x" "fd_reads x = fd_reads (os_fds w DEVICE) + 1" and len: "length bytes \<le> 2 ^ 20"
      and came: "\<exists>n. k_read K (os_trace w) dev n = Inr bytes"
      and w1: "w1 = w\<lparr>os_fds := (os_fds w)(DEVICE := x), os_trace := os_trace w @ [SysRead dev bytes]\<rparr>"
      by (auto simp: fds)
    obtain seg ad where seg: "tun_read bytes (sk_adapter w1) = Inr (seg, ad)"
      "\<forall>s. seg = Some s \<longrightarrow> length (ts_payload s) \<le> length bytes"
      using tun_read_works by blast
    have read: "ao_read tun_adapt K w = Inr (seg, w1\<lparr>sk_adapter := ad\<rparr>)"
      by (simp add: tun_adapt_def tun_adapt_read_def Inr r seg(1))
    have "\<exists>c'. (case seg of None \<Rightarrow> Inr c | Some s \<Rightarrow> segment_received s c) = Inr c'
        \<and> cn_sound c' \<and> same_reads c c' \<and> ended c' = ended c
        \<and> (cn_is_active c' \<longleftrightarrow> cn_is_active c \<and> (\<forall>s. seg = Some s \<longrightarrow> \<not> th_rst (ts_header s)))"
    proof (cases seg)
      case None
      then show ?thesis using c(2) by (simp add: same_reads_def)
    next
      case (Some s)
      then have "length (ts_payload s) < 2 ^ 62" using seg(2) len by auto
      from segment_received_sound [OF c(2) this] show ?thesis using Some by auto
    qed
    then obtain c' where c': "(case seg of None \<Rightarrow> Inr c | Some s \<Rightarrow> segment_received s c) = Inr c'"
      "cn_sound c'" "same_reads c c'" "ended c' = ended c"
      "cn_is_active c' \<longleftrightarrow> cn_is_active c \<and> (\<forall>s. seg = Some s \<longrightarrow> \<not> th_rst (ts_header s))"
      by blast
    let ?ops = "case seg of None \<Rightarrow> [] | Some s \<Rightarrow> [Inl s]"
    have step: "ep_run ?ops (W, del, sent, c) = Inr (W, del, sent, c')" for W del sent
      using c'(1) by (cases seg) (auto split: sum.splits)
    have no_request: "requested ?ops = []" by (cases seg) simp_all
    have arrived: "\<forall>s. Inl s \<in> set ?ops \<longrightarrow> arrived dev (os_trace w @ [SysRead dev bytes]) s"
      using seg(1) by (auto simp: arrived_def split: option.splits)
    define w' where "w' = (let w' = w1\<lparr>sk_adapter := ad, sk_tcp := Some c'\<rparr>
      in if fd_eof THREAD_DATA w' \<and> cn_bytes_in_flight c' = 0 \<and> \<not> sk_fully_acked w'
         then w'\<lparr>sk_fully_acked := True\<rparr> else w')"
    have "datagram_arrives tun_adapt K w = Inr w'"
      unfolding datagram_arrives_def read sum.case prod.case with_tcp_def w'_def
      using c(1) c'(1) by (simp add: w1 Let_def)
    moreover have w': "sk_tcp w' = Some c'" "os_trace w' = os_trace w @ [SysRead dev bytes]"
      "os_fds w' = (os_fds w)(DEVICE := x)" "sk_outbound_shutdown w' = sk_outbound_shutdown w"
      by (simp_all add: w'_def w1 Let_def)
    moreover have "sponge_ok whole cfg random td dev w'"
      by (rule sponge_ok_same [OF ok c(1) _ _ w'(1,2) _ _ _ step _ arrived c'(2,3)])
        (use no_request fds x(1) w'(3,4) c(3) c'(4) \<open>td \<noteq> dev\<close> in \<open>simp_all add: fd_num_def used_def\<close>)
    moreover have "still_active w'" if quiet: "no_resets K dev" and "still_active w"
    proof -
      from came have "\<not> th_rst (ts_header s)" if "seg = Some s" for s
        using quiet seg(1) that unfolding no_resets_def by blast
      then show ?thesis using \<open>still_active w\<close> w'(1) c(1) c'(5) by (auto simp: still_active_def)
    qed
    ultimately show ?thesis using x(2) by (simp add: read_count_def)
  qed
qed

text \<open>Rule 2.\<close>

lemma outbound_data_works:
  assumes K: "kernel_ok K" and ok: "sponge_ok whole cfg random td dev w" and "td \<noteq> dev"
    and open': "\<not> sk_outbound_shutdown w" "\<not> resets \<longrightarrow> still_active w"
  shows "case outbound_data K w of Inl e \<Rightarrow> socket_failure resets e
    | Inr w' \<Rightarrow> sponge_ok whole cfg random td dev w' \<and> read_count THREAD_DATA w' = read_count THREAD_DATA w + 1"
proof -
  from ok open'(1) obtain c where c: "sk_tcp w = Some c" "cn_sound c" "\<not> ended c"
    and fds: "fd_num THREAD_DATA w = td" "fd_num DEVICE w = dev"
    by (auto simp: sponge_ok_def)
  let ?limit = "cn_remaining_outbound_capacity c"
  show ?thesis
  proof (cases "fd_read K THREAD_DATA ?limit w")
    case (Inl e)
    then show ?thesis
      using fd_read_works [OF K, where fd = THREAD_DATA and limit = ?limit and w = w]
      by (simp add: outbound_data_def with_tcp_def c(1) socket_failure_def)
  next
    case (Inr r)
    obtain data w1 where r: "r = (data, w1)" by (cases r)
    from fd_read_works [OF K, where fd = THREAD_DATA and limit = ?limit and w = w, unfolded Inr r sum.case prod.case]
    obtain x where x: "used (os_fds w THREAD_DATA) x" "fd_reads x = fd_reads (os_fds w THREAD_DATA) + 1"
      and len: "length data \<le> unat ?limit" "length data \<le> 2 ^ 20"
      and w1: "w1 = w\<lparr>os_fds := (os_fds w)(THREAD_DATA := x), os_trace := os_trace w @ [SysRead td data]\<rparr>"
      by (auto simp: fds)
    obtain n c1 where wr: "cn_write data c = (n, c1)" by fastforce
    have c1: "cn_sound c1" "same_reads c c1" "ended c1 = ended c"
      using cn_write_sound [OF c(2), of data] by (simp_all add: wr)
    have size: "unat (size_of data) = length data" using len(2) by (intro unat_size_of) simp
    show ?thesis
    proof (cases "n = size_of data")
      case False
      then have "\<not> cn_is_active c" using cn_write_sound(5) [OF c(2) _ c(3) len(1)] by (auto simp: wr)
      then have "resets" using open'(2) c(1) by (auto simp: still_active_def)
      then show ?thesis
        using False by (simp add: outbound_data_def with_tcp_def c(1) Inr r wr socket_failure_def)
    next
      case True
      define c2 where "c2 = (if fd_eof THREAD_DATA w1 then end_input_stream c1 else c1)"
      define w2 where "w2 = w1\<lparr>sk_tcp := Some c2,
        sk_outbound_shutdown := fd_eof THREAD_DATA w1 \<or> sk_outbound_shutdown w1\<rparr>"
      have "outbound_data K w = Inr w2"
        using True by (cases w1) (simp add: outbound_data_def with_tcp_def c(1) Inr r wr w2_def c2_def)
      moreover have w2: "sk_tcp w2 = Some c2" "os_trace w2 = os_trace w @ [SysRead td data]"
        "os_fds w2 = (os_fds w)(THREAD_DATA := x)"
        "sk_outbound_shutdown w2 \<longleftrightarrow> fd_eof THREAD_DATA w1 \<or> sk_outbound_shutdown w"
        by (simp_all add: w2_def w1)
      moreover have c2: "cn_sound c2" "same_reads c c2"
        using c1 end_input_stream_sound [OF c1(1)] by (simp_all add: c2_def same_reads_def)
      let ?ops = "Inr (CnWrite data) # (if fd_eof THREAD_DATA w1 then [Inr CnEnd] else [])"
      have step: "ep_run ?ops (W, del, sent, c) = Inr (W @ read_from td ([SysRead td data] @ []),
          del @ written td ([SysRead td data] @ []), sent @ [], c2)" for W del sent
        using True by (simp add: wr size c2_def)
      have "sponge_ok whole cfg random td dev w2"
        by (rule sponge_okI [OF ok c(1) _ _ w2(1) _ step _ _ _ _ list_all2_Nil [THEN iffD2, OF refl]])
          (use fds x(1) w2(2,3,4) c1(3) c(3) c2 ok \<open>td \<noteq> dev\<close> in
            \<open>simp_all add: fd_num_def used_def same_reads_def sponge_ok_def c2_def split: if_splits\<close>)
      ultimately show ?thesis using x(2) by (simp add: read_count_def)
    qed
  qed
qed

lemma outbound_cancel_works:
  assumes ok: "sponge_ok whole cfg random td dev w"
  shows "case outbound_cancel w of Inl e \<Rightarrow> socket_failure resets e
    | Inr w' \<Rightarrow> sponge_ok whole cfg random td dev w'"
proof -
  from ok obtain c where c: "sk_tcp w = Some c" "cn_sound c"
    and fds: "fd_num THREAD_DATA w = td" "fd_num DEVICE w = dev"
    by (auto simp: sponge_ok_def)
  let ?w = "w\<lparr>sk_tcp := Some (end_input_stream c), sk_outbound_shutdown := True\<rparr>"
  have step: "ep_run [Inr CnEnd] (W, del, sent, c) = Inr (W, del, sent, end_input_stream c)" for W del sent
    by simp
  have "sponge_ok whole cfg random td dev ?w"
    by (rule sponge_ok_same [OF ok c(1), where tr = "[]", OF _ _ _ _ _ _ _ step])
      (use fds end_input_stream_sound [OF c(2)] in \<open>simp_all add: fd_num_def\<close>)
  then show ?thesis by (simp add: outbound_cancel_def with_tcp_def c(1))
qed

text \<open>Rule 3.\<close>

lemma inbound_data_works:
  assumes K: "kernel_ok K" and ok: "sponge_ok whole cfg random td dev w" and "td \<noteq> dev"
    and cap: "unat (cfg_recv_capacity cfg) < 2 ^ 61"
  shows "case inbound_data K w of Inl e \<Rightarrow> socket_failure resets e
    | Inr w' \<Rightarrow> sponge_ok whole cfg random td dev w' \<and> (still_active w \<longrightarrow> still_active w')
        \<and> sk_outbound_shutdown w' = sk_outbound_shutdown w
        \<and> write_count THREAD_DATA w' \<noteq> write_count THREAD_DATA w"
proof -
  from ok obtain c where c: "sk_tcp w = Some c" "cn_sound c" "\<not> sk_outbound_shutdown w \<longrightarrow> \<not> ended c"
    and reads: "re_read (tr_reassembler (cn_receiver c)) = length (written td (os_trace w))"
      "re_capacity (tr_reassembler (cn_receiver c)) = cfg_recv_capacity cfg"
    and fds: "fd_num THREAD_DATA w = td" "fd_num DEVICE w = dev"
    by (auto simp: sponge_ok_def)
  let ?in = "stream_out (cn_receiver c)"
  have in_ok: "bs_ok ?in" using c(2) by (simp add: cn_sound_def re_ok_def stream_out_def)
  define buffer where "buffer = bs_peek_output (min 65536 (bs_buffer_size ?in)) ?in"
  define amount where "amount = min 65536 (bs_buffer_size ?in)"
  have buffer: "buffer = take (unat amount) (bs_buffer ?in)"
    by (simp add: buffer_def amount_def bs_peek_eq [OF in_ok])
  have "amount \<le> 65536" by (simp add: amount_def)
  then have "unat amount \<le> unat (65536 :: u64)" by (simp only: word_le_nat_alt)
  then have small: "length buffer \<le> 65536" by (simp add: buffer)
  show ?thesis
  proof (cases "fd_write K THREAD_DATA [buffer] False w")
    case (Inl e)
    then show ?thesis
      using fd_write_loop_works [OF K, where buffer = "[buffer]" and fd = THREAD_DATA and all = False and w = w and tot = 0] small
      by (simp add: inbound_data_def with_tcp_def c(1) buffer_def [symmetric] socket_failure_def fd_write_def Let_def)
  next
    case (Inr r)
    obtain n w1 where r: "r = (n, w1)" by (cases r)
    have "length (concat [buffer]) < 2 ^ 63" using small by simp
    from fd_write_loop_works [OF K this, where fd = THREAD_DATA and all = False and w = w and tot = 0,
        folded fd_write_def, unfolded Inr r sum.case prod.case]
    obtain x tr k where x: "used (os_fds w THREAD_DATA) x" "fd_writes x = fd_writes (os_fds w THREAD_DATA) + 1"
      and w1: "w1 = w\<lparr>os_fds := (os_fds w)(THREAD_DATA := x), os_trace := os_trace w @ tr\<rparr>"
      and tr: "\<forall>fd. read_from fd tr = []" "written dev tr = []" "written td tr = take k buffer"
        "length (written td (os_trace w @ tr)) < 2 ^ 61" "\<forall>e \<in> set tr. \<exists>bs. e = SysWrite td bs"
      and n: "n = of_nat k" "k \<le> length buffer"
      using \<open>td \<noteq> dev\<close> by (auto simp: fds)
    have un: "unat n = k" using n small by (simp add: unat_of_nat_u64)
    obtain d c' where read: "cn_read n c = (d, c')" by fastforce
    have fits: "re_read (tr_reassembler (cn_receiver c)) + min (unat n) (length (bs_buffer ?in))
        + unat (re_capacity (tr_reassembler (cn_receiver c))) < 2 ^ 62"
      using tr(3,4) n(2) cap un reads by simp
    note c' = cn_read_sound [OF c(2) fits read]
    have "k \<le> unat amount" using n(2) by (simp add: buffer)
    then have d: "d = written td tr" using c'(6) un tr(3) by (simp add: buffer min.absorb1)
    have pop: "c\<lparr>cn_receiver := (cn_receiver c)\<lparr>tr_reassembler :=
        (tr_reassembler (cn_receiver c))\<lparr>re_output := bs_pop_output n ?in\<rparr>\<rparr>\<rparr> = c'"
      using read by (simp add: cn_read_def bs_read_def)
    have out: "stream_out (cn_receiver c') = bs_pop_output n ?in"
      unfolding pop [symmetric] by (simp add: stream_out_def)
    let ?w1 = "w1\<lparr>sk_tcp := Some c'\<rparr>"
    have eq: "inbound_data K w = (if bs_eof (stream_out (cn_receiver c')) \<or> bs_error (stream_out (cn_receiver c')) then
        (case socket_shutdown K THREAD_DATA SHUT_WR ?w1 of Inl e \<Rightarrow> Inl e | Inr w \<Rightarrow> Inr (w\<lparr>sk_inbound_shutdown := True\<rparr>))
        else Inr ?w1)"
      unfolding inbound_data_def with_tcp_def c(1) option.case Let_def buffer_def [symmetric] Inr r sum.case prod.case
        pop out ..
    have step: "ep_run [Inr (CnRead n)] (W, del, sent, c) = Inr (W @ read_from td (tr @ tr'), del @ written td (tr @ tr'), sent @ [], c')"
      if "read_from td tr' = []" "written td tr' = []" for W del sent tr'
      using read d tr(1) that by simp
    have quiet: "SysWrite dev bytes \<notin> set tr" for bytes using tr(5) \<open>td \<noteq> dev\<close> by auto
    note reads' = c'(7) [unfolded d]
    have dlen: "length (written td (os_trace w)) + length (written td tr) < 2 ^ 61" using tr(4) by simp
    have active: "still_active w \<longrightarrow> still_active w'" if "sk_tcp w' = Some c'" for w' :: "fd_adapter sponge"
      using that c(1) c'(2) by (simp add: still_active_def)
    have kept: "sponge_ok whole cfg random td dev w'"
      if "sk_tcp w' = Some c'" "os_trace w' = os_trace w @ tr @ tr'" "fd_num THREAD_DATA w' = td"
        "fd_num DEVICE w' = dev" "read_from td tr' = []" "written td tr' = []" "\<forall>fd bytes. SysWrite fd bytes \<notin> set tr'"
        "sk_outbound_shutdown w' = sk_outbound_shutdown w" for w' tr'
      by (rule sponge_okI [OF ok c(1) that(3,4,1,2) step [OF that(5,6)] _ _ _ _ list_all2_Nil [THEN iffD2, OF refl]])
        (use that no_writes [of tr' dev] quiet tr(1,2) dlen c(3) c'(1,3,5) reads' in \<open>simp_all add: ended_def\<close>)
    show ?thesis
    proof (cases "bs_eof (stream_out (cn_receiver c')) \<or> bs_error (stream_out (cn_receiver c'))")
      case False
      have "sponge_ok whole cfg random td dev ?w1"
        by (rule kept [where tr' = "[]"]) (use x fds in \<open>simp_all add: w1 fd_num_def used_def\<close>)
      then show ?thesis using False active [of ?w1] x(2) by (simp add: eq w1 write_count_def)
    next
      case True
      show ?thesis
      proof (cases "socket_shutdown K THREAD_DATA SHUT_WR ?w1")
        case (Inl e)
        then show ?thesis using True socket_shutdown_works [OF K, where fd = THREAD_DATA and w = ?w1]
          by (simp add: eq socket_failure_def)
      next
        case (Inr w2)
        from socket_shutdown_works [OF K, where fd = THREAD_DATA and w = ?w1, unfolded Inr sum.case] obtain y where
          y: "used x y" "fd_writes y = fd_writes x + 1"
            "w2 = ?w1\<lparr>os_fds := (os_fds ?w1)(THREAD_DATA := y),
               os_trace := os_trace ?w1 @ [SysShutdown (fd_num THREAD_DATA ?w1) SHUT_WR]\<rparr>"
          by (auto simp: w1)
        let ?w2 = "w2\<lparr>sk_inbound_shutdown := True\<rparr>"
        have "sponge_ok whole cfg random td dev ?w2"
          by (rule kept [where tr' = "[SysShutdown (fd_num THREAD_DATA ?w1) SHUT_WR]"])
            (use x y fds in \<open>simp_all add: w1 fd_num_def used_def\<close>)
        moreover have "fd_writes (os_fds w THREAD_DATA) + 1 + 1 \<noteq> fd_writes (os_fds w THREAD_DATA)"
          by (simp add: add.assoc)
        ultimately show ?thesis using True active [of ?w2] x(2) y Inr by (simp add: eq w1 write_count_def)
      qed
    qed
  qed
qed

text \<open>Rule 4.\<close>

lemma send_segments_works:
  assumes K: "kernel_ok K" and "td \<noteq> dev" and whole: "whole \<longrightarrow> whole_writes K dev"
    and "sponge_ok whole cfg random td dev w" "sk_tcp w = Some c" "cn_segments_out c = queue"
  shows "case send_segments tun_adapt K queue w of Inl e \<Rightarrow> socket_failure resets e
    | Inr w' \<Rightarrow> sponge_ok whole cfg random td dev w' \<and> (still_active w \<longrightarrow> still_active w')
        \<and> sk_outbound_shutdown w' = sk_outbound_shutdown w
        \<and> (\<exists>c'. sk_tcp w' = Some c' \<and> cn_segments_out c' = [])"
  using assms(4-6)
proof (induction queue arbitrary: w c)
  case Nil
  then show ?case by simp
next
  case (Cons seg queue)
  note ok = Cons.prems(1) and c = Cons.prems(2,3)
  have fds: "fd_num THREAD_DATA w = td" "fd_num DEVICE w = dev" and sound: "cn_sound c"
    and opened: "\<not> sk_outbound_shutdown w \<longrightarrow> \<not> ended c"
    using ok c(1) by (auto simp: sponge_ok_def)
  have "plain seg" using sound c(2) by (simp add: cn_sound_def)
  then obtain bufs seg' where bufs: "tun_write seg (sk_adapter w) = Inr (bufs, seg')" "length (concat bufs) < 2 ^ 61"
    using tun_write_plain by blast
  have len: "length (concat bufs) < 2 ^ 63" using bufs(2) by simp
  note wr = fd_write_loop_works [OF K len, where fd = DEVICE and all = True and w = w and tot = 0, folded fd_write_def]
  show ?case
  proof (cases "fd_write K DEVICE bufs True w")
    case (Inl e)
    then show ?thesis using wr by (simp add: tun_adapt_def tun_adapt_write_def bufs(1) socket_failure_def)
  next
    case (Inr r)
    obtain n w1 where r: "r = (n, w1)" by (cases r)
    from wr [unfolded Inr r sum.case prod.case] obtain x tr where
      x: "used (os_fds w DEVICE) x" and w1: "w1 = w\<lparr>os_fds := (os_fds w)(DEVICE := x), os_trace := os_trace w @ tr\<rparr>"
      and tr: "\<forall>fd. read_from fd tr = []" "written td tr = []" "written dev tr = concat bufs"
        "whole_writes K dev \<longrightarrow> tr = [SysWrite dev (concat bufs)]"
      using \<open>td \<noteq> dev\<close> by (auto simp: fds)
    let ?c = "c\<lparr>cn_segments_out := queue\<rparr>" and ?w = "w1\<lparr>sk_tcp := Some (c\<lparr>cn_segments_out := queue\<rparr>)\<rparr>"
    have step: "ep_run [Inr CnPop] (W, del, sent, c)
        = Inr (W @ read_from td ([] @ tr), del @ written td ([] @ tr), sent @ [seg], ?c)"
      for W del sent
      using c(2) tr by simp
    have carried: "list_all2 datagram_of [seg] [concat bufs]" using bufs(1) by (auto simp: datagram_of_def)
    have ok': "sponge_ok whole cfg random td dev ?w"
      by (rule sponge_okI [OF ok c(1) _ _ _ _ step _ _ _ _ carried])
        (use whole \<open>plain seg\<close> carried fds x tr sound c opened ok in \<open>auto simp: w1 fd_num_def used_def cn_sound_def ended_def sponge_ok_def\<close>)
    have eq: "send_segments tun_adapt K (seg # queue) w = send_segments tun_adapt K queue ?w"
      by (simp add: tun_adapt_def tun_adapt_write_def bufs(1) Inr r with_tcp_def w1 c(1))
    have "still_active ?w \<longleftrightarrow> still_active w" "sk_outbound_shutdown ?w = sk_outbound_shutdown w"
      using c(1) by (simp_all add: still_active_def w1)
    then show ?thesis using Cons.IH [OF ok'] unfolding eq by (simp split: sum.splits)
  qed
qed

section \<open>The loop\<close>

definition thread_inv :: "kernel \<Rightarrow> tcp_config \<Rightarrow> wrapping_int32 \<Rightarrow> int \<Rightarrow> int \<Rightarrow> fd_adapter sponge \<Rightarrow> bool" where
  "thread_inv K cfg random td dev w \<longleftrightarrow> kernel_ok K \<and> td \<noteq> dev \<and> unat (cfg_recv_capacity cfg) < 2 ^ 61
     \<and> sponge_ok (whole_writes K dev) cfg random td dev w"

lemma sponge_rules_eq: "sponge_rules A K =
    [\<lparr>ru_fd = DEVICE, ru_direction = In, ru_callback = datagram_arrives A K, ru_interest = datagram_interest, ru_cancel = Inr\<rparr>,
     \<lparr>ru_fd = THREAD_DATA, ru_direction = In, ru_callback = outbound_data K, ru_interest = outbound_interest, ru_cancel = outbound_cancel\<rparr>,
     \<lparr>ru_fd = THREAD_DATA, ru_direction = Out, ru_callback = inbound_data K, ru_interest = inbound_interest, ru_cancel = Inr\<rparr>,
     \<lparr>ru_fd = DEVICE, ru_direction = Out, ru_callback = segments_leave A K, ru_interest = segments_interest, ru_cancel = Inr\<rparr>]"
  by (simp add: sponge_rules_def add_rule_def Let_def)

lemma sponge_ok_happens:
  assumes "sponge_ok whole cfg random td dev w" "e = SysPoll p \<or> e = SysClock t"
  shows "sponge_ok whole cfg random td dev (happens e w)"
proof -
  from assms(1) obtain c where c: "sk_tcp w = Some c" "cn_sound c" "\<not> sk_outbound_shutdown w \<longrightarrow> \<not> ended c"
    and fds: "fd_num THREAD_DATA w = td" "fd_num DEVICE w = dev"
    by (auto simp: sponge_ok_def)
  have step: "ep_run [] (W, del, sent, c) = Inr (W, del, sent, c)" for W del sent by simp
  show ?thesis
    by (rule sponge_ok_same [OF assms(1) c(1), where tr = "[e]", OF _ _ _ _ _ _ _ step])
      (use c fds assms(2) in \<open>auto simp: happens_def fd_num_def same_reads_def\<close>)
qed

interpretation sponge: event_loop "set (sponge_rules tun_adapt K)" "thread_inv K cfg random td dev"
    "sponge_ready (\<not> no_resets K dev)" "socket_failure (\<not> no_resets K dev)"
  for K cfg random td dev
proof
  fix r and w :: "fd_adapter sponge"
  assume r: "r \<in> set (sponge_rules tun_adapt K)" and inv: "thread_inv K cfg random td dev w"
  then have K: "kernel_ok K" "td \<noteq> dev" "unat (cfg_recv_capacity cfg) < 2 ^ 61"
    and ok: "sponge_ok (whole_writes K dev) cfg random td dev w"
    by (simp_all add: thread_inv_def)
  then obtain c where c: "sk_tcp w = Some c" by (auto simp: sponge_ok_def)
  show "\<exists>b. ru_interest r w = Inr b \<and> (b \<longrightarrow> sponge_ready (\<not> no_resets K dev) (key r) w)"
    using r c by (auto simp: sponge_rules_eq datagram_interest_def outbound_interest_def inbound_interest_def
        segments_interest_def with_tcp_def sponge_ready_def still_active_def Let_def)
  show "case ru_cancel r w of Inl e \<Rightarrow> socket_failure (\<not> no_resets K dev) e
    | Inr w' \<Rightarrow> thread_inv K cfg random td dev w' \<and> (\<forall>k. k \<noteq> key r \<longrightarrow>
        sponge_ready (\<not> no_resets K dev) k w \<longrightarrow> sponge_ready (\<not> no_resets K dev) k w')"
    using r inv K outbound_cancel_works [OF ok, of "\<not> no_resets K dev"]
    by (auto simp: sponge_rules_eq thread_inv_def sponge_ready_def split: sum.splits)
next
  fix r and w :: "fd_adapter sponge"
  assume r: "r \<in> set (sponge_rules tun_adapt K)" and inv: "thread_inv K cfg random td dev w"
    and ready: "sponge_ready (\<not> no_resets K dev) (key r) w"
  then have K: "kernel_ok K" "td \<noteq> dev" "unat (cfg_recv_capacity cfg) < 2 ^ 61"
    and ok: "sponge_ok (whole_writes K dev) cfg random td dev w"
    by (simp_all add: thread_inv_def)
  then obtain c where c: "sk_tcp w = Some c" by (auto simp: sponge_ok_def)
  let ?resets = "\<not> no_resets K dev"
  consider "r = sponge_rules tun_adapt K ! 0" | "r = sponge_rules tun_adapt K ! 1"
    | "r = sponge_rules tun_adapt K ! 2" | "r = sponge_rules tun_adapt K ! 3"
    using r by (auto simp: sponge_rules_eq)
  then show "case ru_callback r w of Inl e \<Rightarrow> socket_failure ?resets e
    | Inr w' \<Rightarrow> thread_inv K cfg random td dev w'
        \<and> (\<forall>k. k \<noteq> key r \<longrightarrow> sponge_ready ?resets k w \<longrightarrow> sponge_ready ?resets k w')
        \<and> (service_count r w = service_count r w' \<longrightarrow> ru_interest r w' = Inr False)"
  proof cases
    case 1
    then show ?thesis
      using datagram_arrives_works [OF K(1) ok K(2), of ?resets] K
      by (auto simp: sponge_rules_eq thread_inv_def sponge_ready_def service_count_def split: sum.splits)
  next
    case 2
    then show ?thesis
      using outbound_data_works [OF K(1) ok K(2), of ?resets] K ready
      by (auto simp: sponge_rules_eq thread_inv_def sponge_ready_def service_count_def split: sum.splits)
  next
    case 3
    then show ?thesis
      using inbound_data_works [OF K(1) ok K(2,3), of ?resets] K
      by (auto simp: sponge_rules_eq thread_inv_def sponge_ready_def service_count_def split: sum.splits)
  next
    case 4
    then show ?thesis
      using send_segments_works [OF K(1,2) impI ok c refl, of ?resets] K c
      by (auto simp: sponge_rules_eq thread_inv_def sponge_ready_def segments_leave_def segments_interest_def
          with_tcp_def split: sum.splits)
  qed
next
  fix w :: "fd_adapter sponge" and p
  assume "thread_inv K cfg random td dev w"
  then show "thread_inv K cfg random td dev (happens (SysPoll p) w) \<and> (\<forall>k.
      sponge_ready (\<not> no_resets K dev) k w \<longrightarrow> sponge_ready (\<not> no_resets K dev) k (happens (SysPoll p) w))"
    using sponge_ok_happens [of _ cfg random td dev w "SysPoll p" p]
    by (auto simp: thread_inv_def sponge_ready_def still_active_def happens_def)
next
  show "socket_failure (\<not> no_resets K dev) (Thrown ''EventLoop: error on polled file descriptor'')"
    by (simp add: socket_failure_def)
qed

abbreviation admissible :: "kernel \<Rightarrow> fd_adapter sponge rule list \<Rightarrow> bool" where
  "admissible K \<equiv> event_loop.admissible (set (sponge_rules tun_adapt K))"

lemma sponge_rules_admissible: "admissible K (sponge_rules tun_adapt K)"
  unfolding sponge.admissible_def by (simp add: sponge_rules_eq)

lemma thread_tick:
  assumes inv: "thread_inv K cfg random td dev w" and c: "sk_tcp w = Some c"
  shows "thread_inv K cfg random td dev (w\<lparr>sk_tcp := Some (cn_tick ms c)\<rparr>)"
proof -
  have ok: "sponge_ok (whole_writes K dev) cfg random td dev w" using inv by (simp add: thread_inv_def)
  then have h: "cn_sound c" "\<not> sk_outbound_shutdown w \<longrightarrow> \<not> ended c"
    "fd_num THREAD_DATA w = td" "fd_num DEVICE w = dev"
    using c by (auto simp: sponge_ok_def)
  have step: "ep_run [Inr (CnTick ms)] (W, del, sent, c) = Inr (W, del, sent, cn_tick ms c)" for W del sent
    by simp
  have "sponge_ok (whole_writes K dev) cfg random td dev (w\<lparr>sk_tcp := Some (cn_tick ms c)\<rparr>)"
    by (rule sponge_ok_same [OF ok c, where tr = "[]", OF _ _ _ _ _ _ _ step])
      (use h cn_tick_sound [OF h(1), of ms] in \<open>simp_all add: fd_num_def\<close>)
  then show ?thesis using inv by (simp add: thread_inv_def)
qed

lemma tcp_loop_keeps:
  assumes "thread_inv K cfg random td dev w" "admissible K rs"
    and cond: "\<And>v. thread_inv K cfg random td dev v \<Longrightarrow> \<exists>b. condition v = Inr b"
  shows "case tcp_loop tun_adapt K condition fuel base_time rs w of None \<Rightarrow> True
    | Some (Inl e) \<Rightarrow> socket_failure (\<not> no_resets K dev) e
    | Some (Inr (rs', w')) \<Rightarrow> thread_inv K cfg random td dev w' \<and> admissible K rs'"
  using assms(1,2)
proof (induction fuel arbitrary: base_time rs w)
  case 0
  then show ?case by simp
next
  case (Suc fuel)
  obtain go where go: "condition w = Inr go" using cond [OF Suc.prems(1)] by blast
  show ?case
  proof (cases go)
    case False
    then show ?thesis using go Suc.prems by simp
  next
    case True
    have round: "case wait_next_event K TCP_TICK_MS rs w of Inl e \<Rightarrow> socket_failure (\<not> no_resets K dev) e
      | Inr (res, rs', w') \<Rightarrow> thread_inv K cfg random td dev w' \<and> admissible K rs'"
      by (rule sponge.wait_next_event_keeps [OF Suc.prems(2,1)])
    show ?thesis
    proof (cases "wait_next_event K TCP_TICK_MS rs w")
      case (Inl e)
      then show ?thesis using round go True by simp
    next
      case (Inr r)
      obtain ret rs1 w1 where r: "r = (ret, rs1, w1)" by (cases r)
      have w1: "thread_inv K cfg random td dev w1" "admissible K rs1" using round by (simp_all add: Inr r)
      then obtain c where c: "sk_tcp w1 = Some c" by (auto simp: thread_inv_def sponge_ok_def)
      show ?thesis
      proof (cases "ret = Exit \<or> k_abort K (os_trace w1)")
        case True
        then show ?thesis using Inr r go \<open>go\<close> w1 by simp
      next
        case False
        let ?now = "k_clock K (os_trace w1)"
        let ?w2 = "(happens (SysClock ?now) w1)\<lparr>sk_tcp := Some (cn_tick (?now - base_time) c)\<rparr>"
        have "thread_inv K cfg random td dev (happens (SysClock ?now) w1)"
          using w1(1) sponge_ok_happens [of _ cfg random td dev w1 "SysClock ?now" _ ?now]
          by (simp add: thread_inv_def)
        then have w2: "thread_inv K cfg random td dev ?w2"
          by (rule thread_tick) (simp add: c happens_def)
        have eq: "tcp_loop tun_adapt K condition (Suc fuel) base_time rs w =
            (if cn_is_active c then tcp_loop tun_adapt K condition fuel ?now rs1 ?w2
             else tcp_loop tun_adapt K condition fuel base_time rs1 w1)"
          using False go \<open>go\<close> c by (simp add: Inr r with_tcp_def timestamp_ms_def Let_def tun_adapt_def happens_def)
        show ?thesis unfolding eq using Suc.IH [OF w2 w1(2)] Suc.IH [OF w1] by simp
      qed
    qed
  qed
qed

section \<open>From the creation of the socket on\<close>

text \<open>A socket just created, on its three descriptors.\<close>

definition new_socket :: "int \<Rightarrow> int \<Rightarrow> fd_adapter sponge \<Rightarrow> bool" where
  "new_socket td dev w \<longleftrightarrow> fd_num THREAD_DATA w = td \<and> fd_num DEVICE w = dev \<and> td \<noteq> dev
     \<and> os_trace w = [] \<and> sk_tcp w = None \<and> \<not> sk_outbound_shutdown w"

text \<open>How the owner starts it: by \<open>connect\<close> or by \<open>listen_and_accept\<close>.\<close>

definition start_socket ::
    "bool \<Rightarrow> kernel \<Rightarrow> nat \<Rightarrow> tcp_config \<Rightarrow> fd_adapter_config \<Rightarrow> wrapping_int32 \<Rightarrow> fd_adapter sponge \<Rightarrow>
     (failure + fd_adapter sponge rule list \<times> fd_adapter sponge) option" where
  "start_socket connecting K = (if connecting then sponge_connect tun_adapt K else sponge_listen_and_accept tun_adapt K)"

lemma state_is_total: "thread_inv K cfg random td dev v \<Longrightarrow> \<exists>b. state_is states v = Inr b"
  by (auto simp: thread_inv_def sponge_ok_def state_is_def with_tcp_def)

lemma state_always: "thread_inv K cfg random td dev v \<Longrightarrow> \<exists>b. (\<lambda>_. Inr True) v = Inr b"
  by blast

lemma thread_inv_start:
  assumes "kernel_ok K" "unat (cfg_recv_capacity cfg) < 2 ^ 61" "new_socket td dev w"
    and w': "os_fds w' = os_fds w" "os_trace w' = os_trace w" "\<not> sk_outbound_shutdown w'" "sk_tcp w' = Some c"
    and c: "c = cn_new cfg random \<or> c = connect (cn_new cfg random)"
  shows "thread_inv K cfg random td dev w'"
proof -
  let ?n = "cn_new cfg random"
  have n: "cn_sound ?n" "cn_is_active ?n" "\<not> ended ?n" "re_read (tr_reassembler (cn_receiver ?n)) = 0"
    "re_capacity (tr_reassembler (cn_receiver ?n)) = cfg_recv_capacity cfg"
    using cn_new_sound [OF assms(2), of random] re_new_start [where cap = "cfg_recv_capacity cfg"]
    by (simp_all add: cn_new_def ended_def sn_new_def bs_new_def tr_new_def)
  have c': "cn_sound c" "\<not> ended c" "re_read (tr_reassembler (cn_receiver c)) = 0"
    "re_capacity (tr_reassembler (cn_receiver c)) = cfg_recv_capacity cfg"
    using c n connect_sound [OF n(1,2)] by (auto simp: same_reads_def)
  have tr: "os_trace w' = []" using assms(3) w'(2) by (simp add: new_socket_def)
  define ops :: "(tcp_segment + cn_op) list" where "ops = (if c = ?n then [] else [Inr CnConnect])"
  have "ep_run ops (fresh cfg random) = Inr ([], [], [], c)"
    using c n(2) by (auto simp: fresh_def ops_def)
  from story_operations [OF story.begins this]
  have "explained (whole_writes K dev) cfg random td dev (os_trace w') c"
    unfolding explained_def tr by (intro exI [of _ "map Inr ops"] exI [of _ "[]"])
      (auto simp: ops_def split: if_splits)
  then show ?thesis
    using assms c' tr by (simp add: thread_inv_def sponge_ok_def new_socket_def fd_num_def)
qed

lemma tcp_loop_start_keeps:
  assumes "thread_inv K cfg random td dev w" "admissible K rs"
    and "\<And>v. thread_inv K cfg random td dev v \<Longrightarrow> \<exists>b. condition v = Inr b"
  shows "case tcp_loop_start tun_adapt K condition fuel rs w of None \<Rightarrow> True
    | Some (Inl e) \<Rightarrow> socket_failure (\<not> no_resets K dev) e
    | Some (Inr (rs', w')) \<Rightarrow> thread_inv K cfg random td dev w' \<and> admissible K rs'"
proof -
  have "thread_inv K cfg random td dev (happens (SysClock (k_clock K (os_trace w))) w)"
    using assms(1) sponge_ok_happens [of _ cfg random td dev w "SysClock (k_clock K (os_trace w))" _ "k_clock K (os_trace w)"]
    by (simp add: thread_inv_def)
  from tcp_loop_keeps [OF this assms(2,3)] show ?thesis
    by (simp add: tcp_loop_start_def timestamp_ms_def Let_def)
qed

lemma start_socket_keeps:
  assumes "kernel_ok K" "unat (cfg_recv_capacity cfg) < 2 ^ 61" "new_socket td dev w"
  shows "case start_socket connecting K fuel cfg ad random w of None \<Rightarrow> True
    | Some (Inl e) \<Rightarrow> socket_failure (\<not> no_resets K dev) e
    | Some (Inr (rs', w')) \<Rightarrow> thread_inv K cfg random td dev w' \<and> admissible K rs'"
proof -
  have none: "sk_tcp w = None" "\<not> sk_outbound_shutdown w" using assms(3) by (simp_all add: new_socket_def)
  have state: "cn_state (connect (cn_new cfg random)) = official SYN_SENT"
    unfolding connect_new
    by (simp add: opened_def cn_state_def st_of_def official_def sender_summaries receiver_summaries tr_new_isn)
      (simp add: cn_new_def)
  let ?w = "w\<lparr>sk_tcp := Some (if connecting then connect (cn_new cfg random) else cn_new cfg random),
    sk_adapter := if connecting then (sk_adapter w)\<lparr>ad_cfg := ad\<rparr> else set_listening True ((sk_adapter w)\<lparr>ad_cfg := ad\<rparr>)\<rparr>"
  have inv: "thread_inv K cfg random td dev ?w"
    by (rule thread_inv_start [OF assms, where c = "if connecting then connect (cn_new cfg random) else cn_new cfg random"])
      (use none in simp_all)
  have eq: "start_socket connecting K fuel cfg ad random w
      = tcp_loop_start tun_adapt K (state_is (if connecting then [SYN_SENT] else [LISTEN, SYN_RCVD, SYN_SENT]))
          fuel (sponge_rules tun_adapt K) ?w"
    using none state by (cases connecting; cases w)
      (simp_all add: start_socket_def sponge_connect_def sponge_listen_and_accept_def initialize_TCP_def
        with_tcp_def Let_def st_eq_def)
  show ?thesis
    unfolding eq by (rule tcp_loop_start_keeps [OF inv sponge_rules_admissible state_is_total])
qed

section \<open>The properties\<close>

text \<open>C38: The thread of a socket is an endpoint: whatever the kernel answers, at any round of
  its loop, started by \<open>connect\<close> or \<open>listen_and_accept\<close>, its connection is in a state that an
  endpoint reaches in a run in which the bytes written are exactly those the thread has read
  from the application and the bytes read exactly those it has given to the application,
  every segment received was read from the device and passed the adapter, and the bytes on
  the device are exactly the datagrams of the segments sent, in order.\<close>

theorem socket_thread_is_endpoint:
  assumes "kernel_ok K" "unat (cfg_recv_capacity cfg) < 2 ^ 61" "new_socket td dev w"
    and "start_socket connecting K fuel cfg ad random w = Some (Inr (rules, w1))"
    and "tcp_loop_start tun_adapt K (\<lambda>_. Inr True) fuel' rules w1 = Some (Inr (rules', w2))"
  shows "\<exists>c ops sent log. sk_tcp w2 = Some c
     \<and> ep_run ops (fresh cfg random) = Inr (read_from td (os_trace w2), written td (os_trace w2), sent, c)
     \<and> (\<forall>seg. Inl seg \<in> set ops \<longrightarrow> arrived dev (os_trace w2) seg)
     \<and> list_all2 datagram_of sent log \<and> written dev (os_trace w2) = concat log"
proof -
  from start_socket_keeps [OF assms(1-3), where connecting = connecting and fuel = fuel and ad = ad and random = random]
  have start: "thread_inv K cfg random td dev w1" "admissible K rules" unfolding assms(4) by simp_all
  have inv: "thread_inv K cfg random td dev w2"
    using tcp_loop_start_keeps [OF start state_always, where fuel = fuel'] unfolding assms(5) by simp
  then obtain c log out grams where h: "sk_tcp w2 = Some c" "events_of log = os_trace w2"
    "story (whole_writes K dev) dev (fresh cfg random) log (read_from td (os_trace w2), written td (os_trace w2), out, c)"
    "list_all2 datagram_of out grams" "written dev (os_trace w2) = concat grams"
    unfolding thread_inv_def sponge_ok_def explained_def by blast
  show ?thesis
    by (intro exI conjI, rule h(1), rule story_run [OF h(3)])
      (use story_arrived [OF h(3)] h(2,4,5) in auto)
qed

text \<open>C40: What can stop the thread: a system call that fails, an error condition on a
  descriptor, or data of the application that arrive in the round in which the peer resets
  the connection, and nothing else. No callback is ever caught busy waiting, the adapter and
  the connection never throw, and without a reset every byte that the application writes is
  accepted.\<close>

theorem socket_thread_fails_only:
  assumes "kernel_ok K" "unat (cfg_recv_capacity cfg) < 2 ^ 61" "new_socket td dev w"
    and "start_socket connecting K fuel cfg ad random w = Some (Inl e)
      \<or> (\<exists>rules w1. start_socket connecting K fuel cfg ad random w = Some (Inr (rules, w1))
           \<and> tcp_loop_start tun_adapt K (\<lambda>_. Inr True) fuel' rules w1 = Some (Inl e))"
  shows "e \<in> {Thrown ''read'', Thrown ''writev'', Thrown ''shutdown'',
      Thrown ''EventLoop: error on polled file descriptor''} \<or> \<not> no_resets K dev \<and> e = short_write"
proof -
  note start = start_socket_keeps [OF assms(1-3), where connecting = connecting and fuel = fuel and ad = ad and random = random]
  have "socket_failure (\<not> no_resets K dev) e"
    using assms(4)
  proof (elim disjE exE conjE)
    assume "start_socket connecting K fuel cfg ad random w = Some (Inl e)"
    then show ?thesis using start by simp
  next
    fix rules w1
    assume h: "start_socket connecting K fuel cfg ad random w = Some (Inr (rules, w1))"
      "tcp_loop_start tun_adapt K (\<lambda>_. Inr True) fuel' rules w1 = Some (Inl e)"
    then have "thread_inv K cfg random td dev w1" "admissible K rules" using start by simp_all
    from tcp_loop_start_keeps [OF this state_always, where fuel = fuel'] show ?thesis
      unfolding h(2) by simp
  qed
  then show ?thesis by (simp add: socket_failure_def)
qed

text \<open>The last of these does happen: once the connection has been reset, by the rule before, the
  data of the application are refused, and the exception ends the thread.\<close>

lemma write_after_reset_fails:
  assumes "sk_tcp w = Some c" "\<not> cn_is_active c"
    and "fd_read K THREAD_DATA (cn_remaining_outbound_capacity c) w = Inr (data, w')" "size_of data \<noteq> 0"
  shows "outbound_data K w = Inl short_write"
  using assms by (simp add: outbound_data_def with_tcp_def cn_write_def)

text \<open>An example: the application writes two bytes, once; everything written is taken; the owner
  gives up after some rounds.\<close>

definition example_kernel :: kernel where
  "example_kernel = \<lparr>
     k_read = (\<lambda>tr fd n. if fd = 3 \<and> read_from 3 tr = [] then Inr (if 2 \<le> n then [104, 105] else []) else Inl 11),
     k_writev = (\<lambda>tr fd vs. let n = length (concat (map fst vs))
       in if int (length (written fd tr) + n) < 2 ^ 61 then Inr n else Inl 28),
     k_poll = (\<lambda>tr ps t. Inr (1, \<lambda>i. if i = 1 \<and> read_from 3 tr = [] then POLLIN else if i = 3 then POLLOUT else 0)),
     k_shutdown = (\<lambda>tr fd how. Inr 0), k_close = (\<lambda>tr fd. Inr 0), k_clock = (\<lambda>tr. 0),
     k_abort = (\<lambda>tr. 5 < length tr)\<rparr>"

definition example_socket :: "fd_adapter sponge" where
  "example_socket = \<lparr>os_fds = (\<lambda>fd. \<lparr>fd_fd = fd + 3, fd_is_eof = False, fd_is_closed = False, fd_reads = 0, fd_writes = 0\<rparr>),
     os_trace = [], sk_adapter = fd_adapter_new, sk_tcp = None, sk_inbound_shutdown = False,
     sk_outbound_shutdown = False, sk_fully_acked = False\<rparr>"

definition example_config :: tcp_config where
  "example_config = tcp_config_new\<lparr>cfg_recv_capacity := 8, cfg_send_capacity := 8\<rparr>"

lemma example_kernel_ok: "kernel_ok example_kernel"
  by (auto simp: kernel_ok_def example_kernel_def word_le_nat_alt Let_def split: if_splits)

lemma example_new_socket: "new_socket 3 4 example_socket"
  by (simp add: new_socket_def example_socket_def fd_num_def)

lemma some_Inr:
  "case r of Some (Inr (a, b)) \<Rightarrow> P a b | _ \<Rightarrow> False \<Longrightarrow> \<exists>a b. r = Some (Inr (a, b)) \<and> P a b"
  by (cases r) (auto split: sum.split_asm)

lemma example_runs:
  "(case start_socket True example_kernel 20 example_config fd_adapter_config_new (WrappingInt32 0) example_socket of
      Some (Inr (rules, w1)) \<Rightarrow>
        (case tcp_loop_start tun_adapt example_kernel (\<lambda>_. Inr True) 20 rules w1 of
           Some (Inr (rules', w2)) \<Rightarrow> read_from 3 (os_trace w2) = [104, 105] \<and> written 3 (os_trace w2) = []
         | _ \<Rightarrow> False)
    | _ \<Rightarrow> False)"
  by code_simp

theorem socket_thread_is_endpoint_witness:
  "\<exists>rules w1 rules' w2 c ops sent log.
     start_socket True example_kernel 20 example_config fd_adapter_config_new (WrappingInt32 0) example_socket
       = Some (Inr (rules, w1))
     \<and> tcp_loop_start tun_adapt example_kernel (\<lambda>_. Inr True) 20 rules w1 = Some (Inr (rules', w2))
     \<and> sk_tcp w2 = Some c \<and> ep_run ops (fresh example_config (WrappingInt32 0)) = Inr ([104, 105], [], sent, c)
     \<and> list_all2 datagram_of sent log \<and> written 4 (os_trace w2) = concat log"
proof -
  obtain rules w1 rules' w2
    where run: "start_socket True example_kernel 20 example_config fd_adapter_config_new (WrappingInt32 0) example_socket
        = Some (Inr (rules, w1))"
      "tcp_loop_start tun_adapt example_kernel (\<lambda>_. Inr True) 20 rules w1 = Some (Inr (rules', w2))"
      and bytes: "read_from 3 (os_trace w2) = [104, 105]" "written 3 (os_trace w2) = []"
    using example_runs by (auto dest!: some_Inr)
  have "unat (cfg_recv_capacity example_config) < 2 ^ 61"
    by (simp add: example_config_def)
  from socket_thread_is_endpoint [OF example_kernel_ok this example_new_socket run] run bytes
  show ?thesis by metis
qed

text \<open>Here the device cannot be read.\<close>

definition broken_kernel :: kernel where
  "broken_kernel = example_kernel\<lparr>k_poll := (\<lambda>tr ps t. Inr (1, \<lambda>i. if i = 0 then POLLIN else 0)),
     k_read := (\<lambda>tr fd n. Inl 5)\<rparr>"

lemma broken_runs:
  "(case start_socket False broken_kernel 20 example_config fd_adapter_config_new (WrappingInt32 0) example_socket of
      Some (Inl e) \<Rightarrow> e = Thrown ''read''
    | _ \<Rightarrow> False)"
  by code_simp

theorem socket_thread_fails_only_witness:
  "\<exists>e. start_socket False broken_kernel 20 example_config fd_adapter_config_new (WrappingInt32 0) example_socket
       = Some (Inl e)
     \<and> (e \<in> {Thrown ''read'', Thrown ''writev'', Thrown ''shutdown'',
           Thrown ''EventLoop: error on polled file descriptor''} \<or> \<not> no_resets broken_kernel 4 \<and> e = short_write)"
proof -
  have run: "start_socket False broken_kernel 20 example_config fd_adapter_config_new (WrappingInt32 0) example_socket
      = Some (Inl (Thrown ''read''))"
    using broken_runs by (auto split: option.split_asm sum.split_asm)
  have "kernel_ok broken_kernel"
    using example_kernel_ok by (auto simp: kernel_ok_def broken_kernel_def)
  moreover have "unat (cfg_recv_capacity example_config) < 2 ^ 61"
    by (simp add: example_config_def)
  ultimately show ?thesis
    using socket_thread_fails_only [OF _ _ example_new_socket disjI1 [OF run]] run by blast
qed

end
