(* ===== verification/SocketPair.thy ===== *)
theory SocketPair
  imports SpongeRuns
begin

text \<open>
  Two sockets (\<open>tcp_sponge_socket.cc\<close>) on TUN devices that a network joins: from the bytes one
  application hands to its socket to the bytes the other application is given, through two
  event loops, two connections, the adapters and the wire format.
\<close>

section \<open>A socket from its creation on\<close>

definition socket_run ::
    "bool \<Rightarrow> kernel \<Rightarrow> nat \<Rightarrow> nat \<Rightarrow> tcp_config \<Rightarrow> fd_adapter_config \<Rightarrow> wrapping_int32 \<Rightarrow> fd_adapter sponge \<Rightarrow>
     (failure + fd_adapter sponge) option" where
  "socket_run connecting K fuel fuel' cfg ad random s =
     (case start_socket connecting K fuel cfg ad random s of
        None \<Rightarrow> None
      | Some (Inl e) \<Rightarrow> Some (Inl e)
      | Some (Inr (rules, w)) \<Rightarrow>
          (case tcp_loop_start tun_adapt K (\<lambda>_. Inr True) fuel' rules w of
             None \<Rightarrow> None
           | Some (Inl e) \<Rightarrow> Some (Inl e)
           | Some (Inr (_, w)) \<Rightarrow> Some (Inr w)))"

lemma socket_run_explained:
  assumes "kernel_ok K" "unat (cfg_recv_capacity cfg) < 2 ^ 61" "new_socket td dev s"
    and "socket_run connecting K fuel fuel' cfg ad random s = Some (Inr w)"
  obtains c where "sk_tcp w = Some c" "explained (whole_writes K dev) cfg random td dev (os_trace w) c"
proof -
  obtain rules w1 rules' where
    run: "start_socket connecting K fuel cfg ad random s = Some (Inr (rules, w1))"
      "tcp_loop_start tun_adapt K (\<lambda>_. Inr True) fuel' rules w1 = Some (Inr (rules', w))"
    using assms(4) by (auto simp: socket_run_def split: option.split_asm sum.split_asm prod.split_asm)
  from start_socket_keeps [OF assms(1-3), where connecting = connecting and fuel = fuel and ad = ad and random = random]
  have start: "thread_inv K cfg random td dev w1" "admissible K rules" unfolding run(1) by simp_all
  from tcp_loop_start_keeps [OF start state_always, where fuel = fuel'] have "thread_inv K cfg random td dev w"
    unfolding run(2) by simp
  then show thesis using that by (auto simp: thread_inv_def sponge_ok_def)
qed

section \<open>The network\<close>

text \<open>The system calls of both sockets in the order in which they happen (\<open>True\<close> for the first
  socket), and those of one of them.\<close>

definition only :: "bool \<Rightarrow> (bool \<times> sys_event) list \<Rightarrow> sys_event list" where
  "only x evs = map snd (filter (\<lambda>e. fst e = x) evs)"

lemma only_snoc [simp]: "only x (evs @ [(y, e)]) = only x evs @ (if x = y then [e] else [])"
  by (simp add: only_def)

text \<open>What no adapter takes for a segment: other traffic on the device.\<close>

definition foreign :: "byte list \<Rightarrow> bool" where
  "foreign bytes \<longleftrightarrow> (\<forall>ad :: fd_adapter. \<forall>seg ad'. tun_read bytes ad \<noteq> Inr (Some seg, ad'))"

text \<open>The network may lose, repeat, delay and reorder datagrams, but not make them up: what a
  socket reads from its device the other one has written to its own before.\<close>

definition network :: "int \<Rightarrow> int \<Rightarrow> (bool \<times> sys_event) list \<Rightarrow> bool" where
  "network dev1 dev2 evs \<longleftrightarrow> (\<forall>past x bytes future.
     evs = past @ (x, SysRead (if x then dev1 else dev2) bytes) # future \<longrightarrow>
     (\<not> x, SysWrite (if x then dev2 else dev1) bytes) \<in> set past \<or> foreign bytes)"

lemma network_butlast: "network dev1 dev2 (evs @ [x]) \<Longrightarrow> network dev1 dev2 evs"
  unfolding network_def by (metis append.assoc append_Cons)

lemma network_read:
  assumes "network dev1 dev2 evs" "SysRead (if x then dev1 else dev2) bytes \<in> set (only x evs)" "\<not> foreign bytes"
  shows "SysWrite (if x then dev2 else dev1) bytes \<in> set (only (\<not> x) evs)"
proof -
  have "(x, SysRead (if x then dev1 else dev2) bytes) \<in> set evs" using assms(2) by (auto simp: only_def)
  then obtain past future where "evs = past @ (x, SysRead (if x then dev1 else dev2) bytes) # future"
    by (meson split_list)
  then have "(\<not> x, SysWrite (if x then dev2 else dev1) bytes) \<in> set evs"
    using assms(1,3) unfolding network_def by fastforce
  then show ?thesis by (force simp: only_def)
qed

text \<open>What is read from a datagram is the segment it was made of, as far as a connection looks.\<close>

lemma segment_received_ports:
  "segment_received (with_cksum k (set_ports seg A)) c = segment_received seg c"
proof -
  let ?s = "with_cksum k (set_ports seg A)"
  have same: "th_syn (ts_header ?s) = th_syn (ts_header seg)" "th_fin (ts_header ?s) = th_fin (ts_header seg)"
    "th_rst (ts_header ?s) = th_rst (ts_header seg)" "th_ack (ts_header ?s) = th_ack (ts_header seg)"
    "th_seqno (ts_header ?s) = th_seqno (ts_header seg)" "th_ackno (ts_header ?s) = th_ackno (ts_header seg)"
    "th_win (ts_header ?s) = th_win (ts_header seg)" "ts_payload ?s = ts_payload seg"
    by (simp_all add: set_ports_def)
  show ?thesis
    unfolding segment_received_def tr_segment_received_def stream_index_of_def answer_segment_def keep_alive_def
      length_in_sequence_space_def same ..
qed

lemma unwrap_returns:
  assumes "unwrap_tcp_in_ip d ad = Inr (Some seg, ad')" "payload_buffer (id_payload d) = Inr p"
  shows "seg = snd (tcp_segment_parse p (pseudo_cksum (id_header d)) tcp_segment_new)"
  using assms by (cases "ad_listen ad") (auto simp: unwrap_tcp_in_ip_def Let_def split: if_splits prod.splits)

lemma datagram_carries:
  assumes "plain seg" "datagram_of seg bytes" "tun_read bytes (ad :: fd_adapter) = Inr (Some seg', ad')"
  shows "segment_received seg' c = segment_received seg c"
proof -
  from assms(2) obtain A :: fd_adapter and bufs seg2 where A: "tun_write seg A = Inr (bufs, seg2)" "bytes = concat bufs"
    by (auto simp: datagram_of_def)
  have "5 \<le> th_doff (ts_header seg)" "th_doff (ts_header seg) \<le> 15" "length (ts_payload seg) \<le> 65000"
    using assms(1) by (simp_all add: plain_def)
  from tun_write_works [OF this, of A] A obtain h p k k' where
    parse: "ipv4_datagram_parse bytes ipv4_datagram_new = (NoError, \<lparr>id_header = h\<lparr>ih_cksum := k'\<rparr>, id_payload = [p]\<rparr>)"
      "tcp_segment_parse p (pseudo_cksum h) tcp_segment_new = (NoError, with_cksum k (set_ports seg A))"
    by auto
  have "unwrap_tcp_in_ip \<lparr>id_header = h\<lparr>ih_cksum := k'\<rparr>, id_payload = [p]\<rparr> ad = Inr (Some seg', ad')"
    using assms(3) by (simp add: tun_read_def parse(1))
  from unwrap_returns [OF this, of p] have "seg' = with_cksum k (set_ports seg A)"
    by (simp add: payload_buffer_def parse(2))
  then show ?thesis by (simp only: segment_received_ports)
qed

section \<open>Two stories are a run of the pair\<close>

lemma pair_run_append:
  "pair_run (xs @ ys) p = (case pair_run xs p of Inl f \<Rightarrow> Inl f | Inr p \<Rightarrow> pair_run ys p)"
  by (induction xs arbitrary: p) (simp_all split: sum.split)

lemma offered_append: "offered (xs @ ys) = offered xs + offered ys"
  by (induction xs rule: offered.induct) simp_all

lemma operation_of_first:
  assumes "ep_run [x] a = Inr a'"
    and "\<And>seg. x = Inl seg \<Longrightarrow> \<exists>seg0 \<in> set (on_the_wire b). \<forall>c. segment_received seg c = segment_received seg0 c"
  shows "\<exists>es. pair_run es (a, b) = Inr (a', b) \<and> offered es = length (requested [x])"
proof (cases x)
  case (Inl seg)
  obtain W del out c where a: "a = (W, del, out, c)" by (metis prod.exhaust)
  from assms(2) [OF Inl] obtain i where i: "i < length (on_the_wire b)"
    "\<forall>c. segment_received seg c = segment_received (on_the_wire b ! i) c"
    by (metis in_set_conv_nth)
  have "pair_run [(True, CnReceive i)] (a, b) = Inr (a', b)"
    using assms(1) i by (simp add: Inl a pair_step_def split: sum.splits)
  then show ?thesis using Inl by (intro exI [of _ "[(True, CnReceive i)]"]) simp
next
  case (Inr op)
  obtain W del out c where a: "a = (W, del, out, c)" by (metis prod.exhaust)
  show ?thesis
  proof (cases "\<exists>i. op = CnReceive i")
    case True
    then show ?thesis using assms(1) by (intro exI [of _ "[]"]) (auto simp: Inr a)
  next
    case False
    then have "pair_run [(True, op)] (a, b) = Inr (a', b)" "offered [(True, op)] = length (requested [x])"
      using assms(1) by (cases op; simp add: Inr a pair_step_def Let_def split: prod.splits sum.splits)+
    then show ?thesis by blast
  qed
qed

text \<open>The other side by exchanging them.\<close>

definition exchange :: "event list \<Rightarrow> event list" where
  "exchange = map (\<lambda>(x, op). (\<not> x, op))"

lemma offered_exchange [simp]: "offered (exchange es) = offered es"
  by (induction es rule: offered.induct) (simp_all add: exchange_def)

lemma pair_run_exchange: "pair_run es (a, b) = Inr (a', b') \<Longrightarrow> pair_run (exchange es) (b, a) = Inr (b', a')"
proof (induction es arbitrary: a b)
  case (Cons x es)
  then show ?case
    by (cases x) (auto simp: exchange_def pair_step_def split: sum.splits if_splits)
qed (simp add: exchange_def)

lemma operation_of_second:
  assumes "ep_run [x] b = Inr b'"
    and "\<And>seg. x = Inl seg \<Longrightarrow> \<exists>seg0 \<in> set (on_the_wire a). \<forall>c. segment_received seg c = segment_received seg0 c"
  shows "\<exists>es. pair_run es (a, b) = Inr (a, b') \<and> offered es = length (requested [x])"
proof -
  from operation_of_first [where b = a, OF assms] obtain es where
    "pair_run es (b, a) = Inr (b', a)" "offered es = length (requested [x])" by blast
  then show ?thesis using pair_run_exchange offered_exchange by metis
qed

text \<open>A segment received in one story was sent in the other.\<close>

lemma received_was_sent:
  assumes "arrived (if x then dev1 else dev2) (only x evs) seg" "network dev1 dev2 evs"
    and "story True (if x then dev2 else dev1) start log e" "events_of log = only (\<not> x) evs"
  shows "\<exists>seg0 \<in> set (on_the_wire e). \<forall>c. segment_received seg c = segment_received seg0 c"
proof -
  obtain W del out c where e: "e = (W, del, out, c)" by (metis prod.exhaust)
  from assms(1) obtain bytes and ad ad' :: fd_adapter where
    read: "SysRead (if x then dev1 else dev2) bytes \<in> set (only x evs)" "tun_read bytes ad = Inr (Some seg, ad')"
    by (auto simp: arrived_def)
  then have "\<not> foreign bytes" by (auto simp: foreign_def)
  from network_read [OF assms(2) read(1) this] obtain seg0 where "seg0 \<in> set out" "plain seg0" "datagram_of seg0 bytes"
    using story_sent [OF assms(3) [unfolded e] TrueI] assms(4) by auto
  then show ?thesis using datagram_carries [OF _ _ read(2)] by (auto simp: e)
qed

lemma last_items:
  assumes "events_of log1 = only True evs" "events_of log2 = only False evs"
  obtains (op1) log x where "log1 = log @ [Inr x]" | (op2) log x where "log2 = log @ [Inr x]"
    | (none) "evs = []" "log1 = []" "log2 = []"
    | (ev1) log ev evs' where "log1 = log @ [Inl ev]" "evs = evs' @ [(True, ev)]"
    | (ev2) log ev evs' where "log2 = log @ [Inl ev]" "evs = evs' @ [(False, ev)]"
proof -
  have ends: "log = [] \<or> (\<exists>l i. log = l @ [i])" for log :: "item list" by (cases log rule: rev_cases) auto
  show thesis
  proof (cases evs rule: rev_cases)
    case Nil
    then have quiet: "events_of log1 = []" "events_of log2 = []" using assms by (simp_all add: only_def)
    have "\<exists>x. i = Inr x" if "events_of (l @ [i]) = []" for l i using that by (cases i) simp_all
    then show thesis using ends [of log1] ends [of log2] op1 op2 none [OF Nil] quiet by metis
  next
    case (snoc evs' e)
    obtain x ev where e: "e = (x, ev)" by (cases e)
    show thesis
    proof (cases x)
      case True
      then have last: "events_of log1 = only True evs' @ [ev]" using assms(1) snoc e by simp
      then obtain l i where l: "log1 = l @ [i]" using ends [of log1] by auto
      show thesis
      proof (cases i)
        case (Inl ev')
        then show thesis using ev1 [of l ev evs'] l snoc e True last by simp
      qed (use op1 l in blast)
    next
      case False
      then have last: "events_of log2 = only False evs' @ [ev]" using assms(2) snoc e by simp
      then obtain l i where l: "log2 = l @ [i]" using ends [of log2] by auto
      show thesis
      proof (cases i)
        case (Inl ev')
        then show thesis using ev2 [of l ev evs'] l snoc e False last by simp
      qed (use op2 l in blast)
    qed
  qed
qed

lemma stories_join:
  assumes "story True dev1 a0 log1 a" "story True dev2 b0 log2 b"
    and "events_of log1 = only True evs" "events_of log2 = only False evs" "network dev1 dev2 evs"
  shows "\<exists>es. pair_run es (a0, b0) = Inr (a, b)
     \<and> offered es = length (requested (ops_of log1)) + length (requested (ops_of log2))"
  using assms
proof (induction "length log1 + length log2" arbitrary: log1 log2 a b evs rule: less_induct)
  case less
  note stories = less.prems(1,2) and evs = less.prems(3,4) and net = less.prems(5)
  consider (op1) log x where "log1 = log @ [Inr x]" | (op2) log x where "log2 = log @ [Inr x]"
    | (none) "evs = []" "log1 = []" "log2 = []"
    | (ev1) log ev evs' where "log1 = log @ [Inl ev]" "evs = evs' @ [(True, ev)]"
    | (ev2) log ev evs' where "log2 = log @ [Inl ev]" "evs = evs' @ [(False, ev)]"
    by (rule last_items [OF evs])
  then show ?case
  proof cases
    case op1
    from stories(1) [unfolded op1] obtain a1 where a1: "story True dev1 a0 log a1" "ep_run [x] a1 = Inr a"
      "\<forall>seg. x = Inl seg \<longrightarrow> arrived dev1 (events_of log) seg"
      by (auto elim: story_operationE)
    have "events_of log = only True evs" using evs(1) by (simp add: op1)
    then obtain es where es: "pair_run es (a0, b0) = Inr (a1, b)"
      "offered es = length (requested (ops_of log)) + length (requested (ops_of log2))"
      using less.hyps [OF _ a1(1) stories(2) _ evs(2) net] by (auto simp: op1)
    have "\<exists>seg0 \<in> set (on_the_wire b). \<forall>c. segment_received seg c = segment_received seg0 c" if "x = Inl seg" for seg
      by (rule received_was_sent [OF _ net, where x = True and log = log2])
        (use a1(3) that evs stories(2) in \<open>simp_all add: op1\<close>)
    from operation_of_first [OF a1(2) this] obtain es' where
      "pair_run es' (a1, b) = Inr (a, b)" "offered es' = length (requested [x])" by blast
    then show ?thesis using es by (intro exI [of _ "es @ es'"]) (simp add: pair_run_append offered_append op1)
  next
    case op2
    from stories(2) [unfolded op2] obtain b1 where b1: "story True dev2 b0 log b1" "ep_run [x] b1 = Inr b"
      "\<forall>seg. x = Inl seg \<longrightarrow> arrived dev2 (events_of log) seg"
      by (auto elim: story_operationE)
    have "events_of log = only False evs" using evs(2) by (simp add: op2)
    then obtain es where es: "pair_run es (a0, b0) = Inr (a, b1)"
      "offered es = length (requested (ops_of log1)) + length (requested (ops_of log))"
      using less.hyps [OF _ stories(1) b1(1) evs(1) _ net] by (auto simp: op2)
    have "\<exists>seg0 \<in> set (on_the_wire a). \<forall>c. segment_received seg c = segment_received seg0 c" if "x = Inl seg" for seg
      by (rule received_was_sent [OF _ net, where x = False and log = log1])
        (use b1(3) that evs stories(1) in \<open>simp_all add: op2\<close>)
    from operation_of_second [OF b1(2) this] obtain es' where
      "pair_run es' (a, b1) = Inr (a, b)" "offered es' = length (requested [x])" by blast
    then show ?thesis using es by (intro exI [of _ "es @ es'"]) (simp add: pair_run_append offered_append op2)
  next
    case none
    then show ?thesis using stories by (intro exI [of _ "[]"]) (auto elim: story_NilE)
  next
    case ev1
    have "story True dev1 a0 log a" using stories(1) [unfolded ev1(1)] by (auto elim: story_eventE)
    from less.hyps [OF _ this stories(2), of evs'] show ?thesis
      using evs network_butlast [OF net [unfolded ev1(2)]] by (simp add: ev1)
  next
    case ev2
    have "story True dev2 b0 log b" using stories(2) [unfolded ev2(1)] by (auto elim: story_eventE)
    from less.hyps [OF _ stories(1) this, of evs'] show ?thesis
      using evs network_butlast [OF net [unfolded ev2(2)]] by (simp add: ev2)
  qed
qed

section \<open>From application to application\<close>

lemma prefix_of_take: "xs @ ys = take n zs \<Longrightarrow> \<exists>m. xs = take m zs"
  by (metis append_eq_conv_conj take_take)

text \<open>C1: Two sockets on TUN devices joined by a network that loses, repeats, delays and
  reorders datagrams and carries other traffic too: whatever the kernels answer and however
  the two threads interleave, what a socket has given to its application is exactly a prefix
  of what the other application has handed to its own socket; and once the incoming stream
  is at its end, which is when the socket shuts it down, it is all of it, and the other
  application had closed its side.\<close>

theorem sockets_deliver:
  assumes "kernel_ok K1" "unat (cfg_recv_capacity cfg1) < 2 ^ 61" "new_socket td1 dev1 s1" "whole_writes K1 dev1"
    and "socket_run connecting1 K1 fuel1 fuel1' cfg1 ad1 random1 s1 = Some (Inr w1)"
    and "kernel_ok K2" "unat (cfg_recv_capacity cfg2) < 2 ^ 61" "new_socket td2 dev2 s2" "whole_writes K2 dev2"
    and "socket_run connecting2 K2 fuel2 fuel2' cfg2 ad2 random2 s2 = Some (Inr w2)"
    and "os_trace w1 = only True evs" "os_trace w2 = only False evs" "network dev1 dev2 evs"
    and "length (read_from td1 (os_trace w1)) + length (read_from td2 (os_trace w2)) + 3 < 2 ^ 31"
  shows "\<exists>c1 c2 n1 n2. sk_tcp w1 = Some c1 \<and> sk_tcp w2 = Some c2
     \<and> written td2 (os_trace w2) = take n1 (read_from td1 (os_trace w1))
     \<and> written td1 (os_trace w1) = take n2 (read_from td2 (os_trace w2))
     \<and> (bs_eof (stream_out (cn_receiver c2)) \<longrightarrow>
          written td2 (os_trace w2) = read_from td1 (os_trace w1) \<and> bs_input_ended (sn_stream (cn_sender c1)))
     \<and> (bs_eof (stream_out (cn_receiver c1)) \<longrightarrow>
          written td1 (os_trace w1) = read_from td2 (os_trace w2) \<and> bs_input_ended (sn_stream (cn_sender c2)))"
proof -
  obtain c1 where c1: "sk_tcp w1 = Some c1" "explained True cfg1 random1 td1 dev1 (os_trace w1) c1"
    using socket_run_explained [OF assms(1-3,5)] assms(4) by metis
  obtain c2 where c2: "sk_tcp w2 = Some c2" "explained True cfg2 random2 td2 dev2 (os_trace w2) c2"
    using socket_run_explained [OF assms(6-8,10)] assms(9) by metis
  from c1(2) obtain log1 out1 where log1: "events_of log1 = only True evs" "requested (ops_of log1) = read_from td1 (os_trace w1)"
    "story True dev1 (fresh cfg1 random1) log1 (read_from td1 (os_trace w1), written td1 (os_trace w1), out1, c1)"
    unfolding explained_def assms(11) by blast
  from c2(2) obtain log2 out2 where log2: "events_of log2 = only False evs" "requested (ops_of log2) = read_from td2 (os_trace w2)"
    "story True dev2 (fresh cfg2 random2) log2 (read_from td2 (os_trace w2), written td2 (os_trace w2), out2, c2)"
    unfolding explained_def assms(12) by blast
  from stories_join [OF log1(3) log2(3) log1(1) log2(1) assms(13)] obtain es where
    run: "pair_run es (fresh cfg1 random1, fresh cfg2 random2)
      = Inr ((read_from td1 (os_trace w1), written td1 (os_trace w1), out1, c1),
             (read_from td2 (os_trace w2), written td2 (os_trace w2), out2, c2))"
    and small: "offered es + 3 < 2 ^ 31"
    using assms(14) by (auto simp: log1(2) log2(2))
  note pair = pair_delivers [OF assms(2,7) small, of random1 random2, unfolded run sum.case prod.case receives_def]
  let ?in1 = "stream_out (cn_receiver c1)" and ?in2 = "stream_out (cn_receiver c2)"
  from pair obtain n1 n2 where
    take: "written td2 (os_trace w2) = take n1 (read_from td1 (os_trace w1))"
      "written td1 (os_trace w1) = take n2 (read_from td2 (os_trace w2))"
    using prefix_of_take by blast
  have eof: "bs_eof b \<longleftrightarrow> bs_input_ended b \<and> bs_buffer b = []" for b
    by (simp add: bs_eof_def bs_buffer_empty_def)
  have "bs_eof ?in2 \<longrightarrow> written td2 (os_trace w2) = read_from td1 (os_trace w1) \<and> bs_input_ended (sn_stream (cn_sender c1))"
    "bs_eof ?in1 \<longrightarrow> written td1 (os_trace w1) = read_from td2 (os_trace w2) \<and> bs_input_ended (sn_stream (cn_sender c2))"
    using pair unfolding eof by auto
  then show ?thesis using c1(1) c2(1) take by blast
qed

section \<open>An example\<close>

text \<open>Two kernels that play a script: which rule's descriptor is ready in each round, the
  datagrams that the device delivers, and what the application writes.\<close>

fun rounds :: "sys_event list \<Rightarrow> nat" where
  "rounds [] = 0"
| "rounds (SysPoll _ # tr) = Suc (rounds tr)"
| "rounds (_ # tr) = rounds tr"

fun reads_of :: "int \<Rightarrow> sys_event list \<Rightarrow> nat" where
  "reads_of fd [] = 0"
| "reads_of fd (SysRead fd' _ # tr) = (if fd' = fd then Suc (reads_of fd tr) else reads_of fd tr)"
| "reads_of fd (_ # tr) = reads_of fd tr"

definition next_of :: "'a list \<Rightarrow> nat \<Rightarrow> 'a option" where
  "next_of xs i = (case drop i xs of [] \<Rightarrow> None | x # _ \<Rightarrow> Some x)"

definition scripted :: "nat list \<Rightarrow> byte list list \<Rightarrow> byte list list \<Rightarrow> kernel" where
  "scripted script grams data = \<lparr>
     k_read = (\<lambda>tr fd n. case next_of (if fd = 4 then grams else data) (reads_of fd tr) of
         None \<Rightarrow> Inl 11 | Some bytes \<Rightarrow> if int (length bytes) \<le> uint n then Inr bytes else Inl 11),
     k_writev = (\<lambda>tr fd vs. let n = length (concat (map fst vs))
       in if int (length (written fd tr) + n) < 2 ^ 61 then Inr n else Inl 28),
     k_poll = (\<lambda>tr ps t. Inr (1, \<lambda>i. if next_of script (rounds tr) = Some i
        then (if i < 2 then POLLIN else POLLOUT) else 0)),
     k_shutdown = (\<lambda>tr fd how. Inr 0), k_close = (\<lambda>tr fd. Inr 0), k_clock = (\<lambda>tr. 0),
     k_abort = (\<lambda>tr. next_of script (rounds tr) = None)\<rparr>"

definition pair_config :: "u32 \<Rightarrow> tcp_config" where
  "pair_config isn = tcp_config_new\<lparr>cfg_recv_capacity := 8, cfg_send_capacity := 8, cfg_fixed_isn := Some (WrappingInt32 isn)\<rparr>"

definition client_adapter :: fd_adapter_config where
  "client_adapter = fd_adapter_config_new\<lparr>fc_source := Address 1 1000, fc_destination := Address 2 80\<rparr>"

definition server_adapter :: fd_adapter_config where
  "server_adapter = fd_adapter_config_new\<lparr>fc_source := Address 0 80\<rparr>"

definition client_run :: "nat list \<Rightarrow> byte list list \<Rightarrow> (failure + fd_adapter sponge) option" where
  "client_run script grams = socket_run True (scripted script grams [[104, 105]]) 20 20 (pair_config 0xFFFFFFFF) client_adapter
     (WrappingInt32 0) example_socket"

definition server_run :: "nat list \<Rightarrow> byte list list \<Rightarrow> (failure + fd_adapter sponge) option" where
  "server_run script grams = socket_run False (scripted script grams []) 20 20 (pair_config 7) server_adapter
     (WrappingInt32 0) example_socket"

text \<open>The datagrams of a handshake and of two bytes, and the system calls of both sockets.\<close>

definition syn_gram :: "byte list" where
  "syn_gram =
    [69, 0, 0, 40, 0, 0, 64, 0, 128, 6, 250, 205, 0, 0, 0, 1, 0, 0, 0, 2, 3, 232, 0, 80, 255, 255, 255, 255,
     0, 0, 0, 0, 80, 2, 0, 8, 171, 160, 0, 0]"

definition syn_ack_gram :: "byte list" where
  "syn_ack_gram =
    [69, 0, 0, 40, 0, 0, 64, 0, 128, 6, 250, 205, 0, 0, 0, 2, 0, 0, 0, 1, 0, 80, 3, 232, 0, 0, 0, 7,
     0, 0, 0, 0, 80, 18, 0, 8, 171, 137, 0, 0]"

definition ack_gram :: "byte list" where
  "ack_gram =
    [69, 0, 0, 40, 0, 0, 64, 0, 128, 6, 250, 205, 0, 0, 0, 1, 0, 0, 0, 2, 3, 232, 0, 80, 0, 0, 0, 0,
     0, 0, 0, 8, 80, 16, 0, 8, 171, 138, 0, 0]"

definition data_gram :: "byte list" where
  "data_gram =
    [69, 0, 0, 42, 0, 0, 64, 0, 128, 6, 250, 203, 0, 0, 0, 1, 0, 0, 0, 2, 3, 232, 0, 80, 0, 0, 0, 0,
     0, 0, 0, 8, 80, 16, 0, 8, 67, 31, 0, 0, 104, 105]"

abbreviation asks :: "u16 \<Rightarrow> u16 \<Rightarrow> sys_event" where
  "asks to_app to_dev \<equiv> SysPoll [(4, 1), (3, 1), (3, to_app), (4, to_dev)]"

definition client_trace :: "sys_event list" where
  "client_trace = [SysClock 0, asks 0 4, SysWrite 4 syn_gram, SysClock 0, asks 0 0, SysRead 4 syn_ack_gram, SysClock 0,
     SysClock 0, asks 0 4, SysRead 3 [104, 105], SysClock 0, asks 0 4, SysWrite 4 ack_gram, SysWrite 4 data_gram]"

definition server_trace :: "sys_event list" where
  "server_trace = [SysClock 0, asks 0 0, SysRead 4 syn_gram, SysClock 0, asks 0 4, SysWrite 4 syn_ack_gram,
     SysClock 0, asks 0 0, SysRead 4 ack_gram, SysClock 0, SysClock 0, asks 0 0, SysRead 4 data_gram, SysClock 0,
     asks 4 4, SysWrite 3 [104, 105]]"

definition both_traces :: "(bool \<times> sys_event) list" where
  "both_traces = map (Pair True) (take 3 client_trace) @ map (Pair False) (take 6 server_trace)
     @ map (Pair True) (drop 3 client_trace) @ map (Pair False) (drop 6 server_trace)"

lemma client_runs:
  "case client_run [3, 0, 1, 3] [syn_ack_gram] of Some (Inr w) \<Rightarrow> os_trace w = client_trace | _ \<Rightarrow> False"
  by code_simp

lemma server_runs:
  "case server_run [0, 3, 0, 0, 2] [syn_gram, ack_gram, data_gram] of
     Some (Inr w) \<Rightarrow> os_trace w = server_trace | _ \<Rightarrow> False"
  by code_simp

fun network_from :: "int \<Rightarrow> int \<Rightarrow> (bool \<times> sys_event) list \<Rightarrow> (bool \<times> sys_event) list \<Rightarrow> bool" where
  "network_from dev1 dev2 past [] = True"
| "network_from dev1 dev2 past ((x, e) # evs) =
     ((case e of
         SysRead fd bytes \<Rightarrow> fd = (if x then dev1 else dev2) \<longrightarrow>
           (\<not> x, SysWrite (if x then dev2 else dev1) bytes) \<in> set past
       | _ \<Rightarrow> True)
      \<and> network_from dev1 dev2 (past @ [(x, e)]) evs)"

lemma network_from_sound:
  "network_from dev1 dev2 past evs \<Longrightarrow> evs = past' @ (x, SysRead (if x then dev1 else dev2) bytes) # future \<Longrightarrow>
     (\<not> x, SysWrite (if x then dev2 else dev1) bytes) \<in> set past \<union> set past'"
proof (induction dev1 dev2 past evs arbitrary: past' rule: network_from.induct)
  case (2 dev1 dev2 past y e evs)
  show ?case
  proof (cases past')
    case Nil
    then show ?thesis using 2(2,3) by auto
  next
    case (Cons z past'')
    then show ?thesis using 2(1) [of past''] 2(2,3) by auto
  qed
qed simp

lemma traces_joined: "network 4 4 both_traces"
proof -
  have "network_from 4 4 [] both_traces" by code_simp
  then show ?thesis unfolding network_def using network_from_sound by fastforce
qed

lemma only_both: "only True both_traces = client_trace" "only False both_traces = server_trace"
proof -
  have "only x (map (Pair y) tr @ evs) = (if x = y then tr else []) @ only x evs" for x y tr evs
    by (induction tr) (auto simp: only_def)
  from this [where evs = "[]"] this show "only True both_traces = client_trace" "only False both_traces = server_trace"
    by (simp_all add: both_traces_def) (simp_all add: only_def)
qed

lemma whole_scripted: "whole_writes (scripted script grams data) fd"
  by (auto simp: whole_writes_def scripted_def Let_def split: if_splits)

lemma scripted_ok: "kernel_ok (scripted script grams data)"
proof -
  have fits: "case (case o' of None \<Rightarrow> Inl (11 :: int)
      | Some bytes \<Rightarrow> if int (length bytes) \<le> uint n then Inr bytes else Inl 11) of
    Inl e \<Rightarrow> e \<noteq> 0 | Inr bs \<Rightarrow> length bs \<le> unat n" for o' :: "byte list option" and n :: u64
  proof (cases "\<exists>bytes. o' = Some bytes \<and> int (length bytes) \<le> uint n")
    case True
    then obtain bytes where "o' = Some bytes" "int (length bytes) \<le> int (unat n)" by auto
    then show ?thesis using True by (simp only: of_nat_le_iff option.case) auto
  next
    case False
    then show ?thesis by (cases o') simp_all
  qed
  have "case k_writev (scripted script grams data) tr fd vs of Inl e \<Rightarrow> e \<noteq> 0
    | Inr n \<Rightarrow> n \<le> length (concat (map fst vs)) \<and> (n = 0 \<longrightarrow> concat (map fst vs) = [])
        \<and> length (written fd tr) + n < 2 ^ 61" for tr fd vs
    by (simp add: scripted_def Let_def)
  with fits show ?thesis unfolding kernel_ok_def by (simp add: scripted_def)
qed

theorem sockets_deliver_witness:
  "\<exists>w1 w2 c1 c2 n.
     client_run [3, 0, 1, 3] [syn_ack_gram] = Some (Inr w1)
     \<and> server_run [0, 3, 0, 0, 2] [syn_gram, ack_gram, data_gram] = Some (Inr w2)
     \<and> sk_tcp w1 = Some c1 \<and> sk_tcp w2 = Some c2 \<and> written 3 (os_trace w2) = [104, 105]
     \<and> written 3 (os_trace w2) = take n (read_from 3 (os_trace w1))"
proof -
  obtain w1 where w1: "client_run [3, 0, 1, 3] [syn_ack_gram] = Some (Inr w1)" "os_trace w1 = client_trace"
    using client_runs by (auto split: option.split_asm sum.split_asm)
  obtain w2 where w2: "server_run [0, 3, 0, 0, 2] [syn_gram, ack_gram, data_gram] = Some (Inr w2)"
    "os_trace w2 = server_trace"
    using server_runs by (auto split: option.split_asm sum.split_asm)
  have cap: "unat (cfg_recv_capacity (pair_config isn)) < 2 ^ 61" for isn
    by (simp add: pair_config_def)
  have small: "length (read_from 3 (os_trace w1)) + length (read_from 3 (os_trace w2)) + 3 < 2 ^ 31"
    by (simp add: w1(2) w2(2) client_trace_def server_trace_def)
  have "written 3 (os_trace w2) = [104, 105]" by (simp add: w2(2) server_trace_def)
  with sockets_deliver [OF scripted_ok cap example_new_socket whole_scripted w1(1) [unfolded client_run_def]
      scripted_ok cap example_new_socket whole_scripted w2(1) [unfolded server_run_def]
      w1(2) [folded only_both(1)] w2(2) [folded only_both(2)] traces_joined small] w1(1) w2(1)
  show ?thesis by blast
qed

end
