(* ===== verification/LoopHistory.thy ===== *)
theory LoopHistory
  imports EventLoop
begin

text \<open>
  Why rules leave an event loop, and what is left undone when it ends. \<open>wait_next_event\<close> cancels a
  rule whose descriptor has been closed or, when it reads, is at its end, and one whose
  descriptor the system reports as hung up. The locale \<open>loop_history\<close> is the contract of rules
  with an invariant that knows which of them are left; it complements \<open>event_loop\<close>, which says
  what a round may fail with.
\<close>

unbundle bit_operations_syntax

section \<open>Reasons\<close>

definition usable :: "'a os_scheme rule \<Rightarrow> 'a os_scheme \<Rightarrow> bool" where
  "usable r w \<longleftrightarrow> \<not> (ru_direction r = In \<and> fd_eof (ru_fd r) w) \<and> \<not> fd_closed (ru_fd r) w"

text \<open>At some poll of a trace the descriptor was asked about, and answered to be hung up and not ready.\<close>

definition hung_up :: "kernel \<Rightarrow> int \<Rightarrow> sys_event list \<Rightarrow> int \<Rightarrow> u16 \<Rightarrow> bool" where
  "hung_up K timeout tr fd events \<longleftrightarrow>
     (\<exists>i ps ready revents j. i < length tr \<and> tr ! i = SysPoll ps
        \<and> k_poll K (take i tr) ps timeout = Inr (ready, revents) \<and> j < length ps \<and> ps ! j = (fd, events)
        \<and> events \<noteq> 0 \<and> revents j AND POLLHUP \<noteq> 0 \<and> revents j AND events = 0)"

text \<open>The last poll was interrupted by a signal.\<close>

definition interrupted :: "kernel \<Rightarrow> int \<Rightarrow> sys_event list \<Rightarrow> bool" where
  "interrupted K timeout tr \<longleftrightarrow> (\<exists>tr' ps. tr = tr' @ [SysPoll ps] \<and> k_poll K tr' ps timeout = Inl EINTR)"

lemma hung_up_mono: "hung_up K timeout tr fd events \<Longrightarrow> hung_up K timeout (tr @ tr') fd events"
proof -
  assume "hung_up K timeout tr fd events"
  then obtain i ps ready revents j where h: "i < length tr" "tr ! i = SysPoll ps"
    "k_poll K (take i tr) ps timeout = Inr (ready, revents)" "j < length ps" "ps ! j = (fd, events)"
    "events \<noteq> 0" "revents j AND POLLHUP \<noteq> 0" "revents j AND events = 0"
    unfolding hung_up_def by blast
  then have "i < length (tr @ tr')" "(tr @ tr') ! i = SysPoll ps" "take i (tr @ tr') = take i tr"
    by (simp_all add: nth_append)
  with h(3-8) show ?thesis unfolding hung_up_def by metis
qed

lemma hung_up_now:
  assumes "k_poll K tr ps timeout = Inr (ready, revents)" "j < length ps" "ps ! j = (fd, events)" "events \<noteq> 0"
    and "revents j AND POLLHUP \<noteq> 0" "revents j AND events = 0"
  shows "hung_up K timeout (tr @ [SysPoll ps]) fd events"
  unfolding hung_up_def
  using assms by (intro exI [of _ "length tr"] exI [of _ ps] exI [of _ ready] exI [of _ revents] exI [of _ j]) simp

text \<open>Cancelling the second rule leaves the first one's interest alone.\<close>

definition undisturbed :: "'w rule \<Rightarrow> 'w rule \<Rightarrow> bool" where
  "undisturbed r r' \<longleftrightarrow> (\<forall>w w'. ru_cancel r' w = Inr w' \<longrightarrow> ru_interest r w' = ru_interest r w)"

lemma poll_setup_undisturbed:
  assumes "\<forall>r' \<in> set rs. undisturbed r r'" "poll_setup rs w = Inr (rs', ps, b, w')"
  shows "ru_interest r w' = ru_interest r w"
  using assms
proof (induction rs arbitrary: w rs' ps b)
  case (Cons r1 rs)
  show ?case
  proof (cases "ru_direction r1 = In \<and> fd_eof (ru_fd r1) w \<or> fd_closed (ru_fd r1) w")
    case True
    then obtain w1 where w1: "ru_cancel r1 w = Inr w1" "poll_setup rs w1 = Inr (rs', ps, b, w')"
      using Cons.prems(2) by (auto split: sum.splits if_splits)
    have "ru_interest r w' = ru_interest r w1" using Cons.IH [OF _ w1(2)] Cons.prems(1) by simp
    then show ?thesis using Cons.prems(1) w1(1) by (simp add: undisturbed_def)
  next
    case False
    then obtain rs2 ps2 b2 where "poll_setup rs w = Inr (rs2, ps2, b2, w')"
      using Cons.prems(2) by (auto split: sum.splits if_splits)
    then show ?thesis using Cons.IH Cons.prems(1) by simp
  qed
qed simp

section \<open>An invariant that knows the rules that are left\<close>

locale loop_history =
  fixes rules :: "'a os_scheme rule set"
    and K :: kernel
    and timeout :: int
    and left :: "'a os_scheme rule set \<Rightarrow> 'a os_scheme \<Rightarrow> bool"
  assumes unusable: "R \<subseteq> rules \<Longrightarrow> r \<in> R \<Longrightarrow> left R w \<Longrightarrow> \<not> usable r w \<Longrightarrow> ru_cancel r w = Inr w' \<Longrightarrow>
      left (R - {r}) w' \<and> os_fds w' = os_fds w \<and> os_trace w' = os_trace w"
    and hung: "R \<subseteq> rules \<Longrightarrow> r \<in> R \<Longrightarrow> left R w \<Longrightarrow>
      hung_up K timeout (os_trace w) (fd_num (ru_fd r) w) (direction_events (ru_direction r)) \<Longrightarrow>
      ru_cancel r w = Inr w' \<Longrightarrow> left (R - {r}) w' \<and> os_fds w' = os_fds w \<and> os_trace w' = os_trace w"
    and callback: "R \<subseteq> rules \<Longrightarrow> r \<in> R \<Longrightarrow> left R w \<Longrightarrow> usable r w \<Longrightarrow> ru_callback r w = Inr w' \<Longrightarrow>
      left R w' \<and> (\<forall>r' \<in> rules - {r}. usable r' w \<longrightarrow> usable r' w')
      \<and> (\<forall>fd. fd_num fd w' = fd_num fd w) \<and> (\<exists>tr. os_trace w' = os_trace w @ tr)"
    and polled: "R \<subseteq> rules \<Longrightarrow> left R w \<Longrightarrow> left R (happens (SysPoll p) w)"
begin

definition orderly :: "'a os_scheme rule list \<Rightarrow> bool" where
  "orderly rs \<longleftrightarrow> set rs \<subseteq> rules \<and> distinct rs \<and> sorted_wrt undisturbed rs"

lemma orderly_Cons:
  "orderly (r # rs) \<longleftrightarrow> r \<in> rules \<and> r \<notin> set rs \<and> (\<forall>r' \<in> set rs. undisturbed r r') \<and> orderly rs"
  by (auto simp: orderly_def)

text \<open>The descriptors that a list of rules polls.\<close>

definition polls :: "'a os_scheme rule \<Rightarrow> pollfd \<Rightarrow> 'a os_scheme \<Rightarrow> bool" where
  "polls r p w \<longleftrightarrow> usable r w \<and> fst p = fd_num (ru_fd r) w
     \<and> (snd p \<noteq> 0 \<longrightarrow> snd p = direction_events (ru_direction r))"

lemma poll_setup_left:
  assumes "orderly rs" "D \<subseteq> rules" "D \<inter> set rs = {}" "left (D \<union> set rs) w"
    and "poll_setup rs w = Inr (rs', ps, b, w')"
  shows "left (D \<union> set rs') w' \<and> orderly rs' \<and> set rs' \<subseteq> set rs \<and> os_fds w' = os_fds w \<and> os_trace w' = os_trace w
    \<and> list_all2 (\<lambda>r p. polls r p w') rs' ps \<and> (\<not> b \<longrightarrow> (\<forall>r \<in> set rs'. ru_interest r w' = Inr False))"
  using assms
proof (induction rs arbitrary: D w rs' ps b)
  case Nil
  then show ?case by (simp add: orderly_def)
next
  case (Cons r rs)
  have r: "r \<in> rules" "r \<notin> set rs" "\<forall>r' \<in> set rs. undisturbed r r'" and rs: "orderly rs"
    using Cons.prems(1) by (simp_all add: orderly_Cons)
  have sub: "D \<union> set (r # rs) \<subseteq> rules" using Cons.prems(1,2) by (auto simp: orderly_def)
  show ?case
  proof (cases "usable r w")
    case False
    then obtain w1 where w1: "ru_cancel r w = Inr w1" "poll_setup rs w1 = Inr (rs', ps, b, w')"
      using Cons.prems(5) by (auto simp: usable_def split: sum.splits if_splits)
    have "D \<union> set (r # rs) - {r} = D \<union> set rs" using r(2) Cons.prems(3) by auto
    then have "left (D \<union> set rs) w1 \<and> os_fds w1 = os_fds w \<and> os_trace w1 = os_trace w"
      using unusable [OF sub _ Cons.prems(4) False w1(1)] by simp
    then show ?thesis using Cons.IH [OF rs Cons.prems(2) _ _ w1(2)] Cons.prems(3) by auto
  next
    case True
    then obtain i rs1 ps1 b1 where i: "ru_interest r w = Inr i" and rest: "poll_setup rs w = Inr (rs1, ps1, b1, w')"
      and res: "rs' = r # rs1" "ps = (fd_num (ru_fd r) w, if i then direction_events (ru_direction r) else 0) # ps1" "b \<longleftrightarrow> i \<or> b1"
      using Cons.prems(5) by (auto simp: usable_def Let_def split: sum.splits if_splits)
    have "(insert r D) \<union> set rs = D \<union> set (r # rs)" "insert r D \<subseteq> rules" "insert r D \<inter> set rs = {}"
      using r(1,2) Cons.prems(2,3) by auto
    from Cons.IH [OF rs this(2,3) _ rest] this(1) Cons.prems(4)
    have IH: "left (insert r D \<union> set rs1) w'" "orderly rs1" "set rs1 \<subseteq> set rs" "os_fds w' = os_fds w" "os_trace w' = os_trace w"
      "list_all2 (\<lambda>r p. polls r p w') rs1 ps1" "\<not> b1 \<longrightarrow> (\<forall>r \<in> set rs1. ru_interest r w' = Inr False)"
      by auto
    have "polls r (hd ps) w'" using True IH(4) by (simp add: polls_def usable_def res fd_num_def fd_eof_def fd_closed_def)
    moreover have "ru_interest r w' = Inr i" using poll_setup_undisturbed [OF r(3) rest] i by simp
    moreover have "orderly rs'" using IH(2,3) r by (auto simp: res orderly_Cons)
    ultimately show ?thesis using IH by (auto simp: res)
  qed
qed

text \<open>While the results are gone through, a rule that is reported as hung up has its reason in the
  trace.\<close>

definition reported :: "(nat \<Rightarrow> u16) \<Rightarrow> nat \<Rightarrow> 'a os_scheme rule list \<Rightarrow> pollfd list \<Rightarrow> 'a os_scheme \<Rightarrow> bool" where
  "reported revents idx rs ps w \<longleftrightarrow> length ps = length rs \<and> (\<forall>i < length rs. polls (rs ! i) (ps ! i) w \<and>
     (snd (ps ! i) \<noteq> 0 \<and> revents (idx + i) AND POLLHUP \<noteq> 0 \<and> revents (idx + i) AND snd (ps ! i) = 0 \<longrightarrow>
        hung_up K timeout (os_trace w) (fst (ps ! i)) (snd (ps ! i))))"

lemma reported_Cons:
  "reported revents idx (r # rs) ps w \<longleftrightarrow> (\<exists>p ps'. ps = p # ps' \<and> polls r p w \<and>
     (snd p \<noteq> 0 \<and> revents idx AND POLLHUP \<noteq> 0 \<and> revents idx AND snd p = 0 \<longrightarrow> hung_up K timeout (os_trace w) (fst p) (snd p))
     \<and> reported revents (idx + 1) rs ps' w)"
  by (cases ps) (auto simp: reported_def All_less_Suc2)

lemma reported_mono:
  assumes "reported revents idx rs ps w" "\<forall>r \<in> set rs. usable r w \<longrightarrow> usable r w'"
    and "\<forall>fd. fd_num fd w' = fd_num fd w" "os_trace w' = os_trace w @ tr"
  shows "reported revents idx rs ps w'"
  using assms hung_up_mono by (fastforce simp: reported_def polls_def)

lemma serve_rules_left:
  assumes "orderly rs" "D \<subseteq> rules" "D \<inter> set rs = {}" "left (D \<union> set rs) w" "reported revents idx rs ps w"
    and "serve_rules revents idx rs ps w = Inr (rs', w')"
  shows "left (D \<union> set rs') w' \<and> orderly rs' \<and> set rs' \<subseteq> set rs"
  using assms
proof (induction rs arbitrary: D idx ps w rs')
  case Nil
  then show ?case by (simp add: orderly_def)
next
  case (Cons r rs)
  have r: "r \<in> rules" "r \<notin> set rs" "\<forall>r' \<in> set rs. undisturbed r r'" and rs: "orderly rs"
    using Cons.prems(1) by (simp_all add: orderly_Cons)
  have sub: "D \<union> set (r # rs) \<subseteq> rules" using Cons.prems(1,2) by (auto simp: orderly_def)
  obtain fd events ps' where ps: "ps = (fd, events) # ps'" and polls: "polls r (fd, events) w"
    and why: "events \<noteq> 0 \<and> revents idx AND POLLHUP \<noteq> 0 \<and> revents idx AND events = 0 \<longrightarrow> hung_up K timeout (os_trace w) fd events"
    and rest: "reported revents (idx + 1) rs ps' w"
    using Cons.prems(5) unfolding reported_Cons by auto
  have keep: "left (D \<union> set (r # rs2)) w' \<and> orderly (r # rs2) \<and> set (r # rs2) \<subseteq> set (r # rs)"
    if "left (D \<union> set (r # rs)) v" "reported revents (idx + 1) rs ps' v" "serve_rules revents (idx + 1) rs ps' v = Inr (rs2, w')"
    for v rs2
  proof -
    have D: "insert r D \<subseteq> rules" "insert r D \<inter> set rs = {}" "insert r D \<union> set rs = D \<union> set (r # rs)"
      using r(1,2) Cons.prems(2,3) by auto
    have "left (insert r D \<union> set rs2) w' \<and> orderly rs2 \<and> set rs2 \<subseteq> set rs"
      by (rule Cons.IH [OF rs D(1,2) that(1) [folded D(3)] that(2,3)])
    then show ?thesis using r by (auto simp: orderly_Cons)
  qed
  have no: "revents idx AND (POLLERR OR POLLNVAL) = 0" using Cons.prems(6) by (auto simp: ps split: if_splits)
  consider (hup) "revents idx AND POLLHUP \<noteq> 0" "events \<noteq> 0" "revents idx AND events = 0"
    | (served) "revents idx AND events \<noteq> 0"
    | (idle) "revents idx AND events = 0" "\<not> (revents idx AND POLLHUP \<noteq> 0 \<and> events \<noteq> 0)"
    by blast
  then show ?case
  proof cases
    case hup
    then obtain w1 where w1: "ru_cancel r w = Inr w1" "serve_rules revents (idx + 1) rs ps' w1 = Inr (rs', w')"
      using Cons.prems(6) no by (auto simp: ps split: sum.splits)
    have "hung_up K timeout (os_trace w) (fd_num (ru_fd r) w) (direction_events (ru_direction r))"
      using why hup polls by (simp add: polls_def)
    from hung [OF sub _ Cons.prems(4) this w1(1)]
    have w1': "left (D \<union> set (r # rs) - {r}) w1" "os_fds w1 = os_fds w" "os_trace w1 = os_trace w" by simp_all
    have "D \<union> set (r # rs) - {r} = D \<union> set rs" using r(2) Cons.prems(3) by auto
    moreover have "reported revents (idx + 1) rs ps' w1"
      by (rule reported_mono [OF rest, where tr = "[]"]) (simp_all add: w1' usable_def fd_num_def fd_eof_def fd_closed_def)
    ultimately show ?thesis using Cons.IH [OF rs Cons.prems(2) _ _ _ w1(2)] w1'(1) Cons.prems(3) by auto
  next
    case served
    then obtain w1 rs2 where w1: "ru_callback r w = Inr w1" "serve_rules revents (idx + 1) rs ps' w1 = Inr (rs2, w')" "rs' = r # rs2"
      using Cons.prems(6) no by (auto simp: ps Let_def split: sum.splits if_splits prod.splits)
    have "usable r w" using polls by (simp add: polls_def)
    from callback [OF sub _ Cons.prems(4) this w1(1)] obtain tr where
      new: "left (D \<union> set (r # rs)) w1" "\<forall>r' \<in> rules - {r}. usable r' w \<longrightarrow> usable r' w1"
        "\<forall>fd. fd_num fd w1 = fd_num fd w" "os_trace w1 = os_trace w @ tr" by auto
    have "\<forall>r' \<in> set rs. usable r' w \<longrightarrow> usable r' w1" using new(2) r(2) sub by auto
    from keep [OF new(1) reported_mono [OF rest this new(3,4)] w1(2)] show ?thesis by (simp add: w1(3))
  next
    case idle
    then obtain rs2 where w1: "serve_rules revents (idx + 1) rs ps' w = Inr (rs2, w')" "rs' = r # rs2"
      using Cons.prems(6) no by (auto simp: ps split: sum.splits prod.splits)
    from keep [OF Cons.prems(4) rest w1(1)] show ?thesis by (simp add: w1(2))
  qed
qed

text \<open>After a round that ends the loop, a signal has come or no rule that is left asks for anything.\<close>

lemma wait_next_event_left:
  assumes "orderly rs" "left (set rs) w" "wait_next_event K timeout rs w = Inr (res, rs', w')"
  shows "left (set rs') w' \<and> orderly rs'
    \<and> (res = Exit \<longrightarrow> interrupted K timeout (os_trace w') \<or> (\<forall>r \<in> set rs'. ru_interest r w' = Inr False))"
proof -
  obtain rs1 ps b w1 where begun: "poll_setup rs w = Inr (rs1, ps, b, w1)"
    using assms(3) by (auto simp: wait_next_event_def split: sum.splits)
  from poll_setup_left [OF assms(1) _ _ _ begun, of "{}"] assms(2)
  have w1: "left (set rs1) w1" "orderly rs1" "list_all2 (\<lambda>r p. polls r p w1) rs1 ps"
    "\<not> b \<longrightarrow> (\<forall>r \<in> set rs1. ru_interest r w1 = Inr False)" by simp_all
  let ?w = "happens (SysPoll ps) w1"
  have w: "left (set rs1) ?w" using polled [OF _ w1(1)] w1(2) by (simp add: orderly_def)
  have same: "usable r ?w = usable r w1" "fd_num fd ?w = fd_num fd w1" "os_trace ?w = os_trace w1 @ [SysPoll ps]" for r fd
    by (simp_all add: usable_def happens_def fd_num_def fd_eof_def fd_closed_def)
  have served: "left (set rs2) w2 \<and> orderly rs2"
    if "serve_rules revents 0 rs1 ps ?w = Inr (rs2, w2)"
      "(\<exists>ready. k_poll K (os_trace w1) ps timeout = Inr (ready, revents)) \<or> revents = (\<lambda>_. 0)" for revents rs2 w2
  proof -
    note answer = that(2)
    have "reported revents 0 rs1 ps ?w"
      unfolding reported_def
    proof (intro conjI allI impI)
      show "length ps = length rs1" using w1(3) by (simp add: list_all2_conv_all_nth)
      fix i assume i: "i < length rs1"
      then show "polls (rs1 ! i) (ps ! i) ?w" using w1(3) by (simp add: list_all2_conv_all_nth polls_def same)
      assume h: "snd (ps ! i) \<noteq> 0 \<and> revents (0 + i) AND POLLHUP \<noteq> 0 \<and> revents (0 + i) AND snd (ps ! i) = 0"
      then obtain ready where "k_poll K (os_trace w1) ps timeout = Inr (ready, revents)" using answer by auto
      then show "hung_up K timeout (os_trace ?w) (fst (ps ! i)) (snd (ps ! i))"
        unfolding same(3) by (rule hung_up_now [where j = i]) (use h i w1(3) in \<open>simp_all add: list_all2_lengthD\<close>)
    qed
    from serve_rules_left [OF w1(2) _ _ _ this that(1), of "{}"] w show ?thesis by simp
  qed
  show ?thesis
  proof (cases b)
    case False
    then show ?thesis using assms(3) w1 by (auto simp: wait_next_event_def begun)
  next
    case True
    show ?thesis
    proof (cases "k_poll K (os_trace w1) ps timeout")
      case (Inl e)
      then show ?thesis
        using assms(3) True served [of "\<lambda>_. 0"] w w1(2) same(3)
        by (auto simp: wait_next_event_def begun Let_def interrupted_def split: if_splits sum.splits)
    next
      case (Inr answer)
      then show ?thesis
        using assms(3) True served [of "snd answer"] w w1(2)
        by (cases answer) (auto simp: wait_next_event_def begun Let_def split: if_splits sum.splits)
    qed
  qed
qed

end

section \<open>Writing does not change what is at its end\<close>

lemma fd_write_keeps_eof:
  assumes "fd_write K fd bufs all w = Inr (n, w')"
  shows "fd_eof g w' = fd_eof g w"
proof -
  have "fd_write_loop K fd all bufs tot w = Inr (n, w') \<Longrightarrow> fd_eof g w' = fd_eof g w" for tot
  proof (induction K fd all bufs tot w rule: fd_write_loop.induct)
    case (1 K fd all bufs tot w)
    have same: "fd_eof g (register_write fd (happens e w)) = fd_eof g w" for e
      by (simp add: register_write_def happens_def upd_fd_def fd_eof_def)
    show ?case
      using 1(2) [unfolded fd_write_loop.simps [of K fd all bufs tot w]] 1(1)
      by (auto simp: same Let_def split: sum.splits if_splits)
  qed
  then show ?thesis using assms by (simp add: fd_write_def)
qed

lemma socket_shutdown_keeps_eof:
  assumes "socket_shutdown K fd SHUT_WR w = Inr w'"
  shows "fd_eof g w' = fd_eof g w"
  using assms
  by (auto simp: socket_shutdown_def Let_def happens_def register_write_def upd_fd_def fd_eof_def SHUT_RD_def SHUT_WR_def
      split: sum.splits if_splits)

end
