(* ===== verification/StreamCopy.thy ===== *)
theory StreamCopy
  imports LoopHistory ByteStream
begin

text \<open>
  \<open>apps/bidirectional_stream_copy.cc\<close>: the loop of the applications, which copies the
  standard input to a socket and the socket to the standard output through two byte streams.
\<close>

section \<open>State\<close>

text \<open>The descriptors: standard input, standard output and the socket.\<close>

abbreviation INPUT :: fd_ref where "INPUT \<equiv> 0"
abbreviation OUTPUT :: fd_ref where "OUTPUT \<equiv> 1"
abbreviation SOCKET :: fd_ref where "SOCKET \<equiv> 2"

abbreviation max_copy_length :: u64 where "max_copy_length \<equiv> 65536"
abbreviation buffer_size :: u64 where "buffer_size \<equiv> 1048576"

record copy = os +
  cp_outbound :: byte_stream
  cp_inbound :: byte_stream
  cp_outbound_shutdown :: bool
  cp_inbound_shutdown :: bool

section \<open>The rules\<close>

text \<open>Rule 1: from the standard input into the outbound stream.\<close>

definition input_arrives :: "kernel \<Rightarrow> copy \<Rightarrow> failure + copy" where
  "input_arrives K w =
     (case fd_read K INPUT (bs_remaining_capacity (cp_outbound w)) w of
        Inl e \<Rightarrow> Inl e
      | Inr (data, w) \<Rightarrow>
          let w = w\<lparr>cp_outbound := snd (bs_write data (cp_outbound w))\<rparr>
          in Inr (if fd_eof INPUT w then w\<lparr>cp_outbound := bs_end_input (cp_outbound w)\<rparr> else w))"

definition input_interest :: "copy \<Rightarrow> failure + bool" where
  "input_interest w = Inr (\<not> bs_error (cp_outbound w) \<and> 0 < bs_remaining_capacity (cp_outbound w)
     \<and> \<not> bs_error (cp_inbound w))"

definition end_outbound :: "copy \<Rightarrow> failure + copy" where
  "end_outbound w = Inr (w\<lparr>cp_outbound := bs_end_input (cp_outbound w)\<rparr>)"

text \<open>Rule 2: from the outbound stream into the socket.\<close>

definition outbound_leaves :: "kernel \<Rightarrow> copy \<Rightarrow> failure + copy" where
  "outbound_leaves K w =
     (let bytes_to_write = min max_copy_length (bs_buffer_size (cp_outbound w))
      in case fd_write K SOCKET [bs_peek_output bytes_to_write (cp_outbound w)] False w of
           Inl e \<Rightarrow> Inl e
         | Inr (bytes_written, w) \<Rightarrow>
             let w = w\<lparr>cp_outbound := bs_pop_output bytes_written (cp_outbound w)\<rparr>
             in if bs_eof (cp_outbound w) then
                  (case socket_shutdown K SOCKET SHUT_WR w of
                     Inl e \<Rightarrow> Inl e | Inr w \<Rightarrow> Inr (w\<lparr>cp_outbound_shutdown := True\<rparr>))
                else Inr w)"

definition outbound_left :: "copy \<Rightarrow> failure + bool" where
  "outbound_left w = Inr (\<not> bs_buffer_empty (cp_outbound w) \<or> bs_eof (cp_outbound w) \<and> \<not> cp_outbound_shutdown w)"

text \<open>Rule 3: from the socket into the inbound stream.\<close>

definition socket_arrives :: "kernel \<Rightarrow> copy \<Rightarrow> failure + copy" where
  "socket_arrives K w =
     (case fd_read K SOCKET (bs_remaining_capacity (cp_inbound w)) w of
        Inl e \<Rightarrow> Inl e
      | Inr (data, w) \<Rightarrow>
          let w = w\<lparr>cp_inbound := snd (bs_write data (cp_inbound w))\<rparr>
          in Inr (if fd_eof SOCKET w then w\<lparr>cp_inbound := bs_end_input (cp_inbound w)\<rparr> else w))"

definition socket_interest :: "copy \<Rightarrow> failure + bool" where
  "socket_interest w = Inr (\<not> bs_error (cp_inbound w) \<and> 0 < bs_remaining_capacity (cp_inbound w)
     \<and> \<not> bs_error (cp_outbound w))"

definition end_inbound :: "copy \<Rightarrow> failure + copy" where
  "end_inbound w = Inr (w\<lparr>cp_inbound := bs_end_input (cp_inbound w)\<rparr>)"

text \<open>Rule 4: from the inbound stream to the standard output.\<close>

definition inbound_leaves :: "kernel \<Rightarrow> copy \<Rightarrow> failure + copy" where
  "inbound_leaves K w =
     (let bytes_to_write = min max_copy_length (bs_buffer_size (cp_inbound w))
      in case fd_write K OUTPUT [bs_peek_output bytes_to_write (cp_inbound w)] False w of
           Inl e \<Rightarrow> Inl e
         | Inr (bytes_written, w) \<Rightarrow>
             let w = w\<lparr>cp_inbound := bs_pop_output bytes_written (cp_inbound w)\<rparr>
             in if bs_eof (cp_inbound w) then
                  (case fd_close K OUTPUT w of
                     Inl e \<Rightarrow> Inl e | Inr w \<Rightarrow> Inr (w\<lparr>cp_inbound_shutdown := True\<rparr>))
                else Inr w)"

definition inbound_left :: "copy \<Rightarrow> failure + bool" where
  "inbound_left w = Inr (\<not> bs_buffer_empty (cp_inbound w) \<or> bs_eof (cp_inbound w) \<and> \<not> cp_inbound_shutdown w)"

definition copy_rules :: "kernel \<Rightarrow> copy rule list" where
  "copy_rules K =
     (let rules = add_rule INPUT In (input_arrives K) input_interest end_outbound [];
          rules = add_rule SOCKET Out (outbound_leaves K) outbound_left end_outbound rules;
          rules = add_rule SOCKET In (socket_arrives K) socket_interest end_inbound rules
      in add_rule OUTPUT Out (inbound_leaves K) inbound_left end_inbound rules)"

section \<open>The loop\<close>

text \<open>\<open>None\<close> when the loop is still running after \<open>fuel\<close> rounds.\<close>

fun copy_loop :: "kernel \<Rightarrow> nat \<Rightarrow> copy rule list \<Rightarrow> copy \<Rightarrow> (failure + copy) option" where
  "copy_loop K 0 rules w = None"
| "copy_loop K (Suc fuel) rules w =
     (case wait_next_event K (- 1) rules w of
        Inl e \<Rightarrow> Some (Inl e)
      | Inr (ret, rules, w) \<Rightarrow> if ret = Exit then Some (Inr w) else copy_loop K fuel rules w)"

text \<open>The descriptors are those of \<open>os\<close>; making them non-blocking is left out.\<close>

definition bidirectional_stream_copy :: "kernel \<Rightarrow> nat \<Rightarrow> unit os_scheme \<Rightarrow> (failure + copy) option" where
  "bidirectional_stream_copy K fuel s =
     copy_loop K fuel (copy_rules K)
       \<lparr>os_fds = os_fds s, os_trace = os_trace s, cp_outbound = bs_new buffer_size, cp_inbound = bs_new buffer_size,
        cp_outbound_shutdown = False, cp_inbound_shutdown = False\<rparr>"

section \<open>What has been copied\<close>

text \<open>One direction: what was read is what was written, what waits in the stream and what came
  after the stream had been ended, which is dropped.\<close>

definition copied :: "byte list \<Rightarrow> byte list \<Rightarrow> byte_stream \<Rightarrow> bool" where
  "copied came went s \<longleftrightarrow> bs_ok s \<and> \<not> bs_error s
     \<and> (\<exists>dropped. came = went @ bs_buffer s @ dropped \<and> (\<not> bs_input_ended s \<longrightarrow> dropped = []))"

lemma copied_new: "copied [] [] (bs_new cap)"
  by (simp add: copied_def) (simp add: bs_new_def)

lemma copied_end: "copied came went s \<Longrightarrow> copied came went (bs_end_input s)"
  by (auto simp: copied_def) (auto simp: bs_end_input_def)

lemma copied_write:
  assumes "copied came went s" "length d \<le> unat (bs_remaining_capacity s)"
  shows "copied (came @ d) went (snd (bs_write d s))"
proof (cases "bs_input_ended s")
  case True
  then show ?thesis using assms(1) by (auto simp: copied_def)
next
  case False
  have ok: "bs_ok s" "\<not> bs_error s" using assms(1) by (simp_all add: copied_def)
  have room: "length d \<le> bs_room s" using assms(2) unat_remaining [OF ok(1)] by simp
  also have "\<dots> < 2 ^ 64" using unat_lt_u64 [of "bs_capacity s"] by simp
  finally have "accepted d s = length d" using accepted_fits [of d s] False ok(2) room by simp
  then show ?thesis
    using assms(1) False bs_write_ok [OF ok(1), of d] by (auto simp: copied_def bs_write_eq [OF ok(1)])
qed

lemma copied_pop:
  assumes "copied came went s" "k \<le> length (bs_buffer s)" "k < 2 ^ 64"
  shows "copied came (went @ take k (bs_buffer s)) (bs_pop_output (of_nat k) s)"
proof -
  have ok: "bs_ok s" using assms(1) by (simp add: copied_def)
  have all: "take k (bs_buffer s) @ drop k (bs_buffer s) @ rest = bs_buffer s @ rest" for rest
    by (simp flip: append_assoc)
  show ?thesis
    using assms bs_pop_ok [OF ok, of "of_nat k"] unat_of_nat_u64 [OF assms(3)]
    by (auto simp: copied_def bs_pop_eq [OF ok] all)
qed

section \<open>What the rules do\<close>

definition copy_failure :: "failure \<Rightarrow> bool" where
  "copy_failure e \<longleftrightarrow> e \<in> {Thrown ''read'', Thrown ''writev'', Thrown ''shutdown'', Thrown ''close'',
     Thrown ''EventLoop: error on polled file descriptor''}"

text \<open>A read takes what fits into the stream, and ends the stream when the descriptor is at its end.\<close>

definition filled :: "bool \<Rightarrow> byte list \<Rightarrow> byte_stream \<Rightarrow> byte_stream" where
  "filled at_end d s = (if at_end then bs_end_input (snd (bs_write d s)) else snd (bs_write d s))"

lemma input_arrives_effect:
  assumes "kernel_ok K"
  shows "case input_arrives K w of Inl e \<Rightarrow> copy_failure e
    | Inr w' \<Rightarrow> \<exists>data x. length data \<le> unat (bs_remaining_capacity (cp_outbound w)) \<and> used (os_fds w INPUT) x
        \<and> fd_reads x = fd_reads (os_fds w INPUT) + 1
        \<and> w' = w\<lparr>os_fds := (os_fds w)(INPUT := x), os_trace := os_trace w @ [SysRead (fd_num INPUT w) data],
             cp_outbound := filled (fd_is_eof x) data (cp_outbound w)\<rparr>"
proof (cases "fd_read K INPUT (bs_remaining_capacity (cp_outbound w)) w")
  case (Inl e)
  then show ?thesis
    using fd_read_works [OF assms, where fd = INPUT and limit = "bs_remaining_capacity (cp_outbound w)" and w = w]
    by (simp add: input_arrives_def copy_failure_def)
next
  case (Inr r)
  obtain data w1 where r: "r = (data, w1)" by (cases r)
  from fd_read_works [OF assms, where fd = INPUT and limit = "bs_remaining_capacity (cp_outbound w)" and w = w,
      unfolded Inr r sum.case prod.case] obtain x where
    x: "used (os_fds w INPUT) x" "fd_reads x = fd_reads (os_fds w INPUT) + 1"
      "length data \<le> unat (bs_remaining_capacity (cp_outbound w))"
    and w1: "w1 = w\<lparr>os_fds := (os_fds w)(INPUT := x), os_trace := os_trace w @ [SysRead (fd_num INPUT w) data]\<rparr>"
    by blast
  have "input_arrives K w = Inr (w1\<lparr>cp_outbound := filled (fd_is_eof x) data (cp_outbound w)\<rparr>)"
    by (simp add: input_arrives_def Inr r w1 Let_def fd_eof_def filled_def)
  then show ?thesis
    using x by (simp only: sum.case w1) (intro exI [of _ data] exI [of _ x], simp)
qed

lemma socket_arrives_effect:
  assumes "kernel_ok K"
  shows "case socket_arrives K w of Inl e \<Rightarrow> copy_failure e
    | Inr w' \<Rightarrow> \<exists>data x. length data \<le> unat (bs_remaining_capacity (cp_inbound w)) \<and> used (os_fds w SOCKET) x
        \<and> fd_reads x = fd_reads (os_fds w SOCKET) + 1
        \<and> w' = w\<lparr>os_fds := (os_fds w)(SOCKET := x), os_trace := os_trace w @ [SysRead (fd_num SOCKET w) data],
             cp_inbound := filled (fd_is_eof x) data (cp_inbound w)\<rparr>"
proof (cases "fd_read K SOCKET (bs_remaining_capacity (cp_inbound w)) w")
  case (Inl e)
  then show ?thesis
    using fd_read_works [OF assms, where fd = SOCKET and limit = "bs_remaining_capacity (cp_inbound w)" and w = w]
    by (simp add: socket_arrives_def copy_failure_def)
next
  case (Inr r)
  obtain data w1 where r: "r = (data, w1)" by (cases r)
  from fd_read_works [OF assms, where fd = SOCKET and limit = "bs_remaining_capacity (cp_inbound w)" and w = w,
      unfolded Inr r sum.case prod.case] obtain x where
    x: "used (os_fds w SOCKET) x" "fd_reads x = fd_reads (os_fds w SOCKET) + 1"
      "length data \<le> unat (bs_remaining_capacity (cp_inbound w))"
    and w1: "w1 = w\<lparr>os_fds := (os_fds w)(SOCKET := x), os_trace := os_trace w @ [SysRead (fd_num SOCKET w) data]\<rparr>"
    by blast
  have "socket_arrives K w = Inr (w1\<lparr>cp_inbound := filled (fd_is_eof x) data (cp_inbound w)\<rparr>)"
    by (simp add: socket_arrives_def Inr r w1 Let_def fd_eof_def filled_def)
  then show ?thesis
    using x by (simp only: sum.case w1) (intro exI [of _ data] exI [of _ x], simp)
qed

text \<open>A write offers the front of the stream; \<open>k\<close> bytes of it are taken.\<close>

definition drained :: "int \<Rightarrow> byte_stream \<Rightarrow> sys_event list \<Rightarrow> nat \<Rightarrow> bool" where
  "drained fd s tr k \<longleftrightarrow> k \<le> length (bs_buffer s) \<and> k < 2 ^ 64 \<and> written fd tr = take k (bs_buffer s)
     \<and> (\<forall>e \<in> set tr. \<exists>bs. e = SysWrite fd bs)"

lemma written_only: "\<forall>e \<in> set tr. \<exists>bs. e = SysWrite fd bs \<Longrightarrow> fd' \<noteq> fd \<Longrightarrow> written fd' tr = []"
  by (induction tr) auto

lemma drained_others:
  assumes "drained fd s tr k"
  shows "read_from fd' tr = []" "fd' \<noteq> fd \<Longrightarrow> written fd' tr = []" "SysShutdown a b \<notin> set tr" "SysClose a \<notin> set tr"
proof -
  have w: "\<forall>e \<in> set tr. \<exists>bs. e = SysWrite fd bs" using assms by (simp add: drained_def)
  then show "read_from fd' tr = []" by (induction tr) auto
  show "fd' \<noteq> fd \<Longrightarrow> written fd' tr = []" by (rule written_only [OF w])
  show "SysShutdown a b \<notin> set tr" "SysClose a \<notin> set tr" using w by auto
qed

lemma fd_write_from_stream:
  assumes K: "kernel_ok K" and ok: "bs_ok s"
  shows "case fd_write K fd [bs_peek_output (min max_copy_length (bs_buffer_size s)) s] False w of
      Inl e \<Rightarrow> copy_failure e
    | Inr (n, w') \<Rightarrow> \<exists>x tr k. used (os_fds w fd) x \<and> fd_is_eof x = fd_is_eof (os_fds w fd)
        \<and> fd_writes x = fd_writes (os_fds w fd) + 1
        \<and> w' = w\<lparr>os_fds := (os_fds w)(fd := x), os_trace := os_trace w @ tr\<rparr>
        \<and> drained (fd_num fd w) s tr k \<and> n = of_nat k"
proof -
  define amount where "amount = min max_copy_length (bs_buffer_size s)"
  have buffer: "bs_peek_output amount s = take (unat amount) (bs_buffer s)" by (rule bs_peek_eq [OF ok])
  have "amount \<le> 65536" by (simp add: amount_def)
  then have "unat amount \<le> unat (65536 :: u64)" by (simp only: word_le_nat_alt)
  then have small: "length (bs_peek_output amount s) \<le> 65536" by (simp add: buffer)
  then have "length (concat [bs_peek_output amount s]) < 2 ^ 63" by simp
  note works = fd_write_loop_works [OF K this, where fd = fd and all = False and w = w and tot = 0, folded fd_write_def]
  show ?thesis
  proof (cases "fd_write K fd [bs_peek_output amount s] False w")
    case (Inl e)
    then show ?thesis using works by (simp add: copy_failure_def amount_def)
  next
    case (Inr r)
    obtain n w1 where r: "r = (n, w1)" by (cases r)
    from works [unfolded Inr r sum.case prod.case] obtain x tr k where
      x: "used (os_fds w fd) x" "fd_writes x = fd_writes (os_fds w fd) + 1"
      and w1: "w1 = w\<lparr>os_fds := (os_fds w)(fd := x), os_trace := os_trace w @ tr\<rparr>"
      and tr: "written (fd_num fd w) tr = take k (bs_peek_output amount s)" "\<forall>e \<in> set tr. \<exists>bs. e = SysWrite (fd_num fd w) bs"
      and k: "k \<le> length (bs_peek_output amount s)" "n = of_nat k"
      by auto
    have "k \<le> 65536" using k(1) small by linarith
    moreover have "k \<le> unat amount" "k \<le> length (bs_buffer s)" using k(1) by (simp_all add: buffer)
    ultimately have "drained (fd_num fd w) s tr k" using tr by (simp add: drained_def buffer min.absorb1)
    moreover have "fd_is_eof x = fd_is_eof (os_fds w fd)"
      using fd_write_keeps_eof [OF Inr [unfolded r], of fd] by (simp add: w1 fd_eof_def)
    ultimately show ?thesis using x w1 k(2) Inr r by (auto simp flip: amount_def)
  qed
qed

lemma outbound_leaves_effect:
  assumes K: "kernel_ok K" and ok: "bs_ok (cp_outbound w)"
  shows "case outbound_leaves K w of Inl e \<Rightarrow> copy_failure e
    | Inr w' \<Rightarrow> \<exists>x tr k s. drained (fd_num SOCKET w) (cp_outbound w) tr k \<and> s = bs_pop_output (of_nat k) (cp_outbound w)
        \<and> used (os_fds w SOCKET) x \<and> fd_is_eof x = fd_is_eof (os_fds w SOCKET) \<and> fd_writes x \<noteq> fd_writes (os_fds w SOCKET)
        \<and> w' = w\<lparr>os_fds := (os_fds w)(SOCKET := x),
             os_trace := os_trace w @ tr @ (if bs_eof s then [SysShutdown (fd_num SOCKET w) SHUT_WR] else []),
             cp_outbound := s, cp_outbound_shutdown := cp_outbound_shutdown w \<or> bs_eof s\<rparr>"
proof -
  let ?call = "fd_write K SOCKET [bs_peek_output (min max_copy_length (bs_buffer_size (cp_outbound w))) (cp_outbound w)] False w"
  note works = fd_write_from_stream [OF K ok, where fd = SOCKET and w = w]
  show ?thesis
  proof (cases ?call)
    case (Inl e)
    then show ?thesis using works by (simp add: outbound_leaves_def)
  next
    case (Inr r)
    obtain n w1 where r: "r = (n, w1)" by (cases r)
    from works [unfolded Inr r sum.case prod.case] obtain x tr k where
      x: "used (os_fds w SOCKET) x" "fd_is_eof x = fd_is_eof (os_fds w SOCKET)" "fd_writes x = fd_writes (os_fds w SOCKET) + 1"
      and w1: "w1 = w\<lparr>os_fds := (os_fds w)(SOCKET := x), os_trace := os_trace w @ tr\<rparr>"
      and tr: "drained (fd_num SOCKET w) (cp_outbound w) tr k" and n: "n = of_nat k"
      by blast
    let ?s = "bs_pop_output (of_nat k) (cp_outbound w)"
    let ?w1 = "w1\<lparr>cp_outbound := ?s\<rparr>"
    show ?thesis
    proof (cases "bs_eof ?s")
      case False
      then have "outbound_leaves K w = Inr ?w1" by (simp add: outbound_leaves_def Inr r n w1 Let_def)
      moreover have "fd_writes x \<noteq> fd_writes (os_fds w SOCKET)" using x(3) by simp
      ultimately show ?thesis
        using x(1,2) tr False by (simp only: sum.case w1) (intro exI [of _ x] exI [of _ tr] exI [of _ k] exI [of _ ?s], simp)
    next
      case True
      then have eq: "outbound_leaves K w = (case socket_shutdown K SOCKET SHUT_WR ?w1 of
          Inl e \<Rightarrow> Inl e | Inr w \<Rightarrow> Inr (w\<lparr>cp_outbound_shutdown := True\<rparr>))"
        by (simp add: outbound_leaves_def Inr r n w1 Let_def)
      show ?thesis
      proof (cases "socket_shutdown K SOCKET SHUT_WR ?w1")
        case (Inl e)
        then show ?thesis using socket_shutdown_works [OF K, where fd = SOCKET and w = ?w1]
          by (simp add: eq copy_failure_def)
      next
        case (Inr w2)
        from socket_shutdown_works [OF K, where fd = SOCKET and w = ?w1, unfolded Inr sum.case] obtain y where
          y: "used x y" "fd_writes y = fd_writes x + 1"
            "w2 = ?w1\<lparr>os_fds := (os_fds ?w1)(SOCKET := y),
               os_trace := os_trace ?w1 @ [SysShutdown (fd_num SOCKET ?w1) SHUT_WR]\<rparr>"
          by (auto simp: w1)
        have "fd_is_eof y = fd_is_eof x"
          using socket_shutdown_keeps_eof [OF Inr, of SOCKET] by (simp add: y(3) fd_eof_def w1)
        moreover have "fd_writes (os_fds w SOCKET) + 1 + 1 \<noteq> fd_writes (os_fds w SOCKET)"
          by (simp add: add.assoc)
        moreover have "used (os_fds w SOCKET) y" "fd_num SOCKET ?w1 = fd_num SOCKET w"
          using x(1) y(1) by (simp_all add: used_def w1 fd_num_def)
        moreover have "outbound_leaves K w = Inr (w2\<lparr>cp_outbound_shutdown := True\<rparr>)" by (simp add: eq Inr)
        ultimately show ?thesis
          using x(2,3) y(2) tr True
          by (simp only: sum.case y(3) w1) (intro exI [of _ y] exI [of _ tr] exI [of _ k] exI [of _ ?s], simp)
      qed
    qed
  qed
qed

lemma inbound_leaves_effect:
  assumes K: "kernel_ok K" and ok: "bs_ok (cp_inbound w)"
  shows "case inbound_leaves K w of Inl e \<Rightarrow> copy_failure e
    | Inr w' \<Rightarrow> \<exists>x tr k s. drained (fd_num OUTPUT w) (cp_inbound w) tr k \<and> s = bs_pop_output (of_nat k) (cp_inbound w)
        \<and> fd_fd x = fd_fd (os_fds w OUTPUT) \<and> (bs_eof s \<or> fd_is_closed x = fd_is_closed (os_fds w OUTPUT))
        \<and> fd_writes x \<noteq> fd_writes (os_fds w OUTPUT)
        \<and> w' = w\<lparr>os_fds := (os_fds w)(OUTPUT := x),
             os_trace := os_trace w @ tr @ (if bs_eof s then [SysClose (fd_num OUTPUT w)] else []),
             cp_inbound := s, cp_inbound_shutdown := cp_inbound_shutdown w \<or> bs_eof s\<rparr>"
proof -
  let ?call = "fd_write K OUTPUT [bs_peek_output (min max_copy_length (bs_buffer_size (cp_inbound w))) (cp_inbound w)] False w"
  note works = fd_write_from_stream [OF K ok, where fd = OUTPUT and w = w]
  show ?thesis
  proof (cases ?call)
    case (Inl e)
    then show ?thesis using works by (simp add: inbound_leaves_def)
  next
    case (Inr r)
    obtain n w1 where r: "r = (n, w1)" by (cases r)
    from works [unfolded Inr r sum.case prod.case] obtain x tr k where
      x: "used (os_fds w OUTPUT) x" "fd_writes x = fd_writes (os_fds w OUTPUT) + 1"
      and w1: "w1 = w\<lparr>os_fds := (os_fds w)(OUTPUT := x), os_trace := os_trace w @ tr\<rparr>"
      and tr: "drained (fd_num OUTPUT w) (cp_inbound w) tr k" and n: "n = of_nat k"
      by blast
    let ?s = "bs_pop_output (of_nat k) (cp_inbound w)"
    let ?w1 = "w1\<lparr>cp_inbound := ?s\<rparr>"
    have new: "fd_writes x \<noteq> fd_writes (os_fds w OUTPUT)" using x(2) by simp
    show ?thesis
    proof (cases "bs_eof ?s")
      case False
      then have "inbound_leaves K w = Inr ?w1" by (simp add: inbound_leaves_def Inr r n w1 Let_def)
      then show ?thesis
        using x(1) new tr False
        by (simp only: sum.case w1) (intro exI [of _ x] exI [of _ tr] exI [of _ k] exI [of _ ?s], simp add: used_def)
    next
      case True
      then have eq: "inbound_leaves K w = (case fd_close K OUTPUT ?w1 of
          Inl e \<Rightarrow> Inl e | Inr w \<Rightarrow> Inr (w\<lparr>cp_inbound_shutdown := True\<rparr>))"
        by (simp add: inbound_leaves_def Inr r n w1 Let_def)
      show ?thesis
      proof (cases "fd_close K OUTPUT ?w1")
        case (Inl e)
        then show ?thesis using fd_close_works [where K = K and fd = OUTPUT and w = ?w1]
          by (simp add: eq copy_failure_def)
      next
        case (Inr w2)
        from fd_close_works [where K = K and fd = OUTPUT and w = ?w1, unfolded Inr sum.case] obtain y where
          y: "fd_fd y = fd_fd x" "fd_writes y = fd_writes x"
            "w2 = ?w1\<lparr>os_fds := (os_fds ?w1)(OUTPUT := y), os_trace := os_trace ?w1 @ [SysClose (fd_num OUTPUT ?w1)]\<rparr>"
          by (auto simp: w1)
        have "fd_fd y = fd_fd (os_fds w OUTPUT)" "fd_num OUTPUT ?w1 = fd_num OUTPUT w"
          using x(1) y(1) by (simp_all add: used_def w1 fd_num_def)
        moreover have "inbound_leaves K w = Inr (w2\<lparr>cp_inbound_shutdown := True\<rparr>)" by (simp add: eq Inr)
        ultimately show ?thesis
          using new y(2) tr True
          by (simp only: sum.case y(3) w1) (intro exI [of _ y] exI [of _ tr] exI [of _ k] exI [of _ ?s], simp)
      qed
    qed
  qed
qed

section \<open>The rules copy\<close>

definition copy_ok :: "int \<Rightarrow> int \<Rightarrow> int \<Rightarrow> copy \<Rightarrow> bool" where
  "copy_ok inp outp sock w \<longleftrightarrow> fd_num INPUT w = inp \<and> fd_num OUTPUT w = outp \<and> fd_num SOCKET w = sock
     \<and> copied (read_from inp (os_trace w)) (written sock (os_trace w)) (cp_outbound w)
     \<and> copied (read_from sock (os_trace w)) (written outp (os_trace w)) (cp_inbound w)"

lemma copied_filled:
  assumes "copied came went s" "length d \<le> unat (bs_remaining_capacity s)"
  shows "copied (came @ d) went (filled at_end d s)"
  using copied_write [OF assms] copied_end by (simp add: filled_def)

lemma copied_drained:
  assumes "copied came went s" "drained fd s tr k"
  shows "copied came (went @ written fd tr) (bs_pop_output (of_nat k) s)"
  using copied_pop [OF assms(1), of k] assms(2) by (simp add: drained_def)

lemma input_arrives_works:
  assumes K: "kernel_ok K" and ok: "copy_ok inp outp sock w" and "inp \<noteq> sock"
  shows "case input_arrives K w of Inl e \<Rightarrow> copy_failure e
    | Inr w' \<Rightarrow> copy_ok inp outp sock w' \<and> read_count INPUT w' = read_count INPUT w + 1"
  using input_arrives_effect [OF K, of w] ok \<open>inp \<noteq> sock\<close>
  by (auto simp: copy_ok_def fd_num_def used_def read_count_def copied_filled split: sum.splits)

lemma socket_arrives_works:
  assumes K: "kernel_ok K" and ok: "copy_ok inp outp sock w" and "inp \<noteq> sock"
  shows "case socket_arrives K w of Inl e \<Rightarrow> copy_failure e
    | Inr w' \<Rightarrow> copy_ok inp outp sock w' \<and> read_count SOCKET w' = read_count SOCKET w + 1"
  using socket_arrives_effect [OF K, of w] ok \<open>inp \<noteq> sock\<close>
  by (auto simp: copy_ok_def fd_num_def used_def read_count_def copied_filled split: sum.splits)

lemma outbound_leaves_works:
  assumes K: "kernel_ok K" and ok: "copy_ok inp outp sock w" and "outp \<noteq> sock"
  shows "case outbound_leaves K w of Inl e \<Rightarrow> copy_failure e
    | Inr w' \<Rightarrow> copy_ok inp outp sock w' \<and> write_count SOCKET w' \<noteq> write_count SOCKET w"
proof -
  have "bs_ok (cp_outbound w)" using ok by (simp add: copy_ok_def copied_def)
  from outbound_leaves_effect [OF K this] show ?thesis
    using ok \<open>outp \<noteq> sock\<close>
    by (auto simp: copy_ok_def fd_num_def used_def write_count_def copied_drained drained_others split: sum.splits)
qed

lemma inbound_leaves_works:
  assumes K: "kernel_ok K" and ok: "copy_ok inp outp sock w" and "outp \<noteq> sock"
  shows "case inbound_leaves K w of Inl e \<Rightarrow> copy_failure e
    | Inr w' \<Rightarrow> copy_ok inp outp sock w' \<and> write_count OUTPUT w' \<noteq> write_count OUTPUT w"
proof -
  have "bs_ok (cp_inbound w)" using ok by (simp add: copy_ok_def copied_def)
  from inbound_leaves_effect [OF K this] show ?thesis
    using ok \<open>outp \<noteq> sock\<close>
    by (auto simp: copy_ok_def fd_num_def write_count_def copied_drained drained_others split: sum.splits)
qed

section \<open>The loop copies\<close>

definition copy_inv :: "kernel \<Rightarrow> int \<Rightarrow> int \<Rightarrow> int \<Rightarrow> copy \<Rightarrow> bool" where
  "copy_inv K inp outp sock w \<longleftrightarrow> kernel_ok K \<and> inp \<noteq> sock \<and> outp \<noteq> sock \<and> copy_ok inp outp sock w"

lemma copy_rules_eq: "copy_rules K =
    [\<lparr>ru_fd = INPUT, ru_direction = In, ru_callback = input_arrives K, ru_interest = input_interest, ru_cancel = end_outbound\<rparr>,
     \<lparr>ru_fd = SOCKET, ru_direction = Out, ru_callback = outbound_leaves K, ru_interest = outbound_left, ru_cancel = end_outbound\<rparr>,
     \<lparr>ru_fd = SOCKET, ru_direction = In, ru_callback = socket_arrives K, ru_interest = socket_interest, ru_cancel = end_inbound\<rparr>,
     \<lparr>ru_fd = OUTPUT, ru_direction = Out, ru_callback = inbound_leaves K, ru_interest = inbound_left, ru_cancel = end_inbound\<rparr>]"
  by (simp add: copy_rules_def add_rule_def Let_def)

interpretation copying: event_loop "set (copy_rules K)" "copy_inv K inp outp sock" "\<lambda>_ _. True" copy_failure
  for K inp outp sock
proof
  fix r and w :: copy
  assume r: "r \<in> set (copy_rules K)" and inv: "copy_inv K inp outp sock w"
  then have h: "kernel_ok K" "copy_ok inp outp sock w" "inp \<noteq> sock" "outp \<noteq> sock" by (simp_all add: copy_inv_def)
  show "\<exists>b. ru_interest r w = Inr b \<and> (b \<longrightarrow> True)"
    using r by (auto simp: copy_rules_eq input_interest_def outbound_left_def socket_interest_def inbound_left_def)
  show "case ru_cancel r w of Inl e \<Rightarrow> copy_failure e
    | Inr w' \<Rightarrow> copy_inv K inp outp sock w' \<and> (\<forall>k. k \<noteq> key r \<longrightarrow> True \<longrightarrow> True)"
    using r h by (auto simp: copy_rules_eq end_outbound_def end_inbound_def copy_inv_def copy_ok_def fd_num_def copied_end)
  consider "r = copy_rules K ! 0" | "r = copy_rules K ! 1" | "r = copy_rules K ! 2" | "r = copy_rules K ! 3"
    using r by (auto simp: copy_rules_eq)
  then show "case ru_callback r w of Inl e \<Rightarrow> copy_failure e
    | Inr w' \<Rightarrow> copy_inv K inp outp sock w' \<and> (\<forall>k. k \<noteq> key r \<longrightarrow> True \<longrightarrow> True)
        \<and> (service_count r w = service_count r w' \<longrightarrow> ru_interest r w' = Inr False)"
  proof cases
    case 1
    then show ?thesis using input_arrives_works [OF h(1-3)] h
      by (auto simp: copy_rules_eq copy_inv_def service_count_def split: sum.splits)
  next
    case 2
    then show ?thesis using outbound_leaves_works [OF h(1,2,4)] h
      by (auto simp: copy_rules_eq copy_inv_def service_count_def split: sum.splits)
  next
    case 3
    then show ?thesis using socket_arrives_works [OF h(1-3)] h
      by (auto simp: copy_rules_eq copy_inv_def service_count_def split: sum.splits)
  next
    case 4
    then show ?thesis using inbound_leaves_works [OF h(1,2,4)] h
      by (auto simp: copy_rules_eq copy_inv_def service_count_def split: sum.splits)
  qed
next
  fix w :: copy and p
  assume "copy_inv K inp outp sock w"
  then show "copy_inv K inp outp sock (happens (SysPoll p) w) \<and> (\<forall>k. True \<longrightarrow> True)"
    by (simp add: copy_inv_def copy_ok_def happens_def fd_num_def)
next
  show "copy_failure (Thrown ''EventLoop: error on polled file descriptor'')" by (simp add: copy_failure_def)
qed

lemma copy_loop_keeps:
  assumes "copy_inv K inp outp sock w" "event_loop.admissible (set (copy_rules K)) rs"
  shows "case copy_loop K fuel rs w of None \<Rightarrow> True | Some (Inl e) \<Rightarrow> copy_failure e
    | Some (Inr w') \<Rightarrow> copy_inv K inp outp sock w'"
  using assms
proof (induction fuel arbitrary: rs w)
  case (Suc fuel)
  have round: "case wait_next_event K (- 1) rs w of Inl e \<Rightarrow> copy_failure e
    | Inr (res, rs', w') \<Rightarrow> copy_inv K inp outp sock w' \<and> event_loop.admissible (set (copy_rules K)) rs'"
    by (rule copying.wait_next_event_keeps [OF Suc.prems(2,1)])
  show ?case
  proof (cases "wait_next_event K (- 1) rs w")
    case (Inl e)
    then show ?thesis using round by simp
  next
    case (Inr r)
    obtain ret rs1 w1 where r: "r = (ret, rs1, w1)" by (cases r)
    have "copy_inv K inp outp sock w1" "event_loop.admissible (set (copy_rules K)) rs1" using round by (simp_all add: Inr r)
    then show ?thesis using Suc.IH [of w1 rs1] by (simp add: Inr r)
  qed
qed simp

section \<open>What is lost, and when the copy is complete\<close>

text \<open>The bytes of one direction that came after its stream had been ended.\<close>

definition lost :: "byte list \<Rightarrow> byte list \<Rightarrow> byte_stream \<Rightarrow> byte list" where
  "lost came went s = drop (length went + length (bs_buffer s)) came"

lemma copied_lost:
  assumes "copied came went s"
  shows "came = went @ bs_buffer s @ lost came went s" "\<not> bs_input_ended s \<Longrightarrow> lost came went s = []"
  using assms by (auto simp: copied_def lost_def)

text \<open>
  One direction, with what is left of its two rules: \<open>reading\<close> and \<open>writing\<close> say whether they are
  there, \<open>at_end\<close> whether the source is at its end, \<open>hung\<close> whether the sink was reported as hung
  up, \<open>shut\<close> whether it has been shut down. The rule that writes leaves for one of the last two
  reasons; a stream whose rules are both there is ended by the source only; bytes are lost when
  the sink has hung up.
\<close>

definition flow ::
    "bool \<Rightarrow> bool \<Rightarrow> bool \<Rightarrow> bool \<Rightarrow> byte list \<Rightarrow> byte list \<Rightarrow> byte_stream \<Rightarrow> bool \<Rightarrow> bool" where
  "flow reading writing at_end hung came went s shut \<longleftrightarrow>
     copied came went s \<and> bs_capacity s = buffer_size
     \<and> (\<not> writing \<longrightarrow> hung \<or> shut) \<and> (\<not> reading \<longrightarrow> bs_input_ended s)
     \<and> (reading \<and> bs_input_ended s \<longrightarrow> at_end \<or> \<not> writing \<and> \<not> shut)
     \<and> (lost came went s \<noteq> [] \<longrightarrow> hung \<and> \<not> writing \<and> \<not> shut)
     \<and> (shut \<longrightarrow> bs_eof s \<and> (reading \<longrightarrow> at_end))"

lemma flow_mono:
  "flow reading writing at_end hung came went s shut \<Longrightarrow> (hung \<Longrightarrow> hung') \<Longrightarrow> flow reading writing at_end hung' came went s shut"
  by (auto simp: flow_def)

lemma flow_read:
  assumes "flow True writing False hung came went s shut" "length d \<le> unat (bs_remaining_capacity s)"
  shows "flow True writing at_end hung (came @ d) went (filled at_end d s) shut"
proof -
  have c: "copied came went s" "bs_ok s" using assms(1) by (simp_all add: flow_def copied_def)
  let ?s = "snd (bs_write d s)"
  have put: "copied (came @ d) went ?s" by (rule copied_write [OF c(1) assms(2)])
  have same: "bs_input_ended ?s = bs_input_ended s" "bs_capacity ?s = bs_capacity s" by (simp_all add: bs_write_eq [OF c(2)])
  have "lost (came @ d) went (filled at_end d s) = lost (came @ d) went ?s"
    by (simp add: filled_def lost_def bs_end_input_def)
  moreover have "lost (came @ d) went ?s = []" if "\<not> bs_input_ended s"
    using copied_lost(2) [OF put] same(1) that by simp
  ultimately show ?thesis
    using assms(1) copied_filled [OF c(1) assms(2), of at_end] same
    by (auto simp: flow_def filled_def bs_end_input_def bs_eof_def)
qed

lemma flow_write:
  assumes "flow reading True at_end hung came went s shut" "drained fd s tr k"
  defines "s' \<equiv> bs_pop_output (of_nat k) s"
  shows "flow reading True at_end hung came (went @ written fd tr) s' (shut \<or> bs_eof s')"
proof -
  have c: "copied came went s" "bs_ok s" using assms(1) by (simp_all add: flow_def copied_def)
  have k: "k \<le> length (bs_buffer s)" "unat (of_nat k :: u64) = k" "written fd tr = take k (bs_buffer s)"
    using assms(2) by (simp_all add: drained_def unat_of_nat_u64)
  have s': "bs_buffer s' = drop k (bs_buffer s)" "bs_input_ended s' = bs_input_ended s" "bs_capacity s' = bs_capacity s"
    by (simp_all add: s'_def bs_pop_eq [OF c(2)] k(2))
  have "length (went @ written fd tr) + length (bs_buffer s') = length went + length (bs_buffer s)"
    using k by (simp add: s'(1))
  then have "lost came (went @ written fd tr) s' = lost came went s" by (simp only: lost_def)
  then show ?thesis
    using assms(1) copied_drained [OF c(1) assms(2), folded s'_def] s'
    by (auto simp: flow_def bs_eof_def bs_buffer_empty_def)
qed

lemma flow_cancel:
  assumes "flow reading writing at_end hung came went s shut"
  shows "flow False writing at_end hung came went (bs_end_input s) shut"
    and "hung \<or> shut \<Longrightarrow> flow reading False at_end hung came went (bs_end_input s) shut"
  using assms copied_end [of came went s]
  by (auto simp: flow_def lost_def bs_end_input_def bs_eof_def bs_buffer_empty_def)

lemma flow_new: "flow True True at_end hung [] [] (bs_new buffer_size) False"
  using copied_new [of buffer_size] by (simp add: flow_def) (simp add: lost_def bs_new_def)

text \<open>When both rules that are left have no interest and the sink has not hung up, it has been
  shut down, with everything written.\<close>

lemma flow_complete:
  assumes "flow reading writing at_end hung came went s shut" "\<not> hung"
    and "writing \<Longrightarrow> bs_buffer_empty s \<and> (bs_eof s \<longrightarrow> shut)" "reading \<Longrightarrow> bs_remaining_capacity s = 0"
  shows shut
proof (cases "writing \<and> \<not> shut")
  case True
  then have empty: "bs_buffer s = []" using assms(3) by (simp add: bs_buffer_empty_def)
  then have "\<not> reading" using assms(1,4) by (auto simp: flow_def bs_remaining_capacity_def)
  then show ?thesis using assms(1,3) True by (simp add: flow_def bs_eof_def)
next
  case False
  then show ?thesis using assms(1,2) by (auto simp: flow_def)
qed

lemma flow_shut: "flow reading writing at_end hung came went s True \<Longrightarrow> went = came"
  using copied_lost(1) [of came went s] by (auto simp: flow_def bs_eof_def bs_buffer_empty_def)

text \<open>The four rules.\<close>

definition input_rule :: "kernel \<Rightarrow> copy rule" where "input_rule K = copy_rules K ! 0"
definition outbound_rule :: "kernel \<Rightarrow> copy rule" where "outbound_rule K = copy_rules K ! 1"
definition socket_rule :: "kernel \<Rightarrow> copy rule" where "socket_rule K = copy_rules K ! 2"
definition output_rule :: "kernel \<Rightarrow> copy rule" where "output_rule K = copy_rules K ! 3"

lemmas rule_defs = input_rule_def outbound_rule_def socket_rule_def output_rule_def copy_rules_eq

lemma copy_rules_list: "copy_rules K = [input_rule K, outbound_rule K, socket_rule K, output_rule K]"
  by (simp add: rule_defs)

lemma copy_rules_simps [simp]:
  "ru_fd (input_rule K) = INPUT" "ru_fd (outbound_rule K) = SOCKET" "ru_fd (socket_rule K) = SOCKET" "ru_fd (output_rule K) = OUTPUT"
  "ru_direction (input_rule K) = In" "ru_direction (outbound_rule K) = Out"
  "ru_direction (socket_rule K) = In" "ru_direction (output_rule K) = Out"
  "ru_callback (input_rule K) = input_arrives K" "ru_callback (outbound_rule K) = outbound_leaves K"
  "ru_callback (socket_rule K) = socket_arrives K" "ru_callback (output_rule K) = inbound_leaves K"
  "ru_interest (input_rule K) = input_interest" "ru_interest (outbound_rule K) = outbound_left"
  "ru_interest (socket_rule K) = socket_interest" "ru_interest (output_rule K) = inbound_left"
  "ru_cancel (input_rule K) = end_outbound" "ru_cancel (outbound_rule K) = end_outbound"
  "ru_cancel (socket_rule K) = end_inbound" "ru_cancel (output_rule K) = end_inbound"
  by (simp_all add: rule_defs)

lemma copy_rules_distinct [simp]:
  "input_rule K \<noteq> outbound_rule K" "input_rule K \<noteq> socket_rule K" "input_rule K \<noteq> output_rule K"
  "outbound_rule K \<noteq> socket_rule K" "outbound_rule K \<noteq> output_rule K" "socket_rule K \<noteq> output_rule K"
  "outbound_rule K \<noteq> input_rule K" "socket_rule K \<noteq> input_rule K" "output_rule K \<noteq> input_rule K"
  "socket_rule K \<noteq> outbound_rule K" "output_rule K \<noteq> outbound_rule K" "output_rule K \<noteq> socket_rule K"
  by (auto dest: arg_cong [where f = key])

definition copy_history :: "kernel \<Rightarrow> int \<Rightarrow> int \<Rightarrow> int \<Rightarrow> copy rule set \<Rightarrow> copy \<Rightarrow> bool" where
  "copy_history K inp outp sock R w \<longleftrightarrow> copy_inv K inp outp sock w
     \<and> \<not> fd_closed SOCKET w \<and> (fd_closed OUTPUT w \<longrightarrow> cp_inbound_shutdown w)
     \<and> flow (input_rule K \<in> R) (outbound_rule K \<in> R) (fd_eof INPUT w) (hung_up K (- 1) (os_trace w) sock POLLOUT)
         (read_from inp (os_trace w)) (written sock (os_trace w)) (cp_outbound w) (cp_outbound_shutdown w)
     \<and> flow (socket_rule K \<in> R) (output_rule K \<in> R) (fd_eof SOCKET w) (hung_up K (- 1) (os_trace w) outp POLLOUT)
         (read_from sock (os_trace w)) (written outp (os_trace w)) (cp_inbound w) (cp_inbound_shutdown w)
     \<and> (SysShutdown sock SHUT_WR \<in> set (os_trace w) \<longleftrightarrow> cp_outbound_shutdown w)
     \<and> (SysClose outp \<in> set (os_trace w) \<longleftrightarrow> cp_inbound_shutdown w)"

lemma copy_rules_orderly: "sorted_wrt undisturbed (copy_rules K)" "distinct (copy_rules K)"
  by (simp_all add: copy_rules_list undisturbed_def end_outbound_def end_inbound_def input_interest_def outbound_left_def
      socket_interest_def inbound_left_def bs_end_input_def bs_remaining_capacity_def)

lemma copy_inv_cancel:
  assumes "copy_inv K inp outp sock w" "end_outbound w = Inr w' \<or> end_inbound w = Inr w'"
  shows "copy_inv K inp outp sock w'"
  using assms by (auto simp: copy_inv_def copy_ok_def end_outbound_def end_inbound_def fd_num_def copied_end)

text \<open>What cancelling a rule does, for a reason.\<close>

lemma copy_cancelled:
  assumes "copy_history K inp outp sock R w" "r \<in> set (copy_rules K)" "ru_cancel r w = Inr w'"
    and "r = outbound_rule K \<Longrightarrow> hung_up K (- 1) (os_trace w) sock POLLOUT"
    and "r = output_rule K \<Longrightarrow> hung_up K (- 1) (os_trace w) outp POLLOUT \<or> cp_inbound_shutdown w"
  shows "copy_history K inp outp sock (R - {r}) w' \<and> os_fds w' = os_fds w \<and> os_trace w' = os_trace w"
proof -
  have inv: "copy_inv K inp outp sock w" using assms(1) by (simp add: copy_history_def)
  have flows:
    "flow (input_rule K \<in> R) (outbound_rule K \<in> R) (fd_eof INPUT w) (hung_up K (- 1) (os_trace w) sock POLLOUT)
         (read_from inp (os_trace w)) (written sock (os_trace w)) (cp_outbound w) (cp_outbound_shutdown w)"
    "flow (socket_rule K \<in> R) (output_rule K \<in> R) (fd_eof SOCKET w) (hung_up K (- 1) (os_trace w) outp POLLOUT)
         (read_from sock (os_trace w)) (written outp (os_trace w)) (cp_inbound w) (cp_inbound_shutdown w)"
    using assms(1) by (simp_all add: copy_history_def)
  consider "r = input_rule K" | "r = outbound_rule K" | "r = socket_rule K" | "r = output_rule K"
    using assms(2) by (auto simp: copy_rules_list)
  then show ?thesis
  proof cases
    case 1
    then have "w' = w\<lparr>cp_outbound := bs_end_input (cp_outbound w)\<rparr>" using assms(3) by (simp add: end_outbound_def)
    then show ?thesis
      using assms(1,3) 1 copy_inv_cancel [OF inv] flow_cancel(1) [OF flows(1)]
      by (simp add: copy_history_def fd_eof_def fd_closed_def)
  next
    case 2
    then have "w' = w\<lparr>cp_outbound := bs_end_input (cp_outbound w)\<rparr>" using assms(3) by (simp add: end_outbound_def)
    then show ?thesis
      using assms(1,3,4) 2 copy_inv_cancel [OF inv] flow_cancel(2) [OF flows(1)]
      by (simp add: copy_history_def fd_eof_def fd_closed_def)
  next
    case 3
    then have "w' = w\<lparr>cp_inbound := bs_end_input (cp_inbound w)\<rparr>" using assms(3) by (simp add: end_inbound_def)
    then show ?thesis
      using assms(1,3) 3 copy_inv_cancel [OF inv] flow_cancel(1) [OF flows(2)]
      by (simp add: copy_history_def fd_eof_def fd_closed_def)
  next
    case 4
    then have "w' = w\<lparr>cp_inbound := bs_end_input (cp_inbound w)\<rparr>" using assms(3) by (simp add: end_inbound_def)
    then show ?thesis
      using assms(1,3,5) 4 copy_inv_cancel [OF inv] flow_cancel(2) [OF flows(2)]
      by (simp add: copy_history_def fd_eof_def fd_closed_def)
  qed
qed

text \<open>What a callback does to the two directions.\<close>

lemma copy_history_step:
  assumes hist: "copy_history K inp outp sock R w" and inv: "copy_inv K inp outp sock w'"
    and tr: "os_trace w' = os_trace w @ tr" and fds: "\<not> fd_closed SOCKET w'" "fd_closed OUTPUT w' \<longrightarrow> cp_inbound_shutdown w'"
    and out: "\<And>hung. flow (input_rule K \<in> R) (outbound_rule K \<in> R) (fd_eof INPUT w) hung
         (read_from inp (os_trace w)) (written sock (os_trace w)) (cp_outbound w) (cp_outbound_shutdown w) \<Longrightarrow>
       flow (input_rule K \<in> R) (outbound_rule K \<in> R) (fd_eof INPUT w') hung
         (read_from inp (os_trace w')) (written sock (os_trace w')) (cp_outbound w') (cp_outbound_shutdown w')"
    and inb: "\<And>hung. flow (socket_rule K \<in> R) (output_rule K \<in> R) (fd_eof SOCKET w) hung
         (read_from sock (os_trace w)) (written outp (os_trace w)) (cp_inbound w) (cp_inbound_shutdown w) \<Longrightarrow>
       flow (socket_rule K \<in> R) (output_rule K \<in> R) (fd_eof SOCKET w') hung
         (read_from sock (os_trace w')) (written outp (os_trace w')) (cp_inbound w') (cp_inbound_shutdown w')"
    and shut: "SysShutdown sock SHUT_WR \<in> set tr \<or> cp_outbound_shutdown w \<longleftrightarrow> cp_outbound_shutdown w'"
      "SysClose outp \<in> set tr \<or> cp_inbound_shutdown w \<longleftrightarrow> cp_inbound_shutdown w'"
  shows "copy_history K inp outp sock R w'"
proof -
  have more: "hung_up K (- 1) (os_trace w) fd ev \<Longrightarrow> hung_up K (- 1) (os_trace w') fd ev" for fd ev
    unfolding tr by (rule hung_up_mono)
  have "flow (input_rule K \<in> R) (outbound_rule K \<in> R) (fd_eof INPUT w') (hung_up K (- 1) (os_trace w') sock POLLOUT)
         (read_from inp (os_trace w')) (written sock (os_trace w')) (cp_outbound w') (cp_outbound_shutdown w')"
    by (rule flow_mono [OF out more]) (use hist in \<open>simp_all add: copy_history_def\<close>)
  moreover have "flow (socket_rule K \<in> R) (output_rule K \<in> R) (fd_eof SOCKET w') (hung_up K (- 1) (os_trace w') outp POLLOUT)
         (read_from sock (os_trace w')) (written outp (os_trace w')) (cp_inbound w') (cp_inbound_shutdown w')"
    by (rule flow_mono [OF inb more]) (use hist in \<open>simp_all add: copy_history_def\<close>)
  ultimately show ?thesis
    using hist inv fds shut unfolding copy_history_def tr set_append by blast
qed

lemma copy_called:
  assumes hist: "copy_history K inp outp sock R w" and r: "r \<in> R" "r \<in> set (copy_rules K)" "usable r w"
    and call: "ru_callback r w = Inr w'"
  shows "copy_history K inp outp sock R w' \<and> (\<forall>r' \<in> set (copy_rules K) - {r}. usable r' w \<longrightarrow> usable r' w')
      \<and> (\<forall>fd. fd_num fd w' = fd_num fd w) \<and> (\<exists>tr. os_trace w' = os_trace w @ tr)"
proof -
  have inv: "copy_inv K inp outp sock w" and fds: "\<not> fd_closed SOCKET w" "fd_closed OUTPUT w \<longrightarrow> cp_inbound_shutdown w"
    using hist by (simp_all add: copy_history_def)
  have K: "kernel_ok K" "inp \<noteq> sock" "outp \<noteq> sock" and ok: "copy_ok inp outp sock w"
    using inv by (simp_all add: copy_inv_def)
  have nums: "fd_num INPUT w = inp" "fd_num OUTPUT w = outp" "fd_num SOCKET w = sock"
    and streams: "bs_ok (cp_outbound w)" "bs_ok (cp_inbound w)"
    using ok by (simp_all add: copy_ok_def copied_def)
  have good: "copy_inv K inp outp sock w'"
    using copying.callback [OF r(2) inv] call by simp
  consider "r = input_rule K" | "r = outbound_rule K" | "r = socket_rule K" | "r = output_rule K"
    using r(2) by (auto simp: copy_rules_list)
  then show ?thesis
  proof cases
    case 1
    obtain data x where e: "length data \<le> unat (bs_remaining_capacity (cp_outbound w))" "used (os_fds w INPUT) x"
      "w' = w\<lparr>os_fds := (os_fds w)(INPUT := x), os_trace := os_trace w @ [SysRead inp data],
             cp_outbound := filled (fd_is_eof x) data (cp_outbound w)\<rparr>"
      using input_arrives_effect [OF K(1), of w] call nums by (auto simp: 1)
    have "\<not> fd_eof INPUT w" using r(3) by (simp add: 1 usable_def)
    have "copy_history K inp outp sock R w'"
      by (rule copy_history_step [OF hist good, where tr = "[SysRead inp data]"])
        (use e r(1) 1 fds K flow_read [OF _ e(1)] \<open>\<not> fd_eof INPUT w\<close> in \<open>simp_all add: fd_eof_def fd_closed_def\<close>)
    then show ?thesis using e(2,3) by (auto simp: copy_rules_list 1 usable_def fd_eof_def fd_closed_def fd_num_def used_def)
  next
    case 2
    obtain x tr k s where e: "drained sock (cp_outbound w) tr k" "s = bs_pop_output (of_nat k) (cp_outbound w)"
      "used (os_fds w SOCKET) x" "fd_is_eof x = fd_is_eof (os_fds w SOCKET)"
      "w' = w\<lparr>os_fds := (os_fds w)(SOCKET := x),
             os_trace := os_trace w @ tr @ (if bs_eof s then [SysShutdown sock SHUT_WR] else []),
             cp_outbound := s, cp_outbound_shutdown := cp_outbound_shutdown w \<or> bs_eof s\<rparr>"
      using outbound_leaves_effect [OF K(1) streams(1)] call nums by (auto simp: 2)
    have sent: "flow reading True at_end hung came went (cp_outbound w) shut \<Longrightarrow> bs_eof s \<Longrightarrow>
        flow reading True at_end hung came (went @ written sock tr) s True"
      "flow reading True at_end hung came went (cp_outbound w) shut \<Longrightarrow> \<not> bs_eof s \<Longrightarrow>
        flow reading True at_end hung came (went @ written sock tr) s shut" for reading at_end hung came went shut
      using flow_write [OF _ e(1), folded e(2)] by fastforce+
    have "copy_history K inp outp sock R w'"
      by (rule copy_history_step [OF hist good, where tr = "tr @ (if bs_eof s then [SysShutdown sock SHUT_WR] else [])"])
        (use e(3-5) r(1) 2 fds K drained_others [OF e(1)] in \<open>auto simp: fd_eof_def fd_closed_def used_def intro: sent\<close>)
    then show ?thesis using e(3-5) by (auto simp: copy_rules_list 2 usable_def fd_eof_def fd_closed_def fd_num_def used_def)
  next
    case 3
    obtain data x where e: "length data \<le> unat (bs_remaining_capacity (cp_inbound w))" "used (os_fds w SOCKET) x"
      "w' = w\<lparr>os_fds := (os_fds w)(SOCKET := x), os_trace := os_trace w @ [SysRead sock data],
             cp_inbound := filled (fd_is_eof x) data (cp_inbound w)\<rparr>"
      using socket_arrives_effect [OF K(1), of w] call nums by (auto simp: 3)
    have "\<not> fd_eof SOCKET w" using r(3) by (simp add: 3 usable_def)
    have "copy_history K inp outp sock R w'"
      by (rule copy_history_step [OF hist good, where tr = "[SysRead sock data]"])
        (use e r(1) 3 fds K flow_read [OF _ e(1)] \<open>\<not> fd_eof SOCKET w\<close> in \<open>simp_all add: fd_eof_def fd_closed_def used_def\<close>)
    then show ?thesis using e(2,3) by (auto simp: copy_rules_list 3 usable_def fd_eof_def fd_closed_def fd_num_def used_def)
  next
    case 4
    obtain x tr k s where e: "drained outp (cp_inbound w) tr k" "s = bs_pop_output (of_nat k) (cp_inbound w)"
      "fd_fd x = fd_fd (os_fds w OUTPUT)" "bs_eof s \<or> fd_is_closed x = fd_is_closed (os_fds w OUTPUT)"
      "w' = w\<lparr>os_fds := (os_fds w)(OUTPUT := x),
             os_trace := os_trace w @ tr @ (if bs_eof s then [SysClose outp] else []),
             cp_inbound := s, cp_inbound_shutdown := cp_inbound_shutdown w \<or> bs_eof s\<rparr>"
      using inbound_leaves_effect [OF K(1) streams(2)] call nums by (auto simp: 4)
    have sent: "flow reading True at_end hung came went (cp_inbound w) shut \<Longrightarrow> bs_eof s \<Longrightarrow>
        flow reading True at_end hung came (went @ written outp tr) s True"
      "flow reading True at_end hung came went (cp_inbound w) shut \<Longrightarrow> \<not> bs_eof s \<Longrightarrow>
        flow reading True at_end hung came (went @ written outp tr) s shut" for reading at_end hung came went shut
      using flow_write [OF _ e(1), folded e(2)] by fastforce+
    have "copy_history K inp outp sock R w'"
      by (rule copy_history_step [OF hist good, where tr = "tr @ (if bs_eof s then [SysClose outp] else [])"])
        (use e(3-5) r(1) 4 fds K drained_others [OF e(1)]
          in \<open>auto simp: fd_eof_def fd_closed_def intro: sent\<close>)
    then show ?thesis using e(3-5) by (auto simp: copy_rules_list 4 usable_def fd_eof_def fd_closed_def fd_num_def)
  qed
qed

interpretation relaying: loop_history "set (copy_rules K)" K "- 1" "copy_history K inp outp sock" for K inp outp sock
proof
  fix R r and w w' :: copy
  assume R: "R \<subseteq> set (copy_rules K)" "r \<in> R" and hist: "copy_history K inp outp sock R w"
  then have r: "r \<in> set (copy_rules K)" by blast
  have nums: "fd_num SOCKET w = sock" "fd_num OUTPUT w = outp"
    using hist by (simp_all add: copy_history_def copy_inv_def copy_ok_def)
  show "copy_history K inp outp sock (R - {r}) w' \<and> os_fds w' = os_fds w \<and> os_trace w' = os_trace w"
    if "\<not> usable r w" "ru_cancel r w = Inr w'"
    by (rule copy_cancelled [OF hist r that(2)]) (use that(1) hist in \<open>auto simp: usable_def copy_history_def\<close>)
  show "copy_history K inp outp sock (R - {r}) w' \<and> os_fds w' = os_fds w \<and> os_trace w' = os_trace w"
    if "hung_up K (- 1) (os_trace w) (fd_num (ru_fd r) w) (direction_events (ru_direction r))" "ru_cancel r w = Inr w'"
    by (rule copy_cancelled [OF hist r that(2)]) (use that(1) nums in \<open>auto simp: direction_events_def\<close>)
  show "copy_history K inp outp sock R w' \<and> (\<forall>r' \<in> set (copy_rules K) - {r}. usable r' w \<longrightarrow> usable r' w')
      \<and> (\<forall>fd. fd_num fd w' = fd_num fd w) \<and> (\<exists>tr. os_trace w' = os_trace w @ tr)"
    if "usable r w" "ru_callback r w = Inr w'"
    by (rule copy_called [OF hist R(2) r that])
next
  fix R p and w :: copy
  assume hist: "copy_history K inp outp sock R w"
  then have inv: "copy_inv K inp outp sock w" by (simp add: copy_history_def)
  show "copy_history K inp outp sock R (happens (SysPoll p) w)"
    by (rule copy_history_step [OF hist copying.polled [OF inv, THEN conjunct1], where tr = "[SysPoll p]"])
      (use hist in \<open>simp_all add: copy_history_def happens_def fd_eof_def fd_closed_def\<close>)
qed

section \<open>The property\<close>

lemma copy_loop_ends:
  assumes "relaying.orderly K rs" "copy_history K inp outp sock (set rs) w"
    and "copy_loop K fuel rs w = Some (Inr w')"
  shows "\<exists>rs'. copy_history K inp outp sock (set rs') w' \<and> set rs' \<subseteq> set (copy_rules K)
    \<and> (interrupted K (- 1) (os_trace w') \<or> (\<forall>r \<in> set rs'. ru_interest r w' = Inr False))"
  using assms
proof (induction fuel arbitrary: rs w)
  case (Suc fuel)
  obtain ret rs1 w1 where r: "wait_next_event K (- 1) rs w = Inr (ret, rs1, w1)"
    using Suc.prems(3) by (auto split: sum.splits)
  note round = relaying.wait_next_event_left [OF Suc.prems(1,2) r]
  then have rs1: "relaying.orderly K rs1" "copy_history K inp outp sock (set rs1) w1" by simp_all
  show ?case
  proof (cases "ret = Exit")
    case True
    then have "w' = w1" using Suc.prems(3) r by simp
    then show ?thesis using round True rs1 by (auto simp: relaying.orderly_def)
  next
    case False
    then have "copy_loop K fuel rs1 w1 = Some (Inr w')" using Suc.prems(3) r by simp
    then show ?thesis by (rule Suc.IH [OF rs1])
  qed
qed simp

text \<open>What one direction has done in the course of a trace: \<open>came\<close> was read, \<open>went\<close> written to, and
  \<open>final\<close> is the call that tells the sink that nothing more comes; \<open>buffered\<close> waits.\<close>

definition relayed :: "kernel \<Rightarrow> sys_event list \<Rightarrow> int \<Rightarrow> int \<Rightarrow> byte list \<Rightarrow> sys_event \<Rightarrow> bool" where
  "relayed K tr came went buffered final \<longleftrightarrow>
     (\<exists>lost. read_from came tr = written went tr @ buffered @ lost \<and> (lost \<noteq> [] \<longrightarrow> hung_up K (- 1) tr went POLLOUT))
     \<and> (final \<in> set tr \<longrightarrow> written went tr = read_from came tr)
     \<and> (\<not> hung_up K (- 1) tr went POLLOUT \<and> \<not> interrupted K (- 1) tr \<longrightarrow> final \<in> set tr)"

lemma copy_history_relayed:
  assumes hist: "copy_history K inp outp sock R w" and "R \<subseteq> set (copy_rules K)"
    and over: "interrupted K (- 1) (os_trace w) \<or> (\<forall>r \<in> R. ru_interest r w = Inr False)"
  shows "relayed K (os_trace w) inp sock (bs_buffer (cp_outbound w)) (SysShutdown sock SHUT_WR)"
    and "relayed K (os_trace w) sock outp (bs_buffer (cp_inbound w)) (SysClose outp)"
proof -
  have flows:
    "flow (input_rule K \<in> R) (outbound_rule K \<in> R) (fd_eof INPUT w) (hung_up K (- 1) (os_trace w) sock POLLOUT)
         (read_from inp (os_trace w)) (written sock (os_trace w)) (cp_outbound w) (cp_outbound_shutdown w)"
    "flow (socket_rule K \<in> R) (output_rule K \<in> R) (fd_eof SOCKET w) (hung_up K (- 1) (os_trace w) outp POLLOUT)
         (read_from sock (os_trace w)) (written outp (os_trace w)) (cp_inbound w) (cp_inbound_shutdown w)"
    and shut: "SysShutdown sock SHUT_WR \<in> set (os_trace w) \<longleftrightarrow> cp_outbound_shutdown w"
      "SysClose outp \<in> set (os_trace w) \<longleftrightarrow> cp_inbound_shutdown w"
    using hist by (simp_all add: copy_history_def)
  have fine: "\<not> bs_error (cp_outbound w)" "\<not> bs_error (cp_inbound w)"
    using flows by (simp_all add: flow_def copied_def)
  have outbound: "cp_outbound_shutdown w"
    if "\<not> hung_up K (- 1) (os_trace w) sock POLLOUT" "\<not> interrupted K (- 1) (os_trace w)"
    by (rule flow_complete [OF flows(1) that(1)])
      (use over that(2) fine in \<open>auto simp: outbound_left_def input_interest_def word_gt_0 dest!: bspec\<close>)
  have inbound: "cp_inbound_shutdown w"
    if "\<not> hung_up K (- 1) (os_trace w) outp POLLOUT" "\<not> interrupted K (- 1) (os_trace w)"
    by (rule flow_complete [OF flows(2) that(1)])
      (use over that(2) fine in \<open>auto simp: inbound_left_def socket_interest_def word_gt_0 dest!: bspec\<close>)
  have lost: "\<exists>lost. came = went @ bs_buffer s @ lost \<and> (lost \<noteq> [] \<longrightarrow> hung)"
    if "flow reading writing at_end hung came went s shut" for reading writing at_end hung came went s shut
    using that copied_lost(1) [of came went s] by (intro exI [of _ "lost came went s"]) (simp add: flow_def)
  show "relayed K (os_trace w) inp sock (bs_buffer (cp_outbound w)) (SysShutdown sock SHUT_WR)"
    unfolding relayed_def shut
    using lost [OF flows(1)] outbound flows(1) flow_shut by (metis (full_types))
  show "relayed K (os_trace w) sock outp (bs_buffer (cp_inbound w)) (SysClose outp)"
    unfolding relayed_def shut
    using lost [OF flows(2)] inbound flows(2) flow_shut by (metis (full_types))
qed

text \<open>C39: The copy loses, adds and reorders nothing, and ends when everything has been copied. When
  the loop returns, what has been written to the socket is a prefix of what was read from the
  standard input; what is missing is still in the outbound stream, unless the socket has
  been reported as hung up. The socket is shut down only when everything read has been
  written, and it has been shut down if it was not reported as hung up and no signal has
  interrupted the loop. The same holds from the socket to the standard output, which is
  closed at the end. Only a failed system call or an error condition on a descriptor can make
  the loop fail, whatever the kernel answers: it is never caught busy waiting.\<close>

theorem stream_copy_relays:
  assumes "kernel_ok K" "fd_num INPUT s = inp" "fd_num OUTPUT s = outp" "fd_num SOCKET s = sock"
    "inp \<noteq> sock" "outp \<noteq> sock" "os_trace s = []" "\<not> fd_closed OUTPUT s" "\<not> fd_closed SOCKET s"
  shows "case bidirectional_stream_copy K fuel s of
      None \<Rightarrow> True
    | Some (Inl e) \<Rightarrow> e \<in> {Thrown ''read'', Thrown ''writev'', Thrown ''shutdown'', Thrown ''close'',
        Thrown ''EventLoop: error on polled file descriptor''}
    | Some (Inr w) \<Rightarrow> relayed K (os_trace w) inp sock (bs_buffer (cp_outbound w)) (SysShutdown sock SHUT_WR)
        \<and> relayed K (os_trace w) sock outp (bs_buffer (cp_inbound w)) (SysClose outp)"
proof -
  let ?w = "\<lparr>os_fds = os_fds s, os_trace = os_trace s, cp_outbound = bs_new buffer_size, cp_inbound = bs_new buffer_size,
    cp_outbound_shutdown = False, cp_inbound_shutdown = False\<rparr>"
  have inv: "copy_inv K inp outp sock ?w"
    using assms copied_new by (simp add: copy_inv_def copy_ok_def fd_num_def)
  have "event_loop.admissible (set (copy_rules K)) (copy_rules K)"
    unfolding copying.admissible_def by (simp add: copy_rules_eq)
  note fails = copy_loop_keeps [OF inv this, of fuel]
  have "copy_history K inp outp sock (set (copy_rules K)) ?w"
    using inv assms(7-9) flow_new by (simp add: copy_history_def copy_rules_list fd_closed_def)
  moreover have "relaying.orderly K (copy_rules K)"
    using copy_rules_orderly by (simp add: relaying.orderly_def)
  ultimately have ends: "\<exists>R. copy_history K inp outp sock R w \<and> R \<subseteq> set (copy_rules K)
      \<and> (interrupted K (- 1) (os_trace w) \<or> (\<forall>r \<in> R. ru_interest r w = Inr False))"
    if "bidirectional_stream_copy K fuel s = Some (Inr w)" for w
    using copy_loop_ends that unfolding bidirectional_stream_copy_def by blast
  show ?thesis
  proof (cases "bidirectional_stream_copy K fuel s")
    case (Some res)
    then show ?thesis
    proof (cases res)
      case (Inl e)
      then show ?thesis using Some fails by (simp add: bidirectional_stream_copy_def copy_failure_def)
    next
      case (Inr w)
      obtain R where "copy_history K inp outp sock R w" "R \<subseteq> set (copy_rules K)"
        "interrupted K (- 1) (os_trace w) \<or> (\<forall>r \<in> R. ru_interest r w = Inr False)"
        using ends [OF Some [unfolded Inr]] by blast
      then show ?thesis using copy_history_relayed Some Inr by simp
    qed
  qed simp
qed

text \<open>Two bytes are typed, and written to the socket in two pieces; then poll is interrupted.\<close>

definition typing_kernel :: kernel where
  "typing_kernel = \<lparr>
     k_read = (\<lambda>tr fd n. if fd = 0 \<and> read_from 0 tr = [] then Inr (if 2 \<le> n then [104, 105] else []) else Inl 11),
     k_writev = (\<lambda>tr fd vs. let n = (case concat (map fst vs) of [] \<Rightarrow> 0 | _ # _ \<Rightarrow> 1)
       in if int (length (written fd tr) + n) < 2 ^ 61 then Inr n else Inl 28),
     k_poll = (\<lambda>tr ps t. if written 5 tr = [104, 105] then Inl EINTR
       else Inr (1, \<lambda>i. if i = 0 \<and> read_from 0 tr = [] then POLLIN else if i = 1 then POLLOUT else 0)),
     k_shutdown = (\<lambda>tr fd how. Inr 0), k_close = (\<lambda>tr fd. Inr 0), k_clock = (\<lambda>tr. 0), k_abort = (\<lambda>tr. False)\<rparr>"

definition copy_example :: "unit os_scheme" where
  "copy_example = \<lparr>os_fds = (\<lambda>fd. \<lparr>fd_fd = (if fd = 2 then 5 else fd), fd_is_eof = False, fd_is_closed = False,
     fd_reads = 0, fd_writes = 0\<rparr>), os_trace = []\<rparr>"

lemma copy_example_runs:
  "case bidirectional_stream_copy typing_kernel 10 copy_example of
     Some (Inr w) \<Rightarrow> written 5 (os_trace w) = [104, 105] | _ \<Rightarrow> False"
  by code_simp

theorem stream_copy_relays_witness:
  "\<exists>w. bidirectional_stream_copy typing_kernel 10 copy_example = Some (Inr w) \<and> written 5 (os_trace w) = [104, 105]
     \<and> relayed typing_kernel (os_trace w) 0 5 (bs_buffer (cp_outbound w)) (SysShutdown 5 SHUT_WR)"
proof -
  obtain w where w: "bidirectional_stream_copy typing_kernel 10 copy_example = Some (Inr w)"
    "written 5 (os_trace w) = [104, 105]"
    using copy_example_runs by (auto split: option.split_asm sum.split_asm)
  have "kernel_ok typing_kernel"
    by (auto simp: kernel_ok_def typing_kernel_def word_le_nat_alt Let_def EINTR_def split: if_splits list.splits)
  moreover have "fd_num INPUT copy_example = 0" "fd_num OUTPUT copy_example = 1" "fd_num SOCKET copy_example = 5"
    "os_trace copy_example = []" "\<not> fd_closed OUTPUT copy_example" "\<not> fd_closed SOCKET copy_example"
    by (simp_all add: copy_example_def fd_num_def fd_closed_def)
  ultimately show ?thesis
    using stream_copy_relays [of typing_kernel copy_example 0 1 5 10] w by auto
qed

end
