(* ===== verification/ChatWire.thy ===== *)
theory ChatWire
  imports StdMap Text
begin

text \<open>
  What the chat client and server of \<open>src/lab6/code\<close> share: the packet format (a type byte,
  a 16-bit big-endian length and the payload) and taking packets out of the bytes received so
  far.
\<close>

unbundle bit_operations_syntax

section \<open>Splitting a message\<close>

text \<open>\<open>payload.find('$')\<close>, and the text before and after it.\<close>

definition split_dollar :: "byte list \<Rightarrow> (byte list \<times> byte list) option" where
  "split_dollar s =
     (let pos = length (takeWhile (\<lambda>b. b \<noteq> 36) s)
      in if pos = length s then None else Some (take pos s, drop (pos + 1) s))"

section \<open>Packets\<close>

definition INVALID :: byte where "INVALID = 0"
definition CONNECT :: byte where "CONNECT = 1"
definition SIGNAL :: byte where "SIGNAL = 2"
definition TIME :: byte where "TIME = 3"
definition NAME :: byte where "NAME = 4"
definition LIST :: byte where "LIST = 5"
definition MESSAGE :: byte where "MESSAGE = 6"
definition DISCONNECT :: byte where "DISCONNECT = 7"

lemmas type_defs = INVALID_def CONNECT_def SIGNAL_def TIME_def NAME_def LIST_def MESSAGE_def DISCONNECT_def

text \<open>The length is the low 16 bits of the payload's size; the payload is sent whole.\<close>

definition make_packet :: "byte \<Rightarrow> byte list \<Rightarrow> byte list" where
  "make_packet type payload =
     (let payload_len = ucast (size_of payload) :: u16
      in [type, ucast (drop_bit 8 payload_len), ucast payload_len] @ payload)"

text \<open>The next complete packet of the bytes received, and the bytes after it.\<close>

definition take_packet :: "byte list \<Rightarrow> (byte \<times> byte list \<times> byte list) option" where
  "take_packet recv_buffer =
     (case recv_buffer of
        type # hi # lo # rest \<Rightarrow>
          (let payload_len = push_bit 8 (ucast hi) OR ucast lo :: u16
           in if length rest < unat payload_len then None
              else Some (type, take (unat payload_len) rest, drop (unat payload_len) rest))
      | _ \<Rightarrow> None)"

lemma take_packet_shorter: "take_packet b = Some (type, payload, b') \<Longrightarrow> length b' < length b"
  by (auto simp: take_packet_def Let_def split: list.splits if_splits)

text \<open>All complete packets, as a reading of a byte stream.\<close>

function unpack :: "byte list \<Rightarrow> (byte \<times> byte list) list \<times> byte list" where
  "unpack b = (case take_packet b of
     None \<Rightarrow> ([], b)
   | Some (type, payload, b') \<Rightarrow> (let (ps, r) = unpack b' in ((type, payload) # ps, r)))"
  by pat_completeness auto
termination by (relation "measure length") (auto dest: take_packet_shorter)

declare unpack.simps [simp del]

section \<open>Packets are read back, however the stream is cut\<close>

lemma length_bits:
  fixes n :: u16
  shows "push_bit 8 (ucast (ucast (drop_bit 8 n) :: byte)) OR ucast (ucast n :: byte) = n"
  by (rule bit_word_eqI)
    (auto simp: bit_simps)

lemma take_packet_make:
  assumes "length payload < 2 ^ 16"
  shows "take_packet (make_packet type payload @ rest) = Some (type, payload, rest)"
proof -
  have "unat (ucast (size_of payload) :: u16) = length payload"
    using assms by (simp add: size_of_def unsigned_ucast_eq take_bit_eq_mod unat_of_nat)
  then show ?thesis
    by (simp add: take_packet_def make_packet_def Let_def length_bits)
qed

text \<open>A payload of \<open>2^16\<close> bytes is sent with length 0: the reader takes its bytes for packets.\<close>

lemma take_packet_too_long:
  assumes "length payload = 2 ^ 16"
  shows "take_packet (make_packet type payload @ rest) = Some (type, [], payload @ rest)"
  using assms by (simp add: take_packet_def make_packet_def size_of_def Let_def)

lemma take_packet_append:
  assumes "take_packet b = Some (type, payload, b')"
  shows "take_packet (b @ c) = Some (type, payload, b' @ c)"
  using assms by (auto simp: take_packet_def Let_def split: list.splits if_splits)

lemma unpack_append: "unpack (b @ c) = (let (ps, r) = unpack b; (qs, r') = unpack (r @ c) in (ps @ qs, r'))"
proof (induction b rule: unpack.induct)
  case (1 b)
  show ?case
  proof (cases "take_packet b")
    case None
    then have "unpack b = ([], b)" by (simp add: unpack.simps [of b])
    then show ?thesis by (simp split: prod.split)
  next
    case (Some p)
    obtain type payload b' where p: "p = (type, payload, b')" by (cases p)
    have "take_packet (b @ c) = Some (type, payload, b' @ c)"
      using take_packet_append Some by (simp add: p)
    then have "unpack (b @ c) = (let (ps, r) = unpack (b' @ c) in ((type, payload) # ps, r))"
      by (simp add: unpack.simps [of "b @ c"])
    moreover have "unpack b = (let (ps, r) = unpack b' in ((type, payload) # ps, r))"
      using Some p by (simp add: unpack.simps [of b])
    ultimately show ?thesis
      using "1.IH" [OF Some [unfolded p] refl refl] by (simp add: split_beta Let_def)
  qed
qed

lemma unpack_packets:
  assumes "\<forall>(type, payload) \<in> set ps. length payload < 2 ^ 16"
  shows "unpack (concat (map (\<lambda>(type, payload). make_packet type payload) ps)) = (ps, [])"
  using assms
proof (induction ps)
  case Nil
  show ?case by (simp add: unpack.simps [of "[]"] take_packet_def)
next
  case (Cons p ps)
  obtain type payload where p: "p = (type, payload)" by (cases p)
  let ?rest = "concat (map (\<lambda>(type, payload). make_packet type payload) ps)"
  have "take_packet (make_packet type payload @ ?rest) = Some (type, payload, ?rest)"
    using Cons.prems by (intro take_packet_make) (simp add: p)
  then show ?case
    using Cons by (simp add: p unpack.simps [of "make_packet type payload @ ?rest"])
qed

text \<open>A receiver that gets its bytes in chunks and takes out what is complete after each.\<close>

fun unpack_chunks :: "byte list list \<Rightarrow> byte list \<Rightarrow> (byte \<times> byte list) list \<times> byte list" where
  "unpack_chunks [] b = ([], b)"
| "unpack_chunks (c # cs) b =
     (let (ps, r) = unpack (b @ c); (qs, r') = unpack_chunks cs r in (ps @ qs, r'))"

lemma unpack_idle: "unpack b = ([], b) \<Longrightarrow> unpack_chunks cs b = unpack (b @ concat cs)"
proof (induction cs arbitrary: b)
  case (Cons c cs)
  obtain ps r where u: "unpack (b @ c) = (ps, r)" by fastforce
  have "snd (unpack b) = snd (unpack b) \<and> unpack (snd (unpack b)) = ([], snd (unpack b))" for b
  proof (induction b rule: unpack.induct)
    case (1 b)
    show ?case
    proof (cases "take_packet b")
      case None
      then show ?thesis by (simp add: unpack.simps [of b])
    next
      case (Some p)
      then show ?thesis using "1.IH" [of p] by (cases p) (simp add: unpack.simps [of b] split_beta)
    qed
  qed
  then have "unpack r = ([], r)" using u by (metis snd_conv)
  then have "unpack_chunks cs r = unpack (r @ concat cs)" by (rule Cons.IH)
  then show ?case using unpack_append [of "b @ c" "concat cs"] u by (simp add: split_beta Let_def)
qed simp

end
