(* ===== verification/ChatServer.thy ===== *)
theory ChatServer
  imports ChatWire
begin

text \<open>
  \<open>src/lab6/code/server\<close>: the chat server. One thread serves each socket, the main thread accepts
  connections; the table of clients and the next identifier are shared, under a mutex. A step
  of a thread is one critical section or one call of \<open>send\<close> or \<open>close\<close>; steps of different threads
  interleave in any order. What is sent and closed is a list of actions; the results of
  \<open>send\<close>, which the code ignores, and the log on the standard output are left out.
\<close>

section \<open>State\<close>

record server =
  sv_clients :: "(int, int) std_map"
  sv_next_client_id :: int

definition server_new :: server where
  "server_new = \<lparr>sv_clients = [], sv_next_client_id = 1\<rparr>"

datatype action = Send int "byte list" | Close int

definition send_packet :: "int \<Rightarrow> byte \<Rightarrow> byte list \<Rightarrow> action list" where
  "send_packet sock type payload = (if sock < 0 then [] else [Send sock (make_packet type payload)])"

text \<open>The critical section of \<open>RemoveClient\<close>; the socket is closed after it.\<close>

definition erase_client :: "int \<Rightarrow> server \<Rightarrow> server" where
  "erase_client sock sv =
     (case sm_find sock (sv_clients sv) of
        Some _ \<Rightarrow> sv\<lparr>sv_clients := sm_erase sock (sv_clients sv)\<rparr>
      | None \<Rightarrow> sv)"

text \<open>\<open>clients[sock]\<close>, which inserts 0 when there is no entry.\<close>

definition client_id :: "int \<Rightarrow> server \<Rightarrow> int \<times> server" where
  "client_id sock sv =
     (case sm_find sock (sv_clients sv) of
        Some cid \<Rightarrow> (cid, sv)
      | None \<Rightarrow> (0, sv\<lparr>sv_clients := sm_assign sock 0 (sv_clients sv)\<rparr>))"

section \<open>The messages\<close>

text \<open>What a thread has still to do for a packet, a task for each step: a \<open>SendPacket\<close>, the
  critical section in which MESSAGE looks for the recipient, and the two parts of
  \<open>RemoveClient\<close>. A handler runs up to the end of its first critical section.\<close>

datatype task = Reply int byte "byte list" | Search int int "byte list" | Erase | Shut

type_synonym handled = "failure + task list \<times> server"

definition handle_connect :: "int \<Rightarrow> server \<Rightarrow> handled" where
  "handle_connect sock sv =
     (let cid = sv_next_client_id sv
      in if cid = INT_MAX then Inl UndefinedBehaviour
         else
           let sv = sv\<lparr>sv_next_client_id := cid + 1\<rparr>;
               sv = sv\<lparr>sv_clients := sm_assign sock cid (sv_clients sv)\<rparr>
           in Inr ([Reply sock CONNECT (to_string_int cid)], sv))"

definition handle_time :: "byte list \<Rightarrow> int \<Rightarrow> server \<Rightarrow> handled" where
  "handle_time timestr sock sv =
     (let (cid, sv) = client_id sock sv;
          timestr = (if timestr \<noteq> [] \<and> last timestr = 10 then butlast timestr else timestr)
      in Inr ([Reply sock TIME timestr], sv))"

definition handle_name :: "byte list \<Rightarrow> int \<Rightarrow> server \<Rightarrow> handled" where
  "handle_name host sock sv =
     (let (cid, sv) = client_id sock sv in Inr ([Reply sock NAME host], sv))"

fun join_ids :: "int list \<Rightarrow> bool \<Rightarrow> byte list" where
  "join_ids [] first = []"
| "join_ids (cid # cids) first =
     (if cid \<le> 0 then join_ids cids first
      else (if first then [] else [36]) @ to_string_int cid @ join_ids cids False)"

definition handle_list :: "int \<Rightarrow> server \<Rightarrow> handled" where
  "handle_list sock sv =
     (let (cid, sv) = client_id sock sv;
          list = join_ids (map snd (sv_clients sv)) True
      in Inr ([Reply sock LIST list], sv))"

definition find_socket :: "int \<Rightarrow> server \<Rightarrow> int" where
  "find_socket target_id sv =
     (case find (\<lambda>p. snd p = target_id) (sv_clients sv) of Some p \<Rightarrow> fst p | None \<Rightarrow> - 1)"

definition handle_message :: "byte list \<Rightarrow> int \<Rightarrow> server \<Rightarrow> handled" where
  "handle_message payload sock sv =
     (let (srcid, sv) = client_id sock sv
      in case split_dollar payload of
           None \<Rightarrow> Inr ([Reply sock INVALID (ascii ''Bad message format'')], sv)
         | Some (target, content) \<Rightarrow>
             (case stoi target of
                Inl e \<Rightarrow> Inl e
              | Inr target_id \<Rightarrow> Inr ([Search srcid target_id content], sv)))"

definition handle_disconnect :: "int \<Rightarrow> server \<Rightarrow> handled" where
  "handle_disconnect sock sv = (let (cid, sv) = client_id sock sv in Inr ([Erase, Shut], sv))"

definition handle :: "byte list \<Rightarrow> byte list \<Rightarrow> int \<Rightarrow> byte \<Rightarrow> byte list \<Rightarrow> server \<Rightarrow> handled" where
  "handle timestr host sock type payload sv =
     (if type = CONNECT then handle_connect sock sv
      else if type = TIME then handle_time timestr sock sv
      else if type = NAME then handle_name host sock sv
      else if type = LIST then handle_list sock sv
      else if type = MESSAGE then handle_message payload sock sv
      else if type = DISCONNECT then handle_disconnect sock sv
      else Inr ([Reply sock INVALID (ascii ''Unsupported type'')], sv))"

text \<open>The next task of the thread of \<open>sock\<close>: its action, and the tasks that come of it. MESSAGE sends
  to the socket that it has found after it has left the critical section.\<close>

fun perform :: "int \<Rightarrow> task \<Rightarrow> server \<Rightarrow> action list \<times> server \<times> task list" where
  "perform sock (Reply s type payload) sv = (send_packet s type payload, sv, [])"
| "perform sock (Search srcid target_id content) sv =
     (let target_sock = find_socket target_id sv
      in if target_sock < 0 then ([], sv, [Reply sock INVALID (ascii ''Target not found'')])
         else
           let forward = to_string_int srcid @ [36] @ content
           in ([], sv, [Reply target_sock SIGNAL forward, Reply sock MESSAGE (ascii ''Message Sending Success'')]))"
| "perform sock Erase sv = ([], erase_client sock sv, [])"
| "perform sock Shut sv = (if 0 \<le> sock then [Close sock] else [], sv, [])"

section \<open>The threads\<close>

text \<open>A thread has its buffer and its tasks. Without a task it takes the next packet of the buffer;
  without a complete packet it waits in \<open>recv\<close>. \<open>timestr\<close> is what \<open>ctime\<close> gives if it is asked,
  \<open>host\<close> the host name. \<open>None\<close> means that the thread has returned.\<close>

type_synonym thread = "byte list \<times> task list"

definition thread_step ::
    "byte list \<Rightarrow> byte list \<Rightarrow> int \<Rightarrow> thread \<Rightarrow> server \<Rightarrow> failure + action list \<times> server \<times> thread option" where
  "thread_step timestr host sock th sv =
     (case th of (recv_buffer, tasks) \<Rightarrow>
        case tasks of
          task # tasks \<Rightarrow>
            (case perform sock task sv of (acts, sv, new) \<Rightarrow>
               Inr (acts, sv, if task = Shut then None else Some (recv_buffer, new @ tasks)))
        | [] \<Rightarrow>
            (case take_packet recv_buffer of
               None \<Rightarrow> Inr ([], sv, Some th)
             | Some (type, payload, recv_buffer) \<Rightarrow>
                 (case handle timestr host sock type payload sv of
                    Inl e \<Rightarrow> Inl e | Inr (tasks, sv) \<Rightarrow> Inr ([], sv, Some (recv_buffer, tasks)))))"

text \<open>\<open>recv\<close> returns: no bytes, when the peer has closed or on an error, or some.\<close>

definition received :: "byte list \<Rightarrow> thread \<Rightarrow> thread" where
  "received chunk th =
     (case th of (recv_buffer, tasks) \<Rightarrow>
        if tasks \<noteq> [] \<or> take_packet recv_buffer \<noteq> None then th
        else if chunk = [] then (recv_buffer, [Erase, Shut]) else (recv_buffer @ chunk, []))"

text \<open>The main thread: in \<open>accept\<close>, or with a new socket before the critical section, before
  \<open>pthread_create\<close>, or in \<open>RemoveClient\<close> after that has failed.\<close>

datatype main = Accepting | Inserting int | Creating int | Erasing int | Closing int

section \<open>The whole server\<close>

text \<open>The threads are kept by socket. The operating system gives a socket number to one
  connection at a time.\<close>

record chat =
  ch_server :: server
  ch_threads :: "(int, thread) std_map"
  ch_main :: main

text \<open>\<open>Main created\<close> is a step of the main thread; \<open>created\<close> says whether \<open>pthread_create\<close> works.\<close>

datatype chat_event = Accept int | Main bool | Recv int "byte list" | Step int "byte list"

definition main_step :: "bool \<Rightarrow> chat \<Rightarrow> action list \<times> chat" where
  "main_step created ch =
     (case ch_main ch of
        Accepting \<Rightarrow> ([], ch)
      | Inserting s \<Rightarrow>
          ([], ch\<lparr>ch_server := (ch_server ch)\<lparr>sv_clients := sm_assign s 0 (sv_clients (ch_server ch))\<rparr>, ch_main := Creating s\<rparr>)
      | Creating s \<Rightarrow>
          ([], if created then ch\<lparr>ch_threads := sm_assign s ([], []) (ch_threads ch), ch_main := Accepting\<rparr>
               else ch\<lparr>ch_main := Erasing s\<rparr>)
      | Erasing s \<Rightarrow> ([], ch\<lparr>ch_server := erase_client s (ch_server ch), ch_main := Closing s\<rparr>)
      | Closing s \<Rightarrow> (if 0 \<le> s then [Close s] else [], ch\<lparr>ch_main := Accepting\<rparr>))"

definition chat_step :: "byte list \<Rightarrow> chat_event \<Rightarrow> chat \<Rightarrow> failure + action list \<times> chat" where
  "chat_step host ev ch =
     (case ev of
        Accept sock \<Rightarrow>
          Inr ([], if ch_main ch = Accepting \<and> 0 \<le> sock then ch\<lparr>ch_main := Inserting sock\<rparr> else ch)
      | Main created \<Rightarrow> Inr (main_step created ch)
      | Recv sock chunk \<Rightarrow>
          (case sm_find sock (ch_threads ch) of
             None \<Rightarrow> Inr ([], ch)
           | Some th \<Rightarrow> Inr ([], ch\<lparr>ch_threads := sm_assign sock (received chunk th) (ch_threads ch)\<rparr>))
      | Step sock timestr \<Rightarrow>
          (case sm_find sock (ch_threads ch) of
             None \<Rightarrow> Inr ([], ch)
           | Some th \<Rightarrow>
               (case thread_step timestr host sock th (ch_server ch) of
                  Inl e \<Rightarrow> Inl e
                | Inr (acts, sv, th') \<Rightarrow>
                    Inr (acts, ch\<lparr>ch_server := sv,
                      ch_threads := (case th' of None \<Rightarrow> sm_erase sock (ch_threads ch)
                                               | Some th' \<Rightarrow> sm_assign sock th' (ch_threads ch))\<rparr>))))"

text \<open>A run, with each action beside the event that it belongs to.\<close>

fun chat_run :: "byte list \<Rightarrow> chat_event list \<Rightarrow> chat \<Rightarrow> failure + (chat_event \<times> action) list \<times> chat" where
  "chat_run host [] ch = Inr ([], ch)"
| "chat_run host (ev # evs) ch =
     (case chat_step host ev ch of
        Inl e \<Rightarrow> Inl e
      | Inr (acts, ch) \<Rightarrow>
          (case chat_run host evs ch of
             Inl e \<Rightarrow> Inl e | Inr (tr, ch) \<Rightarrow> Inr (map (Pair ev) acts @ tr, ch)))"

definition chat_new :: chat where
  "chat_new = \<lparr>ch_server = server_new, ch_threads = [], ch_main = Accepting\<rparr>"

section \<open>The table of clients\<close>

definition server_ok :: "server \<Rightarrow> bool" where
  "server_ok sv \<longleftrightarrow> sm_ok (sv_clients sv) \<and> 1 \<le> sv_next_client_id sv \<and> sv_next_client_id sv \<le> INT_MAX
     \<and> (\<forall>s i. sm_find s (sv_clients sv) = Some i \<longrightarrow> 0 \<le> s \<and> 0 \<le> i \<and> i < sv_next_client_id sv)
     \<and> (\<forall>s s' i. sm_find s (sv_clients sv) = Some i \<and> sm_find s' (sv_clients sv) = Some i \<and> 0 < i \<longrightarrow> s = s')"

abbreviation connected :: "int \<Rightarrow> server \<Rightarrow> bool" where
  "connected s sv \<equiv> sm_find s (sv_clients sv) \<noteq> None"

lemma server_okD:
  assumes "server_ok sv"
  shows "sm_ok (sv_clients sv)" "1 \<le> sv_next_client_id sv" "sv_next_client_id sv \<le> INT_MAX"
    "sm_find s (sv_clients sv) = Some i \<Longrightarrow> 0 \<le> s \<and> 0 \<le> i \<and> i < sv_next_client_id sv"
    "sm_find s (sv_clients sv) = Some i \<Longrightarrow> sm_find s' (sv_clients sv) = Some i \<Longrightarrow> 0 < i \<Longrightarrow> s = s'"
  using assms unfolding server_ok_def by blast+

lemma server_new_ok: "server_ok server_new"
  by (simp add: server_ok_def server_new_def INT_MAX_def)

lemma client_id_eq: "sm_find sock (sv_clients sv) = Some i \<Longrightarrow> client_id sock sv = (i, sv)"
  by (simp add: client_id_def)

lemma server_ok_erase:
  assumes "server_ok sv"
  shows "server_ok (sv\<lparr>sv_clients := sm_erase s (sv_clients sv)\<rparr>)"
  unfolding server_ok_def
  using server_okD [OF assms] by (auto simp: sm.find_erase sm.erase_ok split: if_splits)

lemma server_ok_placeholder:
  assumes "server_ok sv" "0 \<le> s"
  shows "server_ok (sv\<lparr>sv_clients := sm_assign s 0 (sv_clients sv)\<rparr>)"
proof -
  note ok = server_okD [OF assms(1)]
  have "0 < sv_next_client_id sv" using ok(2) by simp
  then show ?thesis
    unfolding server_ok_def using ok assms(2) by (auto simp: sm.find_assign sm.assign_ok split: if_splits)
qed

text \<open>A new identifier is larger than all others.\<close>

lemma server_ok_register:
  assumes "server_ok sv" "0 \<le> s" "sv_next_client_id sv \<noteq> INT_MAX"
  shows "server_ok (sv\<lparr>sv_next_client_id := sv_next_client_id sv + 1,
     sv_clients := sm_assign s (sv_next_client_id sv) (sv_clients sv)\<rparr>)"
proof -
  note ok = server_okD [OF assms(1)]
  have "sm_find t (sv_clients sv) \<noteq> Some (sv_next_client_id sv)" for t using ok(4) by fastforce
  moreover have "i < sv_next_client_id sv + 1" if "sm_find t (sv_clients sv) = Some i" for t i
    using ok(4) [OF that] by simp
  ultimately show ?thesis
    unfolding server_ok_def using ok assms(2,3)
    by (auto simp: sm.find_assign sm.assign_ok split: if_splits)
qed

text \<open>The socket found for an identifier is that of a client with this identifier.\<close>

lemma find_socket_found:
  assumes ok: "server_ok sv" and found: "\<not> find_socket i sv < 0"
  shows "sm_find (find_socket i sv) (sv_clients sv) = Some i"
proof -
  obtain p where p: "find (\<lambda>p. snd p = i) (sv_clients sv) = Some p"
    using found by (auto simp: find_socket_def split: option.splits)
  then have "(fst p, i) \<in> set (sv_clients sv)" by (auto simp: find_Some_iff)
  then have "sm_find (fst p) (sv_clients sv) = Some i" by (simp add: sm_find_in [OF server_okD(1) [OF ok]])
  then show ?thesis using p by (simp add: find_socket_def)
qed

lemma find_socket_of:
  assumes ok: "server_ok sv" and find: "sm_find s (sv_clients sv) = Some i" and pos: "0 < i"
  shows "find_socket i sv = s" "0 \<le> s"
proof -
  have "(s, i) \<in> set (sv_clients sv)" using find sm_find_in [OF server_okD(1) [OF ok]] by simp
  then obtain p where p: "find (\<lambda>p. snd p = i) (sv_clients sv) = Some p"
    by (cases "find (\<lambda>p. snd p = i) (sv_clients sv)") (auto simp: find_None_iff)
  then have "(fst p, i) \<in> set (sv_clients sv)" by (auto simp: find_Some_iff)
  then have "sm_find (fst p) (sv_clients sv) = Some i" by (simp add: sm_find_in [OF server_okD(1) [OF ok]])
  then have "fst p = s" using server_okD(5) [OF ok] find pos by blast
  then show "find_socket i sv = s" using p by (simp add: find_socket_def)
  show "0 \<le> s" using server_okD(4) [OF ok find] by simp
qed

section \<open>The threads and the table\<close>

fun main_sock :: "main \<Rightarrow> int option" where
  "main_sock Accepting = None"
| "main_sock (Inserting s) = Some s"
| "main_sock (Creating s) = Some s"
| "main_sock (Erasing s) = Some s"
| "main_sock (Closing s) = Some s"

definition is_open :: "int \<Rightarrow> chat \<Rightarrow> bool" where
  "is_open s ch \<longleftrightarrow> sm_find s (ch_threads ch) \<noteq> None \<or> main_sock (ch_main ch) = Some s"

abbreviation entry :: "int \<Rightarrow> chat \<Rightarrow> int option" where
  "entry s ch \<equiv> sm_find s (sv_clients (ch_server ch))"

text \<open>The tasks of a thread whose client is in the table, with the identifier \<open>i\<close>.\<close>

definition tasks_ok :: "int \<Rightarrow> int \<Rightarrow> task list \<Rightarrow> bool" where
  "tasks_ok s i ts \<longleftrightarrow> ts = [] \<or> (\<exists>t p. ts = [Reply s t p]) \<or> (\<exists>n c. ts = [Search i n c])
     \<or> (\<exists>d f p. ts = [Reply d SIGNAL f, Reply s MESSAGE p]) \<or> ts = [Erase, Shut]"

text \<open>An entry belongs to a thread until its \<open>Erase\<close>, or to the main thread, with the placeholder.\<close>

definition seat :: "int \<Rightarrow> chat \<Rightarrow> bool" where
  "seat s ch \<longleftrightarrow>
     (case sm_find s (ch_threads ch) of
        Some (b, ts) \<Rightarrow> 0 \<le> s \<and> main_sock (ch_main ch) \<noteq> Some s
          \<and> (if ts = [Shut] then entry s ch = None else \<exists>i. entry s ch = Some i \<and> tasks_ok s i ts)
      | None \<Rightarrow> entry s ch = (if ch_main ch = Creating s \<or> ch_main ch = Erasing s then Some 0 else None))
     \<and> (main_sock (ch_main ch) = Some s \<longrightarrow> 0 \<le> s)"

definition chat_ok :: "chat \<Rightarrow> bool" where
  "chat_ok ch \<longleftrightarrow> server_ok (ch_server ch) \<and> sm_ok (ch_threads ch) \<and> (\<forall>s. seat s ch)"

lemma chat_okD:
  assumes "chat_ok ch"
  shows "server_ok (ch_server ch)" "sm_ok (ch_threads ch)" "seat s ch"
  using assms by (simp_all add: chat_ok_def)

lemma chat_okI:
  assumes "seat s ch" "\<And>x. x \<noteq> s \<Longrightarrow> seat x ch" "server_ok (ch_server ch)" "sm_ok (ch_threads ch)"
  shows "chat_ok ch"
proof -
  have "seat x ch" for x using assms(1,2) by (cases "x = s") simp_all
  then show ?thesis using assms(3,4) by (simp add: chat_ok_def)
qed

lemma chat_new_ok: "chat_ok chat_new"
  using server_new_ok by (simp add: chat_ok_def chat_new_def seat_def) (simp add: server_new_def)

text \<open>What a step of a thread does to the server: it changes its own entry only, and a new identifier
  is the next one.\<close>

definition advances :: "int \<Rightarrow> server \<Rightarrow> server \<Rightarrow> bool" where
  "advances s sv sv' \<longleftrightarrow> server_ok sv' \<and> (\<forall>x. x \<noteq> s \<longrightarrow> sm_find x (sv_clients sv') = sm_find x (sv_clients sv))
     \<and> (sv_next_client_id sv' = sv_next_client_id sv \<and> (\<forall>v. sm_find s (sv_clients sv') = Some v \<longrightarrow> sm_find s (sv_clients sv) = Some v)
        \<or> sv_next_client_id sv' = sv_next_client_id sv + 1 \<and> sm_find s (sv_clients sv') = Some (sv_next_client_id sv))"

lemma advances_refl [simp]: "advances s sv sv \<longleftrightarrow> server_ok sv"
  by (simp add: advances_def)

lemma advances_erase:
  assumes "server_ok sv"
  shows "advances s sv (erase_client s sv)" "sm_find s (sv_clients (erase_client s sv)) = None"
  using assms server_ok_erase [OF assms, of s]
  by (auto simp: advances_def erase_client_def sm_find_erase split: option.split)

lemma handle_ok:
  assumes ok: "server_ok sv" and find: "sm_find s (sv_clients sv) = Some i" and h: "handle timestr host s t payload sv = Inr (ts, sv')"
  shows "advances s sv sv' \<and> ts \<noteq> [Shut] \<and> (\<exists>i'. sm_find s (sv_clients sv') = Some i' \<and> tasks_ok s i' ts)"
proof -
  have s: "0 \<le> s" using server_okD(4) [OF ok find] by simp
  have c: ?thesis if "handle_connect s sv = Inr (ts, sv')"
    using that server_ok_register [OF ok s] server_okD(1) [OF ok]
    by (auto simp: handle_connect_def Let_def advances_def tasks_ok_def sm.find_assign split: if_splits)
  have m: ?thesis if "handle_message payload s sv = Inr (ts, sv')"
    using that ok find
    by (auto simp: handle_message_def client_id_eq [OF find] tasks_ok_def split: option.splits sum.splits)
  show ?thesis
    using h c m ok find
    by (auto simp: handle_def handle_time_def handle_name_def handle_list_def handle_disconnect_def client_id_eq [OF find]
        tasks_ok_def split: if_splits)
qed

lemma thread_step_ok:
  assumes ok: "server_ok sv" and find: "sm_find s (sv_clients sv) = Some i" and ts: "tasks_ok s i ts"
    and step: "thread_step timestr host s (b, ts) sv = Inr (acts, sv', th')"
  shows "advances s sv sv' \<and> (\<exists>b' ts'. th' = Some (b', ts') \<and>
    (if ts' = [Shut] then sm_find s (sv_clients sv') = None else \<exists>i'. sm_find s (sv_clients sv') = Some i' \<and> tasks_ok s i' ts'))"
proof (cases ts)
  case Nil
  show ?thesis
  proof (cases "take_packet b")
    case None
    then show ?thesis using step ok find Nil by (auto simp: thread_step_def tasks_ok_def)
  next
    case (Some p)
    obtain t payload b' where p: "p = (t, payload, b')" by (cases p)
    then obtain ts' where "handle timestr host s t payload sv = Inr (ts', sv')" "th' = Some (b', ts')"
      using step Nil Some by (auto simp: thread_step_def split: sum.splits)
    then show ?thesis using handle_ok [OF ok find] by auto
  qed
next
  case (Cons task rest)
  obtain new where p: "perform s task sv = (acts, sv', new)" "th' = (if task = Shut then None else Some (b, new @ rest))"
    using step Cons by (auto simp: thread_step_def split: prod.splits)
  have same: ?thesis if "sv' = sv" "task \<noteq> Shut" "tasks_ok s i (new @ rest)" "new @ rest \<noteq> [Shut]"
    using that ok find p(2) by simp
  show ?thesis
  proof (cases task)
    case (Reply d t f)
    then have "rest = [] \<or> (\<exists>t p. rest = [Reply s t p])" using ts Cons by (auto simp: tasks_ok_def)
    then show ?thesis using p(1) Reply by (intro same) (auto simp: tasks_ok_def)
  next
    case (Search srcid n c)
    then have "rest = []" using ts Cons by (auto simp: tasks_ok_def)
    then show ?thesis using p(1) Search by (intro same) (auto simp: tasks_ok_def Let_def split: if_splits)
  next
    case Erase
    then have "rest = [Shut]" using ts Cons by (auto simp: tasks_ok_def)
    then show ?thesis using p Erase advances_erase [OF ok, of s] by simp
  next
    case Shut
    then show ?thesis using ts Cons by (auto simp: tasks_ok_def)
  qed
qed

text \<open>The system accepts a connection only with a socket number that is not in use.\<close>

definition possible :: "chat_event \<Rightarrow> chat \<Rightarrow> bool" where
  "possible ev ch \<longleftrightarrow> (case ev of Accept s \<Rightarrow> \<not> is_open s ch | _ \<Rightarrow> True)"

fun possible_run :: "byte list \<Rightarrow> chat_event list \<Rightarrow> chat \<Rightarrow> bool" where
  "possible_run host [] ch = True"
| "possible_run host (ev # evs) ch = (possible ev ch \<and>
     (case chat_step host ev ch of Inl _ \<Rightarrow> True | Inr (_, ch) \<Rightarrow> possible_run host evs ch))"

lemma seat_thread:
  assumes "seat s ch" "sm_find s (ch_threads ch) = Some (b, ts)" "ts \<noteq> [Shut]"
  obtains i where "entry s ch = Some i" "tasks_ok s i ts" "0 \<le> s"
  using assms by (auto simp: seat_def)

text \<open>A step of a thread, as the server and the other threads see it.\<close>

lemma step_cases:
  assumes ok: "chat_ok ch" and step: "chat_step host (Step s timestr) ch = Inr (acts, ch')"
  obtains (absent) "sm_find s (ch_threads ch) = None" "acts = []" "ch' = ch"
    | (returns) b where "sm_find s (ch_threads ch) = Some (b, [Shut])" "acts = [Close s]" "entry s ch = None"
        "ch' = ch\<lparr>ch_threads := sm_erase s (ch_threads ch)\<rparr>"
    | (goes_on) b ts i sv' b' ts' where "sm_find s (ch_threads ch) = Some (b, ts)" "entry s ch = Some i" "tasks_ok s i ts"
        "thread_step timestr host s (b, ts) (ch_server ch) = Inr (acts, sv', Some (b', ts'))" "advances s (ch_server ch) sv'"
        "if ts' = [Shut] then sm_find s (sv_clients sv') = None else \<exists>i'. sm_find s (sv_clients sv') = Some i' \<and> tasks_ok s i' ts'"
        "ch' = ch\<lparr>ch_server := sv', ch_threads := sm_assign s (b', ts') (ch_threads ch)\<rparr>"
proof (cases "sm_find s (ch_threads ch)")
  case None
  then have "chat_step host (Step s timestr) ch = Inr ([], ch)" by (simp add: chat_step_def)
  then have "acts = []" "ch' = ch" using step by simp_all
  then show thesis using absent None by blast
next
  case (Some th)
  obtain b ts where th: "th = (b, ts)" by (cases th)
  note seat = chat_okD(3) [OF ok, of s]
  show thesis
  proof (cases "ts = [Shut]")
    case True
    then have "0 \<le> s" "entry s ch = None" using seat Some th by (simp_all add: seat_def)
    then have "acts = [Close s]" "ch' = ch\<lparr>ch_threads := sm_erase s (ch_threads ch)\<rparr>"
      using step Some th True by (simp_all add: chat_step_def thread_step_def)
    then show thesis using returns Some th True \<open>entry s ch = None\<close> by blast
  next
    case False
    obtain i where i: "entry s ch = Some i" "tasks_ok s i ts"
      using seat_thread [OF seat Some [unfolded th] False] by blast
    have "\<exists>sv' th'. thread_step timestr host s (b, ts) (ch_server ch) = Inr (acts, sv', th')"
      using step unfolding chat_step_def chat_event.case Some th option.case
      by (cases "thread_step timestr host s (b, ts) (ch_server ch)") auto
    then obtain sv' th' where st: "thread_step timestr host s (b, ts) (ch_server ch) = Inr (acts, sv', th')" by blast
    from thread_step_ok [OF chat_okD(1) [OF ok] i st] obtain b' ts' where
      new: "advances s (ch_server ch) sv'" "th' = Some (b', ts')"
      "if ts' = [Shut] then sm_find s (sv_clients sv') = None else \<exists>i'. sm_find s (sv_clients sv') = Some i' \<and> tasks_ok s i' ts'"
      by blast
    have "ch' = ch\<lparr>ch_server := sv', ch_threads := sm_assign s (b', ts') (ch_threads ch)\<rparr>"
      using step by (simp add: chat_step_def Some th st new(2))
    then show thesis by (rule goes_on [OF Some [unfolded th] i st [unfolded new(2)] new(1,3)])
  qed
qed

lemma seat_elsewhere:
  assumes "seat x ch" "sm_find x (ch_threads ch') = sm_find x (ch_threads ch)" "entry x ch' = entry x ch"
    and "ch_main ch' = ch_main ch \<or> main_sock (ch_main ch) \<noteq> Some x \<and> main_sock (ch_main ch') \<noteq> Some x"
  shows "seat x ch'"
proof (cases "ch_main ch' = ch_main ch")
  case True
  then show ?thesis using assms(1) unfolding seat_def assms(2,3) True by simp
next
  case False
  then have "main_sock (ch_main ch) \<noteq> Some x" "main_sock (ch_main ch') \<noteq> Some x" using assms(4) by simp_all
  moreover from this have "\<not> (ch_main ch = Creating x \<or> ch_main ch = Erasing x)"
    "\<not> (ch_main ch' = Creating x \<or> ch_main ch' = Erasing x)" by auto
  ultimately show ?thesis
    using assms(1) unfolding seat_def assms(2,3) by (cases "sm_find x (ch_threads ch)") (auto split: prod.splits)
qed

lemma seat_main:
  assumes "seat s ch" "main_sock (ch_main ch) = Some s"
  shows "0 \<le> s" "sm_find s (ch_threads ch) = None"
    "entry s ch = (if ch_main ch = Creating s \<or> ch_main ch = Erasing s then Some 0 else None)"
  using assms by (auto simp: seat_def split: option.splits)

text \<open>A step of the main thread.\<close>

lemma main_step_ok:
  assumes ok: "chat_ok ch" and step: "main_step created ch = (acts, ch')"
  shows "chat_ok ch'"
proof (cases "main_sock (ch_main ch)")
  case None
  then have "ch_main ch = Accepting" by (cases "ch_main ch") simp_all
  then show ?thesis using assms by (simp add: main_step_def)
next
  case (Some s)
  have sv: "server_ok (ch_server ch)" "sm_ok (sv_clients (ch_server ch))" "sm_ok (ch_threads ch)"
    using chat_okD [OF ok] server_okD(1) by simp_all
  note here = seat_main [OF chat_okD(3) [OF ok] Some]
  have s: "ch_main ch \<in> {Inserting s, Creating s, Erasing s, Closing s}" using Some by (cases "ch_main ch") simp_all
  have "main_sock (ch_main ch') = None \<or> main_sock (ch_main ch') = Some s"
    using s step by (auto simp: main_step_def split: if_splits)
  moreover have "sm_find x (ch_threads ch') = sm_find x (ch_threads ch) \<and> entry x ch' = entry x ch" if "x \<noteq> s" for x
    using s step that sv
    by (auto simp: main_step_def erase_client_def sm.find_assign sm_find_erase split: if_splits option.splits)
  ultimately have others: "seat x ch'" if "x \<noteq> s" for x
    using that Some by (intro seat_elsewhere [OF chat_okD(3) [OF ok]]) auto
  have here': "seat s ch'"
    using s
  proof (elim insertE emptyE)
    assume "ch_main ch = Inserting s"
    then show ?thesis using step here sv by (auto simp: main_step_def seat_def sm.find_assign)
  next
    assume "ch_main ch = Creating s"
    then show ?thesis using step here sv by (auto simp: main_step_def seat_def sm.find_assign tasks_ok_def split: if_splits)
  next
    assume "ch_main ch = Erasing s"
    then show ?thesis using step here sv by (auto simp: main_step_def seat_def erase_client_def sm_find_erase)
  next
    assume "ch_main ch = Closing s"
    then show ?thesis using step here sv by (auto simp: main_step_def seat_def)
  qed
  have "server_ok (ch_server ch')"
    using s step sv here(1) server_ok_placeholder [OF sv(1)] advances_erase(1) [OF sv(1), of s]
    by (auto simp: main_step_def advances_def split: if_splits)
  moreover have "sm_ok (ch_threads ch')" using s step sv by (auto simp: main_step_def sm.assign_ok split: if_splits)
  ultimately show ?thesis by (intro chat_okI [of s] here' others)
qed

lemma received_tasks: "received chunk (b, ts) = (b', ts') \<Longrightarrow> ts' = ts \<or> ts = [] \<and> ts' = [Erase, Shut]"
  by (auto simp: received_def split: if_splits)

lemma chat_step_ok:
  assumes ok: "chat_ok ch" and pos: "possible ev ch" and step: "chat_step host ev ch = Inr (acts, ch')"
  shows "chat_ok ch'"
proof -
  have sv: "server_ok (ch_server ch)" "sm_ok (sv_clients (ch_server ch))" "sm_ok (ch_threads ch)"
    using chat_okD [OF ok] server_okD(1) by simp_all
  note seats = chat_okD(3) [OF ok]
  show ?thesis
  proof (cases ev)
    case (Accept s)
    show ?thesis
    proof (cases "ch_main ch = Accepting \<and> 0 \<le> s")
      case True
      then have ch': "ch' = ch\<lparr>ch_main := Inserting s\<rparr>" using step Accept by (simp add: chat_step_def)
      have "sm_find s (ch_threads ch) = None" using pos Accept
        by (cases "sm_find s (ch_threads ch)") (simp_all add: possible_def is_open_def)
      then have "seat s ch'" using seats [of s] True by (cases "entry s ch") (simp_all add: ch' seat_def)
      moreover have "seat x ch'" if "x \<noteq> s" for x
        by (rule seat_elsewhere [OF seats]) (use True that in \<open>simp_all add: ch'\<close>)
      ultimately show ?thesis using sv by (intro chat_okI [of s]) (simp_all add: ch')
    next
      case False
      then show ?thesis using step ok Accept by (auto simp: chat_step_def)
    qed
  next
    case (Main created)
    then show ?thesis using main_step_ok [OF ok] step by (simp add: chat_step_def)
  next
    case (Recv s chunk)
    show ?thesis
    proof (cases "sm_find s (ch_threads ch)")
      case None
      then show ?thesis using step ok Recv by (simp add: chat_step_def)
    next
      case (Some th)
      obtain b ts b' ts' where th: "th = (b, ts)" "received chunk th = (b', ts')" by (cases th; cases "received chunk th")
      have ch': "ch' = ch\<lparr>ch_threads := sm_assign s (b', ts') (ch_threads ch)\<rparr>" using step Recv Some th by (simp add: chat_step_def)
      have "ts' = ts \<or> ts = [] \<and> ts' = [Erase, Shut]" using th received_tasks by blast
      then have "seat s ch'" using seats [of s] Some th(1) sv by (auto simp: ch' seat_def sm.find_assign tasks_ok_def)
      moreover have "seat x ch'" if "x \<noteq> s" for x
        by (rule seat_elsewhere [OF seats]) (simp_all add: ch' sm.find_assign sv that)
      ultimately show ?thesis using sv by (intro chat_okI [of s]) (simp_all add: ch' sm.assign_ok)
    qed
  next
    case (Step s timestr)
    note step = step [unfolded Step]
    from ok step show ?thesis
    proof (cases rule: step_cases)
      case absent
      then show ?thesis using ok by simp
    next
      case (returns b)
      have "seat s ch'" using seats [of s] returns by (auto simp: seat_def sm_find_erase)
      moreover have "seat x ch'" if "x \<noteq> s" for x
        by (rule seat_elsewhere [OF seats]) (simp_all add: returns sm_find_erase that)
      ultimately show ?thesis using sv by (intro chat_okI [of s]) (simp_all add: returns sm.erase_ok)
    next
      case (goes_on b ts i sv' b' ts')
      have "seat s ch'" using seats [of s] goes_on(1,6) sv by (auto simp: goes_on(7) seat_def sm.find_assign)
      moreover have "seat x ch'" if "x \<noteq> s" for x
        by (rule seat_elsewhere [OF seats]) (use goes_on(5) in \<open>simp_all add: goes_on(7) sm.find_assign sv that advances_def\<close>)
      ultimately show ?thesis
        using sv goes_on(5) by (intro chat_okI [of s]) (simp_all add: goes_on(7) sm.assign_ok advances_def)
    qed
  qed
qed

section \<open>Runs of the server\<close>

lemma chat_run_append:
  "chat_run host (evs @ evs') ch =
     (case chat_run host evs ch of
        Inl e \<Rightarrow> Inl e
      | Inr (tr, ch) \<Rightarrow> (case chat_run host evs' ch of Inl e \<Rightarrow> Inl e | Inr (tr', ch) \<Rightarrow> Inr (tr @ tr', ch)))"
  by (induction evs arbitrary: ch) (auto split: sum.split prod.split)

lemma chat_run_snoc:
  assumes "chat_run host (evs @ [ev]) ch = Inr (tr, ch'')"
  obtains tr' ch' acts where "chat_run host evs ch = Inr (tr', ch')" "chat_step host ev ch' = Inr (acts, ch'')"
    "tr = tr' @ map (Pair ev) acts"
  using assms by (auto simp: chat_run_append split: sum.splits prod.splits)

lemma chat_run_Cons:
  assumes "chat_run host (ev # evs) ch = Inr (tr, ch'')"
  obtains acts ch' tr' where "chat_step host ev ch = Inr (acts, ch')" "chat_run host evs ch' = Inr (tr', ch'')"
    "tr = map (Pair ev) acts @ tr'"
  using assms by (auto split: sum.splits prod.splits)

lemma possible_run_append:
  "chat_run host evs ch = Inr (tr, ch') \<Longrightarrow>
     possible_run host (evs @ evs') ch \<longleftrightarrow> possible_run host evs ch \<and> possible_run host evs' ch'"
proof (induction evs arbitrary: ch tr)
  case (Cons ev evs)
  obtain acts ch1 tr1 where "chat_step host ev ch = Inr (acts, ch1)" "chat_run host evs ch1 = Inr (tr1, ch')"
    using chat_run_Cons [OF Cons.prems] by metis
  then show ?case using Cons.IH by simp
qed simp

lemma chat_run_ok:
  assumes "chat_ok ch" "chat_run host evs ch = Inr (tr, ch')" "possible_run host evs ch"
  shows "chat_ok ch'"
  using assms
proof (induction evs arbitrary: ch tr)
  case (Cons ev evs)
  obtain acts ch1 tr1 where s: "chat_step host ev ch = Inr (acts, ch1)" "chat_run host evs ch1 = Inr (tr1, ch')"
    using chat_run_Cons [OF Cons.prems(2)] by metis
  have "possible ev ch" "possible_run host evs ch1" using Cons.prems(3) s by simp_all
  then show ?case using Cons.IH [OF _ s(2)] chat_step_ok [OF Cons.prems(1) _ s(1)] by blast
qed simp

text \<open>In the run \<open>evs\<close> the thread of \<open>s\<close> has searched for the recipient of a message when \<open>d\<close> was the
  socket of the client that it is for, and \<open>f\<close> is this message with the sender's identifier.\<close>

definition searched :: "byte list \<Rightarrow> chat_event list \<Rightarrow> int \<Rightarrow> int \<Rightarrow> byte list \<Rightarrow> bool" where
  "searched host evs s d f \<longleftrightarrow> (\<exists>before timestr after tr ch b i t content.
     evs = before @ Step s timestr # after \<and> chat_run host before chat_new = Inr (tr, ch)
     \<and> sm_find s (ch_threads ch) = Some (b, [Search i t content])
     \<and> entry s ch = Some i \<and> entry d ch = Some t \<and> f = to_string_int i @ [36] @ content)"

lemma searched_snoc: "searched host evs s d f \<Longrightarrow> searched host (evs @ [ev]) s d f"
  unfolding searched_def by fastforce

lemma handle_tasks:
  "handle timestr host s t payload sv = Inr (ts, sv') \<Longrightarrow>
     (\<exists>t p. ts = [Reply s t p]) \<or> (\<exists>i n c. ts = [Search i n c]) \<or> ts = [Erase, Shut]"
  by (auto simp: handle_def handle_connect_def handle_time_def handle_name_def handle_list_def handle_message_def
      handle_disconnect_def Let_def split: if_splits prod.splits option.splits sum.splits)

text \<open>A thread comes to a packet for another socket only by a search.\<close>

lemma thread_step_foreign:
  assumes ok: "server_ok sv" and ts: "tasks_ok s i ts" and foreign: "d \<noteq> s"
    and step: "thread_step timestr host s (b, ts) sv = Inr (acts, sv', Some (b', Reply d t f # rest))"
  shows "t = SIGNAL \<and> (\<exists>n c. ts = [Search i n c] \<and> sm_find d (sv_clients sv) = Some n \<and> f = to_string_int i @ [36] @ c)"
proof (cases ts)
  case Nil
  then obtain p type payload b'' where "handle timestr host s type payload sv = Inr (Reply d t f # rest, sv')"
    using step foreign by (auto simp: thread_step_def split: option.splits sum.splits prod.splits)
  then show ?thesis using handle_tasks foreign by blast
next
  case (Cons task ts')
  obtain new where p: "perform s task sv = (acts, sv', new)" "new @ ts' = Reply d t f # rest"
    using step Cons by (auto simp: thread_step_def split: prod.splits if_splits)
  show ?thesis
  proof (cases task)
    case (Search i' n c)
    then have i: "i' = i" "ts' = []" using ts Cons by (auto simp: tasks_ok_def)
    have found: "\<not> find_socket n sv < 0" using p Search foreign i by (auto simp: Let_def)
    then have "d = find_socket n sv" "t = SIGNAL" "f = to_string_int i @ [36] @ c"
      using p Search i by (auto simp: Let_def)
    then show ?thesis using find_socket_found [OF ok found] Cons Search i by simp
  qed (use p ts Cons foreign in \<open>auto simp: tasks_ok_def\<close>)
qed

lemma foreign_replies_searched:
  assumes "chat_run host evs chat_new = Inr (tr, ch)" "possible_run host evs chat_new"
    "sm_find s (ch_threads ch) = Some (b, Reply d t f # rest)" "d \<noteq> s"
  shows "t = SIGNAL \<and> searched host evs s d f"
  using assms
proof (induction evs arbitrary: tr ch b rest rule: rev_induct)
  case Nil
  then show ?case by (auto simp: chat_new_def)
next
  case (snoc ev evs)
  obtain tr1 ch1 acts where run: "chat_run host evs chat_new = Inr (tr1, ch1)" "chat_step host ev ch1 = Inr (acts, ch)"
    using chat_run_snoc [OF snoc.prems(1)] by metis
  have pos: "possible_run host evs chat_new" using snoc.prems(2) possible_run_append [OF run(1)] by simp
  have ok: "chat_ok ch1" by (rule chat_run_ok [OF chat_new_ok run(1) pos])
  note maps = chat_okD(2) [OF ok]
  have old: ?case if "sm_find s (ch_threads ch1) = Some (b', Reply d t f # rest')" for b' rest'
    using snoc.IH [OF run(1) pos that snoc.prems(4)] searched_snoc by blast
  show ?case
  proof (cases ev)
    case (Accept x)
    then show ?thesis using run(2) snoc.prems(3) old by (auto simp: chat_step_def split: if_splits)
  next
    case (Main created)
    then show ?thesis
      using run(2) snoc.prems(3) maps
      by (intro old) (auto simp: chat_step_def main_step_def sm.find_assign split: main.splits if_splits)
  next
    case (Recv x chunk)
    then show ?thesis
      using run(2) snoc.prems(3) maps
      by (intro old) (auto simp: chat_step_def received_def sm.find_assign split: option.splits if_splits prod.splits)
  next
    case (Step x timestr)
    from ok run(2) [unfolded Step] show ?thesis
    proof (cases rule: step_cases)
      case absent
      then show ?thesis using snoc.prems(3) old by blast
    next
      case (returns b')
      then show ?thesis using snoc.prems(3) old by (auto simp: sm_find_erase split: if_splits)
    next
      case (goes_on b1 ts1 i sv' b2 ts2)
      show ?thesis
      proof (cases "x = s")
        case False
        then show ?thesis using snoc.prems(3) old goes_on(7) maps by (simp add: sm.find_assign)
      next
        case True
        then have "b2 = b" "ts2 = Reply d t f # rest" using snoc.prems(3) goes_on(7) maps by (simp_all add: sm.find_assign)
        then show ?thesis
          using thread_step_foreign [OF chat_okD(1) [OF ok] goes_on(3) _ goes_on(4) [unfolded \<open>ts2 = _\<close>]] goes_on(1,2)
            run(1) snoc.prems(4) True Step
          unfolding searched_def by blast
      qed
    qed
  qed
qed

text \<open>What a step sends and closes.\<close>

lemma chat_step_actions:
  assumes ok: "chat_ok ch" and step: "chat_step host ev ch = Inr (acts, ch')" and a: "a \<in> set acts"
  shows "(\<exists>s. a = Close s \<and> is_open s ch \<and> entry s ch = None \<and> \<not> is_open s ch')
     \<or> (\<exists>s timestr b d t f rest. ev = Step s timestr \<and> a = Send d (make_packet t f)
         \<and> sm_find s (ch_threads ch) = Some (b, Reply d t f # rest))"
proof (cases ev)
  case (Main created)
  then have "main_step created ch = (acts, ch')" using step by (simp add: chat_step_def)
  then obtain s where s: "ch_main ch = Closing s" "a = Close s" "ch' = ch\<lparr>ch_main := Accepting\<rparr>"
    using a by (auto simp: main_step_def split: main.splits if_splits)
  then show ?thesis using seat_main [OF chat_okD(3) [OF ok], of s] by (simp add: is_open_def)
next
  case (Step s timestr)
  from ok step [unfolded Step] show ?thesis
  proof (cases rule: step_cases)
    case (returns b)
    then show ?thesis using a chat_okD(3) [OF ok, of s] by (simp add: is_open_def sm_find_erase seat_def)
  next
    case (goes_on b ts i sv' b' ts')
    have "\<exists>d t f rest. ts = Reply d t f # rest \<and> a = Send d (make_packet t f)"
    proof (cases ts)
      case Nil
      then show ?thesis using goes_on(4) a by (auto simp: thread_step_def split: option.splits sum.splits prod.splits)
    next
      case (Cons task rest)
      then show ?thesis using goes_on(3,4) a
        by (cases task) (auto simp: thread_step_def tasks_ok_def send_packet_def Let_def split: if_splits prod.splits)
    qed
    then show ?thesis using goes_on(1) Step by blast
  qed (use a in simp)
qed (use step a in \<open>auto simp: chat_step_def split: option.splits\<close>)

text \<open>C35: Whatever clients connect, send, in pieces of any size, and disconnect, and however the
  steps of the threads are interleaved, as long as the server does not die its table stays right:
  an entry belongs to an open socket, a thread's client has one until the thread has only its
  socket to close, identifiers have been given out and no two clients have the same one. The
  next step closes only a socket that is open and has no entry, and it is not open after that;
  and a thread sends only on its own socket, which is open, with the one exception of a forwarded
  message, which goes to the socket that was the recipient's when the thread searched for it.\<close>

theorem chat_table_is_consistent:
  assumes "chat_run host evs chat_new = Inr (tr, ch)" "possible_run host evs chat_new"
  shows "(\<forall>s i. entry s ch = Some i \<longrightarrow> is_open s ch \<and> 0 \<le> i \<and> i < sv_next_client_id (ch_server ch))
     \<and> (\<forall>s s' i. entry s ch = Some i \<and> entry s' ch = Some i \<and> 0 < i \<longrightarrow> s = s')
     \<and> (\<forall>s b ts. sm_find s (ch_threads ch) = Some (b, ts) \<longrightarrow> (entry s ch = None \<longleftrightarrow> ts = [Shut]))
     \<and> (\<forall>ev acts ch'. chat_step host ev ch = Inr (acts, ch') \<longrightarrow>
          (\<forall>s. Close s \<in> set acts \<longrightarrow> is_open s ch \<and> entry s ch = None \<and> \<not> is_open s ch')
          \<and> (\<forall>d p. Send d p \<in> set acts \<longrightarrow> (\<exists>s timestr. ev = Step s timestr \<and> is_open s ch
               \<and> (d = s \<or> (\<exists>f. p = make_packet SIGNAL f \<and> searched host evs s d f)))))"
proof (intro conjI allI impI)
  have ok: "chat_ok ch" by (rule chat_run_ok [OF chat_new_ok assms])
  note sv = server_okD [OF chat_okD(1) [OF ok]]
  note seat = chat_okD(3) [OF ok]
  show "is_open s ch" "0 \<le> i" "i < sv_next_client_id (ch_server ch)" if "entry s ch = Some i" for s i
    using sv(4) [OF that] seat [of s] that by (auto simp: is_open_def seat_def split: option.splits if_splits)
  show "s = s'" if "entry s ch = Some i \<and> entry s' ch = Some i \<and> 0 < i" for s s' i using sv(5) that by blast
  show "entry s ch = None \<longleftrightarrow> ts = [Shut]" if "sm_find s (ch_threads ch) = Some (b, ts)" for s b ts
    using seat [of s] that by (auto simp: seat_def split: if_splits)
  fix ev acts ch'
  assume step: "chat_step host ev ch = Inr (acts, ch')"
  show "is_open s ch" "entry s ch = None" "\<not> is_open s ch'" if "Close s \<in> set acts" for s
    using chat_step_actions [OF ok step that] by auto
  show "\<exists>s timestr. ev = Step s timestr \<and> is_open s ch \<and> (d = s \<or> (\<exists>f. p = make_packet SIGNAL f \<and> searched host evs s d f))"
    if "Send d p \<in> set acts" for d p
  proof -
    from chat_step_actions [OF ok step that]
    obtain s timestr b t f rest where s: "ev = Step s timestr" "p = make_packet t f"
      "sm_find s (ch_threads ch) = Some (b, Reply d t f # rest)"
      by auto
    then show ?thesis using foreign_replies_searched [OF assms s(3)] by (auto simp: is_open_def)
  qed
qed

text \<open>Two clients register, in three pieces, and a third one leaves.\<close>

abbreviation chat_example :: "chat_event list" where
  "chat_example \<equiv> [Accept 4, Main True, Main True, Accept 5, Main True, Recv 4 [1], Main True, Recv 4 [0, 0], Recv 5 [1, 0, 0],
     Step 4 [], Step 5 [], Step 5 [], Accept 6, Main True, Step 4 [], Main True, Recv 6 [7, 0, 0],
     Step 6 [], Step 6 [], Step 6 []]"

definition example_chat :: chat where
  "example_chat = \<lparr>ch_server = \<lparr>sv_clients = [(4, 1), (5, 2)], sv_next_client_id = 3\<rparr>,
     ch_threads = [(4, ([], [])), (5, ([], []))], ch_main = Accepting\<rparr>"

lemma chat_example_runs:
  "chat_run [] chat_example chat_new
     = Inr ([(Step 5 [], Send 5 [1, 0, 1, 50]), (Step 4 [], Send 4 [1, 0, 1, 49]), (Step 6 [], Close 6)], example_chat)"
  "possible_run [] chat_example chat_new"
  by code_simp+

theorem chat_table_is_consistent_witness:
  "{s. entry s example_chat = Some 1} = {4}"
proof -
  note unique = chat_table_is_consistent
    [OF chat_example_runs, THEN conjunct2, THEN conjunct1, rule_format]
  have mine: "entry 4 example_chat = Some 1" by (simp add: example_chat_def)
  show ?thesis
  proof (intro equalityI subsetI)
    fix s assume "s \<in> {s. entry s example_chat = Some 1}"
    then have "4 = s" by (intro unique [of 4 1 s]) (simp add: mine)
    then show "s \<in> {4}" by simp
  qed (simp add: mine)
qed

section \<open>Messages between clients\<close>

lemma split_dollar_dec: "split_dollar (to_dec n @ 36 # msg) = Some (to_dec n, msg)"
proof -
  have "\<forall>d \<in> set (to_dec n). d \<noteq> 36"
    using to_dec_digits [of n] by (auto simp: is_digit_def word_le_nat_alt)
  then have "takeWhile (\<lambda>b. b \<noteq> 36) (to_dec n @ 36 # msg) = to_dec n" by (simp add: takeWhile_append)
  then show ?thesis by (simp add: split_dollar_def)
qed

lemma sm_assign_same: "sm_ok m \<Longrightarrow> sm_find k m = Some v \<Longrightarrow> sm_assign k v m = m"
  by (rule sm.find_ext) (auto simp: sm.find_assign sm.assign_ok)

fun by_thread :: "int \<Rightarrow> chat_event \<Rightarrow> bool" where
  "by_thread s (Step x timestr) = (x = s)"
| "by_thread s _ = False"

text \<open>\<open>P\<close> holds of the table of clients before and after each step.\<close>

fun throughout :: "(server \<Rightarrow> bool) \<Rightarrow> byte list \<Rightarrow> chat_event list \<Rightarrow> chat \<Rightarrow> bool" where
  "throughout P host [] ch = P (ch_server ch)"
| "throughout P host (ev # evs) ch = (P (ch_server ch) \<and>
     (case chat_step host ev ch of Inl _ \<Rightarrow> True | Inr (_, ch) \<Rightarrow> throughout P host evs ch))"

text \<open>The steps of others leave a thread and its client's entry alone.\<close>

lemma others_keep:
  assumes ok: "chat_ok ch" and step: "chat_step host ev ch = Inr (acts, ch')"
    and thread: "sm_find s (ch_threads ch) = Some th" and other: "\<not> by_thread s ev" "\<And>chunk. ev \<noteq> Recv s chunk"
  shows "sm_find s (ch_threads ch') = Some th \<and> entry s ch' = entry s ch"
proof -
  note maps = chat_okD(2) [OF ok] server_okD(1) [OF chat_okD(1) [OF ok]]
  have main: "main_sock (ch_main ch) \<noteq> Some s"
    using chat_okD(3) [OF ok, of s] thread by (auto simp: seat_def)
  show ?thesis
  proof (cases ev)
    case (Step x timestr)
    then have x: "x \<noteq> s" using other(1) by simp
    from ok step [unfolded Step] show ?thesis
    proof (cases rule: step_cases)
      case (goes_on b ts i sv' b' ts')
      then show ?thesis using x thread maps by (simp add: sm.find_assign advances_def)
    qed (use x thread in \<open>simp_all add: sm_find_erase\<close>)
  next
    case (Recv x chunk)
    then have "x \<noteq> s" using other(2) by blast
    then show ?thesis
      using Recv step thread maps by (auto simp: chat_step_def sm.find_assign split: option.splits)
  next
    case (Main created)
    then show ?thesis
      using main step thread maps
      by (auto simp: chat_step_def main_step_def erase_client_def sm.find_assign sm_find_erase
          split: main.splits if_splits option.splits)
  qed (use step thread in \<open>auto simp: chat_step_def split: if_splits\<close>)
qed

text \<open>A thread that, as long as \<open>P\<close> holds of the table, goes through the states \<open>ths\<close> with the actions
  \<open>outs\<close> and leaves the table alone.\<close>

definition plays :: "byte list \<Rightarrow> int \<Rightarrow> int \<Rightarrow> (server \<Rightarrow> bool) \<Rightarrow> (nat \<Rightarrow> thread) \<Rightarrow> (nat \<Rightarrow> action list) \<Rightarrow> bool" where
  "plays host s i P ths outs \<longleftrightarrow>
     (\<forall>sv k timestr. server_ok sv \<and> sm_find s (sv_clients sv) = Some i \<and> P sv \<longrightarrow>
        thread_step timestr host s (ths k) sv = Inr (outs k, sv, Some (ths (Suc k))))"

lemma scripted_step:
  assumes "plays host s i P ths outs" "chat_ok ch" "P (ch_server ch)" "entry s ch = Some i"
    "sm_find s (ch_threads ch) = Some (ths k)"
  shows "chat_step host (Step s timestr) ch = Inr (outs k, ch\<lparr>ch_threads := sm_assign s (ths (Suc k)) (ch_threads ch)\<rparr>)"
proof -
  have "thread_step timestr host s (ths k) (ch_server ch) = Inr (outs k, ch_server ch, Some (ths (Suc k)))"
    using assms(1-4) chat_okD(1) unfolding plays_def by blast
  then show ?thesis by (simp add: chat_step_def assms(5))
qed

lemma scripted_run:
  assumes "plays host s i P ths outs" "chat_run host evs ch = Inr (tr, ch')" "possible_run host evs ch"
    "throughout P host evs ch" "\<And>chunk. Recv s chunk \<notin> set evs"
    "chat_ok ch" "entry s ch = Some i" "sm_find s (ch_threads ch) = Some (ths k)"
  shows "map snd (filter (\<lambda>p. by_thread s (fst p)) tr) = concat (map outs [k..<k + length (filter (by_thread s) evs)])"
  using assms(2-)
proof (induction evs arbitrary: ch tr k)
  case (Cons ev evs)
  obtain acts ch1 tr1 where s: "chat_step host ev ch = Inr (acts, ch1)" "chat_run host evs ch1 = Inr (tr1, ch')"
    "tr = map (Pair ev) acts @ tr1"
    using chat_run_Cons [OF Cons.prems(1)] by metis
  have next1: "possible ev ch" "possible_run host evs ch1" "throughout P host evs ch1" "P (ch_server ch)"
    using Cons.prems(2,3) s(1) by simp_all
  have no: "\<And>chunk. Recv s chunk \<notin> set evs" "\<And>chunk. ev \<noteq> Recv s chunk" using Cons.prems(4) by auto
  have ok: "chat_ok ch1" by (rule chat_step_ok [OF Cons.prems(5) next1(1) s(1)])
  note IH = Cons.IH [OF s(2) next1(2,3) no(1) ok]
  show ?case
  proof (cases "by_thread s ev")
    case True
    then obtain timestr where ev: "ev = Step s timestr" by (cases ev) auto
    have "acts = outs k" "ch1 = ch\<lparr>ch_threads := sm_assign s (ths (Suc k)) (ch_threads ch)\<rparr>"
      using scripted_step [OF assms(1) Cons.prems(5) next1(4) Cons.prems(6,7), of timestr] s(1) unfolding ev by simp_all
    then have "map snd (filter (\<lambda>p. by_thread s (fst p)) tr1)
        = concat (map outs [Suc k..<Suc k + length (filter (by_thread s) evs)])"
      using IH [of "Suc k"] Cons.prems(6) chat_okD(2) [OF Cons.prems(5)] by (simp add: sm.find_assign)
    moreover have "[k..<k + Suc n] = k # [Suc k..<Suc k + n]" for n by (simp add: upt_rec)
    ultimately show ?thesis using True \<open>acts = outs k\<close> by (simp add: s(3) ev filter_map o_def)
  next
    case False
    then have "sm_find s (ch_threads ch1) = Some (ths k)" "entry s ch1 = Some i"
      using others_keep [OF Cons.prems(5) s(1) Cons.prems(7) False no(2)] Cons.prems(6) by simp_all
    then show ?thesis using IH [of k] False by (simp add: s(3) filter_map o_def)
  qed
qed simp

text \<open>Without the steps of others.\<close>

lemma scripted_alone:
  assumes "plays host s i P ths outs" "chat_ok ch" "P (ch_server ch)" "entry s ch = Some i"
    "sm_find s (ch_threads ch) = Some (ths k)"
  shows "chat_run host (replicate n (Step s timestr)) ch
     = Inr (map (Pair (Step s timestr)) (concat (map outs [k..<k + n])),
         ch\<lparr>ch_threads := sm_assign s (ths (k + n)) (ch_threads ch)\<rparr>)"
  using assms(2-)
proof (induction n arbitrary: ch k)
  case 0
  then show ?case by (simp add: sm_assign_same [OF chat_okD(2)])
next
  case (Suc n)
  let ?ch = "ch\<lparr>ch_threads := sm_assign s (ths (Suc k)) (ch_threads ch)\<rparr>"
  note maps = chat_okD(2) [OF Suc.prems(1)]
  have step: "chat_step host (Step s timestr) ch = Inr (outs k, ?ch)"
    by (rule scripted_step [OF assms(1) Suc.prems])
  have "chat_ok ?ch" by (rule chat_step_ok [OF Suc.prems(1) _ step]) (simp add: possible_def)
  then have "chat_run host (replicate n (Step s timestr)) ?ch
     = Inr (map (Pair (Step s timestr)) (concat (map outs [Suc k..<Suc k + n])),
         ?ch\<lparr>ch_threads := sm_assign s (ths (Suc k + n)) (ch_threads ?ch)\<rparr>)"
    using Suc.prems(2,3) maps by (intro Suc.IH) (simp_all add: sm.find_assign)
  moreover have "sm_assign s v (sm_assign s u (ch_threads ch)) = sm_assign s v (ch_threads ch)" for u v
    by (rule sm.find_ext) (simp_all add: maps sm.assign_ok sm.find_assign)
  moreover have "[k..<k + Suc n] = k # [Suc k..<Suc k + n]" by (simp add: upt_rec)
  ultimately show ?case by (simp add: step)
qed

text \<open>The steps of a thread that has the packet of a message in its buffer.\<close>

definition script :: "'a list \<Rightarrow> 'a \<Rightarrow> nat \<Rightarrow> 'a" where
  "script xs x k = (if k < length xs then xs ! k else x)"

lemma script_simps [simp]:
  "script [] x k = x" "script (y # xs) x 0 = y" "script (y # xs) x (Suc k) = script xs x k"
  by (simp_all add: script_def)

definition forwarding :: "int \<Rightarrow> int \<Rightarrow> int \<Rightarrow> int \<Rightarrow> byte list \<Rightarrow> nat \<Rightarrow> thread" where
  "forwarding s i d t msg =
     (let replies = [Reply d SIGNAL (to_string_int i @ [36] @ msg), Reply s MESSAGE (ascii ''Message Sending Success'')]
      in script [(make_packet MESSAGE (to_string_int t @ [36] @ msg), []), ([], [Search i t msg]), ([], replies), ([], tl replies)]
           ([], []))"

definition refusing :: "int \<Rightarrow> int \<Rightarrow> int \<Rightarrow> byte list \<Rightarrow> nat \<Rightarrow> thread" where
  "refusing s i t msg =
     script [(make_packet MESSAGE (to_string_int t @ [36] @ msg), []), ([], [Search i t msg]),
       ([], [Reply s INVALID (ascii ''Target not found'')])] ([], [])"

definition forwarded :: "int \<Rightarrow> int \<Rightarrow> int \<Rightarrow> byte list \<Rightarrow> action list" where
  "forwarded s i d msg = [Send d (make_packet SIGNAL (to_string_int i @ [36] @ msg)),
     Send s (make_packet MESSAGE (ascii ''Message Sending Success''))]"

definition refused :: "int \<Rightarrow> action list" where
  "refused s = [Send s (make_packet INVALID (ascii ''Target not found''))]"

lemma idle_step: "thread_step timestr host s ([], []) sv = Inr ([], sv, Some ([], []))"
  by (simp add: thread_step_def take_packet_def)

lemma message_step:
  assumes find: "sm_find s (sv_clients sv) = Some i" and to: "0 < t" "t \<le> INT_MAX"
    and len: "length (to_string_int t @ [36] @ msg) < 2 ^ 16"
  shows "thread_step timestr host s (make_packet MESSAGE (to_string_int t @ [36] @ msg), []) sv
    = Inr ([], sv, Some ([], [Search i t msg]))"
proof -
  have dec: "to_string_int t = to_dec (nat t)" using to(1) by (simp add: to_string_int_def)
  have "split_dollar (to_string_int t @ [36] @ msg) = Some (to_dec (nat t), msg)"
    unfolding dec using split_dollar_dec by simp
  moreover have "stoi (to_dec (nat t)) = Inr t" using stoi_to_dec [of "nat t" "[]"] to by simp
  ultimately have "handle timestr host s MESSAGE (to_string_int t @ [36] @ msg) sv = Inr ([Search i t msg], sv)"
    by (simp add: handle_def type_defs handle_message_def client_id_eq [OF find])
  moreover have "take_packet (make_packet MESSAGE (to_string_int t @ [36] @ msg)) = Some (MESSAGE, to_string_int t @ [36] @ msg, [])"
    using take_packet_make [OF len, of MESSAGE "[]"] by simp
  ultimately show ?thesis by (simp add: thread_step_def)
qed

lemma forwarding_scripted:
  assumes to: "0 < t" "t \<le> INT_MAX" and len: "length (to_string_int t @ [36] @ msg) < 2 ^ 16"
  shows "plays host s i (\<lambda>sv. sm_find d (sv_clients sv) = Some t) (forwarding s i d t msg)
    (script ([[], []] @ map (\<lambda>a. [a]) (forwarded s i d msg)) [])"
  unfolding plays_def
proof (intro allI impI)
  fix sv :: server and k and timestr
  assume *: "server_ok sv \<and> sm_find s (sv_clients sv) = Some i \<and> sm_find d (sv_clients sv) = Some t"
  then have d: "find_socket t sv = d" "0 \<le> d" "0 \<le> s"
    using find_socket_of [of sv d t] server_okD(4) [of sv s i] to by simp_all
  have m: "thread_step timestr host s (make_packet MESSAGE (to_string_int t @ [36] @ msg), []) sv
    = Inr ([], sv, Some ([], [Search i t msg]))"
    by (rule message_step [OF _ to len]) (use * in simp)
  consider "k = 0" | "k = 1" | "k = 2" | "k = 3" | j where "k = Suc (Suc (Suc (Suc j)))"
    by (metis One_nat_def Suc_1 numeral_3_eq_3 not0_implies_Suc)
  then show "thread_step timestr host s (forwarding s i d t msg k) sv
    = Inr (script ([[], []] @ map (\<lambda>a. [a]) (forwarded s i d msg)) [] k, sv, Some (forwarding s i d t msg (Suc k)))"
  proof cases
    case 1
    then show ?thesis using m by (simp add: forwarding_def Let_def)
  next
    case 2
    then show ?thesis using d by (simp add: forwarding_def Let_def thread_step_def)
  next
    case 3
    then show ?thesis
      using d by (simp add: forwarding_def Let_def thread_step_def numeral_2_eq_2 forwarded_def send_packet_def)
  next
    case 4
    then show ?thesis
      using d by (simp add: forwarding_def Let_def thread_step_def numeral_3_eq_3 forwarded_def send_packet_def)
  next
    case 5
    then show ?thesis by (simp add: forwarding_def Let_def idle_step forwarded_def)
  qed
qed

lemma refusing_scripted:
  assumes to: "0 < t" "t \<le> INT_MAX" and len: "length (to_string_int t @ [36] @ msg) < 2 ^ 16"
  shows "plays host s i (\<lambda>sv. \<forall>d. sm_find d (sv_clients sv) \<noteq> Some t) (refusing s i t msg)
    (script ([[], []] @ map (\<lambda>a. [a]) (refused s)) [])"
  unfolding plays_def
proof (intro allI impI)
  fix sv :: server and k and timestr
  assume *: "server_ok sv \<and> sm_find s (sv_clients sv) = Some i \<and> (\<forall>d. sm_find d (sv_clients sv) \<noteq> Some t)"
  then have d: "find_socket t sv < 0" "0 \<le> s"
    using find_socket_found [of sv t] server_okD(4) [of sv s i] by blast+
  have m: "thread_step timestr host s (make_packet MESSAGE (to_string_int t @ [36] @ msg), []) sv
    = Inr ([], sv, Some ([], [Search i t msg]))"
    by (rule message_step [OF _ to len]) (use * in simp)
  consider "k = 0" | "k = 1" | "k = 2" | j where "k = Suc (Suc (Suc j))"
    by (metis One_nat_def Suc_1 not0_implies_Suc)
  then show "thread_step timestr host s (refusing s i t msg k) sv
    = Inr (script ([[], []] @ map (\<lambda>a. [a]) (refused s)) [] k, sv, Some (refusing s i t msg (Suc k)))"
  proof cases
    case 1
    then show ?thesis using m by (simp add: refusing_def)
  next
    case 2
    then show ?thesis using d by (simp add: refusing_def thread_step_def)
  next
    case 3
    then show ?thesis using d by (simp add: refusing_def thread_step_def numeral_2_eq_2 refused_def send_packet_def)
  next
    case 4
    then show ?thesis by (simp add: refusing_def idle_step refused_def)
  qed
qed

text \<open>A run that begins with the arrival of the packet at an idle thread, for a script of at most
  four steps.\<close>

lemma scripted_arrival:
  assumes "plays host s i P ths outs" "chat_ok ch" "entry s ch = Some i" "sm_find s (ch_threads ch) = Some ([], [])"
    and first: "ths 0 = (packet, [])" "packet \<noteq> []" and rest: "\<And>k. 4 \<le> k \<Longrightarrow> ths k = ([], []) \<and> outs k = []"
    and acts: "concat (map outs [0..<4]) = acts"
  shows "P (ch_server ch) \<Longrightarrow> chat_run host (Recv s packet # replicate 4 (Step s timestr)) ch
      = Inr (map (Pair (Step s timestr)) acts, ch)"
    "chat_run host (Recv s packet # evs) ch = Inr (tr, ch') \<Longrightarrow> possible_run host (Recv s packet # evs) ch \<Longrightarrow>
      throughout P host (Recv s packet # evs) ch \<Longrightarrow> (\<And>chunk. Recv s chunk \<notin> set evs) \<Longrightarrow>
      4 \<le> length (filter (by_thread s) evs) \<Longrightarrow> map snd (filter (\<lambda>p. by_thread s (fst p)) tr) = acts"
proof -
  let ?ch = "ch\<lparr>ch_threads := sm_assign s (packet, []) (ch_threads ch)\<rparr>"
  note maps = chat_okD(2) [OF assms(2)]
  have step: "chat_step host (Recv s packet) ch = Inr ([], ?ch)"
    using first(2) by (simp add: chat_step_def assms(4) received_def take_packet_def)
  have ok: "chat_ok ?ch" by (rule chat_step_ok [OF assms(2) _ step]) (simp add: possible_def)
  have here: "entry s ?ch = Some i" "sm_find s (ch_threads ?ch) = Some (ths 0)"
    using assms(3) first(1) maps by (simp_all add: sm.find_assign)
  have restored: "sm_assign s ([], []) (sm_assign s (packet, []) (ch_threads ch)) = ch_threads ch"
    by (rule sm.find_ext) (auto simp add: maps sm.assign_ok sm.find_assign assms(4))
  show "chat_run host (Recv s packet # replicate 4 (Step s timestr)) ch = Inr (map (Pair (Step s timestr)) acts, ch)"
    if "P (ch_server ch)"
  proof -
    have "chat_run host (replicate 4 (Step s timestr)) ?ch
      = Inr (map (Pair (Step s timestr)) (concat (map outs [0..<0 + 4])),
          ?ch\<lparr>ch_threads := sm_assign s (ths (0 + 4)) (ch_threads ?ch)\<rparr>)"
      by (rule scripted_alone [OF assms(1) ok _ here]) (use that in simp)
    moreover have "ths (0 + 4) = ([], [])" using rest by simp
    ultimately have "chat_run host (replicate 4 (Step s timestr)) ?ch = Inr (map (Pair (Step s timestr)) acts, ch)"
      using acts restored by simp
    then show ?thesis by (simp only: chat_run.simps step sum.case prod.case list.map append_Nil)
  qed
  show "map snd (filter (\<lambda>p. by_thread s (fst p)) tr) = acts"
    if run: "chat_run host (Recv s packet # evs) ch = Inr (tr, ch')" "possible_run host (Recv s packet # evs) ch"
      "throughout P host (Recv s packet # evs) ch" "\<And>chunk. Recv s chunk \<notin> set evs"
      "4 \<le> length (filter (by_thread s) evs)"
  proof -
    define n where "n = length (filter (by_thread s) evs)"
    obtain tr1 where tr: "chat_run host evs ?ch = Inr (tr1, ch')" "tr = tr1"
      using chat_run_Cons [OF run(1)] step by auto
    have "map snd (filter (\<lambda>p. by_thread s (fst p)) tr1) = concat (map outs [0..<0 + n])"
      unfolding n_def by (rule scripted_run [OF assms(1) tr(1) _ _ run(4) ok here]) (use run(2,3) step in simp_all)
    moreover have "[0..<0 + n] = [0..<4] @ [4..<n]" using run(5) unfolding n_def by (metis add_0 upt_add_eq_append le_Suc_ex zero_le)
    moreover have "concat (map outs [4..<n]) = []" using rest by (simp add: concat_eq_Nil_conv)
    ultimately show ?thesis using acts tr(2) by simp
  qed
qed

text \<open>C36: A message reaches exactly the client it is addressed to. A registered client sends
  \<open>id$text\<close> when its thread is idle. When nobody else steps in between, four steps of its
  thread deal with it: if a client with this identifier is registered, that client gets the
  sender's identifier and the text, whatever bytes it contains, and the sender a
  confirmation; when there is none with it, the sender is told so; nothing else is sent and the
  table and the threads stay as they are. When other threads, other clients and the main thread do whatever
  they like in between, the sender's thread sends the same, provided that the recipient stays registered
  all the time, or that nobody is with the identifier at any time.\<close>

theorem chat_message_delivered:
  assumes run: "chat_run host evs chat_new = Inr (tr, ch)" "possible_run host evs chat_new"
    and sender: "entry s ch = Some i" "sm_find s (ch_threads ch) = Some ([], [])"
    and to: "0 < t" "t \<le> INT_MAX" and len: "length (to_string_int t @ [36] @ msg) < 2 ^ 16"
    and packet: "packet = make_packet MESSAGE (to_string_int t @ [36] @ msg)"
  shows "(\<forall>d. entry d ch = Some t \<longrightarrow>
       chat_run host (Recv s packet # replicate 4 (Step s timestr)) ch = Inr
         ([(Step s timestr, Send d (make_packet SIGNAL (to_string_int i @ [36] @ msg))),
           (Step s timestr, Send s (make_packet MESSAGE (ascii ''Message Sending Success'')))], ch))
     \<and> ((\<forall>d. entry d ch \<noteq> Some t) \<longrightarrow>
       chat_run host (Recv s packet # replicate 4 (Step s timestr)) ch = Inr
         ([(Step s timestr, Send s (make_packet INVALID (ascii ''Target not found'')))], ch))
     \<and> (\<forall>evs' tr' ch'. chat_run host (Recv s packet # evs') ch = Inr (tr', ch')
           \<and> possible_run host (Recv s packet # evs') ch
           \<and> (\<forall>chunk. Recv s chunk \<notin> set evs') \<and> 4 \<le> length (filter (by_thread s) evs') \<longrightarrow>
         (\<forall>d. throughout (\<lambda>sv. sm_find d (sv_clients sv) = Some t) host (Recv s packet # evs') ch \<longrightarrow>
            map snd (filter (\<lambda>p. by_thread s (fst p)) tr')
              = [Send d (make_packet SIGNAL (to_string_int i @ [36] @ msg)),
                 Send s (make_packet MESSAGE (ascii ''Message Sending Success''))])
         \<and> (throughout (\<lambda>sv. \<forall>d. sm_find d (sv_clients sv) \<noteq> Some t) host (Recv s packet # evs') ch \<longrightarrow>
            map snd (filter (\<lambda>p. by_thread s (fst p)) tr')
              = [Send s (make_packet INVALID (ascii ''Target not found''))]))"
proof -
  have ok: "chat_ok ch" by (rule chat_run_ok [OF chat_new_ok run])
  have ne: "packet \<noteq> []" by (simp add: packet make_packet_def Let_def)
  have four: "[0..<4] = [0, 1, 2, 3 :: nat]" by (simp add: upt_rec numeral_eq_Suc)
  have hit: "plays host s i (\<lambda>sv. sm_find d (sv_clients sv) = Some t) (forwarding s i d t msg)
      (script ([[], []] @ map (\<lambda>a. [a]) (forwarded s i d msg)) [])"
    "forwarding s i d t msg 0 = (packet, [])"
    "\<And>k. 4 \<le> k \<Longrightarrow> forwarding s i d t msg k = ([], []) \<and> script ([[], []] @ map (\<lambda>a. [a]) (forwarded s i d msg)) [] k = []"
    "concat (map (script ([[], []] @ map (\<lambda>a. [a]) (forwarded s i d msg)) []) [0..<4]) = forwarded s i d msg" for d
    using forwarding_scripted [OF to len]
    by (simp_all add: forwarding_def Let_def script_def packet forwarded_def four)
  have miss: "plays host s i (\<lambda>sv. \<forall>d. sm_find d (sv_clients sv) \<noteq> Some t) (refusing s i t msg)
      (script ([[], []] @ map (\<lambda>a. [a]) (refused s)) [])"
    "refusing s i t msg 0 = (packet, [])"
    "\<And>k. 4 \<le> k \<Longrightarrow> refusing s i t msg k = ([], []) \<and> script ([[], []] @ map (\<lambda>a. [a]) (refused s)) [] k = []"
    "concat (map (script ([[], []] @ map (\<lambda>a. [a]) (refused s)) []) [0..<4]) = refused s"
    using refusing_scripted [OF to len]
    by (simp_all add: refusing_def script_def packet refused_def four)
  note hits = scripted_arrival [OF hit(1) ok sender hit(2) ne hit(3,4)]
  note misses = scripted_arrival [OF miss(1) ok sender miss(2) ne miss(3,4)]
  show ?thesis
  proof (intro conjI allI impI)
    fix d assume "entry d ch = Some t"
    then show "chat_run host (Recv s packet # replicate 4 (Step s timestr)) ch = Inr
         ([(Step s timestr, Send d (make_packet SIGNAL (to_string_int i @ [36] @ msg))),
           (Step s timestr, Send s (make_packet MESSAGE (ascii ''Message Sending Success'')))], ch)"
      using hits(1) [of d timestr] unfolding forwarded_def list.map by blast
  next
    assume "\<forall>d. entry d ch \<noteq> Some t"
    then show "chat_run host (Recv s packet # replicate 4 (Step s timestr)) ch = Inr
         ([(Step s timestr, Send s (make_packet INVALID (ascii ''Target not found'')))], ch)"
      using misses(1) [of timestr] unfolding refused_def list.map by blast
  qed (use hits(2) misses(2) in \<open>unfold forwarded_def refused_def, blast+\<close>)
qed

lemma example_message_runs:
  "chat_run [] [Recv 5 (make_packet MESSAGE (ascii ''1$h'')), Step 5 [], Accept 7, Step 5 [], Main True, Step 5 [], Main True, Step 5 []]
     example_chat
   = Inr ([(Step 5 [], Send 4 (make_packet SIGNAL (ascii ''2$h''))),
           (Step 5 [], Send 5 (make_packet MESSAGE (ascii ''Message Sending Success'')))],
       example_chat\<lparr>ch_server := \<lparr>sv_clients = [(4, 1), (5, 2), (7, 0)], sv_next_client_id = 3\<rparr>,
         ch_threads := [(4, ([], [])), (5, ([], [])), (7, ([], []))]\<rparr>)"
  by code_simp

theorem chat_message_delivered_witness:
  "chat_run [] (Recv 5 (make_packet MESSAGE (to_string_int 1 @ [36] @ [104])) # replicate 4 (Step 5 [])) example_chat
     = Inr ([(Step 5 [], Send 4 (make_packet SIGNAL (to_string_int 2 @ [36] @ [104]))),
             (Step 5 [], Send 5 (make_packet MESSAGE (ascii ''Message Sending Success'')))], example_chat)"
proof -
  have "entry 5 example_chat = Some 2" "sm_find 5 (ch_threads example_chat) = Some ([], [])"
    by (simp_all add: example_chat_def)
  moreover have "length (to_string_int 1 @ [36] @ [104 :: byte]) < 2 ^ 16"
    "entry 4 example_chat = Some 1" "(0 :: int) < 1" "(1 :: int) \<le> INT_MAX"
    by (simp_all add: to_string_int_def to_dec.simps [of "Suc 0"] example_chat_def INT_MAX_def)
  ultimately show ?thesis
    using chat_message_delivered [OF chat_example_runs, of 5 2 1 "[104]" _ "[]"] by blast
qed

text \<open>The provision is needed. The recipient with the identifier 1 leaves after the search, and the system
  gives its socket number to a new connection before the send: the message goes to a stranger.\<close>

lemma chat_race:
  "\<exists>ch. chat_run [] [Recv 5 (make_packet MESSAGE (ascii ''1$h'')), Step 5 [], Step 5 [],
       Recv 4 [], Step 4 [], Step 4 [], Accept 4, Main True, Main True, Step 5 []] example_chat
     = Inr ([(Step 4 [], Close 4), (Step 5 [], Send 4 (make_packet SIGNAL (ascii ''2$h'')))], ch)
   \<and> entry 4 ch = Some 0"
  "possible_run [] [Recv 5 (make_packet MESSAGE (ascii ''1$h'')), Step 5 [], Step 5 [],
       Recv 4 [], Step 4 [], Step 4 [], Accept 4, Main True, Main True, Step 5 []] example_chat"
proof -
  show "\<exists>ch. chat_run [] [Recv 5 (make_packet MESSAGE (ascii ''1$h'')), Step 5 [], Step 5 [],
       Recv 4 [], Step 4 [], Step 4 [], Accept 4, Main True, Main True, Step 5 []] example_chat
     = Inr ([(Step 4 [], Close 4), (Step 5 [], Send 4 (make_packet SIGNAL (ascii ''2$h'')))], ch)
   \<and> entry 4 ch = Some 0"
    by (rule exI [of _ "example_chat\<lparr>ch_server := \<lparr>sv_clients = [(4, 0), (5, 2)], sv_next_client_id = 3\<rparr>,
         ch_threads := [(4, ([], [])), (5, ([], [Reply 5 MESSAGE (ascii ''Message Sending Success'')]))]\<rparr>"]) code_simp
qed code_simp

text \<open>A message whose recipient is not a number ends the whole server: \<open>std::stoi\<close> throws in
  a thread that does not catch it.\<close>

lemma chat_bad_recipient:
  assumes "connected s sv" "split_dollar payload = Some (recipient, content)" "stoi recipient = Inl e"
  shows "handle timestr host s MESSAGE payload sv = Inl e"
proof -
  obtain i where "sm_find s (sv_clients sv) = Some i" using assms(1) by blast
  then show ?thesis using assms(2,3) by (simp add: handle_def type_defs handle_message_def client_id_eq)
qed

lemma chat_bad_recipient_example: "stoi (ascii ''bob'') = Inl (Thrown ''invalid_argument'')"
  by code_simp

text \<open>A client that has not registered has the identifier 0 and can be addressed by it.\<close>

lemma chat_unregistered_recipient:
  "find_socket 0 \<lparr>sv_clients = [(4, 1), (5, 0)], sv_next_client_id = 2\<rparr> = 5"
  "thread_step [] [] 4 ([], [Search 1 0 (ascii ''x'')]) \<lparr>sv_clients = [(4, 1), (5, 0)], sv_next_client_id = 2\<rparr>
     = Inr ([], \<lparr>sv_clients = [(4, 1), (5, 0)], sv_next_client_id = 2\<rparr>,
         Some ([], [Reply 5 SIGNAL (ascii ''1$x''), Reply 4 MESSAGE (ascii ''Message Sending Success'')]))"
  by code_simp+

end
