(* ===== verification/ChatClient.thy ===== *)
theory ChatClient
  imports ChatServer
begin

text \<open>
  \<open>src/lab6/code/client\<close>: the chat client, a command loop and a thread that receives and
  prints. What it prints, transmits and closes is a list of effects; what the user types and
  what the system calls return are arguments.
\<close>

section \<open>State and effects\<close>

record client =
  cl_connected :: bool
  cl_base_sock :: int
  cl_time_recv_cnt :: int

definition client_new :: client where
  "client_new = \<lparr>cl_connected = False, cl_base_sock = - 1, cl_time_recv_cnt = 0\<rparr>"

datatype effect = Print "byte list" | Transmit int "byte list" | Shut int | StartReceiver int

text \<open>\<open>std::cout << text << std::endl\<close>\<close>

definition put_line :: "byte list \<Rightarrow> effect" where
  "put_line s = Print (s @ [10])"

definition say :: "string \<Rightarrow> effect" where
  "say s = put_line (ascii s)"

definition print_prompt :: effect where
  "print_prompt = Print (10 # ascii ''[CLI] Your command: '')"

text \<open>The client's \<open>SendPacket\<close>: \<open>whole\<close> says whether \<open>send\<close> takes the whole packet. The
  result is what it transmits and what it returns.\<close>

definition cl_send_packet :: "bool \<Rightarrow> byte \<Rightarrow> byte list \<Rightarrow> client \<Rightarrow> effect list \<times> bool" where
  "cl_send_packet whole type payload c =
     (if \<not> cl_connected c \<or> cl_base_sock c < 0 then ([], False)
      else ([Transmit (cl_base_sock c) (make_packet type payload)], whole))"

section \<open>Receiving\<close>

text \<open>What is printed for one packet; the counter of TIME responses is an \<open>int\<close>.\<close>

definition cl_show :: "byte \<Rightarrow> byte list \<Rightarrow> client \<Rightarrow> failure + effect list \<times> client" where
  "cl_show type payload c =
     (if type = CONNECT then
        Inr ([put_line (10 # ascii ''[CONNECT]''), put_line (ascii ''[SYS] Your Client ID is '' @ payload)], c)
      else if type = TIME then
        (if cl_time_recv_cnt c = INT_MAX then Inl UndefinedBehaviour
         else
           let c = c\<lparr>cl_time_recv_cnt := cl_time_recv_cnt c + 1\<rparr>
           in Inr ([put_line (10 # ascii ''[TIME]''),
                put_line (ascii ''[SYS] Current Time is: '' @ payload @ ascii '', '' @
                  to_string_int (cl_time_recv_cnt c) @ ascii '' responses received.'')], c))
      else if type = NAME then
        Inr ([put_line (10 # ascii ''[NAME]''), put_line (ascii ''[SYS] Server Hostname is: '' @ payload)], c)
      else if type = LIST then
        Inr ([put_line (10 # ascii ''[LIST]''), put_line (ascii ''[SYS] Client List: '' @ payload)], c)
      else if type = MESSAGE then
        Inr ([put_line (10 # ascii ''[MESSAGE]''), put_line (ascii ''[SYS] Server Reply: '' @ payload)], c)
      else if type = SIGNAL then
        Inr (put_line (10 # ascii ''[RECEIVE MESSAGE]'') #
          (case split_dollar payload of
             Some (src, msg) \<Rightarrow>
               [Print (ascii ''[SYS] Client '' @ src @ ascii '' Just Sent A Message to you:'' @ [10]), put_line msg]
           | None \<Rightarrow> [put_line (ascii ''[SYS] Received signal: '' @ payload)]), c)
      else Inr ([put_line (10 # ascii ''[INVALID] '' @ payload)], c))"

text \<open>The packets in the receive buffer, each followed by a prompt.\<close>

function cl_process :: "byte list \<Rightarrow> client \<Rightarrow> failure + effect list \<times> client \<times> byte list" where
  "cl_process recv_buffer c =
     (case take_packet recv_buffer of
        None \<Rightarrow> Inr ([], c, recv_buffer)
      | Some (type, payload, recv_buffer') \<Rightarrow>
          (case cl_show type payload c of
             Inl e \<Rightarrow> Inl e
           | Inr (out, c) \<Rightarrow>
               (case cl_process recv_buffer' c of
                  Inl e \<Rightarrow> Inl e
                | Inr (out', c, b) \<Rightarrow> Inr (out @ [print_prompt] @ out', c, b))))"
  by pat_completeness auto
termination by (relation "measure (\<lambda>(b, _). length b)") (auto dest: take_packet_shorter)

declare cl_process.simps [simp del]

text \<open>\<open>recv\<close> returns in the receiving thread; no bytes stand for an error or the end. \<open>None\<close>
  means that the thread has returned.\<close>

definition cl_received ::
    "byte list \<Rightarrow> byte list \<Rightarrow> client \<Rightarrow> failure + effect list \<times> client \<times> byte list option" where
  "cl_received chunk recv_buffer c =
     (if \<not> cl_connected c then Inr ([], c, None)
      else if chunk = [] then
        Inr (say ''[SYS] Server disconnected or error.'' #
              (if 0 \<le> cl_base_sock c then [Shut (cl_base_sock c)] else []),
             c\<lparr>cl_connected := False, cl_base_sock := - 1\<rparr>, None)
      else case cl_process (recv_buffer @ chunk) c of
             Inl e \<Rightarrow> Inl e
           | Inr (out, c, b) \<Rightarrow> Inr (out, c, Some b))"

section \<open>Commands\<close>

text \<open>What \<open>socket\<close>, \<open>inet_pton\<close>, \<open>connect\<close> and \<open>pthread_create\<close> return to \<open>ServerConnect\<close>.\<close>

record connecting =
  co_sock :: int
  co_valid_address :: bool
  co_connects :: bool
  co_thread :: bool

definition server_connect :: "connecting \<Rightarrow> bool \<Rightarrow> client \<Rightarrow> effect list \<times> client" where
  "server_connect co whole c =
     (if cl_connected c then ([say ''[SYS] Already connected.''], c)
      else
        let out = [say ''[SYS] Please enter the IP address and port you want to connect to.'',
                   Print (ascii ''[CLI] IP address: ''), Print (ascii ''[CLI] Port number: ''),
                   say ''[SYS] Connecting ...'']
        in if co_sock co < 0 then (out, c)
           else if \<not> co_valid_address co then (out @ [Shut (co_sock co)], c)
           else if \<not> co_connects co then (out @ [Shut (co_sock co)], c)
           else
             let c = c\<lparr>cl_base_sock := co_sock co, cl_connected := True\<rparr>
             in (out @ [say ''[SYS] Connection Success!''] @ fst (cl_send_packet whole CONNECT [] c)
                   @ (if co_thread co then [StartReceiver (co_sock co)] else []), c))"

definition server_disconnect :: "bool \<Rightarrow> client \<Rightarrow> effect list \<times> client" where
  "server_disconnect whole c =
     (if \<not> cl_connected c then ([], c)
      else
        let out = fst (cl_send_packet whole DISCONNECT [] c);
            c = c\<lparr>cl_connected := False\<rparr>;
            out = out @ [Shut (cl_base_sock c)];
            c = c\<lparr>cl_base_sock := - 1\<rparr>
        in (out @ [say ''[SYS] Disconnection Success''], c))"

text \<open>A request without arguments and what is printed when it was sent.\<close>

definition request :: "string \<Rightarrow> bool \<Rightarrow> byte \<Rightarrow> byte list \<Rightarrow> client \<Rightarrow> effect list" where
  "request note whole type payload c =
     (case cl_send_packet whole type payload c of (out, sent) \<Rightarrow> out @ (if sent then [say note] else []))"

definition get_time :: "(nat \<Rightarrow> bool) \<Rightarrow> client \<Rightarrow> effect list" where
  "get_time whole c =
     (if \<not> cl_connected c then [say ''[SYS] Not connected.'']
      else concat (map (\<lambda>i. request ''[SYS] Request Sending Success'' (whole i) TIME [] c) [0..<100]))"

definition get_name :: "bool \<Rightarrow> client \<Rightarrow> effect list" where
  "get_name whole c =
     (if \<not> cl_connected c then [say ''[SYS] Not connected.'']
      else request ''[SYS] Request Sending Success'' whole NAME [] c)"

definition client_list :: "bool \<Rightarrow> client \<Rightarrow> effect list" where
  "client_list whole c =
     (if \<not> cl_connected c then [say ''[SYS] Not connected.'']
      else request ''[SYS] Request Sending Success'' whole LIST [] c)"

definition send_messa :: "bool \<Rightarrow> byte list \<Rightarrow> byte list \<Rightarrow> client \<Rightarrow> effect list" where
  "send_messa whole recipient msg c =
     (if \<not> cl_connected c then [say ''[SYS] Not connected.'']
      else [say ''[SYS] Please Enter Other Clients' ID and the Message (only one line)'',
            Print (ascii ''[CLI] Client ID: ''), Print (ascii ''[CLI] Message: '')]
           @ request ''[SYS] Message Sending Success.'' whole MESSAGE (recipient @ [36] @ msg) c)"

definition exit_comm :: "bool \<Rightarrow> client \<Rightarrow> effect list \<times> client" where
  "exit_comm whole c =
     (let (out, c) = (if cl_connected c then server_disconnect whole c else ([], c))
      in (out @ [say ''[SYS] Bye~''], c))"

definition show_help :: "bool \<Rightarrow> client \<Rightarrow> effect list" where
  "show_help wrong c =
     (if wrong then [put_line (10 # ascii ''[SYS] Sorry, your input service is illegal. Please choose one from following services:'')]
      else [])
     @ [put_line (10 # ascii ''[HELP]''), put_line (ascii ''connect'' @ 9 # ascii '' Try to connect to the server.'')]
     @ (if cl_connected c then
          [put_line (ascii ''disconnect'' @ 9 # ascii '' Disconnect from the server.''),
           put_line (ascii ''time'' @ 9 # ascii '' Get current time.''),
           put_line (ascii ''name'' @ 9 # ascii '' Get name of machine.''),
           put_line (ascii ''list'' @ 9 # ascii '' Get list of all clients.''),
           put_line (ascii ''message'' @ 9 # ascii '' Send message to other clients.'')]
        else [])
     @ [put_line (ascii ''exit'' @ 9 # ascii '' Exit from this communication.''),
        put_line (ascii ''help'' @ 9 # ascii '' Show all services for you.'')]"

text \<open>One round of the command loop after the prompt: the word typed, with what the user types
  and the system returns while it is carried out. The result says whether the loop goes on.\<close>

record typed =
  ty_command :: "byte list"
  ty_connecting :: connecting
  ty_whole :: "nat \<Rightarrow> bool"
  ty_recipient :: "byte list"
  ty_message :: "byte list"

definition command :: "typed \<Rightarrow> client \<Rightarrow> effect list \<times> client \<times> bool" where
  "command ty c =
     (if ty_command ty = ascii ''help'' then (show_help False c, c, True)
      else if ty_command ty = ascii ''connect'' then
        (case server_connect (ty_connecting ty) (ty_whole ty 0) c of (out, c) \<Rightarrow> (out, c, True))
      else if ty_command ty = ascii ''exit'' then
        (case exit_comm (ty_whole ty 0) c of (out, c) \<Rightarrow> (out, c, False))
      else if \<not> cl_connected c then (show_help True c, c, True)
      else if ty_command ty = ascii ''disconnect'' then
        (case server_disconnect (ty_whole ty 0) c of (out, c) \<Rightarrow> (out, c, True))
      else if ty_command ty = ascii ''time'' then (get_time (ty_whole ty) c, c, True)
      else if ty_command ty = ascii ''name'' then (get_name (ty_whole ty 0) c, c, True)
      else if ty_command ty = ascii ''list'' then (client_list (ty_whole ty 0) c, c, True)
      else if ty_command ty = ascii ''message'' then
        (send_messa (ty_whole ty 0) (ty_recipient ty) (ty_message ty) c, c, True)
      else (show_help True c, c, True))"

text \<open>The loop, for the words typed one after another; the end of the input ends it.\<close>

fun command_loop :: "typed list \<Rightarrow> client \<Rightarrow> effect list \<times> client" where
  "command_loop [] c = ([print_prompt], c)"
| "command_loop (ty # tys) c =
     (case command ty c of (out, c, go) \<Rightarrow>
        if go then (case command_loop tys c of (out', c) \<Rightarrow> (print_prompt # out @ out', c))
        else (print_prompt # out, c))"

definition initialize :: "typed list \<Rightarrow> effect list \<times> client" where
  "initialize tys =
     (case command_loop tys client_new of (out, c) \<Rightarrow>
        ([Print (ascii ''[SYS] Client Initialization Now'' @ [10, 10]),
          say ''[SYS] Nice to meet you, dear client! (^_~)'',
          say ''[SYS] Welcome to use my communication service.'',
          say ''[SYS] Please choose one from the following services:'']
         @ show_help False client_new @ out, c))"

section \<open>Every packet is shown\<close>

lemma cl_process_append:
  "cl_process (b @ d) c = (case cl_process b c of
      Inl e \<Rightarrow> Inl e
    | Inr (out, c, r) \<Rightarrow>
        (case cl_process (r @ d) c of Inl e \<Rightarrow> Inl e | Inr (out', c, r') \<Rightarrow> Inr (out @ out', c, r')))"
proof (induction b c rule: cl_process.induct)
  case (1 b c)
  show ?case
  proof (cases "take_packet b")
    case None
    then have "cl_process b c = Inr ([], c, b)" by (simp add: cl_process.simps [of b])
    then show ?thesis by (simp split: sum.split)
  next
    case (Some p)
    obtain t payload b' where p: "p = (t, payload, b')" by (cases p)
    have "take_packet (b @ d) = Some (t, payload, b' @ d)" using take_packet_append Some by (simp add: p)
    then show ?thesis
      using "1.IH" [OF Some [unfolded p] refl refl] Some p
      by (cases "cl_show t payload c")
        (auto simp: cl_process.simps [of b] cl_process.simps [of "b @ d"] split: sum.splits)
  qed
qed

text \<open>The packets one after the other, each followed by a prompt.\<close>

fun show_all :: "(byte \<times> byte list) list \<Rightarrow> client \<Rightarrow> failure + effect list \<times> client" where
  "show_all [] c = Inr ([], c)"
| "show_all ((t, payload) # ps) c =
     (case cl_show t payload c of
        Inl e \<Rightarrow> Inl e
      | Inr (out, c) \<Rightarrow>
          (case show_all ps c of Inl e \<Rightarrow> Inl e | Inr (out', c) \<Rightarrow> Inr (out @ [print_prompt] @ out', c)))"

abbreviation packets :: "(byte \<times> byte list) list \<Rightarrow> byte list" where
  "packets ps \<equiv> concat (map (\<lambda>(t, payload). make_packet t payload) ps)"

lemma cl_process_packets:
  assumes "\<forall>(t, payload) \<in> set ps. length payload < 2 ^ 16"
  shows "cl_process (packets ps) c
    = (case show_all ps c of Inl e \<Rightarrow> Inl e | Inr (out, c) \<Rightarrow> Inr (out, c, []))"
  using assms
proof (induction ps arbitrary: c)
  case Nil
  show ?case by (simp add: cl_process.simps [of "[]"] take_packet_def)
next
  case (Cons p ps)
  obtain t payload where p: "p = (t, payload)" by (cases p)
  have "take_packet (make_packet t payload @ packets ps) = Some (t, payload, packets ps)"
    using Cons.prems by (intro take_packet_make) (simp add: p)
  then show ?case
    using Cons by (auto simp: p cl_process.simps [of "make_packet t payload @ packets ps"] split: sum.splits)
qed

lemma cl_show_connected: "cl_show t payload c = Inr (out, c') \<Longrightarrow> cl_connected c' = cl_connected c"
  by (auto simp: cl_show_def Let_def split: if_splits)

lemma cl_process_connected:
  "cl_process b c = Inr (out, c', r) \<Longrightarrow> cl_connected c' = cl_connected c"
proof (induction b c arbitrary: out rule: cl_process.induct)
  case (1 b c)
  then show ?case
    using cl_show_connected
    by (fastforce simp: cl_process.simps [of b] split: option.splits prod.splits sum.splits)
qed

text \<open>A receiving thread that gets its bytes in chunks.\<close>

fun cl_receive_all ::
    "byte list list \<Rightarrow> byte list \<Rightarrow> client \<Rightarrow> failure + effect list \<times> client \<times> byte list option" where
  "cl_receive_all [] b c = Inr ([], c, Some b)"
| "cl_receive_all (chunk # chunks) b c =
     (case cl_received chunk b c of
        Inl e \<Rightarrow> Inl e
      | Inr (out, c, None) \<Rightarrow> Inr (out, c, None)
      | Inr (out, c, Some b) \<Rightarrow>
          (case cl_receive_all chunks b c of Inl e \<Rightarrow> Inl e | Inr (out', c, b) \<Rightarrow> Inr (out @ out', c, b)))"

lemma cl_receive_all_process:
  assumes "cl_connected c" "\<forall>chunk \<in> set chunks. chunk \<noteq> []" "cl_process b c = Inr ([], c, b)"
  shows "cl_receive_all chunks b c = (case cl_process (b @ concat chunks) c of
      Inl e \<Rightarrow> Inl e | Inr (out, c, r) \<Rightarrow> Inr (out, c, Some r))"
  using assms
proof (induction chunks arbitrary: b c)
  case (Cons d chunks)
  have received: "cl_received d b c = (case cl_process (b @ d) c of
      Inl e \<Rightarrow> Inl e | Inr (out, c, r) \<Rightarrow> Inr (out, c, Some r))"
    using Cons.prems(1,2) by (simp add: cl_received_def)
  show ?case
  proof (cases "cl_process (b @ d) c")
    case (Inl e)
    then show ?thesis
      using received cl_process_append [of "b @ d" "concat chunks" c] by simp
  next
    case (Inr x)
    obtain out c' r where x: "x = (out, c', r)" by (cases x)
    have idle: "cl_process r c' = Inr ([], c', r)"
      using cl_process_append [of "b @ d" "[]" c] Inr x by (auto split: sum.splits)
    have "cl_connected c'" using cl_process_connected Inr x Cons.prems(1) by auto
    then have "cl_receive_all chunks r c' = (case cl_process (r @ concat chunks) c' of
        Inl e \<Rightarrow> Inl e | Inr (out, c, r) \<Rightarrow> Inr (out, c, Some r))"
      using Cons.IH [OF _ _ idle] Cons.prems(2) by simp
    then show ?thesis
      using received Inr x cl_process_append [of "b @ d" "concat chunks" c] by (auto split: sum.splits)
  qed
qed simp

text \<open>C37: The client shows exactly the packets sent to it, in order, however the network cuts
  the bytes into chunks: the receive buffer is empty afterwards, and what is printed is what
  each packet in turn prints, with a prompt after each.\<close>

theorem client_shows_every_packet:
  assumes "cl_connected c" "\<forall>(t, payload) \<in> set ps. length payload < 2 ^ 16"
    and "concat chunks = packets ps" "\<forall>chunk \<in> set chunks. chunk \<noteq> []"
  shows "cl_receive_all chunks [] c
    = (case show_all ps c of Inl e \<Rightarrow> Inl e | Inr (out, c) \<Rightarrow> Inr (out, c, Some []))"
proof -
  have "cl_process [] c = Inr ([], c, [])" by (simp add: cl_process.simps [of "[]"] take_packet_def)
  from cl_receive_all_process [OF assms(1,4) this] show ?thesis
    unfolding append_Nil assms(3) cl_process_packets [OF assms(2)] by (auto split: sum.split)
qed

text \<open>A message from client 2 arrives in three pieces.\<close>

theorem client_shows_every_packet_witness:
  "cl_receive_all [[2, 0], [3, 50, 36], [104]] [] (client_new\<lparr>cl_connected := True\<rparr>)
     = Inr ([put_line (10 # ascii ''[RECEIVE MESSAGE]''),
             Print (ascii ''[SYS] Client '' @ [50] @ ascii '' Just Sent A Message to you:'' @ [10]),
             put_line [104], print_prompt], client_new\<lparr>cl_connected := True\<rparr>, Some [])"
proof -
  have "packets [(SIGNAL, [50, 36, 104])] = concat [[2, 0], [3, 50, 36], [104]]"
    by (simp add: make_packet_def SIGNAL_def size_of_def Let_def)
  from client_shows_every_packet [of "client_new\<lparr>cl_connected := True\<rparr>" "[(SIGNAL, [50, 36, 104])]", OF _ _ this [symmetric]]
  show ?thesis
    by (simp add: cl_show_def type_defs split_dollar_def)
qed

end
