(* ===== verification/Router.thy ===== *)
theory Router
  imports NetworkInterface
begin

text \<open>
  \<open>libsponge/router.{hh,cc}\<close>: asynchronous network interfaces, the routing table, the
  longest-prefix match and the forwarding loop.
\<close>

section \<open>State and operations\<close>

record async_network_interface =
  ai_interface :: network_interface
  ai_datagrams_out :: "ipv4_datagram list"

definition ai_new :: "network_interface \<Rightarrow> async_network_interface" where
  "ai_new ni = \<lparr>ai_interface = ni, ai_datagrams_out = []\<rparr>"

definition ai_recv_frame ::
    "ethernet_frame \<Rightarrow> async_network_interface \<Rightarrow> failure + async_network_interface" where
  "ai_recv_frame frame ai =
     (case recv_frame frame (ai_interface ai) of
        Inl e \<Rightarrow> Inl e
      | Inr (optional_dgram, ni) \<Rightarrow>
          Inr \<lparr>ai_interface = ni,
               ai_datagrams_out = ai_datagrams_out ai @
                 (case optional_dgram of None \<Rightarrow> [] | Some d \<Rightarrow> [d])\<rparr>)"

record route_entry =
  rt_route_prefix :: u32
  rt_prefix_length :: u8
  rt_next_hop :: "address option"
  rt_interface_num :: u64

record router =
  ro_interfaces :: "async_network_interface list"
  ro_routing_table :: "route_entry list"

definition router_new :: router where
  "router_new = \<lparr>ro_interfaces = [], ro_routing_table = []\<rparr>"

definition add_interface :: "async_network_interface \<Rightarrow> router \<Rightarrow> u64 \<times> router" where
  "add_interface ai r =
     (let r' = r\<lparr>ro_interfaces := ro_interfaces r @ [ai]\<rparr>
      in (size_of (ro_interfaces r') - 1, r'))"

definition router_interface :: "u64 \<Rightarrow> router \<Rightarrow> failure + async_network_interface" where
  "router_interface n r =
     (if unat n < length (ro_interfaces r) then Inr (ro_interfaces r ! unat n)
      else Inl (Thrown ''out_of_range''))"

definition add_route :: "u32 \<Rightarrow> u8 \<Rightarrow> address option \<Rightarrow> u64 \<Rightarrow> router \<Rightarrow> router" where
  "add_route route_prefix prefix_length next_hop interface_num r =
     r\<lparr>ro_routing_table := ro_routing_table r @
         [\<lparr>rt_route_prefix = route_prefix, rt_prefix_length = prefix_length,
           rt_next_hop = next_hop, rt_interface_num = interface_num\<rparr>]\<rparr>"

text \<open>
  The mask of a prefix length (lines 41 to 49). A length over 32 shifts by a negative
  amount, which is undefined.
\<close>

definition prefix_mask :: "u8 \<Rightarrow> failure + u32" where
  "prefix_mask prefix_len =
     (if 0 < prefix_len then
        (if prefix_len = 32 then Inr 0xFFFFFFFF
         else if 32 < prefix_len then Inl UndefinedBehaviour
         else Inr (NOT (push_bit (32 - unat prefix_len) 1 - 1)))
      else Inr 0)"

text \<open>The loop over the routing table: the index of the best match so far, or \<open>-1\<close>.\<close>

fun lpm_loop :: "u32 \<Rightarrow> route_entry list \<Rightarrow> int \<Rightarrow> u8 \<Rightarrow> int \<Rightarrow> failure + int" where
  "lpm_loop dst_ip [] i longest_prefix best_match_idx = Inr best_match_idx"
| "lpm_loop dst_ip (route # routes) i longest_prefix best_match_idx =
     (case prefix_mask (rt_prefix_length route) of
        Inl e \<Rightarrow> Inl e
      | Inr m \<Rightarrow>
          if dst_ip AND m = rt_route_prefix route AND m \<and> longest_prefix \<le> rt_prefix_length route
          then lpm_loop dst_ip routes (i + 1) (rt_prefix_length route) i
          else lpm_loop dst_ip routes (i + 1) longest_prefix best_match_idx)"

text \<open>\<open>_interfaces[n]\<close> is unchecked.\<close>

definition send_on :: "u64 \<Rightarrow> ipv4_datagram \<Rightarrow> address \<Rightarrow> router \<Rightarrow> failure + router" where
  "send_on n dgram next_hop r =
     (if unat n < length (ro_interfaces r) then
        (let ai = ro_interfaces r ! unat n
         in case send_datagram dgram next_hop (ai_interface ai) of
              Inl e \<Rightarrow> Inl e
            | Inr ni \<Rightarrow> Inr (r\<lparr>ro_interfaces := (ro_interfaces r)[unat n := ai\<lparr>ai_interface := ni\<rparr>]\<rparr>))
      else Inl UndefinedBehaviour)"

definition route_one_datagram :: "ipv4_datagram \<Rightarrow> router \<Rightarrow> failure + router" where
  "route_one_datagram dgram r =
     (if ih_ttl (id_header dgram) \<le> 1 then Inr r
      else
        let dgram = dgram\<lparr>id_header := (id_header dgram)\<lparr>ih_ttl := ih_ttl (id_header dgram) - 1\<rparr>\<rparr>;
            dst_ip = ih_dst (id_header dgram)
        in case lpm_loop dst_ip (ro_routing_table r) 0 0 (- 1) of
             Inl e \<Rightarrow> Inl e
           | Inr best_match_idx \<Rightarrow>
               if best_match_idx = - 1 then Inr r
               else
                 let best_route = ro_routing_table r ! nat best_match_idx;
                     next_hop_addr = (case rt_next_hop best_route of
                        None \<Rightarrow> from_ipv4_numeric dst_ip | Some a \<Rightarrow> a)
                 in send_on (rt_interface_num best_route) dgram next_hop_addr r)"

lemma send_on_queues:
  "send_on n d a r = Inr r' \<Longrightarrow> map ai_datagrams_out (ro_interfaces r') = map ai_datagrams_out (ro_interfaces r)"
  by (auto simp: send_on_def Let_def map_update list_update_same_conv split: if_splits sum.splits)

lemma route_one_queues:
  "route_one_datagram d r = Inr r' \<Longrightarrow>
     map ai_datagrams_out (ro_interfaces r') = map ai_datagrams_out (ro_interfaces r)"
  by (auto simp: route_one_datagram_def Let_def split: if_splits sum.splits dest: send_on_queues)

text \<open>Forwarding: each interface's queue is emptied, front first, in the interfaces' order.\<close>

definition pop_queue :: "nat \<Rightarrow> router \<Rightarrow> router" where
  "pop_queue i r = r\<lparr>ro_interfaces := (ro_interfaces r)
     [i := (ro_interfaces r ! i)\<lparr>ai_datagrams_out := tl (ai_datagrams_out (ro_interfaces r ! i))\<rparr>]\<rparr>"

definition queue_at :: "nat \<Rightarrow> router \<Rightarrow> ipv4_datagram list" where
  "queue_at i r = (if i < length (ro_interfaces r) then ai_datagrams_out (ro_interfaces r ! i) else [])"

lemma queue_at_route_one: "route_one_datagram d r = Inr r' \<Longrightarrow> queue_at i r' = queue_at i r"
  using route_one_queues [of d r r'] by (auto simp: queue_at_def list_eq_iff_nth_eq)

lemma queue_at_pop: "queue_at i (pop_queue i r) = tl (queue_at i r)"
  by (simp add: queue_at_def pop_queue_def)

function route_interface :: "nat \<Rightarrow> router \<Rightarrow> failure + router" where
  "route_interface i r =
     (case queue_at i r of
        [] \<Rightarrow> Inr r
      | dgram # _ \<Rightarrow>
          (case route_one_datagram dgram r of
             Inl e \<Rightarrow> Inl e
           | Inr r' \<Rightarrow> route_interface i (pop_queue i r')))"
  by pat_completeness auto
termination
  by (relation "measure (\<lambda>(i, r). length (queue_at i r))")
    (auto simp: queue_at_pop queue_at_route_one)

declare route_interface.simps [simp del]

fun route_from :: "nat list \<Rightarrow> router \<Rightarrow> failure + router" where
  "route_from [] r = Inr r"
| "route_from (i # is) r =
     (case route_interface i r of Inl e \<Rightarrow> Inl e | Inr r' \<Rightarrow> route_from is r')"

definition route :: "router \<Rightarrow> failure + router" where
  "route r = route_from [0..<length (ro_interfaces r)] r"

section \<open>Longest-prefix match\<close>

text \<open>A route matches when the leading bits of the two addresses are the same.\<close>

definition matches :: "u32 \<Rightarrow> route_entry \<Rightarrow> bool" where
  "matches dst rt \<longleftrightarrow> drop_bit (32 - unat (rt_prefix_length rt)) dst
     = drop_bit (32 - unat (rt_prefix_length rt)) (rt_route_prefix rt)"

lemma and_not_mask_iff:
  "x AND NOT (mask k) = y AND NOT (mask k) \<longleftrightarrow> drop_bit k x = drop_bit k (y :: u32)"
proof
  assume "x AND NOT (mask k) = y AND NOT (mask k)"
  then have same: "bit x n = bit y n" if "k \<le> n" "n < 32" for n
    using that by (auto simp: bit_eq_iff [of "x AND _"] bit_simps)
  have "bit x (k + n) = bit y (k + n)" for n
    using same [of "k + n"] bit_imp_le_length [of x "k + n"] bit_imp_le_length [of y "k + n"] by auto
  then show "drop_bit k x = drop_bit k y"
    by (intro bit_word_eqI) (simp add: bit_simps)
next
  assume "drop_bit k x = drop_bit k y"
  then have "bit x (k + n) = bit y (k + n)" for n
    by (metis bit_drop_bit_eq comp_apply)
  then have "bit x n = bit y n" if "k \<le> n" for n
    using that by (metis le_add_diff_inverse)
  then show "x AND NOT (mask k) = y AND NOT (mask k)"
    by (intro bit_word_eqI) (auto simp: bit_simps not_less)
qed

lemma prefix_mask_matches:
  assumes "rt_prefix_length rt \<le> 32"
  shows "\<exists>m. prefix_mask (rt_prefix_length rt) = Inr m
     \<and> (dst AND m = rt_route_prefix rt AND m \<longleftrightarrow> matches dst rt)"
proof -
  let ?l = "rt_prefix_length rt"
  have le: "unat ?l \<le> 32" using assms by (simp add: word_le_nat_alt)
  consider "?l = 0" | "?l = 32" | "0 < ?l" "?l < 32"
    using assms by (auto simp: word_gt_0 order.order_iff_strict)
  then show ?thesis
  proof cases
    case 1
    have "drop_bit 32 x = 0" for x :: u32
      by (intro bit_word_eqI) (auto simp: bit_simps dest: bit_imp_le_length)
    then show ?thesis using 1 by (simp add: prefix_mask_def matches_def)
  next
    case 2
    have ones: "(0xFFFFFFFF :: u32) = NOT (mask 0)" by simp
    show ?thesis unfolding prefix_mask_def ones using 2 by (simp add: matches_def)
  next
    case 3
    have "push_bit (32 - unat ?l) 1 - 1 = (mask (32 - unat ?l) :: u32)"
      by (simp add: mask_eq_exp_minus_1 push_bit_eq_mult)
    then show ?thesis
      using 3 by (auto simp: prefix_mask_def matches_def and_not_mask_iff)
  qed
qed

text \<open>\<open>best i\<close>: route \<open>i\<close> matches, no matching route is longer, and of those as long it is the
  last.\<close>

definition best_route :: "u32 \<Rightarrow> route_entry list \<Rightarrow> nat \<Rightarrow> bool" where
  "best_route dst table i \<longleftrightarrow> i < length table \<and> matches dst (table ! i)
     \<and> (\<forall>j < length table. matches dst (table ! j) \<longrightarrow>
          rt_prefix_length (table ! j) < rt_prefix_length (table ! i)
          \<or> (rt_prefix_length (table ! j) = rt_prefix_length (table ! i) \<and> j \<le> i))"

lemma best_route_unique: "best_route dst table i \<Longrightarrow> best_route dst table j \<Longrightarrow> i = j"
  by (force simp: best_route_def)

definition lpm_state :: "u32 \<Rightarrow> route_entry list \<Rightarrow> u8 \<Rightarrow> int \<Rightarrow> bool" where
  "lpm_state dst seen longest best \<longleftrightarrow>
     (if best = - 1 then longest = 0 \<and> (\<forall>rt \<in> set seen. \<not> matches dst rt)
      else 0 \<le> best \<and> best_route dst seen (nat best)
        \<and> longest = rt_prefix_length (seen ! nat best))"

lemma lpm_state_step:
  assumes "lpm_state dst seen longest best"
  shows "if matches dst rt \<and> longest \<le> rt_prefix_length rt
    then lpm_state dst (seen @ [rt]) (rt_prefix_length rt) (int (length seen))
    else lpm_state dst (seen @ [rt]) longest best"
proof (cases "matches dst rt \<and> longest \<le> rt_prefix_length rt")
  case True
  have "rt_prefix_length (seen ! j) \<le> longest" if "j < length seen" "matches dst (seen ! j)" for j
    using assms that by (auto simp: lpm_state_def best_route_def split: if_splits)
  then have "rt_prefix_length (seen ! j) \<le> rt_prefix_length rt"
    if "j < length seen" "matches dst (seen ! j)" for j
    using that True by (meson order_trans)
  then show ?thesis
    using True by (auto simp: lpm_state_def best_route_def nth_append less_Suc_eq order.order_iff_strict)
next
  case False
  then show ?thesis
    using assms by (auto simp: lpm_state_def best_route_def nth_append less_Suc_eq not_le split: if_splits)
qed

lemma lpm_loop_finds:
  assumes "\<forall>rt \<in> set rest. rt_prefix_length rt \<le> 32" "lpm_state dst seen longest best"
  shows "\<exists>best' longest'. lpm_loop dst rest (int (length seen)) longest best = Inr best'
    \<and> lpm_state dst (seen @ rest) longest' best'"
  using assms
proof (induction rest arbitrary: seen longest best)
  case Nil
  then show ?case by auto
next
  case (Cons rt rest)
  obtain m where m: "prefix_mask (rt_prefix_length rt) = Inr m"
    "(dst AND m = rt_route_prefix rt AND m) = matches dst rt"
    using prefix_mask_matches [of rt dst] Cons.prems(1) by auto
  let ?go = "matches dst rt \<and> longest \<le> rt_prefix_length rt"
  have go: "lpm_state dst (seen @ [rt]) (rt_prefix_length rt) (int (length seen))" if ?go
    using lpm_state_step [OF Cons.prems(2), of rt] that by simp
  have stay: "lpm_state dst (seen @ [rt]) longest best" if "\<not> ?go"
    using lpm_state_step [OF Cons.prems(2), of rt] that by presburger
  have rest: "\<forall>rt \<in> set rest. rt_prefix_length rt \<le> 32" using Cons.prems(1) by simp
  show ?case
  proof (cases ?go)
    case True
    from Cons.IH [OF rest go [OF True]] True show ?thesis using m by (simp add: add.commute)
  next
    case False
    from Cons.IH [OF rest stay [OF False]] False show ?thesis using m by (auto simp: add.commute)
  qed
qed

lemma lpm_loop_best:
  assumes "\<forall>rt \<in> set table. rt_prefix_length rt \<le> 32"
  shows "\<exists>b. lpm_loop dst table 0 0 (- 1) = Inr b
    \<and> (if b = - 1 then \<forall>rt \<in> set table. \<not> matches dst rt else 0 \<le> b \<and> best_route dst table (nat b))"
  using lpm_loop_finds [of table dst "[]" 0 "- 1"] assms by (auto simp: lpm_state_def)

text \<open>The datagram that is forwarded, and where.\<close>

definition hop :: "ipv4_datagram \<Rightarrow> ipv4_datagram" where
  "hop d = d\<lparr>id_header := (id_header d)\<lparr>ih_ttl := ih_ttl (id_header d) - 1\<rparr>\<rparr>"

definition next_hop_of :: "u32 \<Rightarrow> route_entry \<Rightarrow> address" where
  "next_hop_of dst rt = (case rt_next_hop rt of None \<Rightarrow> from_ipv4_numeric dst | Some a \<Rightarrow> a)"

text \<open>C22: Forwarding follows the longest-prefix match. A datagram whose time to live is used up
  or that no route matches is dropped and changes nothing; any other one goes out, its time
  to live one less, on the interface of the matching route with the longest prefix (the
  last one added, of several), to that route's next hop or, for a directly attached
  network, to its destination.\<close>

theorem route_follows_longest_prefix:
  fixes d :: ipv4_datagram
  defines "dst \<equiv> ih_dst (id_header d)"
  assumes "\<forall>rt \<in> set (ro_routing_table r). rt_prefix_length rt \<le> 32"
  shows "if ih_ttl (id_header d) \<le> 1 \<or> (\<forall>rt \<in> set (ro_routing_table r). \<not> matches dst rt)
    then route_one_datagram d r = Inr r
    else \<exists>i. best_route dst (ro_routing_table r) i
      \<and> route_one_datagram d r = send_on (rt_interface_num (ro_routing_table r ! i)) (hop d)
          (next_hop_of dst (ro_routing_table r ! i)) r"
proof -
  obtain b where b: "lpm_loop dst (ro_routing_table r) 0 0 (- 1) = Inr b"
    "if b = - 1 then \<forall>rt \<in> set (ro_routing_table r). \<not> matches dst rt
     else 0 \<le> b \<and> best_route dst (ro_routing_table r) (nat b)"
    using lpm_loop_best [OF assms(2), of dst] by blast
  consider "ih_ttl (id_header d) \<le> 1" | "\<not> ih_ttl (id_header d) \<le> 1" "b = - 1"
    | "\<not> ih_ttl (id_header d) \<le> 1" "b \<noteq> - 1" by blast
  then show ?thesis
  proof cases
    case 1
    then show ?thesis by (simp add: route_one_datagram_def)
  next
    case 2
    then show ?thesis using b by (simp add: route_one_datagram_def Let_def dst_def)
  next
    case 3
    then have best: "best_route dst (ro_routing_table r) (nat b)" using b(2) by simp
    moreover have "\<exists>rt \<in> set (ro_routing_table r). matches dst rt"
      using best by (auto simp: best_route_def)
    moreover have "route_one_datagram d r = send_on (rt_interface_num (ro_routing_table r ! nat b)) (hop d)
        (next_hop_of dst (ro_routing_table r ! nat b)) r"
      using 3 b(1)
      by (simp add: route_one_datagram_def Let_def dst_def hop_def next_hop_of_def split: option.split)
    ultimately show ?thesis using 3 by auto
  qed
qed

theorem route_follows_longest_prefix_witness:
  "let d = ipv4_datagram_new\<lparr>id_header := ipv4_header_new\<lparr>ih_dst := 0x0A000001\<rparr>\<rparr>;
       r = add_route 0x0A000000 8 None 0 (add_route 0 0 None 1 router_new)
   in \<exists>i. best_route 0x0A000001 (ro_routing_table r) i"
proof -
  let ?d = "ipv4_datagram_new\<lparr>id_header := ipv4_header_new\<lparr>ih_dst := 0x0A000001\<rparr>\<rparr>"
  let ?r = "add_route 0x0A000000 8 None 0 (add_route 0 0 None 1 router_new)"
  have "\<forall>rt \<in> set (ro_routing_table ?r). rt_prefix_length rt \<le> 32"
    by (simp add: add_route_def router_new_def)
  moreover have "matches 0x0A000001 (ro_routing_table ?r ! 1)" "\<not> ih_ttl (id_header ?d) \<le> 1"
    by (simp_all add: matches_def add_route_def router_new_def ipv4_header_new_def word_le_nat_alt)
  moreover have "ro_routing_table ?r ! 1 \<in> set (ro_routing_table ?r)"
    by (rule nth_mem) (simp add: add_route_def router_new_def)
  ultimately show ?thesis
    using route_follows_longest_prefix [of ?r ?d] by (auto simp: Let_def split: if_splits)
qed

section \<open>The forwarding loop\<close>

lemma queue_at_pop_other: "j \<noteq> i \<Longrightarrow> queue_at j (pop_queue i r) = queue_at j r"
  by (simp add: queue_at_def pop_queue_def)

lemma route_one_count: "route_one_datagram d r = Inr r' \<Longrightarrow> length (ro_interfaces r') = length (ro_interfaces r)"
  using route_one_queues [of d r r'] by (metis length_map)

lemma route_interface_effect:
  "route_interface i r = Inr r' \<Longrightarrow> queue_at i r' = []
     \<and> (\<forall>j. j \<noteq> i \<longrightarrow> queue_at j r' = queue_at j r) \<and> length (ro_interfaces r') = length (ro_interfaces r)"
proof (induction i r rule: route_interface.induct)
  case (1 i r)
  show ?case
  proof (cases "queue_at i r")
    case Nil
    with "1.prems" show ?thesis by (simp add: route_interface.simps)
  next
    case (Cons d q)
    with "1.prems" obtain r1 where r1: "route_one_datagram d r = Inr r1"
      "route_interface i (pop_queue i r1) = Inr r'"
      by (auto simp: route_interface.simps [of i r] split: sum.splits)
    from "1.IH" [OF Cons r1] show ?thesis
      using queue_at_route_one [OF r1(1)] route_one_count [OF r1(1)]
      by (simp add: queue_at_pop_other) (simp add: pop_queue_def)
  qed
qed

lemma route_from_effect:
  "route_from is r = Inr r' \<Longrightarrow> (\<forall>i \<in> set is. queue_at i r' = [])
     \<and> (\<forall>j. j \<notin> set is \<longrightarrow> queue_at j r' = queue_at j r) \<and> length (ro_interfaces r') = length (ro_interfaces r)"
proof (induction "is" r rule: route_from.induct)
  case (2 i "is" r)
  then obtain r1 where r1: "route_interface i r = Inr r1" "route_from is r1 = Inr r'"
    by (auto split: sum.splits)
  from 2(1) [OF this] route_interface_effect [OF r1(1)] show ?case by auto
qed simp

text \<open>Forwarding terminates, and when no packet makes it throw it has dealt with every
  waiting datagram: all the interfaces' input queues are empty afterwards, and no interface
  has been added or removed.\<close>

theorem route_empties_queues:
  assumes "route r = Inr r'"
  shows "(\<forall>ai \<in> set (ro_interfaces r'). ai_datagrams_out ai = [])
     \<and> length (ro_interfaces r') = length (ro_interfaces r)"
proof -
  note eff = route_from_effect [OF assms [unfolded route_def]]
  have "ai_datagrams_out ai = []" if mem: "ai \<in> set (ro_interfaces r')" for ai
  proof -
    obtain i where "i < length (ro_interfaces r')" "ai = ro_interfaces r' ! i"
      using mem unfolding in_set_conv_nth by blast
    then show ?thesis using eff by (auto simp: queue_at_def)
  qed
  then show ?thesis using eff by blast
qed

theorem route_empties_queues_witness:
  "\<exists>r'. route (snd (add_interface \<lparr>ai_interface = ni_new ethernet_zero (Address 1 0),
      ai_datagrams_out = [ipv4_datagram_new, ipv4_datagram_new]\<rparr> router_new)) = Inr r'
    \<and> (\<forall>ai \<in> set (ro_interfaces r'). ai_datagrams_out ai = [])"
proof -
  let ?r = "snd (add_interface \<lparr>ai_interface = ni_new ethernet_zero (Address 1 0),
      ai_datagrams_out = [ipv4_datagram_new, ipv4_datagram_new]\<rparr> router_new)"
  obtain r' where "route ?r = Inr r'"
    by (simp add: route_def add_interface_def router_new_def route_interface.simps queue_at_def
        pop_queue_def route_one_datagram_def ipv4_datagram_new_def ipv4_header_new_def)
  with route_empties_queues [OF this] show ?thesis by blast
qed

end
