(* ===== verification/NetworkSimulator.thy ===== *)
theory NetworkSimulator
  imports Router Text
begin

text \<open>
  \<open>apps/network_simulator.cc\<close>: six hosts around a router with seven interfaces. Hosts send
  datagrams, the simulator carries frames over the five cables and lets the router forward,
  and each host checks that it has received exactly the datagrams it expects. The random
  generator is the sequence of the numbers it returns. What is only printed (the summaries of
  frames and datagrams) is left out, also of the texts of the exceptions.
\<close>

section \<open>Addresses\<close>

text \<open>The numbers the generator is going to return, and those after the next \<open>n\<close>.\<close>

type_synonym random = "nat \<Rightarrow> u32"

definition drawn :: "nat \<Rightarrow> random \<Rightarrow> random" where
  "drawn n rd = (\<lambda>i. rd (i + n))"

text \<open>\<open>byte = rd()\<close> for each of the six bytes, and the bits of a private address.\<close>

definition random_host_ethernet_address :: "random \<Rightarrow> ethernet_address \<times> random" where
  "random_host_ethernet_address rd =
     (EthernetAddress ((ucast (rd 0) OR 0x02) AND 0xfe) (ucast (rd 1)) (ucast (rd 2))
        (ucast (rd 3)) (ucast (rd 4)) (ucast (rd 5)), drawn 6 rd)"

definition random_router_ethernet_address :: "random \<Rightarrow> ethernet_address \<times> random" where
  "random_router_ethernet_address rd =
     (EthernetAddress 0x02 0 0 (ucast (rd 3)) (ucast (rd 4)) (ucast (rd 5)), drawn 6 rd)"

definition ip :: "string \<Rightarrow> failure + u32" where
  "ip s = (case address_from_text s of Inl e \<Rightarrow> Inl e | Inr a \<Rightarrow> Inr (ipv4_numeric a))"

section \<open>Hosts\<close>

record host =
  ho_name :: string
  ho_my_address :: address
  ho_interface :: async_network_interface
  ho_next_hop :: address
  ho_expecting_to_receive :: "ipv4_datagram list"

definition host_new :: "string \<Rightarrow> address \<Rightarrow> address \<Rightarrow> random \<Rightarrow> host \<times> random" where
  "host_new name my_address next_hop rd =
     (case random_host_ethernet_address rd of (eth, rd) \<Rightarrow>
        (\<lparr>ho_name = name, ho_my_address = my_address,
          ho_interface = ai_new (ni_new eth my_address), ho_next_hop = next_hop,
          ho_expecting_to_receive = []\<rparr>, rd))"

text \<open>\<open>x.serialize().concatenate()\<close>\<close>

definition datagram_bytes :: "ipv4_datagram \<Rightarrow> failure + byte list" where
  "datagram_bytes d =
     (case ipv4_datagram_serialize d of Inl e \<Rightarrow> Inl e | Inr bufs \<Rightarrow> Inr (concat bufs))"

definition same_bytes :: "ipv4_datagram \<Rightarrow> ipv4_datagram \<Rightarrow> failure + bool" where
  "same_bytes x y =
     (case datagram_bytes x of Inl e \<Rightarrow> Inl e
      | Inr xs \<Rightarrow> (case datagram_bytes y of Inl e \<Rightarrow> Inl e | Inr ys \<Rightarrow> Inr (xs = ys)))"

fun expecting :: "ipv4_datagram list \<Rightarrow> ipv4_datagram \<Rightarrow> failure + bool" where
  "expecting [] expected = Inr False"
| "expecting (x # xs) expected =
     (case same_bytes x expected of Inl e \<Rightarrow> Inl e
      | Inr same \<Rightarrow> if same then Inr True else expecting xs expected)"

fun remove_expectation ::
    "ipv4_datagram \<Rightarrow> ipv4_datagram list \<Rightarrow> failure + ipv4_datagram list" where
  "remove_expectation expected [] = Inr []"
| "remove_expectation expected (x # xs) =
     (case same_bytes x expected of Inl e \<Rightarrow> Inl e
      | Inr same \<Rightarrow>
          if same then Inr xs
          else (case remove_expectation expected xs of Inl e \<Rightarrow> Inl e | Inr xs' \<Rightarrow> Inr (x # xs')))"

definition random_payload :: "random \<Rightarrow> byte list" where
  "random_payload rd = ascii ''random payload: {'' @ to_dec (unat (rd 0)) @ ascii ''}''"

definition send_to :: "address \<Rightarrow> u8 \<Rightarrow> random \<Rightarrow> host \<Rightarrow>
    failure + ipv4_datagram \<times> random \<times> host" where
  "send_to destination ttl rd h =
     (let payload = random_payload rd;
          header = ipv4_header_new
            \<lparr>ih_src := ipv4_numeric (ho_my_address h), ih_dst := ipv4_numeric destination\<rparr>;
          dgram = \<lparr>id_header = header
                     \<lparr>ih_len := ucast (ucast (ih_hlen header) * 4 + size_of payload),
                      ih_ttl := ttl\<rparr>,
                   id_payload = [payload]\<rparr>
      in case send_datagram dgram (ho_next_hop h) (ai_interface (ho_interface h)) of
           Inl e \<Rightarrow> Inl e
         | Inr ni \<Rightarrow>
             Inr (dgram, drawn 1 rd, h\<lparr>ho_interface := (ho_interface h)\<lparr>ai_interface := ni\<rparr>\<rparr>))"

definition expect :: "ipv4_datagram \<Rightarrow> host \<Rightarrow> host" where
  "expect expected h = h\<lparr>ho_expecting_to_receive := ho_expecting_to_receive h @ [expected]\<rparr>"

text \<open>The loop over the datagrams received: what is left of the expectations.\<close>

fun take_received :: "string \<Rightarrow> ipv4_datagram list \<Rightarrow> ipv4_datagram list \<Rightarrow>
    failure + ipv4_datagram list" where
  "take_received name [] expected = Inr expected"
| "take_received name (d # received) expected =
     (case expecting expected d of Inl e \<Rightarrow> Inl e
      | Inr found \<Rightarrow>
          if \<not> found
          then Inl (Thrown (''Host '' @ name @ '' received unexpected Internet datagram: ''))
          else (case remove_expectation d expected of Inl e \<Rightarrow> Inl e
                | Inr expected' \<Rightarrow> take_received name received expected'))"

definition host_check :: "host \<Rightarrow> failure + host" where
  "host_check h =
     (case take_received (ho_name h) (ai_datagrams_out (ho_interface h)) (ho_expecting_to_receive h) of
        Inl e \<Rightarrow> Inl e
      | Inr expected \<Rightarrow>
          if expected \<noteq> []
          then Inl (Thrown (''Host '' @ ho_name h @ '' did NOT receive an expected Internet datagram: ''))
          else Inr (h\<lparr>ho_interface := (ho_interface h)\<lparr>ai_datagrams_out := []\<rparr>,
                      ho_expecting_to_receive := []\<rparr>))"

section \<open>The network\<close>

record sim_network =
  nw_router :: router
  nw_default_id :: u64
  nw_eth0_id :: u64
  nw_eth1_id :: u64
  nw_eth2_id :: u64
  nw_uun3_id :: u64
  nw_hs4_id :: u64
  nw_mit5_id :: u64
  nw_hosts :: "string \<Rightarrow> host option"

definition nw_host :: "string \<Rightarrow> sim_network \<Rightarrow> failure + host" where
  "nw_host name n =
     (case nw_hosts n name of
        None \<Rightarrow> Inl (Thrown (''unknown host: '' @ name))
      | Some h \<Rightarrow> if ho_name h \<noteq> name then Inl (Thrown (''invalid host: '' @ name)) else Inr h)"

text \<open>What the references to a host and to an interface of the router are used for.\<close>

definition nw_set_host :: "string \<Rightarrow> host \<Rightarrow> sim_network \<Rightarrow> sim_network" where
  "nw_set_host name h n = n\<lparr>nw_hosts := (nw_hosts n)(name \<mapsto> h)\<rparr>"

definition nw_set_interface :: "u64 \<Rightarrow> async_network_interface \<Rightarrow> sim_network \<Rightarrow> sim_network" where
  "nw_set_interface i ai n = n\<lparr>nw_router := (nw_router n)
     \<lparr>ro_interfaces := (ro_interfaces (nw_router n))[unat i := ai]\<rparr>\<rparr>"

section \<open>Cables\<close>

text \<open>Popping as many frames of the second queue as the first one holds.\<close>

fun clear_frames :: "ethernet_frame list \<Rightarrow> ethernet_frame list \<Rightarrow> failure + ethernet_frame list" where
  "clear_frames [] queue2 = Inr queue2"
| "clear_frames (_ # queue1) [] = Inl UndefinedBehaviour"
| "clear_frames (_ # queue1) (_ # queue2) = clear_frames queue1 queue2"

definition clear_out ::
    "ethernet_frame list \<Rightarrow> async_network_interface \<Rightarrow> failure + async_network_interface" where
  "clear_out frames ai =
     (case clear_frames frames (ni_frames_out (ai_interface ai)) of
        Inl e \<Rightarrow> Inl e
      | Inr rest \<Rightarrow> Inr (ai\<lparr>ai_interface := (ai_interface ai)\<lparr>ni_frames_out := rest\<rparr>\<rparr>))"

text \<open>Each frame arrives with its payload in one buffer.\<close>

fun deliver :: "ethernet_frame list \<Rightarrow> async_network_interface \<Rightarrow> failure + async_network_interface" where
  "deliver [] dst = Inr dst"
| "deliver (frame # to_send) dst =
     (case ai_recv_frame (frame\<lparr>ef_payload := [concat (ef_payload frame)]\<rparr>) dst of
        Inl e \<Rightarrow> Inl e
      | Inr dst' \<Rightarrow> deliver to_send dst')"

abbreviation frames_out :: "async_network_interface \<Rightarrow> ethernet_frame list" where
  "frames_out ai \<equiv> ni_frames_out (ai_interface ai)"

definition exchange_frames :: "async_network_interface \<Rightarrow> async_network_interface \<Rightarrow>
    failure + async_network_interface \<times> async_network_interface" where
  "exchange_frames x y =
     (case deliver (frames_out x) y of Inl e \<Rightarrow> Inl e | Inr y1 \<Rightarrow>
      case deliver (frames_out y) x of Inl e \<Rightarrow> Inl e | Inr x1 \<Rightarrow>
      case clear_out (frames_out x) x1 of Inl e \<Rightarrow> Inl e | Inr x2 \<Rightarrow>
      case clear_out (frames_out y) y1 of Inl e \<Rightarrow> Inl e | Inr y2 \<Rightarrow> Inr (x2, y2))"

definition exchange_frames3 ::
    "async_network_interface \<Rightarrow> async_network_interface \<Rightarrow> async_network_interface \<Rightarrow>
     failure + async_network_interface \<times> async_network_interface \<times> async_network_interface" where
  "exchange_frames3 x y z =
     (case deliver (frames_out x) y of Inl e \<Rightarrow> Inl e | Inr y1 \<Rightarrow>
      case deliver (frames_out x) z of Inl e \<Rightarrow> Inl e | Inr z1 \<Rightarrow>
      case deliver (frames_out y) x of Inl e \<Rightarrow> Inl e | Inr x1 \<Rightarrow>
      case deliver (frames_out y) z1 of Inl e \<Rightarrow> Inl e | Inr z2 \<Rightarrow>
      case deliver (frames_out z) x1 of Inl e \<Rightarrow> Inl e | Inr x2 \<Rightarrow>
      case deliver (frames_out z) y1 of Inl e \<Rightarrow> Inl e | Inr y2 \<Rightarrow>
      case clear_out (frames_out x) x2 of Inl e \<Rightarrow> Inl e | Inr x3 \<Rightarrow>
      case clear_out (frames_out y) y2 of Inl e \<Rightarrow> Inl e | Inr y3 \<Rightarrow>
      case clear_out (frames_out z) z2 of Inl e \<Rightarrow> Inl e | Inr z3 \<Rightarrow> Inr (x3, y3, z3))"

definition exchange_with :: "u64 \<Rightarrow> string \<Rightarrow> sim_network \<Rightarrow> failure + sim_network" where
  "exchange_with i name n =
     (case router_interface i (nw_router n) of Inl e \<Rightarrow> Inl e | Inr x \<Rightarrow>
      case nw_host name n of Inl e \<Rightarrow> Inl e | Inr h \<Rightarrow>
      case exchange_frames x (ho_interface h) of Inl e \<Rightarrow> Inl e | Inr (x', y') \<Rightarrow>
        Inr (nw_set_host name (h\<lparr>ho_interface := y'\<rparr>) (nw_set_interface i x' n)))"

definition exchange_with2 :: "u64 \<Rightarrow> string \<Rightarrow> string \<Rightarrow> sim_network \<Rightarrow> failure + sim_network" where
  "exchange_with2 i name1 name2 n =
     (case router_interface i (nw_router n) of Inl e \<Rightarrow> Inl e | Inr x \<Rightarrow>
      case nw_host name1 n of Inl e \<Rightarrow> Inl e | Inr h1 \<Rightarrow>
      case nw_host name2 n of Inl e \<Rightarrow> Inl e | Inr h2 \<Rightarrow>
      case exchange_frames3 x (ho_interface h1) (ho_interface h2) of Inl e \<Rightarrow> Inl e
      | Inr (x', y', z') \<Rightarrow>
          Inr (nw_set_host name2 (h2\<lparr>ho_interface := z'\<rparr>)
            (nw_set_host name1 (h1\<lparr>ho_interface := y'\<rparr>) (nw_set_interface i x' n))))"

definition simulate_physical_connections :: "sim_network \<Rightarrow> failure + sim_network" where
  "simulate_physical_connections n0 =
     (case exchange_with (nw_default_id n0) ''default_router'' n0 of Inl e \<Rightarrow> Inl e | Inr n1 \<Rightarrow>
      case exchange_with (nw_eth0_id n1) ''applesauce'' n1 of Inl e \<Rightarrow> Inl e | Inr n2 \<Rightarrow>
      case exchange_with (nw_eth2_id n2) ''cherrypie'' n2 of Inl e \<Rightarrow> Inl e | Inr n3 \<Rightarrow>
      case exchange_with (nw_hs4_id n3) ''hs_router'' n3 of Inl e \<Rightarrow> Inl e | Inr n4 \<Rightarrow>
        exchange_with2 (nw_uun3_id n4) ''dm42'' ''dm43'' n4)"

section \<open>The simulation\<close>

fun simulate_rounds :: "nat \<Rightarrow> sim_network \<Rightarrow> failure + sim_network" where
  "simulate_rounds 0 n = Inr n"
| "simulate_rounds (Suc k) n =
     (case route (nw_router n) of Inl e \<Rightarrow> Inl e | Inr r \<Rightarrow>
      case simulate_physical_connections (n\<lparr>nw_router := r\<rparr>) of Inl e \<Rightarrow> Inl e
      | Inr n' \<Rightarrow> simulate_rounds k n')"

text \<open>
  The checks go over an unordered map; its order, which the library leaves open, is an
  argument.
\<close>

fun check_hosts :: "string list \<Rightarrow> sim_network \<Rightarrow> failure + sim_network" where
  "check_hosts [] n = Inr n"
| "check_hosts (name # names) n =
     (case nw_hosts n name of
        None \<Rightarrow> check_hosts names n
      | Some h \<Rightarrow>
          (case host_check h of Inl e \<Rightarrow> Inl e
           | Inr h' \<Rightarrow> check_hosts names (nw_set_host name h' n)))"

definition simulate :: "string list \<Rightarrow> sim_network \<Rightarrow> failure + sim_network" where
  "simulate order n =
     (case simulate_rounds 256 n of Inl e \<Rightarrow> Inl e | Inr n' \<Rightarrow> check_hosts order n')"

section \<open>Construction\<close>

fun add_interfaces :: "string list \<Rightarrow> random \<Rightarrow> router \<Rightarrow>
    failure + u64 list \<times> random \<times> router" where
  "add_interfaces [] rd r = Inr ([], rd, r)"
| "add_interfaces (addr # addrs) rd r =
     (case random_router_ethernet_address rd of (eth, rd) \<Rightarrow>
      case address_from_text addr of Inl e \<Rightarrow> Inl e | Inr a \<Rightarrow>
      case add_interface (ai_new (ni_new eth a)) r of (i, r) \<Rightarrow>
      case add_interfaces addrs rd r of Inl e \<Rightarrow> Inl e | Inr (ids, rd, r) \<Rightarrow> Inr (i # ids, rd, r))"

text \<open>\<open>_hosts.insert({name, {name, {address}, {next_hop}}})\<close>\<close>

fun insert_hosts :: "(string \<times> string \<times> string) list \<Rightarrow> random \<Rightarrow> (string \<Rightarrow> host option) \<Rightarrow>
    failure + random \<times> (string \<Rightarrow> host option)" where
  "insert_hosts [] rd hosts = Inr (rd, hosts)"
| "insert_hosts ((name, addr, gateway) # rest) rd hosts =
     (case address_from_text addr of Inl e \<Rightarrow> Inl e | Inr a \<Rightarrow>
      case address_from_text gateway of Inl e \<Rightarrow> Inl e | Inr next_hop \<Rightarrow>
      case host_new name a next_hop rd of (h, rd) \<Rightarrow>
        insert_hosts rest rd (if hosts name = None then hosts(name \<mapsto> h) else hosts))"

fun add_routes :: "(string \<times> u8 \<times> address option \<times> u64) list \<Rightarrow> router \<Rightarrow> failure + router" where
  "add_routes [] r = Inr r"
| "add_routes ((prefix, len, next_hop, i) # rest) r =
     (case ip prefix of Inl e \<Rightarrow> Inl e | Inr p \<Rightarrow> add_routes rest (add_route p len next_hop i r))"

definition INTERFACE_ADDRESSES :: "string list" where
  "INTERFACE_ADDRESSES = [''171.67.76.46'', ''10.0.0.1'', ''172.16.0.1'', ''192.168.0.1'',
     ''198.178.229.1'', ''143.195.0.2'', ''128.30.76.255'']"

definition HOSTS :: "(string \<times> string \<times> string) list" where
  "HOSTS =
     [(''applesauce'', ''10.0.0.2'', ''10.0.0.1''),
      (''default_router'', ''171.67.76.1'', ''0''),
      (''cherrypie'', ''192.168.0.2'', ''192.168.0.1''),
      (''hs_router'', ''143.195.0.1'', ''0''),
      (''dm42'', ''198.178.229.42'', ''198.178.229.1''),
      (''dm43'', ''198.178.229.43'', ''198.178.229.1'')]"

definition network_routes :: "sim_network \<Rightarrow> failure + router" where
  "network_routes n =
     (case nw_host ''default_router'' n of Inl e \<Rightarrow> Inl e | Inr default_router \<Rightarrow>
      case nw_host ''hs_router'' n of Inl e \<Rightarrow> Inl e | Inr hs_router \<Rightarrow>
      case address_from_text ''128.30.0.1'' of Inl e \<Rightarrow> Inl e | Inr mit \<Rightarrow>
        add_routes
          [(''0.0.0.0'', 0, Some (ho_my_address default_router), nw_default_id n),
           (''10.0.0.0'', 8, None, nw_eth0_id n),
           (''172.16.0.0'', 16, None, nw_eth1_id n),
           (''192.168.0.0'', 24, None, nw_eth2_id n),
           (''198.178.229.0'', 24, None, nw_uun3_id n),
           (''143.195.0.0'', 17, Some (ho_my_address hs_router), nw_hs4_id n),
           (''143.195.128.0'', 18, Some (ho_my_address hs_router), nw_hs4_id n),
           (''143.195.192.0'', 19, Some (ho_my_address hs_router), nw_hs4_id n),
           (''128.30.76.255'', 16, Some mit, nw_mit5_id n)] (nw_router n))"

definition network_new :: "random \<Rightarrow> failure + sim_network \<times> random" where
  "network_new rd =
     (case add_interfaces INTERFACE_ADDRESSES rd router_new of Inl e \<Rightarrow> Inl e | Inr (ids, rd, r) \<Rightarrow>
      case insert_hosts HOSTS rd (\<lambda>_. None) of Inl e \<Rightarrow> Inl e | Inr (rd, hosts) \<Rightarrow>
        let n = \<lparr>nw_router = r, nw_default_id = ids ! 0, nw_eth0_id = ids ! 1, nw_eth1_id = ids ! 2,
                 nw_eth2_id = ids ! 3, nw_uun3_id = ids ! 4, nw_hs4_id = ids ! 5, nw_mit5_id = ids ! 6,
                 nw_hosts = hosts\<rparr>
        in case network_routes n of Inl e \<Rightarrow> Inl e | Inr r \<Rightarrow> Inr (n\<lparr>nw_router := r\<rparr>, rd))"

section \<open>The tests\<close>

text \<open>
  One test: \<open>host(from).send_to(destination, ttl)\<close>; unless nothing is to arrive,
  \<open>host(to).expect(...)\<close> of the datagram with its time to live one less; \<open>simulate()\<close>.
\<close>

datatype test_destination = Host_Address string | Numeric string

fun destination_address :: "test_destination \<Rightarrow> sim_network \<Rightarrow> failure + address" where
  "destination_address (Host_Address name) n =
     (case nw_host name n of Inl e \<Rightarrow> Inl e | Inr h \<Rightarrow> Inr (ho_my_address h))"
| "destination_address (Numeric s) n = address_from_text s"

definition expect_at :: "string option \<Rightarrow> ipv4_datagram \<Rightarrow> sim_network \<Rightarrow> failure + sim_network" where
  "expect_at receiver dgram n =
     (case receiver of None \<Rightarrow> Inr n
      | Some name \<Rightarrow>
          (case nw_host name n of Inl e \<Rightarrow> Inl e
           | Inr h \<Rightarrow> Inr (nw_set_host name (expect (hop dgram) h) n)))"

fun run_test :: "string list \<Rightarrow> string \<times> test_destination \<times> u8 \<times> string option \<Rightarrow>
    sim_network \<times> random \<Rightarrow> failure + sim_network \<times> random" where
  "run_test order (from_name, dest, ttl, receiver) (n, rd) =
     (case nw_host from_name n of Inl e \<Rightarrow> Inl e | Inr h \<Rightarrow>
      case destination_address dest n of Inl e \<Rightarrow> Inl e | Inr a \<Rightarrow>
      case send_to a ttl rd h of Inl e \<Rightarrow> Inl e | Inr (dgram, rd, h') \<Rightarrow>
      case expect_at receiver dgram (nw_set_host from_name h' n) of Inl e \<Rightarrow> Inl e | Inr n' \<Rightarrow>
      case simulate order n' of Inl e \<Rightarrow> Inl e | Inr n'' \<Rightarrow> Inr (n'', rd))"

fun run_tests :: "string list \<Rightarrow> (string \<times> test_destination \<times> u8 \<times> string option) list \<Rightarrow>
    sim_network \<times> random \<Rightarrow> failure + sim_network \<times> random" where
  "run_tests order [] s = Inr s"
| "run_tests order (test # tests) s =
     (case run_test order test s of Inl e \<Rightarrow> Inl e | Inr s' \<Rightarrow> run_tests order tests s')"

definition TESTS :: "(string \<times> test_destination \<times> u8 \<times> string option) list" where
  "TESTS =
     [(''applesauce'', Host_Address ''cherrypie'', 64, Some ''cherrypie''),
      (''cherrypie'', Host_Address ''applesauce'', 64, Some ''applesauce''),
      (''applesauce'', Numeric ''1.2.3.4'', 64, Some ''default_router''),
      (''applesauce'', Numeric ''143.195.131.17'', 64, Some ''hs_router''),
      (''cherrypie'', Numeric ''143.195.193.52'', 64, Some ''hs_router''),
      (''cherrypie'', Numeric ''143.195.223.255'', 64, Some ''hs_router''),
      (''cherrypie'', Numeric ''143.195.224.0'', 64, Some ''default_router''),
      (''dm42'', Host_Address ''dm43'', 64, Some ''dm43''),
      (''applesauce'', Numeric ''1.2.3.4'', 1, None),
      (''applesauce'', Numeric ''1.2.3.4'', 0, None)]"

definition network_simulator :: "string list \<Rightarrow> random \<Rightarrow> failure + sim_network \<times> random" where
  "network_simulator order rd =
     (case network_new rd of Inl e \<Rightarrow> Inl e | Inr s \<Rightarrow> run_tests order TESTS s)"

definition EXIT_SUCCESS :: int where "EXIT_SUCCESS = 0"
definition EXIT_FAILURE :: int where "EXIT_FAILURE = 1"

definition simulator_main :: "string list \<Rightarrow> random \<Rightarrow> failure + int" where
  "simulator_main order rd =
     (case network_simulator order rd of
        Inl (Thrown what) \<Rightarrow> Inr EXIT_FAILURE
      | Inl e \<Rightarrow> Inl e
      | Inr _ \<Rightarrow> Inr EXIT_SUCCESS)"

section \<open>What a host accepts\<close>

text \<open>Datagrams that can be serialized are compared by their bytes.\<close>

definition serializes :: "ipv4_datagram \<Rightarrow> bool" where
  "serializes d \<longleftrightarrow> (case datagram_bytes d of Inl _ \<Rightarrow> False | Inr _ \<Rightarrow> True)"

lemma same_bytes_eq: "serializes x \<Longrightarrow> serializes y \<Longrightarrow> same_bytes x y = Inr (datagram_bytes x = datagram_bytes y)"
  by (auto simp: serializes_def same_bytes_def split: sum.splits)

lemma expecting_eq:
  "serializes d \<Longrightarrow> list_all serializes es \<Longrightarrow> expecting es d = Inr (datagram_bytes d \<in> set (map datagram_bytes es))"
  by (induction es) (auto simp: same_bytes_eq)

lemma remove_expectation_eq:
  assumes "serializes d" "list_all serializes es" "datagram_bytes d \<in> set (map datagram_bytes es)"
  shows "\<exists>es'. remove_expectation d es = Inr es' \<and> list_all serializes es'
    \<and> mset (map datagram_bytes es) = add_mset (datagram_bytes d) (mset (map datagram_bytes es'))"
  using assms(2,3)
proof (induction es)
  case (Cons x es)
  then show ?case
    by (cases "datagram_bytes x = datagram_bytes d") (auto simp: same_bytes_eq assms(1))
qed simp

lemma take_received_eq:
  assumes "list_all serializes ds" "list_all serializes es"
  shows "if mset (map datagram_bytes ds) \<subseteq># mset (map datagram_bytes es)
    then \<exists>es'. take_received name ds es = Inr es'
      \<and> mset (map datagram_bytes es) = mset (map datagram_bytes ds) + mset (map datagram_bytes es')
    else \<exists>what. take_received name ds es = Inl (Thrown what)"
  using assms
proof (induction ds arbitrary: es)
  case Nil
  then show ?case by simp
next
  case (Cons d ds)
  show ?case
  proof (cases "datagram_bytes d \<in> set (map datagram_bytes es)")
    case True
    from remove_expectation_eq [OF _ Cons.prems(2) this] Cons.prems(1)
    obtain es' where es': "remove_expectation d es = Inr es'" "list_all serializes es'"
      "mset (map datagram_bytes es) = add_mset (datagram_bytes d) (mset (map datagram_bytes es'))" by auto
    have "take_received name (d # ds) es = take_received name ds es'"
      using True es'(1) Cons.prems expecting_eq [of d es] by simp
    with Cons.IH [OF _ es'(2)] Cons.prems(1) es'(3) show ?thesis by (simp split: if_splits)
  next
    case False
    then have "\<not> mset (map datagram_bytes (d # ds)) \<subseteq># mset (map datagram_bytes es)"
      using mset_subset_eqD [of "mset (map datagram_bytes (d # ds))" "mset (map datagram_bytes es)"]
      by (metis list.set_intros(1) list.simps(9) set_mset_mset)
    with False show ?thesis using Cons.prems expecting_eq [of d es] by simp
  qed
qed

text \<open>C27: A host's check accepts exactly what is expected. It succeeds when the datagrams received
  are, byte for byte and counted with their multiplicity, in whatever order, the ones
  expected, and leaves both queues empty; in every other case it throws.\<close>

theorem host_check_exact:
  fixes h :: host
  defines "received \<equiv> ai_datagrams_out (ho_interface h)"
  assumes "list_all serializes received" "list_all serializes (ho_expecting_to_receive h)"
  shows "if mset (map datagram_bytes received) = mset (map datagram_bytes (ho_expecting_to_receive h))
    then host_check h = Inr (h\<lparr>ho_interface := (ho_interface h)\<lparr>ai_datagrams_out := []\<rparr>,
      ho_expecting_to_receive := []\<rparr>)
    else \<exists>what. host_check h = Inl (Thrown what)"
proof -
  let ?R = "mset (map datagram_bytes received)" and ?E = "mset (map datagram_bytes (ho_expecting_to_receive h))"
  have check: "host_check h = (case take_received (ho_name h) received (ho_expecting_to_receive h) of
      Inl e \<Rightarrow> Inl e
    | Inr expected \<Rightarrow>
        if expected \<noteq> []
        then Inl (Thrown (''Host '' @ ho_name h @ '' did NOT receive an expected Internet datagram: ''))
        else Inr (h\<lparr>ho_interface := (ho_interface h)\<lparr>ai_datagrams_out := []\<rparr>, ho_expecting_to_receive := []\<rparr>))"
    unfolding host_check_def received_def ..
  note loop = take_received_eq [OF assms(2,3), of "ho_name h"]
  show ?thesis
  proof (cases "?R \<subseteq># ?E")
    case True
    with loop obtain left where left: "take_received (ho_name h) received (ho_expecting_to_receive h) = Inr left"
      "?E = ?R + mset (map datagram_bytes left)" by auto
    then have "?R = ?E \<longleftrightarrow> left = []" by simp
    then show ?thesis unfolding check left(1) by simp
  next
    case False
    with loop obtain what where "take_received (ho_name h) received (ho_expecting_to_receive h) = Inl (Thrown what)"
      by auto
    moreover have "?R \<noteq> ?E" using False by auto
    ultimately show ?thesis unfolding check by simp
  qed
qed

theorem host_check_exact_witness:
  "\<exists>h what. ho_expecting_to_receive h = [ipv4_datagram_new\<lparr>id_header := ipv4_header_new\<lparr>ih_len := 20\<rparr>\<rparr>]
     \<and> host_check h = Inl (Thrown what)"
proof -
  let ?d = "ipv4_datagram_new\<lparr>id_header := ipv4_header_new\<lparr>ih_len := 20\<rparr>\<rparr>"
  let ?h = "(fst (host_new ''dm42'' (Address 1 0) (Address 2 0) (\<lambda>_. 0)))
    \<lparr>ho_expecting_to_receive := [?d]\<rparr>"
  have h: "ai_datagrams_out (ho_interface ?h) = []"
    by (simp add: host_new_def random_host_ethernet_address_def ai_new_def)
  have "serializes ?d" by code_simp
  with host_check_exact [of ?h] h show ?thesis by (intro exI [of _ ?h]) simp
qed

end
