(* ===== verification/NetworkJourney.thy ===== *)
theory NetworkJourney
  imports NetworkSimulator
begin

text \<open>
  How the simulated network works: what a frame does to the interfaces that hear it, how a
  datagram crosses a cable (with or without address resolution), how it crosses the router,
  and what one test does to a network at rest. A network is seen as a family of interfaces
  indexed by its nodes (\<open>net_of\<close>), a round of \<open>simulate\<close> as a step between families.
\<close>

section \<open>The same datagram\<close>

text \<open>On the way only the checksum field and the division of the payload into buffers change.\<close>

definition same_datagram :: "ipv4_datagram \<Rightarrow> ipv4_datagram \<Rightarrow> bool" where
  "same_datagram d d' \<longleftrightarrow> (id_header d)\<lparr>ih_cksum := 0\<rparr> = (id_header d')\<lparr>ih_cksum := 0\<rparr>
     \<and> concat (id_payload d) = concat (id_payload d')"

definition sendable :: "ipv4_datagram \<Rightarrow> bool" where
  "sendable d \<longleftrightarrow> ipv4_header_ok (id_header d)
     \<and> unat (ih_len (id_header d)) = 4 * unat (ih_hlen (id_header d)) + length (concat (id_payload d))"

lemma same_datagram_refl [simp]: "same_datagram d d"
  by (simp add: same_datagram_def)

lemma same_datagram_trans: "same_datagram d e \<Longrightarrow> same_datagram e f \<Longrightarrow> same_datagram d f"
  by (simp add: same_datagram_def)

lemma same_datagramD:
  assumes "same_datagram d d'"
  shows "concat (id_payload d') = concat (id_payload d)" "sendable d' = sendable d"
    "ih_dst (id_header d') = ih_dst (id_header d)" "ih_ttl (id_header d') = ih_ttl (id_header d)"
    "same_datagram (hop d) (hop d')"
  using assms
  by (cases "id_header d"; cases "id_header d'"; cases d; cases d';
      simp add: same_datagram_def sendable_def ipv4_header_ok_def hop_def)+

lemma sendable_hop: "sendable d \<Longrightarrow> sendable (hop d)"
  by (simp add: sendable_def hop_def ipv4_header_ok_def)

lemma same_datagram_bytes:
  assumes "same_datagram d d'"
  shows "datagram_bytes d' = datagram_bytes d"
proof -
  have "(id_header d)\<lparr>ih_cksum := 0\<rparr> = (id_header d')\<lparr>ih_cksum := 0\<rparr>"
    "concat (id_payload d') = concat (id_payload d)"
    using assms by (simp_all add: same_datagram_def)
  moreover from this(1) have "payload_length (id_header d') = payload_length (id_header d)"
    by (metis ipv4_cksum(4))
  moreover from calculation(1) have "(id_header d)\<lparr>ih_cksum := c\<rparr> = (id_header d')\<lparr>ih_cksum := c\<rparr>" for c
    by (cases "id_header d"; cases "id_header d'"; simp)
  ultimately show ?thesis
    by (simp add: datagram_bytes_def ipv4_datagram_serialize_def Let_def bv_size_eq split: sum.split)
qed

lemma sendable_serializes:
  "sendable d \<Longrightarrow> \<exists>bufs. ipv4_datagram_serialize d = Inr bufs \<and> length (concat bufs) < 2 ^ 61"
  using ipv4_datagram_roundtrip_full [of "id_header d" "id_payload d"]
  by (cases d) (auto simp: sendable_def ipv4_header_ok_def)

lemma sendable_bytes: "sendable d \<Longrightarrow> \<exists>b. datagram_bytes d = Inr b"
  using sendable_serializes [of d] by (auto simp: datagram_bytes_def)

section \<open>Frames that arrive\<close>

abbreviation as_delivered :: "ethernet_frame \<Rightarrow> ethernet_frame" where
  "as_delivered f \<equiv> f\<lparr>ef_payload := [concat (ef_payload f)]\<rparr>"

abbreviation hears :: "async_network_interface \<Rightarrow> ethernet_address \<Rightarrow> bool" where
  "hears ai dst \<equiv> for_us dst (ai_interface ai)"

lemma not_for_us:
  "\<not> hears ai (eh_dst (ef_header f)) \<Longrightarrow> ai_recv_frame (as_delivered f) ai = Inr ai"
  by (simp add: ai_recv_frame_def recv_frame_def)

lemma arp_frame_header:
  "arp_frame dst m ni = Inr f \<Longrightarrow> eh_dst (ef_header f) = dst"
  "ipv4_frame dst d ni = Inr f \<Longrightarrow> eh_dst (ef_header f) = dst"
  by (auto simp: arp_frame_def ipv4_frame_def split: sum.splits)

lemma arp_frame_arrives:
  assumes "arp_frame dst m ni = Inr f" "arp_supported m"
  shows "deliver [f] ai = (if hears ai dst
    then case recv_arp m (ai_interface ai) of Inl e \<Rightarrow> Inl e | Inr n \<Rightarrow> Inr (ai\<lparr>ai_interface := n\<rparr>)
    else Inr ai)"
proof (cases "hears ai dst")
  case True
  obtain s where "arp_serialize m = Inr s" "length s = 28"
    using arp_roundtrip_full [OF assms(2), of "[]" arp_message_new] by auto
  with assms(1) have "length (concat (ef_payload f)) < 2 ^ 61" by (auto simp: arp_frame_def)
  from on_wire_eq [OF this] recv_arp_frame [OF assms True] show ?thesis
    using True by (cases ai) (auto simp: ai_recv_frame_def split: sum.split)
next
  case False
  with assms(1) show ?thesis by (simp add: not_for_us arp_frame_header)
qed

lemma ipv4_frame_arrives:
  assumes "ipv4_frame dst d ni = Inr f" "sendable d"
  shows "\<not> hears ai dst \<Longrightarrow> deliver [f] ai = Inr ai"
    and "hears ai dst \<Longrightarrow> \<exists>d'. same_datagram d d'
      \<and> deliver [f] ai = Inr (ai\<lparr>ai_datagrams_out := ai_datagrams_out ai @ [d']\<rparr>)"
proof -
  show "deliver [f] ai = Inr ai" if "\<not> hears ai dst"
    using assms(1) that by (simp add: not_for_us arp_frame_header)
  assume hears: "hears ai dst"
  note ok = assms(2) [unfolded sendable_def ipv4_header_ok_def]
  obtain bufs where "ipv4_datagram_serialize d = Inr bufs" "length (concat bufs) < 2 ^ 61"
    using sendable_serializes [OF assms(2)] by auto
  with assms(1) have "length (concat (ef_payload f)) < 2 ^ 61" by (auto simp: ipv4_frame_def)
  moreover obtain c where "recv_frame (on_wire f) (ai_interface ai) = Inr (Some
     \<lparr>id_header = (id_header d)\<lparr>ih_cksum := c\<rparr>, id_payload = [concat (id_payload d)]\<rparr>, ai_interface ai)"
    using recv_ipv4_frame [OF assms(1) hears] ok by blast
  ultimately show "\<exists>d'. same_datagram d d'
      \<and> deliver [f] ai = Inr (ai\<lparr>ai_datagrams_out := ai_datagrams_out ai @ [d']\<rparr>)"
    by (intro exI [of _ "\<lparr>id_header = (id_header d)\<lparr>ih_cksum := c\<rparr>, id_payload = [concat (id_payload d)]\<rparr>"])
      (cases ai, simp add: on_wire_eq ai_recv_frame_def same_datagram_def)
qed

lemma ipv4_frame_total: "sendable d \<Longrightarrow> \<exists>f. ipv4_frame dst d ni = Inr f"
  using sendable_serializes [of d] by (auto simp: ipv4_frame_def)

section \<open>Exchanges in which one interface talks\<close>

abbreviation silent :: "async_network_interface \<Rightarrow> bool" where
  "silent ai \<equiv> frames_out ai = []"

definition mute :: "async_network_interface \<Rightarrow> async_network_interface" where
  "mute ai = ai\<lparr>ai_interface := (ai_interface ai)\<lparr>ni_frames_out := []\<rparr>\<rparr>"

lemma mute_silent [simp]: "silent ai \<Longrightarrow> mute ai = ai"
  by (cases ai; cases "ai_interface ai") (simp add: mute_def)

lemma clear_frames_all [simp]: "clear_frames fs fs = Inr []"
  by (induction fs) simp_all

lemma clear_out_simps [simp]:
  "clear_out [] ai = Inr ai" "clear_out (frames_out ai) ai = Inr (mute ai)"
  by (simp_all add: clear_out_def mute_def)

lemma exchange_one_talks:
  "silent x \<Longrightarrow> silent y \<Longrightarrow> exchange_frames x y = Inr (x, y)"
  "silent y \<Longrightarrow> deliver (frames_out x) y = Inr y' \<Longrightarrow> exchange_frames x y = Inr (mute x, y')"
  "silent x \<Longrightarrow> deliver (frames_out y) x = Inr x' \<Longrightarrow> exchange_frames x y = Inr (x', mute y)"
  by (simp_all add: exchange_frames_def)

lemma exchange3_one_talks:
  "silent x \<Longrightarrow> silent y \<Longrightarrow> silent z \<Longrightarrow> exchange_frames3 x y z = Inr (x, y, z)"
  "silent y \<Longrightarrow> silent z \<Longrightarrow> deliver (frames_out x) y = Inr y' \<Longrightarrow> deliver (frames_out x) z = Inr z' \<Longrightarrow>
     exchange_frames3 x y z = Inr (mute x, y', z')"
  "silent x \<Longrightarrow> silent z \<Longrightarrow> deliver (frames_out y) x = Inr x' \<Longrightarrow> deliver (frames_out y) z = Inr z' \<Longrightarrow>
     exchange_frames3 x y z = Inr (x', mute y, z')"
  "silent x \<Longrightarrow> silent y \<Longrightarrow> deliver (frames_out z) x = Inr x' \<Longrightarrow> deliver (frames_out z) y = Inr y' \<Longrightarrow>
     exchange_frames3 x y z = Inr (x', y', mute z)"
  by (simp_all add: exchange_frames3_def)

section \<open>The network as a family of interfaces\<close>

datatype node = Default | Eth0 | Eth1 | Eth2 | Uun3 | Hs4 | Mit5
  | Applesauce | DefaultRouter | Cherrypie | HsRouter | Dm42 | Dm43

definition ports :: "node list" where
  "ports = [Default, Eth0, Eth1, Eth2, Uun3, Hs4, Mit5]"

definition host_nodes :: "node list" where
  "host_nodes = [Applesauce, DefaultRouter, Cherrypie, HsRouter, Dm42, Dm43]"

text \<open>Who hears whom.\<close>

definition cables :: "node list list" where
  "cables = [[Default, DefaultRouter], [Eth0, Applesauce], [Eth2, Cherrypie], [Hs4, HsRouter],
     [Uun3, Dm42, Dm43]]"

fun node_ip :: "node \<Rightarrow> u32" where
  "node_ip Default = 0xAB434C2E"
| "node_ip Eth0 = 0x0A000001"
| "node_ip Eth1 = 0xAC100001"
| "node_ip Eth2 = 0xC0A80001"
| "node_ip Uun3 = 0xC6B2E501"
| "node_ip Hs4 = 0x8FC30002"
| "node_ip Mit5 = 0x801E4CFF"
| "node_ip Applesauce = 0x0A000002"
| "node_ip DefaultRouter = 0xAB434C01"
| "node_ip Cherrypie = 0xC0A80002"
| "node_ip HsRouter = 0x8FC30001"
| "node_ip Dm42 = 0xC6B2E52A"
| "node_ip Dm43 = 0xC6B2E52B"

fun gateway :: "node \<Rightarrow> u32" where
  "gateway Applesauce = node_ip Eth0"
| "gateway Cherrypie = node_ip Eth2"
| "gateway Dm42 = node_ip Uun3"
| "gateway Dm43 = node_ip Uun3"
| "gateway _ = 0"

fun node_name :: "node \<Rightarrow> string" where
  "node_name Applesauce = ''applesauce''"
| "node_name DefaultRouter = ''default_router''"
| "node_name Cherrypie = ''cherrypie''"
| "node_name HsRouter = ''hs_router''"
| "node_name Dm42 = ''dm42''"
| "node_name Dm43 = ''dm43''"
| "node_name _ = ''router''"

definition table_entry :: "u32 \<Rightarrow> u8 \<Rightarrow> address option \<Rightarrow> u64 \<Rightarrow> route_entry" where
  "table_entry p len next_hop i =
     \<lparr>rt_route_prefix = p, rt_prefix_length = len, rt_next_hop = next_hop, rt_interface_num = i\<rparr>"

definition TABLE :: "route_entry list" where
  "TABLE =
     [table_entry 0 0 (Some (Address (node_ip DefaultRouter) 0)) 0,
      table_entry 0x0A000000 8 None 1,
      table_entry 0xAC100000 16 None 2,
      table_entry 0xC0A80000 24 None 3,
      table_entry 0xC6B2E500 24 None 4,
      table_entry 0x8FC30000 17 (Some (Address (node_ip HsRouter) 0)) 5,
      table_entry 0x8FC38000 18 (Some (Address (node_ip HsRouter) 0)) 5,
      table_entry 0x8FC3C000 19 (Some (Address (node_ip HsRouter) 0)) 5,
      table_entry 0x801E4CFF 16 (Some (Address 0x801E0001 0)) 6]"

type_synonym interfaces = "node \<Rightarrow> async_network_interface"
type_synonym expectations = "node \<Rightarrow> ipv4_datagram list"

definition sim_host :: "interfaces \<Rightarrow> expectations \<Rightarrow> node \<Rightarrow> host" where
  "sim_host f E x =
     \<lparr>ho_name = node_name x, ho_my_address = Address (node_ip x) 0, ho_interface = f x,
      ho_next_hop = Address (gateway x) 0, ho_expecting_to_receive = E x\<rparr>"

definition hosts_of :: "interfaces \<Rightarrow> expectations \<Rightarrow> string \<Rightarrow> host option" where
  "hosts_of f E name = map_option (sim_host f E) (find (\<lambda>x. node_name x = name) host_nodes)"

definition router_of :: "interfaces \<Rightarrow> router" where
  "router_of f = \<lparr>ro_interfaces = map f ports, ro_routing_table = TABLE\<rparr>"

definition net_of :: "interfaces \<Rightarrow> expectations \<Rightarrow> sim_network" where
  "net_of f E = \<lparr>nw_router = router_of f, nw_default_id = 0, nw_eth0_id = 1, nw_eth1_id = 2,
     nw_eth2_id = 3, nw_uun3_id = 4, nw_hs4_id = 5, nw_mit5_id = 6, nw_hosts = hosts_of f E\<rparr>"

lemma node_name_inj: "x \<in> set host_nodes \<Longrightarrow> y \<in> set host_nodes \<Longrightarrow> node_name x = node_name y \<longleftrightarrow> x = y"
proof -
  have "distinct (map node_name host_nodes)" by code_simp
  then show "x \<in> set host_nodes \<Longrightarrow> y \<in> set host_nodes \<Longrightarrow> node_name x = node_name y \<longleftrightarrow> x = y"
    by (auto simp: distinct_map inj_on_def)
qed

lemma hosts_of_name [simp]:
  assumes "x \<in> set host_nodes"
  shows "hosts_of f E (node_name x) = Some (sim_host f E x)"
proof -
  obtain y where y: "find (\<lambda>y. node_name y = node_name x) host_nodes = Some y"
    using assms by (cases "find (\<lambda>y. node_name y = node_name x) host_nodes") (auto simp: find_None_iff)
  then have "y \<in> set host_nodes" "node_name y = node_name x" by (auto simp: find_Some_iff)
  then have "y = x" using node_name_inj [of y x] assms by simp
  then show ?thesis using y by (simp add: hosts_of_def)
qed

lemma hosts_of_cases: "hosts_of f E name = None \<or> (\<exists>x \<in> set host_nodes. name = node_name x)"
  by (cases "find (\<lambda>x. node_name x = name) host_nodes") (auto simp: hosts_of_def find_Some_iff)

lemma hosts_of_update:
  assumes "x \<in> set host_nodes"
  shows "(hosts_of f E)(node_name x \<mapsto> (sim_host f E x)\<lparr>ho_interface := ai, ho_expecting_to_receive := e\<rparr>)
    = hosts_of (f(x := ai)) (E(x := e))"
proof
  fix name
  show "((hosts_of f E)(node_name x \<mapsto> (sim_host f E x)\<lparr>ho_interface := ai, ho_expecting_to_receive := e\<rparr>)) name
    = hosts_of (f(x := ai)) (E(x := e)) name"
  proof (cases "name = node_name x")
    case True
    then show ?thesis using assms by (simp add: sim_host_def)
  next
    case False
    have "y \<noteq> x" if "find (\<lambda>y. node_name y = name) host_nodes = Some y" for y
      using that False by (auto simp: find_Some_iff)
    then show ?thesis using False
      by (cases "find (\<lambda>y. node_name y = name) host_nodes") (simp_all add: hosts_of_def sim_host_def)
  qed
qed

lemma nw_set_host_both:
  assumes "x \<in> set host_nodes"
  shows "nw_set_host (node_name x) ((sim_host f E x)\<lparr>ho_interface := ai, ho_expecting_to_receive := e\<rparr>)
      (net_of f E) = net_of (f(x := ai)) (E(x := e))"
proof -
  have "router_of (f(x := ai)) = router_of f"
    using assms by (auto simp: router_of_def ports_def host_nodes_def)
  then show ?thesis
    using hosts_of_update [OF assms, where f = f and E = E and ai = ai and e = e] by (simp add: nw_set_host_def net_of_def)
qed

lemma nw_set_host_net:
  assumes "x \<in> set host_nodes"
  shows "nw_set_host (node_name x) ((sim_host f E x)\<lparr>ho_interface := ai\<rparr>) (net_of f E) = net_of (f(x := ai)) E"
    and "nw_set_host (node_name x) ((sim_host f E x)\<lparr>ho_expecting_to_receive := e\<rparr>) (net_of f E)
      = net_of f (E(x := e))"
  using nw_set_host_both [OF assms, where f = f and E = E and ai = ai and e = "E x"]
    nw_set_host_both [OF assms, where f = f and E = E and ai = "f x" and e = e]
  by (simp_all add: sim_host_def)

lemma nw_hosts_net [simp]: "nw_hosts (net_of f E) = hosts_of f E"
  by (simp add: net_of_def)

lemma nw_host_net:
  assumes "x \<in> set host_nodes"
  shows "nw_host (node_name x) (net_of f E) = Inr (sim_host f E x)"
  using assms by (simp add: nw_host_def net_of_def) (simp add: sim_host_def)

section \<open>One round of the cables\<close>

text \<open>The number of a port.\<close>

fun port_id :: "node \<Rightarrow> u64" where
  "port_id Default = 0"
| "port_id Eth0 = 1"
| "port_id Eth1 = 2"
| "port_id Eth2 = 3"
| "port_id Uun3 = 4"
| "port_id Hs4 = 5"
| "port_id Mit5 = 6"
| "port_id _ = 7"

lemma port_nth: "p \<in> set ports \<Longrightarrow> unat (port_id p) < length ports \<and> ports ! unat (port_id p) = p"
  by (auto simp: ports_def)

lemma port_update:
  "p \<in> set ports \<Longrightarrow> (map f ports)[unat (port_id p) := ai] = map (f(p := ai)) ports"
  by (auto simp: ports_def)

lemma router_interface_net:
  "p \<in> set ports \<Longrightarrow> router_interface (port_id p) (nw_router (net_of f E)) = Inr (f p)"
  using port_nth [of p] by (simp add: router_interface_def net_of_def router_of_def)

lemma nw_set_interface_net:
  assumes "p \<in> set ports"
  shows "nw_set_interface (port_id p) ai (net_of f E) = net_of (f(p := ai)) E"
proof -
  have "hosts_of (f(p := ai)) E = hosts_of f E"
    using assms by (auto simp: hosts_of_def ports_def host_nodes_def sim_host_def)
  then show ?thesis
    using port_update [OF assms, of f ai] by (simp add: nw_set_interface_def net_of_def router_of_def)
qed

lemma port_not_host: "p \<in> set ports \<Longrightarrow> x \<in> set host_nodes \<Longrightarrow> p \<noteq> x"
  by (auto simp: ports_def host_nodes_def)

lemma exchange_with_net:
  assumes "p \<in> set ports" "x \<in> set host_nodes"
  shows "exchange_with (port_id p) (node_name x) (net_of f E) =
    (case exchange_frames (f p) (f x) of Inl e \<Rightarrow> Inl e
     | Inr (y, z) \<Rightarrow> Inr (net_of (f(p := y, x := z)) E))"
proof -
  have "sim_host f E x = sim_host (f(p := y)) E x" for y
    using port_not_host [OF assms] by (auto simp: sim_host_def)
  then show ?thesis
    using assms nw_set_host_net(1) [OF assms(2)]
    by (simp add: exchange_with_def router_interface_net nw_host_net nw_set_interface_net split: sum.split)
      (simp add: sim_host_def split: sum.split)
qed

lemma exchange_with2_net:
  assumes "p \<in> set ports" "x \<in> set host_nodes" "y \<in> set host_nodes" "x \<noteq> y"
  shows "exchange_with2 (port_id p) (node_name x) (node_name y) (net_of f E) =
    (case exchange_frames3 (f p) (f x) (f y) of Inl e \<Rightarrow> Inl e
     | Inr (u, v, w) \<Rightarrow> Inr (net_of (f(p := u, x := v, y := w)) E))"
proof -
  have x: "sim_host f E x = sim_host (f(p := u)) E x" for u
    using port_not_host [OF assms(1,2)] by (auto simp: sim_host_def)
  have y: "sim_host f E y = sim_host (f(p := u, x := v)) E y" for u v
    using port_not_host [OF assms(1,3)] assms(4) by (auto simp: sim_host_def)
  have set: "nw_set_host (node_name y) ((sim_host f E y)\<lparr>ho_interface := w\<rparr>)
      (nw_set_host (node_name x) ((sim_host f E x)\<lparr>ho_interface := v\<rparr>) (net_of (f(p := u)) E))
    = net_of (f(p := u, x := v, y := w)) E" for u v w
    unfolding x [of u] y [of u v] using assms nw_set_host_net(1) by simp
  show ?thesis
    using assms
    by (simp add: exchange_with2_def router_interface_net nw_host_net nw_set_interface_net
        sim_host_def [of f E, THEN arg_cong [where f = ho_interface]] set split: sum.split)
qed

text \<open>All five cables, in terms of the interfaces.\<close>

lemma simulate_physical_net:
  "simulate_physical_connections (net_of f E) =
     (case exchange_frames (f Default) (f DefaultRouter) of Inl e \<Rightarrow> Inl e | Inr (a, b) \<Rightarrow>
      case exchange_frames (f Eth0) (f Applesauce) of Inl e \<Rightarrow> Inl e | Inr (c, d) \<Rightarrow>
      case exchange_frames (f Eth2) (f Cherrypie) of Inl e \<Rightarrow> Inl e | Inr (g, h) \<Rightarrow>
      case exchange_frames (f Hs4) (f HsRouter) of Inl e \<Rightarrow> Inl e | Inr (i, j) \<Rightarrow>
      case exchange_frames3 (f Uun3) (f Dm42) (f Dm43) of Inl e \<Rightarrow> Inl e | Inr (k, l, m) \<Rightarrow>
        Inr (net_of (f(Default := a, DefaultRouter := b, Eth0 := c, Applesauce := d, Eth2 := g,
          Cherrypie := h, Hs4 := i, HsRouter := j, Uun3 := k, Dm42 := l, Dm43 := m)) E))"
proof -
  have ids: "nw_default_id (net_of f E) = 0" "nw_eth0_id (net_of f E) = 1"
    "nw_eth2_id (net_of f E) = 3" "nw_hs4_id (net_of f E) = 5" "nw_uun3_id (net_of f E) = 4" for f
    by (simp_all add: net_of_def)
  have mem: "Default \<in> set ports" "Eth0 \<in> set ports" "Eth2 \<in> set ports" "Hs4 \<in> set ports" "Uun3 \<in> set ports"
    "DefaultRouter \<in> set host_nodes" "Applesauce \<in> set host_nodes" "Cherrypie \<in> set host_nodes"
    "HsRouter \<in> set host_nodes" "Dm42 \<in> set host_nodes" "Dm43 \<in> set host_nodes" "Dm42 \<noteq> Dm43"
    by (simp_all add: ports_def host_nodes_def)
  note ex = exchange_with_net [OF mem(1) mem(6), simplified] exchange_with_net [OF mem(2) mem(7), simplified]
    exchange_with_net [OF mem(3) mem(8), simplified] exchange_with_net [OF mem(4) mem(9), simplified]
    exchange_with2_net [OF mem(5) mem(10) mem(11) mem(12), simplified]
  show ?thesis
    unfolding simulate_physical_connections_def ids ex
    by (auto simp: ids ex split: sum.split)
qed

text \<open>One interface talks, the others on its cable hear it, the rest of the network is unmoved.\<close>

definition heard :: "node \<Rightarrow> node list \<Rightarrow> interfaces \<Rightarrow> interfaces \<Rightarrow> interfaces" where
  "heard s c g f = (\<lambda>n. if n = s then mute (f s) else if n \<in> set c then g n else f n)"

lemma one_node_talks:
  assumes "c \<in> set cables" "s \<in> set c" "\<And>n. n \<noteq> s \<Longrightarrow> silent (f n)"
    and "\<And>n. n \<in> set c \<Longrightarrow> n \<noteq> s \<Longrightarrow> deliver (frames_out (f s)) (f n) = Inr (g n)"
  shows "simulate_physical_connections (net_of f E) = Inr (net_of (heard s c g f) E)"
proof -
  have same: "net_of F E = net_of G E" if "\<And>n. F n = G n" for F G
    using that by (metis ext)
  note rules = simulate_physical_net exchange_one_talks exchange3_one_talks
  consider "c = [Default, DefaultRouter]" "s = Default" | "c = [Default, DefaultRouter]" "s = DefaultRouter"
    | "c = [Eth0, Applesauce]" "s = Eth0" | "c = [Eth0, Applesauce]" "s = Applesauce"
    | "c = [Eth2, Cherrypie]" "s = Eth2" | "c = [Eth2, Cherrypie]" "s = Cherrypie"
    | "c = [Hs4, HsRouter]" "s = Hs4" | "c = [Hs4, HsRouter]" "s = HsRouter"
    | "c = [Uun3, Dm42, Dm43]" "s = Uun3" | "c = [Uun3, Dm42, Dm43]" "s = Dm42"
    | "c = [Uun3, Dm42, Dm43]" "s = Dm43"
    using assms(1,2) by (auto simp: cables_def)
  then show ?thesis
    by cases ((use assms(3,4) in \<open>simp add: rules\<close>, rule same, simp add: heard_def)+)
qed

section \<open>Rounds\<close>

definition cable_round :: "interfaces \<Rightarrow> interfaces \<Rightarrow> bool" where
  "cable_round f f' \<longleftrightarrow>
     (\<forall>E. simulate_physical_connections (net_of f E) = Inr (net_of f' E))"

definition routed :: "interfaces \<Rightarrow> interfaces \<Rightarrow> bool" where
  "routed f f' \<longleftrightarrow> route (router_of f) = Inr (router_of f') \<and> (\<forall>x \<in> set host_nodes. f' x = f x)"

definition no_input :: "interfaces \<Rightarrow> bool" where
  "no_input f \<longleftrightarrow> (\<forall>p \<in> set ports. ai_datagrams_out (f p) = [])"

text \<open>\<open>carries k f f'\<close>: \<open>k\<close> rounds lead from \<open>f\<close> to \<open>f'\<close>, with nothing for the router to do between
  them.\<close>

inductive carries :: "nat \<Rightarrow> interfaces \<Rightarrow> interfaces \<Rightarrow> bool" where
  one_round: "cable_round f f' \<Longrightarrow> carries 1 f f'"
| more_rounds: "cable_round f f' \<Longrightarrow> no_input f' \<Longrightarrow> carries k f' f'' \<Longrightarrow> carries (Suc k) f f''"

lemma hosts_of_cong:
  assumes "\<And>x. x \<in> set host_nodes \<Longrightarrow> f x = f' x"
  shows "hosts_of f E = hosts_of f' E"
proof
  fix name
  have "sim_host f E y = sim_host f' E y" if "find (\<lambda>x. node_name x = name) host_nodes = Some y" for y
    using that assms by (auto simp: sim_host_def find_Some_iff)
  then show "hosts_of f E name = hosts_of f' E name"
    by (cases "find (\<lambda>x. node_name x = name) host_nodes") (simp_all add: hosts_of_def)
qed

lemma routed_net:
  assumes "routed f f'"
  shows "route (nw_router (net_of f E)) = Inr (router_of f')"
    and "(net_of f E)\<lparr>nw_router := router_of f'\<rparr> = net_of f' E"
proof -
  have "hosts_of f E = hosts_of f' E"
    using assms by (intro hosts_of_cong) (simp add: routed_def)
  then show "(net_of f E)\<lparr>nw_router := router_of f'\<rparr> = net_of f' E" by (simp add: net_of_def)
  show "route (nw_router (net_of f E)) = Inr (router_of f')"
    using assms by (simp add: routed_def net_of_def)
qed

lemma simulate_one_round:
  assumes "routed f g" "cable_round g h"
  shows "simulate_rounds (Suc k) (net_of f E) = simulate_rounds k (net_of h E)"
  using assms by (simp add: routed_net [OF assms(1)] cable_round_def)

lemma route_from_idle: "\<forall>i \<in> set is. queue_at i r = [] \<Longrightarrow> route_from is r = Inr r"
  by (induction "is") (simp_all add: route_interface.simps)

lemma queue_at_router_of:
  "i < length ports \<Longrightarrow> queue_at i (router_of f) = ai_datagrams_out (f (ports ! i))"
  by (simp add: queue_at_def router_of_def)

lemma no_input_routed: "no_input f \<Longrightarrow> routed f f"
  using route_from_idle [of "[0..<length ports]" "router_of f"]
  by (simp add: routed_def route_def no_input_def queue_at_router_of)
    (simp add: router_of_def)

lemma carries_rounds:
  assumes "carries k f f'" "routed g f"
  shows "simulate_rounds (k + m) (net_of g E) = simulate_rounds m (net_of f' E)"
  using assms
proof (induction arbitrary: g rule: carries.induct)
  case (one_round f f')
  then show ?case by (simp add: simulate_one_round del: simulate_rounds.simps)
next
  case (more_rounds f f' k f'')
  have "simulate_rounds (Suc k + m) (net_of g E) = simulate_rounds (k + m) (net_of f' E)"
    using simulate_one_round [OF more_rounds.prems more_rounds.hyps(1)] by simp
  also have "\<dots> = simulate_rounds m (net_of f'' E)"
    by (rule more_rounds.IH [OF no_input_routed [OF more_rounds.hyps(2)]])
  finally show ?case .
qed

lemma idle_rounds:
  assumes "no_input f" "\<And>n. silent (f n)"
  shows "simulate_rounds k (net_of f E) = Inr (net_of f E)"
proof -
  have "heard Default [Default, DefaultRouter] f f = f"
    by (rule ext) (simp add: heard_def assms(2))
  then have "cable_round f f"
    using one_node_talks [of "[Default, DefaultRouter]" Default f f] assms(2)
    by (simp add: cable_round_def cables_def)
  then show ?thesis
    by (induction k) (simp_all add: simulate_one_round [OF no_input_routed [OF assms(1)]] del: simulate_rounds.simps(2))
qed

section \<open>The router forwards one datagram\<close>

lemma route_from_append:
  "route_from (is @ js) r = (case route_from is r of Inl e \<Rightarrow> Inl e | Inr r' \<Rightarrow> route_from js r')"
  by (induction "is" arbitrary: r) (auto split: sum.split)

lemma route_single:
  assumes "i < length (ro_interfaces r)" "queue_at i r = [d]" "\<And>j. j \<noteq> i \<Longrightarrow> queue_at j r = []"
    and "route_one_datagram d r = Inr r'"
  shows "route r = Inr (pop_queue i r')"
proof -
  let ?n = "length (ro_interfaces r)"
  have split: "[0..<?n] = [0..<i] @ i # [Suc i..<?n]"
    using assms(1) by (metis le_add1 less_imp_le_nat upt_conv_Cons upt_add_eq_append add_0 le_add_diff_inverse)
  have idle: "queue_at j (pop_queue i r') = []" for j
    using queue_at_route_one [OF assms(4)] assms(2,3) by (cases "j = i") (simp_all add: queue_at_pop queue_at_pop_other)
  have "route_interface i r = Inr (pop_queue i r')"
    using assms(2,4) idle [of i] by (simp add: route_interface.simps [of i r] route_interface.simps [of i "pop_queue i r'"])
  moreover have "route_from [0..<i] r = Inr r"
    using assms(3) by (intro route_from_idle) simp
  ultimately show ?thesis
    unfolding route_def split using route_from_idle [of "[Suc i..<?n]" "pop_queue i r'"] idle
    by (simp add: route_from_append)
qed

definition empty_input :: "async_network_interface \<Rightarrow> async_network_interface" where
  "empty_input ai = ai\<lparr>ai_datagrams_out := []\<rparr>"

definition with_interface :: "network_interface \<Rightarrow> async_network_interface \<Rightarrow> async_network_interface" where
  "with_interface ni ai = ai\<lparr>ai_interface := ni\<rparr>"

lemma pop_queue_router_of:
  assumes "p \<in> set ports" "ai_datagrams_out (f p) = [d]"
  shows "pop_queue (unat (port_id p)) (router_of f) = router_of (f(p := empty_input (f p)))"
  using port_update [OF assms(1), of f] port_nth [OF assms(1)] assms(2)
  by (simp add: pop_queue_def router_of_def empty_input_def)

definition only_input :: "node \<Rightarrow> ipv4_datagram \<Rightarrow> interfaces \<Rightarrow> bool" where
  "only_input p d f \<longleftrightarrow> (\<forall>n \<in> set ports. ai_datagrams_out (f n) = (if n = p then [d] else []))"

lemma only_input_queues:
  assumes "only_input p d f" "p \<in> set ports"
  shows "queue_at (unat (port_id p)) (router_of f) = [d]"
    "j \<noteq> unat (port_id p) \<Longrightarrow> queue_at j (router_of f) = []"
proof -
  show "queue_at (unat (port_id p)) (router_of f) = [d]"
    using assms port_nth [OF assms(2)] by (simp add: queue_at_router_of only_input_def)
  assume j: "j \<noteq> unat (port_id p)"
  have "distinct ports" by (simp add: ports_def)
  then have "ports ! j \<noteq> p" if "j < length ports"
    using that j port_nth [OF assms(2)] by (metis nth_eq_iff_index_eq)
  then show "queue_at j (router_of f) = []"
    using assms(1) by (cases "j < length ports") (simp_all add: queue_at_router_of only_input_def queue_at_def router_of_def)
qed

lemma routed_dropped:
  assumes "only_input p d f" "p \<in> set ports" "ih_ttl (id_header d) \<le> 1"
  shows "routed f (f(p := empty_input (f p)))"
proof -
  have "route (router_of f) = Inr (pop_queue (unat (port_id p)) (router_of f))"
    using assms(3) port_nth [OF assms(2)] only_input_queues [OF assms(1,2)]
    by (intro route_single [where d = d]) (simp_all add: route_one_datagram_def router_of_def)
  then show ?thesis
    using assms(1,2) port_not_host [OF assms(2)] pop_queue_router_of [of p f d]
    by (auto simp: routed_def only_input_def)
qed

lemma routed_forwarded:
  assumes "only_input p d f" "p \<in> set ports" "1 < ih_ttl (id_header d)"
    and "lpm_loop (ih_dst (id_header d)) TABLE 0 0 (- 1) = Inr (int b)"
    and "rt_interface_num (TABLE ! b) = port_id q" "q \<in> set ports"
    and "send_datagram (hop d) (next_hop_of (ih_dst (id_header d)) (TABLE ! b)) (ai_interface (f q)) = Inr ni"
  shows "routed f (f(p := empty_input (f p), q := with_interface ni ((f(p := empty_input (f p))) q)))"
proof -
  let ?g = "f(q := with_interface ni (f q))"
  define G where "G = f(p := empty_input (f p), q := with_interface ni ((f(p := empty_input (f p))) q))"
  have "route_one_datagram d (router_of f) = send_on (port_id q) (hop d)
      (next_hop_of (ih_dst (id_header d)) (TABLE ! b)) (router_of f)"
    using assms(4,5) assms(3) [folded not_le]
    by (simp add: route_one_datagram_def router_of_def hop_def next_hop_of_def Let_def split: option.split)
  also have "\<dots> = Inr (router_of ?g)"
    using port_nth [OF assms(6)] port_update [OF assms(6), of f] assms(7)
    by (simp add: send_on_def router_of_def with_interface_def)
  finally have "route (router_of f) = Inr (pop_queue (unat (port_id p)) (router_of ?g))"
    using port_nth [OF assms(2)] only_input_queues [OF assms(1,2)]
    by (intro route_single [where d = d]) (simp_all add: router_of_def)
  also have "pop_queue (unat (port_id p)) (router_of ?g) = router_of (?g(p := empty_input (?g p)))"
    using assms(1,2) by (intro pop_queue_router_of [where d = d]) (auto simp: only_input_def with_interface_def)
  also have "?g(p := empty_input (?g p)) = G"
    unfolding G_def by (rule ext) (simp add: empty_input_def with_interface_def)
  finally have "route (router_of f) = Inr (router_of G)" .
  moreover have "G x = f x" if "x \<in> set host_nodes" for x
    using port_not_host [OF assms(2) that] port_not_host [OF assms(6) that] by (simp add: G_def)
  ultimately have "routed f G" by (simp add: routed_def)
  then show ?thesis unfolding G_def .
qed

section \<open>ARP messages, seen from both ends\<close>

abbreviation learnt :: "network_interface \<Rightarrow> network_interface \<Rightarrow> network_interface" where
  "learnt a n \<equiv> n\<lparr>ni_arp_cache := sm_assign (ipv4_numeric (ni_ip_address a))
     (ni_ethernet_address a, ARP_CACHE_TIMEOUT) (ni_arp_cache n)\<rparr>"

lemma opcodes_differ: "OPCODE_REPLY \<noteq> OPCODE_REQUEST"
  by (simp add: OPCODE_REPLY_def OPCODE_REQUEST_def)

lemma request_fields:
  "arp_opcode (arp_request_for addr a) = OPCODE_REQUEST"
  "arp_target_ip_address (arp_request_for addr a) = addr"
  "arp_sender_ip_address (arp_request_for addr a) = ipv4_numeric (ni_ip_address a)"
  "arp_sender_ethernet_address (arp_request_for addr a) = ni_ethernet_address a"
  by (simp_all add: arp_request_for_def)

lemma reply_fields:
  "arp_opcode (arp_reply_to m b) = OPCODE_REPLY"
  "arp_sender_ip_address (arp_reply_to m b) = ipv4_numeric (ni_ip_address b)"
  "arp_sender_ethernet_address (arp_reply_to m b) = ni_ethernet_address b"
  by (simp_all add: arp_reply_to_def)

lemma request_for_us:
  assumes "addr = ipv4_numeric (ni_ip_address n)"
  shows "\<exists>f. recv_arp (arp_request_for addr a) n = Inr (ni_push_frame f (learnt a n))
    \<and> arp_frame (ni_ethernet_address a) (arp_reply_to (arp_request_for addr a) n) n = Inr f"
proof -
  obtain f where f: "arp_frame (ni_ethernet_address a) (arp_reply_to (arp_request_for addr a) n) n = Inr f"
    using arp_frame_total [OF arp_supported_reply] by blast
  have "arp_frame (ni_ethernet_address a) (arp_reply_to (arp_request_for addr a) (learnt a n)) (learnt a n) = Inr f"
    using f by (simp add: arp_frame_def arp_reply_to_def split: sum.splits)
  then show ?thesis using f assms by (simp add: recv_arp_def Let_def request_fields)
qed

lemma request_for_other:
  "addr \<noteq> ipv4_numeric (ni_ip_address n) \<Longrightarrow> recv_arp (arp_request_for addr a) n = Inr (learnt a n)"
  using opcodes_differ by (simp add: recv_arp_def Let_def request_fields)

lemma reply_releases:
  assumes "ni_pending_datagrams n = [(ipv4_numeric (ni_ip_address b), [d])]"
    "ni_arp_requests n = [(ipv4_numeric (ni_ip_address b), t)]" "ipv4_frame (ni_ethernet_address b) d n = Inr f"
  shows "recv_arp (arp_reply_to m b) n = Inr ((ni_push_frame f (learnt b n))
    \<lparr>ni_pending_datagrams := [], ni_arp_requests := []\<rparr>)"
proof -
  have "ipv4_frame (ni_ethernet_address b) d ((learnt b n)\<lparr>ni_arp_requests := []\<rparr>) = Inr f"
    using assms(3) by (simp add: ipv4_frame_def split: sum.splits)
  then show ?thesis
    using assms(1,2) opcodes_differ
    by (simp add: recv_arp_def Let_def reply_fields sm_erase_def ni_push_frame_def)
qed

section \<open>Networks at rest\<close>

text \<open>
  \<open>M\<close> gives every node its Ethernet address. A node at rest has nothing to send and nobody to
  wait for, and what it has learnt about the nodes on its cable is right.
\<close>

type_synonym addressing = "node \<Rightarrow> ethernet_address"

definition knows :: "addressing \<Rightarrow> node \<Rightarrow> (u32, ethernet_address \<times> u64) std_map \<Rightarrow> bool" where
  "knows M n cache \<longleftrightarrow> (\<forall>c \<in> set cables. n \<in> set c \<longrightarrow> (\<forall>b \<in> set c. b \<noteq> n \<longrightarrow>
     (\<forall>e t. sm_find (node_ip b) cache = Some (e, t) \<longrightarrow> e = M b)))"

definition is_node :: "addressing \<Rightarrow> node \<Rightarrow> network_interface \<Rightarrow> bool" where
  "is_node M n ni \<longleftrightarrow> ni_ethernet_address ni = M n \<and> ni_ip_address ni = Address (node_ip n) 0
     \<and> sm_ok (ni_arp_cache ni) \<and> knows M n (ni_arp_cache ni)"

definition at_rest :: "addressing \<Rightarrow> node \<Rightarrow> async_network_interface \<Rightarrow> bool" where
  "at_rest M n ai \<longleftrightarrow> is_node M n (ai_interface ai) \<and> silent ai
     \<and> ni_pending_datagrams (ai_interface ai) = [] \<and> ni_arp_requests (ai_interface ai) = []
     \<and> ai_datagrams_out ai = []"

definition settled :: "addressing \<Rightarrow> interfaces \<Rightarrow> bool" where
  "settled M f \<longleftrightarrow> (\<forall>n. at_rest M n (f n))"

lemma node_ip_inj: "node_ip x = node_ip y \<longleftrightarrow> x = y"
proof -
  have "distinct (map node_ip (ports @ host_nodes))" by code_simp
  then have "inj_on node_ip (set (ports @ host_nodes))" by (simp only: distinct_map)
  moreover have "z \<in> set (ports @ host_nodes)" for z
    by (cases z) (simp_all add: ports_def host_nodes_def)
  ultimately show ?thesis by (metis inj_on_eq_iff)
qed

lemma is_node_learns:
  assumes "is_node M n ni" "is_node M b nb"
  shows "is_node M n (learnt nb ni)"
  using assms by (auto simp: is_node_def knows_def sm.assign_ok sm.find_assign node_ip_inj split: if_splits)

lemma is_node_frame:
  "is_node M n (ni\<lparr>ni_frames_out := x, ni_pending_datagrams := y, ni_arp_requests := z\<rparr>) = is_node M n ni"
  "is_node M n (ni\<lparr>ni_frames_out := x\<rparr>) = is_node M n ni"
  "is_node M n (ni\<lparr>ni_pending_datagrams := y, ni_arp_requests := z\<rparr>) = is_node M n ni"
  "is_node M n (ni_push_frame f ni) = is_node M n ni"
  by (simp_all add: is_node_def)

section \<open>A datagram crosses a cable\<close>

lemma talk_round:
  assumes "c \<in> set cables" "s \<in> set c" "\<And>n. n \<noteq> s \<Longrightarrow> silent (f n)" "f' s = mute (f s)"
    and "\<And>n. n \<in> set c \<Longrightarrow> n \<noteq> s \<Longrightarrow> deliver (frames_out (f s)) (f n) = Inr (f' n)"
    and "\<And>n. n \<notin> set c \<Longrightarrow> f' n = f n"
  shows "cable_round f f'"
proof -
  have "heard s c f' f = f'" using assms(2,4,6) by (auto simp: heard_def)
  then show ?thesis
    using one_node_talks [where f = f and g = f', OF assms(1-3,5)] by (simp add: cable_round_def)
qed

abbreviation mac :: "async_network_interface \<Rightarrow> ethernet_address" where
  "mac ai \<equiv> ni_ethernet_address (ai_interface ai)"

text \<open>A frame for one of the nodes: the reply to a request, a datagram.\<close>

lemma unicast_round:
  assumes "c \<in> set cables" "s \<in> set c" "t \<in> set c" "s \<noteq> t" "\<And>n. n \<noteq> s \<Longrightarrow> silent (f n)"
    and "frames_out (f s) = [fr]" "deliver [fr] (f t) = Inr y"
    and "\<And>n. n \<in> set c \<Longrightarrow> n \<noteq> s \<Longrightarrow> n \<noteq> t \<Longrightarrow> \<not> hears (f n) (eh_dst (ef_header fr))"
  shows "cable_round f (f(s := mute (f s), t := y))"
  using assms by (intro talk_round [of c s]) (auto simp: not_for_us)

lemma datagram_round:
  assumes "c \<in> set cables" "s \<in> set c" "t \<in> set c" "s \<noteq> t" "\<And>n. n \<noteq> s \<Longrightarrow> silent (f n)"
    and "frames_out (f s) = [fr]" "ipv4_frame (mac (f t)) d ni = Inr fr" "sendable d"
    and "\<And>n. n \<in> set c \<Longrightarrow> n \<noteq> s \<Longrightarrow> n \<noteq> t \<Longrightarrow> \<not> hears (f n) (mac (f t))"
    and "ai_datagrams_out (f t) = []"
  shows "\<exists>d'. same_datagram d d'
    \<and> cable_round f (f(s := mute (f s), t := (f t)\<lparr>ai_datagrams_out := [d']\<rparr>))"
proof -
  obtain d' where "same_datagram d d'" "deliver [fr] (f t) = Inr ((f t)\<lparr>ai_datagrams_out := [d']\<rparr>)"
    using ipv4_frame_arrives(2) [OF assms(7,8), of "f t"] assms(10) by auto
  then show ?thesis
    using unicast_round [where f = f, OF assms(1-6)] assms(9) arp_frame_header(2) [OF assms(7)] by auto
qed

text \<open>The request is heard by all and answered by one.\<close>

lemma request_round:
  assumes "c \<in> set cables" "s \<in> set c" "t \<in> set c" "s \<noteq> t" "\<And>n. n \<noteq> s \<Longrightarrow> silent (f n)"
    and "frames_out (f s) = [q]"
    and "arp_frame ETHERNET_BROADCAST (arp_request_for (ipv4_numeric (ni_ip_address (ai_interface (f t)))) a) ni
      = Inr q"
    and "\<And>n. n \<noteq> t \<Longrightarrow> ipv4_numeric (ni_ip_address (ai_interface (f n)))
      \<noteq> ipv4_numeric (ni_ip_address (ai_interface (f t)))"
  shows "\<exists>p. arp_frame (ni_ethernet_address a)
      (arp_reply_to (arp_request_for (ipv4_numeric (ni_ip_address (ai_interface (f t)))) a) (ai_interface (f t)))
      (ai_interface (f t)) = Inr p
    \<and> cable_round f (\<lambda>n. if n = s then mute (f s) else if n \<in> set c then with_interface
        (if n = t then ni_push_frame p (learnt a (ai_interface (f t))) else learnt a (ai_interface (f n))) (f n)
      else f n)"
proof -
  let ?req = "arp_request_for (ipv4_numeric (ni_ip_address (ai_interface (f t)))) a"
  obtain p where p: "recv_arp ?req (ai_interface (f t)) = Inr (ni_push_frame p (learnt a (ai_interface (f t))))"
    "arp_frame (ni_ethernet_address a) (arp_reply_to ?req (ai_interface (f t))) (ai_interface (f t)) = Inr p"
    using request_for_us [OF refl] by blast
  have "recv_arp ?req (ai_interface (f n)) = Inr (learnt a (ai_interface (f n)))" if "n \<noteq> t" for n
    using assms(8) [OF that] by (intro request_for_other) simp
  then have "deliver [q] (f n) = Inr (with_interface
      (if n = t then ni_push_frame p (learnt a (ai_interface (f t))) else learnt a (ai_interface (f n))) (f n))" for n
    using p(1) arp_frame_arrives [OF assms(7) arp_supported_request, of "f n"]
    by (cases "n = t") (simp_all add: with_interface_def)
  then have "cable_round f (\<lambda>n. if n = s then mute (f s) else if n \<in> set c then with_interface
        (if n = t then ni_push_frame p (learnt a (ai_interface (f t))) else learnt a (ai_interface (f n))) (f n)
      else f n)"
    using assms(1,2,5,6) by (intro talk_round [of c s]) auto
  with p(2) show ?thesis by blast
qed

lemma at_restD:
  assumes "settled M f"
  shows "mac (f n) = M n" "ni_ip_address (ai_interface (f n)) = Address (node_ip n) 0"
    "is_node M n (ai_interface (f n))" "silent (f n)" "ni_pending_datagrams (ai_interface (f n)) = []"
    "ni_arp_requests (ai_interface (f n)) = []" "ai_datagrams_out (f n) = []"
  using assms by (simp_all add: settled_def at_rest_def is_node_def)

text \<open>The third node of a shared cable is to be told apart from the two that talk.\<close>

definition apart :: "addressing \<Rightarrow> node list \<Rightarrow> node \<Rightarrow> node \<Rightarrow> bool" where
  "apart M c s t \<longleftrightarrow> (\<forall>n \<in> set c - {s, t}. M n \<noteq> M t \<and> M t \<noteq> ETHERNET_BROADCAST
     \<and> M n \<noteq> M s \<and> M s \<noteq> ETHERNET_BROADCAST)"

text \<open>When the address is known, the datagram goes out at once and arrives in one round.\<close>

lemma crosses_known:
  assumes "settled M f" "c \<in> set cables" "s \<in> set c" "t \<in> set c" "s \<noteq> t" "sendable d" "apart M c s t"
    and known: "sm_find (node_ip t) (ni_arp_cache (ai_interface (f s))) = Some entry"
  shows "\<exists>ni d'. send_datagram d (Address (node_ip t) 0) (ai_interface (f s)) = Inr ni
    \<and> cable_round (f(s := with_interface ni (f s))) (f(t := (f t)\<lparr>ai_datagrams_out := [d']\<rparr>))
    \<and> same_datagram d d'"
proof -
  note node = at_restD [OF assms(1)]
  have "fst entry = M t"
    using node(3) [of s] known assms(2-5) by (cases entry) (auto simp: is_node_def knows_def)
  moreover obtain fr where fr: "ipv4_frame (M t) d (ai_interface (f s)) = Inr fr"
    using ipv4_frame_total [OF assms(6)] by blast
  ultimately have send: "send_datagram d (Address (node_ip t) 0) (ai_interface (f s))
      = Inr (ni_push_frame fr (ai_interface (f s)))"
    using known by (cases entry) (simp add: send_datagram_def)
  let ?f = "f(s := with_interface (ni_push_frame fr (ai_interface (f s))) (f s))"
  have "\<exists>d'. same_datagram d d'
    \<and> cable_round ?f (?f(s := mute (?f s), t := (?f t)\<lparr>ai_datagrams_out := [d']\<rparr>))"
    using fr node assms(5-7)
    by (intro datagram_round [OF assms(2-5), where fr = fr and ni = "ai_interface (f s)"])
      (auto simp: with_interface_def apart_def)
  then obtain d' where "same_datagram d d'"
    "cable_round ?f (?f(s := mute (?f s), t := (?f t)\<lparr>ai_datagrams_out := [d']\<rparr>))" by blast
  moreover have "mute (?f s) = f s"
    using node(4) [of s] by (cases "f s"; cases "ai_interface (f s)")
      (simp add: mute_def with_interface_def ni_push_frame_def)
  ultimately show ?thesis using send assms(5) by (auto simp: fun_upd_twist)
qed

text \<open>
  When it is not, three rounds are needed. What the sender asks for, and what becomes of the
  interfaces in each round.
\<close>

definition asking :: "ethernet_frame list \<Rightarrow> node \<Rightarrow> ipv4_datagram \<Rightarrow> network_interface \<Rightarrow> network_interface" where
  "asking frames t d ni = ni\<lparr>ni_frames_out := frames, ni_pending_datagrams := [(node_ip t, [d])],
     ni_arp_requests := [(node_ip t, ARP_REQUEST_TIMEOUT)]\<rparr>"

lemma send_asks:
  assumes "settled M f" "sm_find (node_ip t) (ni_arp_cache (ai_interface (f s))) = None"
  shows "\<exists>q. arp_frame ETHERNET_BROADCAST (arp_request_for (node_ip t) (ai_interface (f s))) (ai_interface (f s)) = Inr q
    \<and> send_datagram d (Address (node_ip t) 0) (ai_interface (f s)) = Inr (asking [q] t d (ai_interface (f s)))"
proof -
  let ?ni = "ai_interface (f s)"
  obtain q where q: "arp_frame ETHERNET_BROADCAST (arp_request_for (node_ip t) ?ni) ?ni = Inr q"
    using arp_frame_total [OF arp_supported_request] by blast
  have same: "arp_request_for (node_ip t) (?ni\<lparr>ni_pending_datagrams := m\<rparr>) = arp_request_for (node_ip t) ?ni"
    "arp_frame dst msg (?ni\<lparr>ni_pending_datagrams := m\<rparr>) = arp_frame dst msg ?ni" for m dst msg
    by (simp_all add: arp_request_for_def arp_frame_def split: sum.split)
  show ?thesis
    using assms(2) q at_restD [OF assms(1), of s]
    by (simp add: send_datagram_def Let_def same asking_def ni_push_frame_def sm_push_def)
qed

lemma crosses_unknown:
  assumes "settled M f" "c \<in> set cables" "s \<in> set c" "t \<in> set c" "s \<noteq> t" "sendable d" "apart M c s t"
    and unknown: "sm_find (node_ip t) (ni_arp_cache (ai_interface (f s))) = None"
  shows "\<exists>ni h d'. send_datagram d (Address (node_ip t) 0) (ai_interface (f s)) = Inr ni
    \<and> carries 3 (f(s := with_interface ni (f s))) (h(t := (h t)\<lparr>ai_datagrams_out := [d']\<rparr>))
    \<and> settled M h \<and> same_datagram d d'"
proof -
  let ?n = "\<lambda>x. ai_interface (f x)"
  note node = at_restD [OF assms(1)]
  note upd = with_interface_def asking_def mute_def
  obtain q where q: "arp_frame ETHERNET_BROADCAST (arp_request_for (node_ip t) (?n s)) (?n s) = Inr q"
    and send: "send_datagram d (Address (node_ip t) 0) (?n s) = Inr (asking [q] t d (?n s))"
    using send_asks [OF assms(1) unknown] by blast
  define f1 where "f1 = f(s := with_interface (asking [q] t d (?n s)) (f s))"
  have ft: "f1 t = f t" using assms(5) by (simp add: f1_def)
  have talk: "silent (f1 n)" if "n \<noteq> s" for n using that node(4) by (simp add: f1_def)
  have "frames_out (f1 s) = [q]" by (simp add: f1_def upd)
  moreover have "arp_frame ETHERNET_BROADCAST
      (arp_request_for (ipv4_numeric (ni_ip_address (ai_interface (f1 t)))) (?n s)) (?n s) = Inr q"
    using q by (simp add: ft node)
  moreover have "ipv4_numeric (ni_ip_address (ai_interface (f1 n)))
      \<noteq> ipv4_numeric (ni_ip_address (ai_interface (f1 t)))" if "n \<noteq> t" for n
    using that assms(5) by (simp add: f1_def upd node node_ip_inj)
  ultimately obtain p where "arp_frame (mac (f s))
      (arp_reply_to (arp_request_for (ipv4_numeric (ni_ip_address (ai_interface (f1 t)))) (?n s)) (ai_interface (f1 t)))
      (ai_interface (f1 t)) = Inr p"
    and r1: "cable_round f1 (\<lambda>n. if n = s then mute (f1 s) else if n \<in> set c then with_interface
        (if n = t then ni_push_frame p (learnt (?n s) (ai_interface (f1 t))) else learnt (?n s) (ai_interface (f1 n))) (f1 n)
      else f1 n)"
    using request_round [where f = f1 and q = q, OF assms(2-5) talk] by blast
  then have p: "arp_frame (M s) (arp_reply_to (arp_request_for (node_ip t) (?n s)) (?n t)) (?n t) = Inr p"
    by (simp add: ft node)
  define f2 where "f2 = (\<lambda>n. if n = s then mute (f1 s) else if n \<in> set c then with_interface
        (if n = t then ni_push_frame p (learnt (?n s) (ai_interface (f1 t))) else learnt (?n s) (ai_interface (f1 n))) (f1 n)
      else f1 n)"
  note f2 = f2_def ft
  let ?asking = "asking [] t d (?n s)"
  obtain fr where fr: "ipv4_frame (M t) d ?asking = Inr fr"
    using ipv4_frame_total [OF assms(6)] by blast
  define n3 where "n3 = (ni_push_frame fr (learnt (?n t) ?asking))
    \<lparr>ni_pending_datagrams := [], ni_arp_requests := []\<rparr>"
  have "recv_arp (arp_reply_to (arp_request_for (node_ip t) (?n s)) (?n t)) ?asking = Inr n3"
    unfolding n3_def using fr node(1,2) [of t] by (intro reply_releases) (simp_all add: upd)
  moreover have f2s: "f2 s = with_interface ?asking (f s)" "mac (f s) = M s"
    using node(1) by (simp_all add: f2 f1_def upd)
  ultimately have "deliver [p] (f2 s) = Inr (with_interface n3 (f s))"
    using arp_frame_arrives [OF p arp_supported_reply, of "f2 s"] by (simp add: upd)
  then have r2: "cable_round f2 (f2(t := mute (f2 t), s := with_interface n3 (f s)))"
    using assms(2-5,7) node f2s arp_frame_header(1) [OF p]
    by (intro unicast_round [of c t s f2 p]) (auto simp: f2 f1_def upd apart_def)
  define f3 where "f3 = f2(t := mute (f2 t), s := with_interface n3 (f s))"
  have f3: "f3 s = with_interface n3 (f s)" "f3 t = with_interface (learnt (?n s) (?n t)) (f t)"
    "n \<noteq> s \<Longrightarrow> n \<noteq> t \<Longrightarrow> f3 n = (if n \<in> set c then with_interface (learnt (?n s) (?n n)) (f n) else f n)" for n
    using assms(4,5) node(4) [of t] by (auto simp: f3_def f2 f1_def upd ni_push_frame_def)
  have silent3: "silent (f3 n)" if "n \<noteq> s" for n
    using that node(4) f3(3) [of n] by (cases "n = t") (simp_all add: f3(2) upd)
  have mac3: "mac (f3 n) = M n" if "n \<noteq> s" for n
    using that node(1) f3(3) [of n] by (cases "n = t") (simp_all add: f3(2) upd)
  have "\<exists>d'. same_datagram d d'
    \<and> cable_round f3 (f3(s := mute (f3 s), t := (f3 t)\<lparr>ai_datagrams_out := [d']\<rparr>))"
    using fr node(7) assms(5-7)
    by (intro datagram_round [OF assms(2-5), where fr = fr and ni = ?asking])
      (auto simp: silent3 mac3 node(1) apart_def f3(1,2) n3_def upd)
  then obtain d' where d': "same_datagram d d'"
    and r3: "cable_round f3 (f3(s := mute (f3 s), t := (f3 t)\<lparr>ai_datagrams_out := [d']\<rparr>))" by blast
  define h where "h = f3(s := mute (f3 s))"
  have arrived: "h(t := (h t)\<lparr>ai_datagrams_out := [d']\<rparr>)
      = f3(s := mute (f3 s), t := (f3 t)\<lparr>ai_datagrams_out := [d']\<rparr>)"
    using assms(5) by (simp add: h_def)
  have quiet2: "ai_datagrams_out (f2 n) = []" for n by (simp add: f2_def f1_def upd node(7))
  have quiet: "no_input f2" "no_input f3" by (simp_all add: no_input_def f3_def quiet2 upd node(7))
  have "carries 3 f1 (h(t := (h t)\<lparr>ai_datagrams_out := [d']\<rparr>))"
    unfolding numeral_3_eq_3 arrived using r1 [folded f2_def] r2 [folded f3_def] r3 quiet
    by (intro more_rounds one_round [unfolded One_nat_def])
  moreover have "at_rest M n (h n)" for n
  proof -
    have rest: "at_rest M x (with_interface ni (f x))"
      if "is_node M x ni" "ni_frames_out ni = []" "ni_pending_datagrams ni = []" "ni_arp_requests ni = []" for x ni
      using that node(7) [of x] by (simp add: at_rest_def with_interface_def)
    have "is_node M s ?asking" using node(3) [of s] by (simp add: asking_def is_node_def)
    from is_node_learns [OF this node(3) [of t]] have "is_node M s (n3\<lparr>ni_frames_out := []\<rparr>)"
      unfolding n3_def is_node_frame by (simp add: is_node_def)
    then have "at_rest M s (with_interface (n3\<lparr>ni_frames_out := []\<rparr>) (f s))"
      by (rule rest) (simp_all add: n3_def)
    moreover have "h s = with_interface (n3\<lparr>ni_frames_out := []\<rparr>) (f s)"
      by (simp add: h_def f3(1) mute_def with_interface_def)
    moreover have learns: "at_rest M x (with_interface (learnt (?n s) (?n x)) (f x))" for x
      by (rule rest [OF is_node_learns [OF node(3) node(3)]]) (simp_all add: node)
    moreover have "h x = (if x \<in> set c then with_interface (learnt (?n s) (?n x)) (f x) else f x)" if "x \<noteq> s" for x
      using that f3(2) f3(3) [of x] assms(4) by (cases "x = t") (simp_all add: h_def)
    ultimately show ?thesis using assms(1) by (cases "n = s") (simp_all add: settled_def)
  qed
  ultimately show ?thesis using send d' unfolding f1_def settled_def by blast
qed

lemma datagram_crosses:
  assumes "settled M f" "c \<in> set cables" "s \<in> set c" "t \<in> set c" "s \<noteq> t" "sendable d" "apart M c s t"
  shows "\<exists>ni k h d'. send_datagram d (Address (node_ip t) 0) (ai_interface (f s)) = Inr ni \<and> k \<le> 3
    \<and> carries k (f(s := with_interface ni (f s))) (h(t := (h t)\<lparr>ai_datagrams_out := [d']\<rparr>))
    \<and> settled M h \<and> same_datagram d d'"
proof (cases "sm_find (node_ip t) (ni_arp_cache (ai_interface (f s)))")
  case None
  with crosses_unknown [OF assms] show ?thesis by (meson le_refl)
next
  case (Some entry)
  then obtain ni d' where "send_datagram d (Address (node_ip t) 0) (ai_interface (f s)) = Inr ni"
    "cable_round (f(s := with_interface ni (f s))) (f(t := (f t)\<lparr>ai_datagrams_out := [d']\<rparr>))"
    "same_datagram d d'"
    using crosses_known [OF assms] by blast
  then show ?thesis
    using assms(1) by (intro exI [of _ ni] exI [of _ 1] exI [of _ f] exI [of _ d']) (simp add: one_round [unfolded One_nat_def])
qed

section \<open>A datagram crosses the network\<close>

lemma settled_no_input: "settled M f \<Longrightarrow> no_input f"
  by (simp add: no_input_def at_restD)

lemma settled_idle:
  assumes "settled M f" "x \<in> set host_nodes"
  shows "simulate_rounds k (net_of (f(x := (f x)\<lparr>ai_datagrams_out := q\<rparr>)) E)
    = Inr (net_of (f(x := (f x)\<lparr>ai_datagrams_out := q\<rparr>)) E)"
    "simulate_rounds k (net_of f E) = Inr (net_of f E)"
  using assms port_not_host [of _ x]
  by (intro idle_rounds; force simp: no_input_def at_restD)+

lemma sender_no_input: "settled M f \<Longrightarrow> no_input (f(s := with_interface ni (f s)))"
  by (simp add: no_input_def at_restD with_interface_def)

lemma arrived_only_input:
  "settled M h \<Longrightarrow> only_input p d (h(p := (h p)\<lparr>ai_datagrams_out := [d]\<rparr>))"
  by (simp add: only_input_def at_restD)

lemma emptied_again:
  "settled M h \<Longrightarrow> (h(p := (h p)\<lparr>ai_datagrams_out := [d]\<rparr>))
     (p := empty_input ((h(p := (h p)\<lparr>ai_datagrams_out := [d]\<rparr>)) p)) = h"
  by (rule ext) (simp add: empty_input_def at_restD)

lemma datagram_dropped:
  assumes "settled M f" "c \<in> set cables" "s \<in> set c" "p \<in> set c" "s \<noteq> p" "p \<in> set ports" "sendable d"
    "apart M c s p" "ih_ttl (id_header d) \<le> 1"
  shows "\<exists>ni f'. send_datagram d (Address (node_ip p) 0) (ai_interface (f s)) = Inr ni
    \<and> settled M f' \<and> (\<forall>E. simulate_rounds 256 (net_of (f(s := with_interface ni (f s))) E) = Inr (net_of f' E))"
proof -
  obtain ni k h d1 where send: "send_datagram d (Address (node_ip p) 0) (ai_interface (f s)) = Inr ni"
    and k: "k \<le> 3" "carries k (f(s := with_interface ni (f s))) (h(p := (h p)\<lparr>ai_datagrams_out := [d1]\<rparr>))"
    and h: "settled M h" "same_datagram d d1"
    using datagram_crosses [OF assms(1-5,7,8)] by blast
  let ?g = "h(p := (h p)\<lparr>ai_datagrams_out := [d1]\<rparr>)"
  have drop: "routed ?g h"
    using routed_dropped [OF arrived_only_input [OF h(1)] assms(6)] assms(9) same_datagramD(4) [OF h(2)]
    unfolding emptied_again [OF h(1)] by simp
  have idle: "carries 1 h h"
  proof (rule one_round)
    have "heard Default [Default, DefaultRouter] h h = h"
      by (rule ext) (simp add: heard_def at_restD [OF h(1)])
    then show "cable_round h h"
      using one_node_talks [of "[Default, DefaultRouter]" Default h h] at_restD(4) [OF h(1)]
      by (simp add: cable_round_def cables_def)
  qed
  have "simulate_rounds (k + (1 + (255 - k))) (net_of (f(s := with_interface ni (f s))) E) = Inr (net_of h E)" for E
    unfolding carries_rounds [OF k(2) no_input_routed [OF sender_no_input [OF assms(1)]]]
      carries_rounds [OF idle drop]
    by (rule settled_idle(2) [OF h(1), of Applesauce]) (simp add: host_nodes_def)
  moreover have "k + (1 + (255 - k)) = 256" using k(1) by simp
  ultimately show ?thesis using send h(1) by metis
qed

lemma datagram_crosses_network:
  assumes "settled M f" "c \<in> set cables" "s \<in> set c" "p \<in> set c" "s \<noteq> p" "p \<in> set ports" "sendable d"
    "apart M c s p" "1 < ih_ttl (id_header d)"
    and "c' \<in> set cables" "q \<in> set c'" "t \<in> set c'" "q \<in> set ports" "t \<in> set host_nodes" "apart M c' q t"
    and route: "lpm_loop (ih_dst (id_header d)) TABLE 0 0 (- 1) = Inr (int b)"
      "rt_interface_num (TABLE ! b) = port_id q"
      "next_hop_of (ih_dst (id_header d)) (TABLE ! b) = Address (node_ip t) 0"
  shows "\<exists>ni f' d'. send_datagram d (Address (node_ip p) 0) (ai_interface (f s)) = Inr ni
    \<and> settled M f' \<and> same_datagram (hop d) d'
    \<and> (\<forall>E. simulate_rounds 256 (net_of (f(s := with_interface ni (f s))) E)
        = Inr (net_of (f'(t := (f' t)\<lparr>ai_datagrams_out := [d']\<rparr>)) E))"
proof -
  obtain ni k h d1 where send: "send_datagram d (Address (node_ip p) 0) (ai_interface (f s)) = Inr ni"
    and k: "k \<le> 3" "carries k (f(s := with_interface ni (f s))) (h(p := (h p)\<lparr>ai_datagrams_out := [d1]\<rparr>))"
    and h: "settled M h" "same_datagram d d1"
    using datagram_crosses [OF assms(1-5,7,8)] by blast
  note d1 = same_datagramD [OF h(2)]
  let ?g = "h(p := (h p)\<lparr>ai_datagrams_out := [d1]\<rparr>)"
  have "sendable (hop d1)" using assms(7) d1(2) by (simp add: sendable_hop)
  then obtain n2 k2 h2 d2 where send2: "send_datagram (hop d1) (Address (node_ip t) 0) (ai_interface (h q)) = Inr n2"
    and k2: "k2 \<le> 3" "carries k2 (h(q := with_interface n2 (h q))) (h2(t := (h2 t)\<lparr>ai_datagrams_out := [d2]\<rparr>))"
    and h2: "settled M h2" "same_datagram (hop d1) d2"
    using datagram_crosses [OF h(1) assms(10-12) port_not_host [OF assms(13,14)] _ assms(15)] by blast
  have "ai_interface (?g q) = ai_interface (h q)" by simp
  then have fwd: "routed ?g (h(q := with_interface n2 (h q)))"
    using routed_forwarded [OF arrived_only_input [OF h(1)] assms(6), of d1 b q n2] assms(9,13) route send2 d1(3,4)
    unfolding emptied_again [OF h(1)] by (cases "q = p") simp_all
  have "simulate_rounds (k + (k2 + (256 - k - k2))) (net_of (f(s := with_interface ni (f s))) E)
      = Inr (net_of (h2(t := (h2 t)\<lparr>ai_datagrams_out := [d2]\<rparr>)) E)" for E
    unfolding carries_rounds [OF k(2) no_input_routed [OF sender_no_input [OF assms(1)]]]
      carries_rounds [OF k2(2) fwd]
    by (rule settled_idle(1) [OF h2(1) assms(14)])
  moreover have "k + (k2 + (256 - k - k2)) = 256" using k(1) k2(1) by simp
  moreover have "same_datagram (hop d) d2"
    using same_datagram_trans [OF d1(5) h2(2)] .
  ultimately show ?thesis using send h2(1) by metis
qed

section \<open>The hosts' checks\<close>

lemma host_check_idle:
  assumes "settled M f"
  shows "host_check (sim_host f (\<lambda>_. []) x) = Inr (sim_host f (\<lambda>_. []) x)"
  using at_restD(7) [OF assms, of x] by (cases "f x") (simp add: host_check_def sim_host_def)

lemma host_check_received:
  assumes "same_datagram e d'" "sendable e" "settled M f"
  shows "host_check (sim_host (f(t := (f t)\<lparr>ai_datagrams_out := [d']\<rparr>)) ((\<lambda>_. [])(t := [e])) t)
    = Inr (sim_host f (\<lambda>_. []) t)"
proof -
  obtain b where "datagram_bytes e = Inr b" using sendable_bytes [OF assms(2)] by blast
  then have "same_bytes e d' = Inr True"
    using same_datagram_bytes [OF assms(1)] by (simp add: same_bytes_def)
  then show ?thesis
    using at_restD(7) [OF assms(3), of t] by (cases "f t") (simp add: host_check_def sim_host_def)
qed

lemma nw_set_host_same:
  assumes "x \<in> set host_nodes"
  shows "nw_set_host (node_name x) (sim_host f E x) (net_of f E) = net_of f E"
  using nw_set_host_net(2) [OF assms, where f = f and E = E and e = "E x"] by (simp add: sim_host_def)

lemma check_hosts_idle:
  assumes "settled M f"
  shows "check_hosts order (net_of f (\<lambda>_. [])) = Inr (net_of f (\<lambda>_. []))"
proof (induction order)
  case (Cons name order)
  then show ?case
    using hosts_of_cases [of f "\<lambda>_. []" name] host_check_idle [OF assms]
    by (auto simp: nw_set_host_same)
qed simp

lemma check_hosts_received:
  assumes "same_datagram e d'" "sendable e" "settled M f" "t \<in> set host_nodes" "node_name t \<in> set order"
  shows "check_hosts order (net_of (f(t := (f t)\<lparr>ai_datagrams_out := [d']\<rparr>)) ((\<lambda>_. [])(t := [e])))
    = Inr (net_of f (\<lambda>_. []))"
proof -
  define F where "F = f(t := (f t)\<lparr>ai_datagrams_out := [d']\<rparr>)"
  define E where "E = (\<lambda>_. [])(t := [e])"
  have self: "host_check (sim_host F E t) = Inr (sim_host f (\<lambda>_. []) t)"
    unfolding F_def E_def by (rule host_check_received [OF assms(1-3)])
  have "sim_host F E x = sim_host f (\<lambda>_. []) x" if "x \<noteq> t" for x
    using that by (simp add: sim_host_def F_def E_def)
  then have others: "host_check (sim_host F E x) = Inr (sim_host F E x)" if "x \<noteq> t" for x
    using that host_check_idle [OF assms(3), of x] by simp
  have "sim_host f (\<lambda>_. []) t = (sim_host F E t)\<lparr>ho_interface := f t, ho_expecting_to_receive := []\<rparr>"
    "F(t := f t) = f" "E(t := []) = (\<lambda>_. [])"
    by (auto simp: sim_host_def F_def E_def)
  then have reset: "nw_set_host (node_name t) (sim_host f (\<lambda>_. []) t) (net_of F E) = net_of f (\<lambda>_. [])"
    using nw_set_host_both [OF assms(4), where f = F and E = E and ai = "f t" and e = "[]"] by simp
  have "check_hosts order (net_of F E) = Inr (net_of f (\<lambda>_. []))"
    using assms(5)
  proof (induction order)
    case (Cons name order)
    consider "hosts_of F E name = None" "name \<noteq> node_name t" | "name = node_name t"
      | x where "x \<in> set host_nodes" "name = node_name x" "x \<noteq> t"
      using hosts_of_cases [of F E name] hosts_of_name [OF assms(4), of F E] by fastforce
    then show ?case
      by cases (use Cons self others reset assms(4) in
        \<open>auto simp: check_hosts_idle [OF assms(3)] nw_set_host_same node_name_inj\<close>)
  qed simp
  then show ?thesis unfolding F_def E_def .
qed

section \<open>One test\<close>

lemma length_to_dec: "n < 10 ^ Suc k \<Longrightarrow> length (to_dec n) \<le> Suc k"
proof (induction k arbitrary: n)
  case 0
  then show ?case by (simp add: to_dec.simps [of n])
next
  case (Suc k)
  then have "n div 10 < 10 ^ Suc k" by simp
  from Suc.IH [OF this] show ?case by (simp add: to_dec.simps [of n])
qed

lemma random_payload_short: "length (random_payload rd) \<le> 40"
proof -
  have "unat (rd 0) < 10 ^ Suc 9" using unat_lt_u32 [of "rd 0"] by simp
  from length_to_dec [OF this] show ?thesis by (simp add: random_payload_def ascii_def)
qed

definition test_datagram :: "node \<Rightarrow> u32 \<Rightarrow> u8 \<Rightarrow> random \<Rightarrow> ipv4_datagram" where
  "test_datagram x dst ttl rd =
     (let header = ipv4_header_new\<lparr>ih_src := node_ip x, ih_dst := dst\<rparr>
      in \<lparr>id_header = header
            \<lparr>ih_len := ucast (ucast (ih_hlen header) * 4 + size_of (random_payload rd)), ih_ttl := ttl\<rparr>,
          id_payload = [random_payload rd]\<rparr>)"

lemma test_datagram_fields:
  "ih_dst (id_header (test_datagram x dst ttl rd)) = dst"
  "ih_ttl (id_header (test_datagram x dst ttl rd)) = ttl"
  by (simp_all add: test_datagram_def Let_def)

lemma test_datagram_sendable: "sendable (test_datagram x dst ttl rd)"
proof -
  have "unat (size_of (random_payload rd)) = length (random_payload rd)"
    using random_payload_short [of rd] by (intro unat_size_of) simp
  then have "unat (20 + size_of (random_payload rd)) = 20 + length (random_payload rd)"
    using random_payload_short [of rd] by (simp add: unat_add_u64)
  then have "unat (ucast (20 + size_of (random_payload rd)) :: u16) = 20 + length (random_payload rd)"
    using random_payload_short [of rd] by (simp add: unsigned_ucast_eq take_bit_nat_eq_self)
  then show ?thesis
    by (simp add: sendable_def test_datagram_def ipv4_header_ok_def ipv4_header_new_def)
qed

lemma send_to_net:
  "send_to (Address dst port) ttl rd (sim_host f E x) =
     (case send_datagram (test_datagram x dst ttl rd) (Address (gateway x) 0) (ai_interface (f x)) of
        Inl e \<Rightarrow> Inl e
      | Inr ni \<Rightarrow> Inr (test_datagram x dst ttl rd, drawn 1 rd,
          (sim_host f E x)\<lparr>ho_interface := with_interface ni (f x)\<rparr>))"
  by (simp add: send_to_def test_datagram_def Let_def sim_host_def with_interface_def split: sum.split)

text \<open>
  What a test may ask for: a datagram of one of the four ordinary hosts that either has no
  time left to live after the router and is expected nowhere, or whose best route leads, over
  the cable of its port, to the host that expects it.
\<close>

fun first_hop :: "node \<Rightarrow> node" where
  "first_hop Applesauce = Eth0"
| "first_hop Cherrypie = Eth2"
| "first_hop _ = Uun3"

definition SENDERS :: "node list" where
  "SENDERS = [Applesauce, Cherrypie, Dm42, Dm43]"

definition same_cable :: "node \<Rightarrow> node \<Rightarrow> bool" where
  "same_cable x y \<longleftrightarrow> (\<exists>c \<in> set cables. x \<in> set c \<and> y \<in> set c)"

definition leads_to :: "u32 \<Rightarrow> node \<Rightarrow> bool" where
  "leads_to dst t \<longleftrightarrow> t \<in> set host_nodes \<and> (\<exists>b. best_route dst TABLE b
     \<and> (\<exists>q \<in> set ports. rt_interface_num (TABLE ! b) = port_id q \<and> same_cable q t)
     \<and> next_hop_of dst (TABLE ! b) = Address (node_ip t) 0)"

definition means :: "test_destination \<Rightarrow> u32 \<Rightarrow> bool" where
  "means dest dst \<longleftrightarrow> (case dest of
     Host_Address name \<Rightarrow> (\<exists>y \<in> set host_nodes. name = node_name y \<and> dst = node_ip y)
   | Numeric s \<Rightarrow> numeric_host s = Some dst)"

fun good_test :: "string \<times> test_destination \<times> u8 \<times> string option \<Rightarrow> bool" where
  "good_test (from_name, dest, ttl, receiver) \<longleftrightarrow>
     (\<exists>x \<in> set SENDERS. from_name = node_name x \<and> (\<exists>dst. means dest dst \<and>
        (if ttl \<le> 1 then receiver = None
         else \<exists>t. leads_to dst t \<and> receiver = Some (node_name t))))"

lemma table_lengths: "\<forall>rt \<in> set TABLE. rt_prefix_length rt \<le> 32"
  by (simp add: TABLE_def table_entry_def)

lemma best_route_lpm: "best_route dst TABLE b \<longleftrightarrow> lpm_loop dst TABLE 0 0 (- 1) = Inr (int b)"
proof -
  obtain b' where b': "lpm_loop dst TABLE 0 0 (- 1) = Inr b'"
    "if b' = - 1 then \<forall>rt \<in> set TABLE. \<not> matches dst rt else 0 \<le> b' \<and> best_route dst TABLE (nat b')"
    using lpm_loop_best [OF table_lengths] by blast
  show ?thesis
  proof
    assume best: "best_route dst TABLE b"
    then have "b' \<noteq> - 1" using b'(2) by (auto simp: best_route_def)
    then show "lpm_loop dst TABLE 0 0 (- 1) = Inr (int b)"
      using b' best_route_unique [OF best, of "nat b'"] by simp
  next
    assume "lpm_loop dst TABLE 0 0 (- 1) = Inr (int b)"
    then show "best_route dst TABLE b" using b' by simp
  qed
qed

lemma means_address: "means dest dst \<Longrightarrow> destination_address dest (net_of f E) = Inr (Address dst 0)"
  by (auto simp: means_def nw_host_net address_from_text_numeric split: test_destination.splits)
    (simp add: sim_host_def)

lemma sender_facts:
  assumes "x \<in> set SENDERS"
  shows "x \<in> set host_nodes" "first_hop x \<in> set ports" "gateway x = node_ip (first_hop x)"
    "same_cable x (first_hop x)" "x \<noteq> first_hop x"
  using assms by (auto simp: SENDERS_def host_nodes_def ports_def same_cable_def cables_def)

text \<open>Nodes on a common cable can be told from the third one.\<close>

definition told_apart :: "addressing \<Rightarrow> bool" where
  "told_apart M \<longleftrightarrow> distinct [M Uun3, M Dm42, M Dm43] \<and> ETHERNET_BROADCAST \<notin> {M Uun3, M Dm42, M Dm43}"

lemma told_apart_apart: "told_apart M \<Longrightarrow> c \<in> set cables \<Longrightarrow> s \<in> set c \<Longrightarrow> t \<in> set c \<Longrightarrow> s \<noteq> t \<Longrightarrow>
    apart M c s t"
  by (auto simp: told_apart_def cables_def apart_def)

lemma run_test_ok:
  assumes "told_apart M" "settled M f" "good_test test" "\<And>x. x \<in> set host_nodes \<Longrightarrow> node_name x \<in> set order"
  shows "\<exists>f'. settled M f' \<and> run_test order test (net_of f (\<lambda>_. []), rd) = Inr (net_of f' (\<lambda>_. []), drawn 1 rd)"
proof -
  obtain from_name dest ttl receiver where test: "test = (from_name, dest, ttl, receiver)" by (cases test)
  then obtain x dst where x: "x \<in> set SENDERS" "from_name = node_name x" and dst: "means dest dst"
    and recv: "if ttl \<le> 1 then receiver = None else \<exists>t. leads_to dst t \<and> receiver = Some (node_name t)"
    using assms(3) by auto
  note xf = sender_facts [OF x(1)]
  obtain c where c: "c \<in> set cables" "x \<in> set c" "first_hop x \<in> set c"
    using xf(4) by (auto simp: same_cable_def)
  note apart = told_apart_apart [OF assms(1)]
  let ?d = "test_datagram x dst ttl rd"
  note d = test_datagram_sendable [of x dst ttl rd] test_datagram_fields [of x dst ttl rd]
  have run: "run_test order test (net_of f (\<lambda>_. []), rd) =
      (case expect_at receiver ?d (net_of (f(x := with_interface ni (f x))) (\<lambda>_. [])) of Inl e \<Rightarrow> Inl e
       | Inr n \<Rightarrow> (case simulate order n of Inl e \<Rightarrow> Inl e | Inr n' \<Rightarrow> Inr (n', drawn 1 rd)))"
    if "send_datagram ?d (Address (node_ip (first_hop x)) 0) (ai_interface (f x)) = Inr ni" for ni
    using that xf(1,3)
    by (simp add: test x(2) nw_host_net means_address [OF dst] send_to_net nw_set_host_net del: One_nat_def)
  show ?thesis
  proof (cases "ttl \<le> 1")
    case True
    then obtain ni f' where "send_datagram ?d (Address (node_ip (first_hop x)) 0) (ai_interface (f x)) = Inr ni"
      "settled M f'" "\<And>E. simulate_rounds 256 (net_of (f(x := with_interface ni (f x))) E) = Inr (net_of f' E)"
      using datagram_dropped [OF assms(2) c xf(5,2) d(1) apart [OF c xf(5)]] d(3) by auto
    then show ?thesis
      using run recv True check_hosts_idle [of M f' order] by (auto simp: expect_at_def simulate_def)
  next
    case False
    with recv obtain t where t: "leads_to dst t" "receiver = Some (node_name t)" by auto
    then obtain b q c' where b: "t \<in> set host_nodes" "best_route dst TABLE b" "q \<in> set ports"
      "rt_interface_num (TABLE ! b) = port_id q" "next_hop_of dst (TABLE ! b) = Address (node_ip t) 0"
      and c': "c' \<in> set cables" "q \<in> set c'" "t \<in> set c'"
      by (auto simp: leads_to_def same_cable_def)
    have live: "1 < ih_ttl (id_header ?d)" using False d(3) by simp
    have route: "lpm_loop (ih_dst (id_header ?d)) TABLE 0 0 (- 1) = Inr (int b)"
      "rt_interface_num (TABLE ! b) = port_id q"
      "next_hop_of (ih_dst (id_header ?d)) (TABLE ! b) = Address (node_ip t) 0"
      using b(2,4,5) d(2) by (simp_all add: best_route_lpm)
    obtain ni f' d' where send: "send_datagram ?d (Address (node_ip (first_hop x)) 0) (ai_interface (f x)) = Inr ni"
      and f': "settled M f'" "same_datagram (hop ?d) d'"
      "\<And>E. simulate_rounds 256 (net_of (f(x := with_interface ni (f x))) E)
        = Inr (net_of (f'(t := (f' t)\<lparr>ai_datagrams_out := [d']\<rparr>)) E)"
      using datagram_crosses_network [OF assms(2) c xf(5,2) d(1) apart [OF c xf(5)] live c' b(3,1)
          apart [OF c' port_not_host [OF b(3,1)]] route] by blast
    have "expect_at receiver ?d (net_of (f(x := with_interface ni (f x))) (\<lambda>_. []))
        = Inr (net_of (f(x := with_interface ni (f x))) ((\<lambda>_. [])(t := [hop ?d])))"
      using nw_set_host_net(2) [OF b(1), where f = "f(x := with_interface ni (f x))" and E = "\<lambda>_. []" and e = "[hop ?d]"]
      by (simp add: expect_at_def t(2) nw_host_net [OF b(1)] expect_def) (simp add: sim_host_def)
    then show ?thesis
      using run [OF send] f'(1,3) check_hosts_received [OF f'(2) sendable_hop [OF d(1)] f'(1) b(1) assms(4) [OF b(1)]]
      by (auto simp: simulate_def)
  qed
qed

lemma run_tests_ok:
  assumes "told_apart M" "\<And>x. x \<in> set host_nodes \<Longrightarrow> node_name x \<in> set order"
    and "settled M f" "\<forall>test \<in> set tests. good_test test"
  shows "\<exists>f'. settled M f' \<and> run_tests order tests (net_of f (\<lambda>_. []), rd)
    = Inr (net_of f' (\<lambda>_. []), drawn (length tests) rd)"
  using assms(3,4)
proof (induction tests arbitrary: f rd)
  case Nil
  then show ?case by (auto simp: drawn_def)
next
  case (Cons test tests)
  then have "good_test test" by simp
  from run_test_ok [OF assms(1) Cons.prems(1) this assms(2)] obtain f1 where f1: "settled M f1"
    "run_test order test (net_of f (\<lambda>_. []), rd) = Inr (net_of f1 (\<lambda>_. []), drawn 1 rd)"
    by blast
  from Cons.IH [OF f1(1)] Cons.prems(2) obtain f' where "settled M f'"
    "run_tests order tests (net_of f1 (\<lambda>_. []), drawn 1 rd)
      = Inr (net_of f' (\<lambda>_. []), drawn (length tests) (drawn 1 rd))" by auto
  moreover have "drawn (length tests) (drawn 1 rd) = drawn (length (test # tests)) rd"
    by (simp add: drawn_def)
  ultimately show ?case using f1(2) by auto
qed

end
