(* ===== verification/NetworkTests.thy ===== *)
theory NetworkTests
  imports NetworkJourney
begin

text \<open>
  The network as \<open>Network::Network\<close> builds it, and the theorems about the tests of
  \<open>network_simulator\<close>.
\<close>

section \<open>The network as it is built\<close>

definition node_addresses :: "random \<Rightarrow> addressing" where
  "node_addresses rd n = (case n of
     Default \<Rightarrow> fst (random_router_ethernet_address rd)
   | Eth0 \<Rightarrow> fst (random_router_ethernet_address (drawn 6 rd))
   | Eth1 \<Rightarrow> fst (random_router_ethernet_address (drawn 12 rd))
   | Eth2 \<Rightarrow> fst (random_router_ethernet_address (drawn 18 rd))
   | Uun3 \<Rightarrow> fst (random_router_ethernet_address (drawn 24 rd))
   | Hs4 \<Rightarrow> fst (random_router_ethernet_address (drawn 30 rd))
   | Mit5 \<Rightarrow> fst (random_router_ethernet_address (drawn 36 rd))
   | Applesauce \<Rightarrow> fst (random_host_ethernet_address (drawn 42 rd))
   | DefaultRouter \<Rightarrow> fst (random_host_ethernet_address (drawn 48 rd))
   | Cherrypie \<Rightarrow> fst (random_host_ethernet_address (drawn 54 rd))
   | HsRouter \<Rightarrow> fst (random_host_ethernet_address (drawn 60 rd))
   | Dm42 \<Rightarrow> fst (random_host_ethernet_address (drawn 66 rd))
   | Dm43 \<Rightarrow> fst (random_host_ethernet_address (drawn 72 rd)))"

definition fresh_interfaces :: "random \<Rightarrow> interfaces" where
  "fresh_interfaces rd n = ai_new (ni_new (node_addresses rd n) (Address (node_ip n) 0))"

lemma fresh_settled: "settled (node_addresses rd) (fresh_interfaces rd)"
  by (simp add: settled_def at_rest_def is_node_def knows_def fresh_interfaces_def ai_new_def ni_new_def)

lemma literals:
  "address_from_text ''171.67.76.46'' = Inr (Address (node_ip Default) 0)"
  "address_from_text ''10.0.0.1'' = Inr (Address (node_ip Eth0) 0)"
  "address_from_text ''172.16.0.1'' = Inr (Address (node_ip Eth1) 0)"
  "address_from_text ''192.168.0.1'' = Inr (Address (node_ip Eth2) 0)"
  "address_from_text ''198.178.229.1'' = Inr (Address (node_ip Uun3) 0)"
  "address_from_text ''143.195.0.2'' = Inr (Address (node_ip Hs4) 0)"
  "address_from_text ''128.30.76.255'' = Inr (Address (node_ip Mit5) 0)"
  "address_from_text ''10.0.0.2'' = Inr (Address (node_ip Applesauce) 0)"
  "address_from_text ''171.67.76.1'' = Inr (Address (node_ip DefaultRouter) 0)"
  "address_from_text ''192.168.0.2'' = Inr (Address (node_ip Cherrypie) 0)"
  "address_from_text ''143.195.0.1'' = Inr (Address (node_ip HsRouter) 0)"
  "address_from_text ''198.178.229.42'' = Inr (Address (node_ip Dm42) 0)"
  "address_from_text ''198.178.229.43'' = Inr (Address (node_ip Dm43) 0)"
  "address_from_text ''0'' = Inr (Address 0 0)"
  "address_from_text ''128.30.0.1'' = Inr (Address 0x801E0001 0)"
  "ip ''0.0.0.0'' = Inr 0" "ip ''10.0.0.0'' = Inr 0x0A000000" "ip ''172.16.0.0'' = Inr 0xAC100000"
  "ip ''192.168.0.0'' = Inr 0xC0A80000" "ip ''198.178.229.0'' = Inr 0xC6B2E500"
  "ip ''143.195.0.0'' = Inr 0x8FC30000" "ip ''143.195.128.0'' = Inr 0x8FC38000"
  "ip ''143.195.192.0'' = Inr 0x8FC3C000" "ip ''128.30.76.255'' = Inr 0x801E4CFF"
  by (simp_all add: ip_def address_from_text_numeric numeric_text)

lemma literal_destinations:
  "numeric_host ''1.2.3.4'' = Some 0x01020304" "numeric_host ''143.195.131.17'' = Some 0x8FC38311"
  "numeric_host ''143.195.193.52'' = Some 0x8FC3C134" "numeric_host ''143.195.223.255'' = Some 0x8FC3DFFF"
  "numeric_host ''143.195.224.0'' = Some 0x8FC3E000"
  by (simp_all add: numeric_text)

lemma table_lookups:
  "lpm_loop (node_ip Cherrypie) TABLE 0 0 (- 1) = Inr (int 3)"
  "lpm_loop (node_ip Applesauce) TABLE 0 0 (- 1) = Inr (int 1)"
  "lpm_loop 0x01020304 TABLE 0 0 (- 1) = Inr (int 0)"
  "lpm_loop 0x8FC38311 TABLE 0 0 (- 1) = Inr (int 6)"
  "lpm_loop 0x8FC3C134 TABLE 0 0 (- 1) = Inr (int 7)"
  "lpm_loop 0x8FC3DFFF TABLE 0 0 (- 1) = Inr (int 7)"
  "lpm_loop 0x8FC3E000 TABLE 0 0 (- 1) = Inr (int 0)"
  "lpm_loop (node_ip Dm43) TABLE 0 0 (- 1) = Inr (int 4)"
  by code_simp+

lemma drawn_drawn [simp]: "drawn a (drawn b rd) = drawn (b + a) rd"
  by (simp add: drawn_def add.assoc add.commute [of a b])

lemma random_addresses:
  "random_router_ethernet_address rd = (fst (random_router_ethernet_address rd), drawn 6 rd)"
  "random_host_ethernet_address rd = (fst (random_host_ethernet_address rd), drawn 6 rd)"
  by (simp_all add: random_router_ethernet_address_def random_host_ethernet_address_def)

text \<open>The members in the order of their initialization.\<close>

lemma fresh_router:
  "add_interfaces INTERFACE_ADDRESSES rd router_new
    = Inr ([0, 1, 2, 3, 4, 5, 6], drawn 42 rd, \<lparr>ro_interfaces = map (fresh_interfaces rd) ports, ro_routing_table = []\<rparr>)"
proof -
  have step: "add_interfaces (addr # addrs) rd' r =
     (case add_interfaces addrs (drawn 6 rd') (r\<lparr>ro_interfaces := ro_interfaces r
        @ [ai_new (ni_new (fst (random_router_ethernet_address rd')) a)]\<rparr>) of
        Inl e \<Rightarrow> Inl e | Inr (ids, rd, r') \<Rightarrow> Inr (of_nat (length (ro_interfaces r)) # ids, rd, r'))"
    if "address_from_text addr = Inr a" for addr a addrs rd' r
    using that by (subst add_interfaces.simps, subst random_addresses) (simp add: add_interface_def size_of_def)
  show ?thesis
    unfolding INTERFACE_ADDRESSES_def
    by (simp add: step literals(1-7) router_new_def ports_def fresh_interfaces_def node_addresses_def
        del: add_interfaces.simps(2) node_ip.simps)
qed

lemma hosts_ofI:
  assumes "\<And>x. x \<in> set host_nodes \<Longrightarrow> m (node_name x) = Some (sim_host f E x)"
    and "dom m \<subseteq> node_name ` set host_nodes"
  shows "m = hosts_of f E"
proof
  fix name
  show "m name = hosts_of f E name"
  proof (cases "name \<in> node_name ` set host_nodes")
    case True
    then show ?thesis using assms(1) by auto
  next
    case False
    then have "m name = None" using assms(2) by auto
    moreover have "find (\<lambda>x. node_name x = name) host_nodes = None"
      using False by (auto simp: find_None_iff)
    ultimately show ?thesis by (simp add: hosts_of_def)
  qed
qed

lemma fresh_hosts:
  "insert_hosts HOSTS (drawn 42 rd) (\<lambda>_. None) = Inr (drawn 78 rd, hosts_of (fresh_interfaces rd) (\<lambda>_. []))"
proof -
  let ?h = "sim_host (fresh_interfaces rd) (\<lambda>_. [])"
  have step: "insert_hosts ((node_name x, addr, gate) # rest) rd' m = insert_hosts rest (drawn 6 rd') (m(node_name x \<mapsto> ?h x))"
    if "address_from_text addr = Inr (Address (node_ip x) 0)" "address_from_text gate = Inr (Address (gateway x) 0)"
      "node_addresses rd x = fst (random_host_ethernet_address rd')" "m (node_name x) = None"
    for x addr gate rest rd' m
  proof -
    obtain e where e: "random_host_ethernet_address rd' = (e, drawn 6 rd')"
      by (simp add: random_host_ethernet_address_def)
    show ?thesis using that by (simp add: host_new_def sim_host_def fresh_interfaces_def e)
  qed
  have hosts: "HOSTS = [(node_name Applesauce, ''10.0.0.2'', ''10.0.0.1''),
      (node_name DefaultRouter, ''171.67.76.1'', ''0''), (node_name Cherrypie, ''192.168.0.2'', ''192.168.0.1''),
      (node_name HsRouter, ''143.195.0.1'', ''0''), (node_name Dm42, ''198.178.229.42'', ''198.178.229.1''),
      (node_name Dm43, ''198.178.229.43'', ''198.178.229.1'')]"
    by (simp add: HOSTS_def)
  have members: "Applesauce \<in> set host_nodes" "DefaultRouter \<in> set host_nodes" "Cherrypie \<in> set host_nodes"
    "HsRouter \<in> set host_nodes" "Dm42 \<in> set host_nodes" "Dm43 \<in> set host_nodes"
    by (simp_all add: host_nodes_def)
  let ?m = "[node_name Applesauce \<mapsto> ?h Applesauce, node_name DefaultRouter \<mapsto> ?h DefaultRouter,
      node_name Cherrypie \<mapsto> ?h Cherrypie, node_name HsRouter \<mapsto> ?h HsRouter,
      node_name Dm42 \<mapsto> ?h Dm42, node_name Dm43 \<mapsto> ?h Dm43]"
  have "insert_hosts HOSTS (drawn 42 rd) (\<lambda>_. None) = Inr (drawn 78 rd, ?m)"
    unfolding hosts
    by (simp add: step literals node_addresses_def node_name_inj members
        del: insert_hosts.simps(2) node_name.simps node_ip.simps)
  also have "?m = hosts_of (fresh_interfaces rd) (\<lambda>_. [])"
  proof (rule hosts_ofI)
    show "?m (node_name x) = Some (?h x)" if "x \<in> set host_nodes" for x
    proof -
      have "x = Applesauce \<or> x = DefaultRouter \<or> x = Cherrypie \<or> x = HsRouter \<or> x = Dm42 \<or> x = Dm43"
        using that by (simp add: host_nodes_def)
      then show ?thesis
        using node_name_inj [OF that] by (auto simp: members simp del: node_name.simps)
    qed
  qed (auto simp: members simp del: node_name.simps)
  finally show ?thesis .
qed

lemma network_new_fresh: "network_new rd = Inr (net_of (fresh_interfaces rd) (\<lambda>_. []), drawn 78 rd)"
proof -
  let ?n = "\<lparr>nw_router = \<lparr>ro_interfaces = map (fresh_interfaces rd) ports, ro_routing_table = []\<rparr>, nw_default_id = 0,
    nw_eth0_id = 1, nw_eth1_id = 2, nw_eth2_id = 3, nw_uun3_id = 4, nw_hs4_id = 5, nw_mit5_id = 6,
    nw_hosts = hosts_of (fresh_interfaces rd) (\<lambda>_. [])\<rparr>"
  have hosts: "nw_host ''default_router'' ?n = Inr (sim_host (fresh_interfaces rd) (\<lambda>_. []) DefaultRouter)"
    "nw_host ''hs_router'' ?n = Inr (sim_host (fresh_interfaces rd) (\<lambda>_. []) HsRouter)"
    using hosts_of_name [of DefaultRouter "fresh_interfaces rd" "\<lambda>_. []"] hosts_of_name [of HsRouter "fresh_interfaces rd" "\<lambda>_. []"]
    by (simp_all add: nw_host_def host_nodes_def) (simp_all add: sim_host_def)
  have "network_routes ?n = Inr (router_of (fresh_interfaces rd))"
    unfolding network_routes_def hosts
    by (simp add: literals add_route_def router_of_def TABLE_def table_entry_def sim_host_def)
  then show ?thesis
    by (simp add: network_new_def fresh_router fresh_hosts Let_def net_of_def)
qed

section \<open>The tests succeed\<close>

text \<open>The addresses of the three nodes on the shared cable, as they are drawn.\<close>

definition shared_cable_addresses :: "random \<Rightarrow> ethernet_address list" where
  "shared_cable_addresses rd =
     [fst (random_router_ethernet_address (drawn 24 rd)), fst (random_host_ethernet_address (drawn 66 rd)),
      fst (random_host_ethernet_address (drawn 72 rd))]"

lemma not_broadcast:
  "fst (random_router_ethernet_address rd) \<noteq> ETHERNET_BROADCAST"
  "fst (random_host_ethernet_address rd) \<noteq> ETHERNET_BROADCAST"
proof -
  have "\<not> bit ((x OR 2) AND 0xfe :: u8) 0" for x
    by (simp add: bit_simps)
  then have "(x OR 2) AND 0xfe \<noteq> (0xff :: u8)" for x by (metis bit_0 odd_numeral)
  then show "fst (random_router_ethernet_address rd) \<noteq> ETHERNET_BROADCAST"
    "fst (random_host_ethernet_address rd) \<noteq> ETHERNET_BROADCAST"
    by (simp_all add: random_router_ethernet_address_def random_host_ethernet_address_def ETHERNET_BROADCAST_def)
qed

lemma fresh_told_apart:
  "distinct (shared_cable_addresses rd) \<Longrightarrow> told_apart (node_addresses rd)"
  using not_broadcast [THEN not_sym]
  by (simp add: told_apart_def node_addresses_def shared_cable_addresses_def)

lemma all_hosts: "x \<in> set host_nodes \<Longrightarrow> node_name x \<in> set (map fst HOSTS)"
  by (auto simp: host_nodes_def HOSTS_def)

text \<open>Nothing is on its way, waiting or expected.\<close>

definition idle :: "async_network_interface \<Rightarrow> bool" where
  "idle ai \<longleftrightarrow> ai_datagrams_out ai = [] \<and> ni_frames_out (ai_interface ai) = []
     \<and> ni_pending_datagrams (ai_interface ai) = []"

definition nothing_left :: "sim_network \<Rightarrow> bool" where
  "nothing_left n \<longleftrightarrow> (\<forall>ai \<in> set (ro_interfaces (nw_router n)). idle ai)
     \<and> (\<forall>h \<in> ran (nw_hosts n). idle (ho_interface h) \<and> ho_expecting_to_receive h = [])"

lemma settled_nothing_left: "settled M f \<Longrightarrow> nothing_left (net_of f (\<lambda>_. []))"
  by (auto simp: nothing_left_def net_of_def router_of_def hosts_of_def sim_host_def idle_def at_restD ran_def)

lemma fresh_tests_ok:
  assumes "distinct (shared_cable_addresses rd)" "set (map fst HOSTS) \<subseteq> set order"
    and "\<forall>test \<in> set tests. good_test test"
  shows "\<exists>n rd'. run_tests order tests (net_of (fresh_interfaces rd) (\<lambda>_. []), drawn 78 rd) = Inr (n, rd') \<and> nothing_left n"
  using run_tests_ok [OF fresh_told_apart [OF assms(1)] _ fresh_settled assms(3), of order "drawn 78 rd"]
    all_hosts assms(2) settled_nothing_left by blast

lemma leads_toI:
  assumes "lpm_loop dst TABLE 0 0 (- 1) = Inr (int b)" "t \<in> set host_nodes" "q \<in> set ports"
    "rt_interface_num (TABLE ! b) = port_id q" "same_cable q t"
    "next_hop_of dst (TABLE ! b) = Address (node_ip t) 0"
  shows "leads_to dst t"
  using assms best_route_lpm [of dst b] by (auto simp: leads_to_def)

lemma destinations_lead:
  "leads_to (node_ip Cherrypie) Cherrypie" "leads_to (node_ip Applesauce) Applesauce"
  "leads_to 0x01020304 DefaultRouter" "leads_to 0x8FC38311 HsRouter" "leads_to 0x8FC3C134 HsRouter"
  "leads_to 0x8FC3DFFF HsRouter" "leads_to 0x8FC3E000 DefaultRouter" "leads_to (node_ip Dm43) Dm43"
  using leads_toI [OF table_lookups(1), of Cherrypie Eth2]
    leads_toI [OF table_lookups(2), of Applesauce Eth0]
    leads_toI [OF table_lookups(3), of DefaultRouter Default]
    leads_toI [OF table_lookups(4), of HsRouter Hs4]
    leads_toI [OF table_lookups(5), of HsRouter Hs4]
    leads_toI [OF table_lookups(6), of HsRouter Hs4]
    leads_toI [OF table_lookups(7), of DefaultRouter Default]
    leads_toI [OF table_lookups(8), of Dm43 Uun3]
  by (simp_all add: host_nodes_def ports_def TABLE_def table_entry_def same_cable_def cables_def
      next_hop_of_def from_ipv4_numeric_def)

lemma good_test_delivered:
  assumes "\<not> ttl \<le> 1" "x \<in> set SENDERS" "name = node_name x" "means dest dst" "leads_to dst t"
    "receiver = node_name t"
  shows "good_test (name, dest, ttl, Some receiver)"
  using assms by auto

lemma good_test_dropped:
  assumes "x \<in> set SENDERS" "name = node_name x" "means dest dst" "ttl \<le> 1"
  shows "good_test (name, dest, ttl, None)"
  using assms by auto

lemma all_tests_good: "\<forall>test \<in> set TESTS. good_test test"
proof -
  have ttl: "\<not> (64 :: u8) \<le> 1" by (simp add: word_le_nat_alt)
  note test = good_test_delivered [OF ttl] and drop = good_test_dropped
  have senders: "Applesauce \<in> set SENDERS" "Cherrypie \<in> set SENDERS" "Dm42 \<in> set SENDERS"
    by (simp_all add: SENDERS_def)
  have means: "means (Host_Address ''cherrypie'') (node_ip Cherrypie)"
    "means (Host_Address ''applesauce'') (node_ip Applesauce)" "means (Host_Address ''dm43'') (node_ip Dm43)"
    "means (Numeric ''1.2.3.4'') 0x01020304" "means (Numeric ''143.195.131.17'') 0x8FC38311"
    "means (Numeric ''143.195.193.52'') 0x8FC3C134" "means (Numeric ''143.195.223.255'') 0x8FC3DFFF"
    "means (Numeric ''143.195.224.0'') 0x8FC3E000"
    by (simp_all add: means_def literal_destinations host_nodes_def)
  note lead = destinations_lead
  show ?thesis
    unfolding TESTS_def
    using test [OF senders(1) _ means(1) lead(1)] test [OF senders(2) _ means(2) lead(2)]
      test [OF senders(1) _ means(4) lead(3)] test [OF senders(1) _ means(5) lead(4)]
      test [OF senders(2) _ means(6) lead(5)] test [OF senders(2) _ means(7) lead(6)]
      test [OF senders(2) _ means(8) lead(7)] test [OF senders(3) _ means(3) lead(8)]
      drop [OF senders(1) _ means(4), where ttl = 1] drop [OF senders(1) _ means(4), where ttl = 0]
    by (simp del: good_test.simps)
qed

text \<open>C25: The simulated network delivers. Whatever addresses and payloads the random generator
  yields, as long as the three interfaces on the shared cable draw different addresses, any
  sequence of tests succeeds in which ordinary hosts send to destinations whose best route
  leads to the host that expects the datagram, or with a time to live that the router uses
  up and nobody expecting it: every host receives exactly the datagrams it expects (each
  with its time to live one less), and nothing is left in any queue.\<close>

theorem simulated_network_delivers:
  assumes "network_new rd = Inr s" and "distinct (shared_cable_addresses rd)"
    and "set (map fst HOSTS) \<subseteq> set order" and "\<forall>test \<in> set tests. good_test test"
  shows "\<exists>n rd'. run_tests order tests s = Inr (n, rd') \<and> nothing_left n"
  using fresh_tests_ok [OF assms(2-4)] assms(1) by (simp add: network_new_fresh)

theorem simulated_network_delivers_witness:
  "\<exists>s n rd'. network_new (\<lambda>i. of_nat i) = Inr s \<and> nothing_left n
     \<and> run_tests (map fst HOSTS)
         [(''dm43'', Numeric ''143.195.131.17'', 2, Some ''hs_router''), (''cherrypie'', Numeric ''1.2.3.4'', 1, None)] s
       = Inr (n, rd')"
proof -
  let ?rd = "\<lambda>i. of_nat i :: u32"
  let ?tests = "[(''dm43'', Numeric ''143.195.131.17'', 2, Some ''hs_router''), (''cherrypie'', Numeric ''1.2.3.4'', 1, None)]"
  have "distinct (shared_cable_addresses ?rd)"
    by (simp add: shared_cable_addresses_def random_router_ethernet_address_def
        random_host_ethernet_address_def drawn_def)
  moreover have "\<forall>test \<in> set ?tests. good_test test"
  proof -
    have m: "means (Numeric ''143.195.131.17'') 0x8FC38311" "means (Numeric ''1.2.3.4'') 0x01020304"
      by (simp_all add: means_def literal_destinations)
    have s: "Dm43 \<in> set SENDERS" "Cherrypie \<in> set SENDERS" by (simp_all add: SENDERS_def)
    have "\<not> (2 :: u8) \<le> 1" by (simp add: word_le_nat_alt)
    from good_test_delivered [OF this s(1) _ m(1) destinations_lead(4)]
      good_test_dropped [OF s(2) _ m(2), where ttl = 1]
    show ?thesis by (simp del: good_test.simps)
  qed
  ultimately show ?thesis
    using simulated_network_delivers [OF network_new_fresh, of ?rd "map fst HOSTS" ?tests]
      network_new_fresh [of ?rd] by blast
qed

text \<open>C26: The program reports success. \<open>network_simulator\<close> ends normally, with exit status 0, for
  all random addresses and payloads and any order of the final checks, provided only that
  the three interfaces on the shared cable have drawn different addresses.\<close>

theorem simulator_succeeds:
  assumes "distinct (shared_cable_addresses rd)" "set (map fst HOSTS) \<subseteq> set order"
  shows "simulator_main order rd = Inr EXIT_SUCCESS"
  using fresh_tests_ok [OF assms all_tests_good]
  by (auto simp: simulator_main_def network_simulator_def network_new_fresh)

theorem simulator_succeeds_witness: "simulator_main (map fst HOSTS) (\<lambda>i. of_nat i) = Inr EXIT_SUCCESS"
  by (rule simulator_succeeds)
    (simp_all add: shared_cable_addresses_def random_router_ethernet_address_def
      random_host_ethernet_address_def drawn_def)

end
