(* ===== verification/UdpTcpdump.thy ===== *)
theory UdpTcpdump
  imports TcpSegment EthernetArp Addresses
begin

text \<open>
  \<open>apps/udp_tcpdump.cc\<close>, which shows the TCP segments that travel inside of UDP datagrams, and
  \<open>hexdump\<close> of \<open>libsponge/util/util.cc\<close>. The capture library \<open>pcap\<close> is a parameter. A packet is
  the list of the bytes captured, at most 65535 as asked for in \<open>pcap_open_live\<close>; reading past
  them is undefined.
\<close>

section \<open>hexdump\<close>

function hex_digits :: "nat \<Rightarrow> string" where
  "hex_digits n = (if n < 16 then [hex_digit n] else hex_digits (n div 16) @ [hex_digit (n mod 16)])"
  by pat_completeness auto
termination by (relation "measure id") auto

declare hex_digits.simps [simp del]

text \<open>A number in hexadecimal, filled with zeros to a width.\<close>

definition setw_hex :: "nat \<Rightarrow> nat \<Rightarrow> string" where
  "setw_hex width n = replicate (width - length (hex_digits n)) CHR ''0'' @ hex_digits n"

definition printable :: "byte \<Rightarrow> char" where
  "printable b = (if 32 \<le> b \<and> b \<le> 126 then char_of (unat b) else CHR ''.'')"

definition newline :: string where "newline = [CHR 0x0A]"

definition spaces :: "nat \<Rightarrow> string" where "spaces n = replicate n CHR '' ''"

text \<open>
  The second component of the state is what has been written to \<open>pchars\<close> since it was set to
  \<open>" "\<close>: that string is overwritten from its beginning, so that its space is seen only when
  nothing has been written.
\<close>

definition pchars_str :: "string \<Rightarrow> string" where
  "pchars_str written = (if written = [] then '' '' else written)"

definition hexdump_step :: "string \<Rightarrow> string \<times> string \<times> nat \<Rightarrow> byte \<Rightarrow> string \<times> string \<times> nat" where
  "hexdump_step indent_string st b =
     (case st of (out, pchars, printed) \<Rightarrow>
        let (out, pchars) =
          (if printed mod 16 = 0 then
             let (out, pchars) =
               (if printed \<noteq> 0 then (out @ ''    '' @ pchars_str pchars @ newline, []) else (out, pchars))
             in (out @ indent_string @ setw_hex 8 printed @ '':    '', pchars)
           else if printed mod 2 = 0 then (out @ '' '', pchars) else (out, pchars))
        in (out @ setw_hex 2 (unat b), pchars @ [printable b], printed + 1))"

definition hexdump :: "byte list \<Rightarrow> nat \<Rightarrow> string" where
  "hexdump data indent =
     (case foldl (hexdump_step (spaces indent)) ([], [], 0) data of (out, pchars, printed) \<Rightarrow>
        let print_rem = (16 - printed mod 16) mod 16
        in out @ spaces (2 * print_rem + print_rem div 2 + 4) @ pchars_str pchars @ newline @ newline)"

section \<open>Command line\<close>

text \<open>
  The arguments from position \<open>current\<close> on; \<open>Inl\<close> is an exit status. The result is the position
  where the filter expression starts, and the device.
\<close>

fun parse_arguments :: "string list \<Rightarrow> nat \<Rightarrow> string option \<Rightarrow> int + nat \<times> string option" where
  "parse_arguments [] current dev = Inr (current, dev)"
| "parse_arguments (arg # args) current dev =
     (if arg = ''-i'' then
        (case args of [] \<Rightarrow> Inl 1 | a # args \<Rightarrow> parse_arguments args (current + 2) (Some a))
      else if arg = ''-h'' \<or> arg = ''--help'' then Inl 0
      else Inr (current, dev))"

section \<open>Looking into a packet\<close>

definition byte_at :: "byte list \<Rightarrow> nat \<Rightarrow> failure + byte" where
  "byte_at data i = (if i < length data then Inr (data ! i) else Inl UndefinedBehaviour)"

definition bytes_at :: "byte list \<Rightarrow> nat \<Rightarrow> nat \<Rightarrow> failure + byte list" where
  "bytes_at data i n = (if i + n \<le> length data then Inr (take n (drop i data)) else Inl UndefinedBehaviour)"

definition inet4_addr :: "byte list \<Rightarrow> nat \<Rightarrow> failure + string" where
  "inet4_addr data i = map_sum id (\<lambda>bs. dotted_quad (word_rcat bs)) (bytes_at data i 4)"

text \<open>The text that \<open>inet_ntop\<close> makes of an IPv6 address is a parameter; \<open>Inl\<close> of the results is
  what is said on \<open>cerr\<close> when they are -1.\<close>

type_synonym ntop = "byte list \<Rightarrow> string option"

definition inet6_addr :: "ntop \<Rightarrow> byte list \<Rightarrow> nat \<Rightarrow> failure + string" where
  "inet6_addr inet_ntop data i =
     map_sum id (\<lambda>bs. case inet_ntop bs of None \<Rightarrow> ''unknown'' | Some s \<Rightarrow> s) (bytes_at data i 16)"

function ipv6_extensions :: "nat \<Rightarrow> byte list \<Rightarrow> byte \<Rightarrow> nat \<Rightarrow> failure + string + nat" where
  "ipv6_extensions len data nxt data_offset =
     (if nxt = 0x11 then Inr (Inr data_offset)
      else if nxt \<noteq> 0 \<and> nxt \<noteq> 43 \<and> nxt \<noteq> 60 then Inr (Inl ''Not UDP or fragmented; '')
      else
        case byte_at data data_offset of Inl e \<Rightarrow> Inl e | Inr nxt \<Rightarrow>
        case byte_at data (data_offset + 1) of Inl e \<Rightarrow> Inl e | Inr extra \<Rightarrow>
          let data_offset = data_offset + 8 * (1 + unat extra)
          in if len < data_offset + 2 then Inr (Inl [])
             else ipv6_extensions len data nxt data_offset)"
  by pat_completeness auto
termination
  by (relation "measure (\<lambda>(len, data, nxt, off). length data - off)") (auto simp: byte_at_def split: if_splits)

declare ipv6_extensions.simps [simp del]

definition process_ipv4_ipv6 :: "ntop \<Rightarrow> nat \<Rightarrow> byte list \<Rightarrow> failure + string + string \<times> string \<times> nat" where
  "process_ipv4_ipv6 inet_ntop len data =
     (if len < 1 then Inr (Inl [])
      else
        case byte_at data 0 of Inl e \<Rightarrow> Inl e | Inr first \<Rightarrow>
        let pt = first AND 0xF0
        in if pt = 0x40 then
             let data_offset = unat (first AND 0x0F) * 4
             in if len < data_offset then Inr (Inl [])
                else
                  case byte_at data 9 of Inl e \<Rightarrow> Inl e | Inr proto \<Rightarrow>
                  if proto \<noteq> 0x11 then Inr (Inl ''Not UDP; '')
                  else
                    case inet4_addr data 12 of Inl e \<Rightarrow> Inl e | Inr src_addr \<Rightarrow>
                    case inet4_addr data 16 of Inl e \<Rightarrow> Inl e | Inr dst_addr \<Rightarrow>
                      Inr (Inr (src_addr, dst_addr, data_offset + 8))
           else if pt = 0x60 then
             if len < 42 then Inr (Inl [])
             else
               case byte_at data 6 of Inl e \<Rightarrow> Inl e | Inr nxt \<Rightarrow>
               case ipv6_extensions len data nxt 40 of
                 Inl e \<Rightarrow> Inl e
               | Inr (Inl remark) \<Rightarrow> Inr (Inl remark)
               | Inr (Inr data_offset) \<Rightarrow>
                   case inet6_addr inet_ntop data 8 of Inl e \<Rightarrow> Inl e | Inr src_addr \<Rightarrow>
                   case inet6_addr inet_ntop data 24 of Inl e \<Rightarrow> Inl e | Inr dst_addr \<Rightarrow>
                     Inr (Inr (src_addr, dst_addr, data_offset + 8))
           else Inr (Inl []))"

section \<open>The link layer\<close>

definition DLT_NULL :: int where "DLT_NULL = 0"
definition DLT_EN10MB :: int where "DLT_EN10MB = 1"
definition DLT_RAW :: int where "DLT_RAW = 12"
definition DLT_LINUX_SLL :: int where "DLT_LINUX_SLL = 113"
definition DLT_LINUX_SLL2 :: int where "DLT_LINUX_SLL2 = 276"

definition malformed :: string where "malformed = ''[INFO] Skipping malformed packet.''"
definition non_ip :: string where "non_ip = ''[INFO] Skipping non-IP packet.''"

definition two_bytes :: "byte list \<Rightarrow> nat \<Rightarrow> failure + u16" where
  "two_bytes pkt_data i =
     (case byte_at pkt_data i of Inl e \<Rightarrow> Inl e | Inr b \<Rightarrow>
      case byte_at pkt_data (i + 1) of Inl e \<Rightarrow> Inl e | Inr b' \<Rightarrow>
        Inr (push_bit 8 (ucast b) OR ucast b'))"

text \<open>Where the IP packet starts, or the remark with which the packet is skipped; \<open>hdr_off\<close> bytes
  with the type of the packet at \<open>i\<close>.\<close>

definition typed_link :: "nat \<Rightarrow> nat \<Rightarrow> byte list \<Rightarrow> failure + string + nat" where
  "typed_link hdr_off i pkt_data =
     (if length pkt_data < hdr_off then Inr (Inl malformed)
      else
        case two_bytes pkt_data i of Inl e \<Rightarrow> Inl e | Inr pt \<Rightarrow>
          if pt \<noteq> 0x0800 \<and> pt \<noteq> 0x86dd then Inr (Inl non_ip) else Inr (Inr hdr_off))"

definition link_header :: "int \<Rightarrow> byte list \<Rightarrow> failure + string + nat" where
  "link_header dl_type pkt_data =
     (if dl_type = DLT_NULL then
        if length pkt_data < 4 then Inr (Inl malformed)
        else
          case byte_at pkt_data 3 of Inl e \<Rightarrow> Inl e | Inr pt \<Rightarrow>
            if pt \<noteq> 2 \<and> pt \<noteq> 24 \<and> pt \<noteq> 28 \<and> pt \<noteq> 30 then Inr (Inl non_ip) else Inr (Inr 4)
      else if dl_type = DLT_EN10MB then typed_link 14 12 pkt_data
      else if dl_type = DLT_LINUX_SLL then typed_link 16 14 pkt_data
      else if dl_type = DLT_LINUX_SLL2 then typed_link 20 0 pkt_data
      else Inr (Inr 0))"

section \<open>What is shown\<close>

datatype report = Skipped string
  | NoTcp string string "byte list"
  | Shown string string tcp_header bool u32 u64 "byte list"

definition yes_no :: "bool \<Rightarrow> string \<Rightarrow> string" where
  "yes_no b s = (if b then s else [])"

definition word_text :: "'a::len word \<Rightarrow> string" where
  "word_text w = decimal_text (unat w)"

text \<open>The text on \<open>cout\<close>; what is skipped is a line on \<open>cerr\<close>.\<close>

fun report_text :: "report \<Rightarrow> string" where
  "report_text (Skipped remark) = []"
| "report_text (NoTcp src dst payload) =
     ''(did not recognize TCP header) src: '' @ src @ '' dst: '' @ dst @ newline @ hexdump payload 8"
| "report_text (Shown src dst tcp_hdr correct seqlen payload_len payload) =
     src @ '':'' @ word_text (th_sport tcp_hdr) @ '' > '' @ dst @ '':'' @ word_text (th_dport tcp_hdr)
       @ newline @ ''    Flags [''
       @ yes_no (th_urg tcp_hdr) ''U'' @ yes_no (th_psh tcp_hdr) ''P'' @ yes_no (th_rst tcp_hdr) ''R''
       @ yes_no (th_syn tcp_hdr) ''S'' @ yes_no (th_fin tcp_hdr) ''F'' @ yes_no (th_ack tcp_hdr) ''.''
       @ ''] cksum 0x'' @ setw_hex 4 (unat (th_cksum tcp_hdr))
       @ (if correct then '' (correct)'' else '' (incorrect!)'')
       @ '' seq '' @ word_text (raw_value (th_seqno tcp_hdr))
       @ yes_no (0 < seqlen) ('':'' @ word_text (raw_value (th_seqno tcp_hdr) + seqlen))
       @ '' ack '' @ word_text (raw_value (th_ackno tcp_hdr)) @ '' win '' @ word_text (th_win tcp_hdr)
       @ '' length '' @ word_text payload_len @ newline @ hexdump payload 8"

text \<open>The length that is left is computed without a sign; the string of a payload longer than
  \<open>std::string\<close> can be is refused.\<close>

definition MAX_STRING :: u64 where "MAX_STRING = 0x7FFFFFFFFFFFFFFF"

definition show_payload :: "string \<Rightarrow> string \<Rightarrow> byte list \<Rightarrow> nat \<Rightarrow> failure + report" where
  "show_payload src dst pkt_data payload_off =
     (let payload_len = size_of pkt_data - of_nat payload_off
      in if MAX_STRING < payload_len then Inl (Thrown ''length_error'')
         else
           case bytes_at pkt_data payload_off (unat payload_len) of Inl e \<Rightarrow> Inl e | Inr payload \<Rightarrow>
             (case tcp_segment_parse payload 0 tcp_segment_new of (res, seg) \<Rightarrow>
                if parse_result_index BadChecksum < parse_result_index res then Inr (NoTcp src dst payload)
                else Inr (Shown src dst (ts_header seg) (res = NoError)
                            (ucast (length_in_sequence_space seg)) payload_len payload)))"

definition dump_packet :: "ntop \<Rightarrow> int \<Rightarrow> byte list \<Rightarrow> failure + report" where
  "dump_packet inet_ntop dl_type pkt_data =
     (case link_header dl_type pkt_data of
        Inl e \<Rightarrow> Inl e
      | Inr (Inl remark) \<Rightarrow> Inr (Skipped remark)
      | Inr (Inr hdr_off) \<Rightarrow>
          (case process_ipv4_ipv6 inet_ntop (length pkt_data - hdr_off) (drop hdr_off pkt_data) of
             Inl e \<Rightarrow> Inl e
           | Inr (Inl remark) \<Rightarrow> Inr (Skipped (remark @ ''Error parsing IPv4/IPv6 packet. Skipping.''))
           | Inr (Inr (src, dst, start_off)) \<Rightarrow> show_payload src dst pkt_data (hdr_off + start_off)))"

section \<open>The program\<close>

text \<open>
  The answers of \<open>pcap\<close>: opening a device gives its link type, the filter is accepted or not,
  and the results of \<open>pcap_next_ex\<close> come one after the other (0 is a timeout, a negative number
  the end).
\<close>

record pcap =
  pc_open_live :: "string option \<Rightarrow> string + int"
  pc_compile :: "string \<Rightarrow> bool"
  pc_setfilter :: "string \<Rightarrow> bool"
  pc_next :: "(int \<times> byte list) list"

definition supported_link :: "int \<Rightarrow> bool" where
  "supported_link dlt \<longleftrightarrow> dlt \<in> {DLT_RAW, DLT_NULL, DLT_EN10MB, DLT_LINUX_SLL, DLT_LINUX_SLL2}"

text \<open>\<open>None\<close> means that the program is still listening when the results are used up.\<close>

fun capture_loop :: "ntop \<Rightarrow> int \<Rightarrow> (int \<times> byte list) list \<Rightarrow> report list \<Rightarrow> failure + report list \<times> int option" where
  "capture_loop inet_ntop dl_type [] shown = Inr (shown, None)"
| "capture_loop inet_ntop dl_type ((next_ret, pkt_data) # results) shown =
     (if next_ret < 0 then Inr (shown, Some (if next_ret = -1 then 1 else 0))
      else if next_ret = 0 then capture_loop inet_ntop dl_type results shown
      else
        case dump_packet inet_ntop dl_type pkt_data of Inl e \<Rightarrow> Inl e | Inr report \<Rightarrow>
          capture_loop inet_ntop dl_type results (shown @ [report]))"

definition udp_tcpdump :: "ntop \<Rightarrow> pcap \<Rightarrow> string list \<Rightarrow> failure + report list \<times> int option" where
  "udp_tcpdump inet_ntop P argv =
     (case parse_arguments (drop 1 argv) 1 None of
        Inl status \<Rightarrow> Inr ([], Some status)
      | Inr (exp_start, dev) \<Rightarrow>
          (case pc_open_live P dev of
             Inl _ \<Rightarrow> Inr ([], Some 1)
           | Inr dlt \<Rightarrow>
               if \<not> supported_link dlt then Inr ([], Some 1)
               else
                 let filter_expression = concat (map (\<lambda>a. a @ '' '') (drop exp_start argv))
                 in if \<not> pc_compile P filter_expression then Inr ([], Some 1)
                    else if \<not> pc_setfilter P filter_expression then Inr ([], Some 1)
                    else capture_loop inet_ntop dlt (pc_next P) []))"

section \<open>hexdump prints rows of sixteen bytes\<close>

definition hex_column :: "byte list \<Rightarrow> string" where
  "hex_column bs =
     concat (map (\<lambda>i. (if i \<noteq> 0 \<and> even i then '' '' else []) @ setw_hex 2 (unat (bs ! i))) [0..<length bs])"

definition row_head :: "nat \<Rightarrow> nat \<Rightarrow> byte list \<Rightarrow> string" where
  "row_head indent k bs = spaces indent @ setw_hex 8 (16 * k) @ '':    '' @ hex_column bs"

definition row_fill :: "byte list \<Rightarrow> string" where
  "row_fill bs = (let rest = 16 - length bs in spaces (2 * rest + rest div 2 + 4))"

definition row :: "nat \<Rightarrow> nat \<Rightarrow> byte list \<Rightarrow> string" where
  "row indent k bs = row_head indent k bs @ row_fill bs @ map printable bs"

function rows :: "nat \<Rightarrow> nat \<Rightarrow> byte list \<Rightarrow> string" where
  "rows indent k bs =
     row indent k (take 16 bs) @ (if length bs \<le> 16 then [] else newline @ rows indent (k + 1) (drop 16 bs))"
  by pat_completeness auto
termination by (relation "measure (\<lambda>(indent, k, bs). length bs)") auto

declare rows.simps [simp del]

lemma hex_column_snoc:
  "hex_column (bs @ [b]) =
     hex_column bs @ (if bs \<noteq> [] \<and> even (length bs) then '' '' else []) @ setw_hex 2 (unat b)"
  by (simp add: hex_column_def nth_append) (rule arg_cong [where f = concat], rule map_cong, simp_all)

text \<open>The output before a row starts: the previous row is completed first.\<close>

definition before_row :: "nat \<Rightarrow> string \<Rightarrow> string \<Rightarrow> string" where
  "before_row k out pchars = (if k = 0 then out else out @ ''    '' @ pchars_str pchars @ newline)"

lemma hexdump_row:
  assumes "bs \<noteq> []" "length bs \<le> 16" "k = 0 \<longrightarrow> pchars = []"
  shows "foldl (hexdump_step (spaces indent)) (out, pchars, 16 * k) bs =
    (before_row k out pchars @ row_head indent k bs, map printable bs, 16 * k + length bs)"
  using assms(1,2)
proof (induction bs rule: rev_induct)
  case (snoc b bs)
  show ?case
  proof (cases "bs = []")
    case True
    then show ?thesis
      using assms(3) by (auto simp: hexdump_step_def before_row_def row_head_def hex_column_def)
  next
    case False
    have "(16 * k + length bs) mod 16 = length bs" using snoc(3) by simp
    moreover have "(16 * k + length bs) mod 2 = length bs mod 2" by presburger
    ultimately show ?thesis
      using False snoc by (simp add: hexdump_step_def row_head_def hex_column_snoc even_iff_mod_2_eq_zero)
  qed
qed simp

definition hexdump_end :: "string \<times> string \<times> nat \<Rightarrow> string" where
  "hexdump_end st =
     (case st of (out, pchars, printed) \<Rightarrow>
        let print_rem = (16 - printed mod 16) mod 16
        in out @ spaces (2 * print_rem + print_rem div 2 + 4) @ pchars_str pchars)"

lemma spaces_four: "spaces 4 = ''    ''"
  by (simp add: spaces_def numeral_eq_Suc)

lemma spaces_five: "spaces 4 @ '' '' = spaces 5"
  by (simp add: spaces_four) (simp add: spaces_def numeral_eq_Suc)

lemma pchars_str_simp [simp]: "s \<noteq> [] \<Longrightarrow> pchars_str s = s"
  by (simp add: pchars_str_def)

lemma hexdump_last_row:
  assumes "bs \<noteq> []" "length bs \<le> 16"
  shows "hexdump_end (out @ row_head indent k bs, map printable bs, 16 * k + length bs) = out @ row indent k bs"
proof -
  have "(16 - (16 * k + length bs) mod 16) mod 16 = 16 - length bs"
  proof (cases "length bs = 16")
    case False
    then have "(16 * k + length bs) mod 16 = length bs" using assms(2) by simp
    moreover have "(16 - length bs) mod 16 = 16 - length bs" using assms(1) by simp
    ultimately show ?thesis by simp
  qed simp
  then show ?thesis using assms(1) by (simp add: hexdump_end_def row_def row_fill_def Let_def)
qed

lemma hexdump_rows_from:
  "bs \<noteq> [] \<Longrightarrow> k = 0 \<longrightarrow> pchars = [] \<Longrightarrow>
   hexdump_end (foldl (hexdump_step (spaces indent)) (out, pchars, 16 * k) bs) =
     before_row k out pchars @ rows indent k bs"
proof (induction indent k bs arbitrary: out pchars rule: rows.induct)
  case (1 indent k bs)
  show ?case
  proof (cases "length bs \<le> 16")
    case True
    have "foldl (hexdump_step (spaces indent)) (out, pchars, 16 * k) bs =
        (before_row k out pchars @ row_head indent k bs, map printable bs, 16 * k + length bs)"
      using 1(2) True 1(3) by (rule hexdump_row)
    then show ?thesis using 1(2) True by (simp add: hexdump_last_row rows.simps [of indent k bs])
  next
    case False
    let ?row = "take 16 bs" and ?rest = "drop 16 bs"
    let ?out = "before_row k out pchars @ row_head indent k ?row"
    have len: "length ?row = 16" "?row \<noteq> []" using False by auto
    have "foldl (hexdump_step (spaces indent)) (out, pchars, 16 * k) ?row =
        (?out, map printable ?row, 16 * (k + 1))"
      using hexdump_row [of ?row k pchars indent out] len 1(3) by simp
    then have "hexdump_end (foldl (hexdump_step (spaces indent)) (out, pchars, 16 * k) bs) =
        hexdump_end (foldl (hexdump_step (spaces indent)) (?out, map printable ?row, 16 * (k + 1)) ?rest)"
      by (metis append_take_drop_id foldl_append)
    also have "\<dots> = before_row (k + 1) ?out (map printable ?row) @ rows indent (k + 1) ?rest"
      using False by (intro 1(1)) auto
    also have "\<dots> = before_row k out pchars @ rows indent k bs"
      using False len by (simp add: before_row_def rows.simps [of indent k bs] row_def row_fill_def spaces_four)
    finally show ?thesis .
  qed
qed

theorem hexdump_rows:
  "hexdump bs indent = (if bs = [] then spaces 5 else rows indent 0 bs) @ newline @ newline"
proof -
  have "hexdump bs indent = hexdump_end (foldl (hexdump_step (spaces indent)) ([], [], 0) bs) @ newline @ newline"
    by (simp add: hexdump_def hexdump_end_def Let_def split: prod.split)
  moreover have "hexdump_end ([], [], 0) = spaces 5"
    by (simp add: hexdump_end_def pchars_str_def spaces_five)
  moreover have "bs \<noteq> [] \<Longrightarrow> hexdump_end (foldl (hexdump_step (spaces indent)) ([], [], 0) bs) = rows indent 0 bs"
    using hexdump_rows_from [of bs 0 "[]" indent "[]"] by (simp add: before_row_def)
  ultimately show ?thesis by simp
qed

section \<open>Where a packet is read\<close>

named_theorems dump_reads
declare byte_at_def [dump_reads] bytes_at_def [dump_reads] inet4_addr_def [dump_reads] inet6_addr_def [dump_reads]
  two_bytes_def [dump_reads]

lemma link_header_inside:
  "\<exists>r. link_header dl_type pkt = Inr r" "link_header dl_type pkt = Inr (Inr hdr_off) \<Longrightarrow> hdr_off \<le> length pkt"
  by (auto simp: link_header_def typed_link_def dump_reads split: sum.splits if_splits)

lemma ipv6_extensions_end [simp]: "ipv6_extensions len data 0x11 off = Inr (Inr off)"
  by (simp add: ipv6_extensions.simps [of len data "0x11"])

lemma ipv6_extensions_inside:
  "off + 2 \<le> length data \<Longrightarrow>
   (\<exists>r. ipv6_extensions (length data) data nxt off = Inr r) \<and>
   (\<forall>n. ipv6_extensions (length data) data nxt off = Inr (Inr n) \<longrightarrow> n + 2 \<le> length data)"
proof (induction "length data" data nxt off rule: ipv6_extensions.induct)
  case (1 data nxt off)
  have next1: "byte_at data off = Inr (data ! off)" "byte_at data (off + 1) = Inr (data ! (off + 1))"
    using 1(2) by (simp_all add: byte_at_def)
  let ?off = "off + 8 * (1 + unat (data ! (off + 1)))"
  consider "nxt = 0x11" | "nxt \<noteq> 0x11" "nxt \<noteq> 0 \<and> nxt \<noteq> 43 \<and> nxt \<noteq> 60"
    | "nxt \<noteq> 0x11" "\<not> (nxt \<noteq> 0 \<and> nxt \<noteq> 43 \<and> nxt \<noteq> 60)" "length data < ?off + 2"
    | "nxt \<noteq> 0x11" "\<not> (nxt \<noteq> 0 \<and> nxt \<noteq> 43 \<and> nxt \<noteq> 60)" "?off + 2 \<le> length data"
    by linarith
  then show ?case
  proof cases
    case 4
    have "\<not> length data < ?off + 2" using 4(3) by linarith
    from 1(1) [OF 4(1,2) next1 refl this 4(3)]
    show ?thesis
      using 4 next1 by (simp add: ipv6_extensions.simps [of _ data nxt off] Let_def)
  qed (use 1(2) next1 in \<open>auto simp: ipv6_extensions.simps [of _ data nxt off] Let_def\<close>)
qed

lemma process_inside:
  assumes "data \<noteq> [] \<and> hd data AND 0xF0 = 0x40 \<Longrightarrow> 20 \<le> length data"
  shows "\<exists>r. process_ipv4_ipv6 inet_ntop (length data) data = Inr r"
    and "process_ipv4_ipv6 inet_ntop (length data) data = Inr (Inr (src, dst, n)) \<Longrightarrow> n \<le> length data + 8"
proof -
  have six: "length data \<ge> 42 \<Longrightarrow> (\<exists>r. ipv6_extensions (length data) data nxt 40 = Inr r) \<and>
      (\<forall>n. ipv6_extensions (length data) data nxt 40 = Inr (Inr n) \<longrightarrow> n + 2 \<le> length data)" for nxt
    by (rule ipv6_extensions_inside) simp
  show "\<exists>r. process_ipv4_ipv6 inet_ntop (length data) data = Inr r"
    using assms six [of "data ! 6"]
    by (cases data) (auto simp: process_ipv4_ipv6_def dump_reads Let_def split: sum.splits)
  show "n \<le> length data + 8"
    if "process_ipv4_ipv6 inet_ntop (length data) data = Inr (Inr (src, dst, n))"
    using that assms six [of "data ! 6"]
    by (cases data) (auto simp: process_ipv4_ipv6_def dump_reads Let_def split: sum.splits if_splits)
qed

lemma payload_left:
  assumes "length pkt \<le> 65535" "off \<le> length pkt + 8"
  shows "MAX_STRING < size_of pkt - of_nat off \<longleftrightarrow> length pkt < off"
    and "off \<le> length pkt \<Longrightarrow> unat (size_of pkt - of_nat off) = length pkt - off"
proof -
  have whole: "unat (size_of pkt - of_nat off) = length pkt - off" if "off \<le> length pkt"
    using that assms(1) by (simp add: size_of_def unat_of_nat_u64 flip: of_nat_diff)
  have cut: "unat (size_of pkt - of_nat off) = 2 ^ 64 - (off - length pkt)" if "length pkt < off"
  proof -
    have "size_of pkt - of_nat off = (of_nat (2 ^ 64 - (off - length pkt)) :: u64)"
      using that assms by (simp add: size_of_def of_nat_diff)
    then show ?thesis using that by (simp add: unat_of_nat_u64)
  qed
  have max: "unat MAX_STRING = 2 ^ 63 - 1" by (simp add: MAX_STRING_def)
  show "MAX_STRING < size_of pkt - of_nat off \<longleftrightarrow> length pkt < off"
    using whole cut assms unfolding word_less_nat_alt max by (cases "off \<le> length pkt") auto
  show "off \<le> length pkt \<Longrightarrow> unat (size_of pkt - of_nat off) = length pkt - off" by (rule whole)
qed

lemma show_payload_inside:
  assumes "length pkt \<le> 65535" "off \<le> length pkt + 8"
  shows "show_payload src dst pkt off =
    (if length pkt < off then Inl (Thrown ''length_error'')
     else case tcp_segment_parse (drop off pkt) 0 tcp_segment_new of (res, seg) \<Rightarrow>
       if parse_result_index BadChecksum < parse_result_index res then Inr (NoTcp src dst (drop off pkt))
       else Inr (Shown src dst (ts_header seg) (res = NoError) (ucast (length_in_sequence_space seg))
                   (size_of (drop off pkt)) (drop off pkt)))"
proof (cases "off \<le> length pkt")
  case True
  then have "size_of pkt - of_nat off = size_of (drop off pkt)" by (simp add: size_of_def of_nat_diff)
  moreover have "bytes_at pkt off (unat (size_of pkt - of_nat off)) = Inr (drop off pkt)"
    using True payload_left(2) [OF assms True] by (simp add: bytes_at_def)
  ultimately show ?thesis using True payload_left(1) [OF assms] by (simp add: show_payload_def Let_def)
next
  case False
  then show ?thesis using payload_left(1) [OF assms] by (simp add: show_payload_def Let_def)
qed

definition ipv4_captured :: "int \<Rightarrow> byte list \<Rightarrow> bool" where
  "ipv4_captured dl_type pkt \<longleftrightarrow>
     (case link_header dl_type pkt of
        Inr (Inr hdr_off) \<Rightarrow>
          drop hdr_off pkt \<noteq> [] \<and> hd (drop hdr_off pkt) AND 0xF0 = 0x40 \<longrightarrow> 20 \<le> length (drop hdr_off pkt)
      | _ \<Rightarrow> True)"

definition udp_header_cut :: "ntop \<Rightarrow> int \<Rightarrow> byte list \<Rightarrow> bool" where
  "udp_header_cut inet_ntop dl_type pkt \<longleftrightarrow>
     (case link_header dl_type pkt of
        Inr (Inr hdr_off) \<Rightarrow>
          (case process_ipv4_ipv6 inet_ntop (length pkt - hdr_off) (drop hdr_off pkt) of
             Inr (Inr (_, _, start_off)) \<Rightarrow> length pkt < hdr_off + start_off
           | _ \<Rightarrow> False)
      | _ \<Rightarrow> False)"

text \<open>C24: Looking into captured packets never reads beyond them, if IPv4 packets have at least the
  twenty bytes of a header: every such packet is reported on, on every kind of link, except
  that the program ends with an exception when a packet ends within its UDP header.\<close>

theorem dump_stays_inside:
  assumes "length pkt \<le> 65535" and "ipv4_captured dl_type pkt"
  shows "if udp_header_cut inet_ntop dl_type pkt
    then dump_packet inet_ntop dl_type pkt = Inl (Thrown ''length_error'')
    else \<exists>report. dump_packet inet_ntop dl_type pkt = Inr report"
proof (cases "link_header dl_type pkt")
  case (Inr r)
  show ?thesis
  proof (cases r)
    case (Inr hdr_off)
    then have link: "link_header dl_type pkt = Inr (Inr hdr_off)" using \<open>link_header dl_type pkt = Inr r\<close> by simp
    have in_packet: "hdr_off \<le> length pkt" using link by (rule link_header_inside)
    have captured: "drop hdr_off pkt \<noteq> [] \<and> hd (drop hdr_off pkt) AND 0xF0 = 0x40 \<Longrightarrow> 20 \<le> length (drop hdr_off pkt)"
      using assms(2) by (simp add: ipv4_captured_def link)
    note inside = process_inside [OF captured, of inet_ntop, unfolded length_drop]
    have "hdr_off + n \<le> length pkt + 8"
      if "process_ipv4_ipv6 inet_ntop (length pkt - hdr_off) (drop hdr_off pkt) = Inr (Inr (src, dst, n))" for src dst n
      using inside(2) [OF _ that] captured in_packet by auto
    then show ?thesis
      using inside(1) assms(1) captured
      by (auto simp: dump_packet_def udp_header_cut_def link show_payload_inside split: sum.splits prod.splits)
  qed (simp add: dump_packet_def udp_header_cut_def Inr)
qed (use link_header_inside(1) [of dl_type pkt] in simp)

section \<open>What is shown of a segment in a UDP datagram\<close>















definition example_ipv4 :: "byte list" where
  "example_ipv4 = [0x45, 0, 0, 50, 0, 1, 0, 0, 64, 0x11, 0, 0, 10, 0, 0, 1, 10, 0, 0, 2] @ [0, 1, 0, 2, 0, 30, 0, 0]"




theorem dump_stays_inside_witness:
  "dump_packet (\<lambda>_. None) DLT_RAW (take 20 example_ipv4) = Inl (Thrown ''length_error'')"
proof -
  have link: "link_header DLT_RAW pkt = Inr (Inr 0)" for pkt
    by (simp add: link_header_def DLT_RAW_def DLT_NULL_def DLT_EN10MB_def DLT_LINUX_SLL_def DLT_LINUX_SLL2_def)
  have "ipv4_captured DLT_RAW (take 20 example_ipv4)" by (simp add: ipv4_captured_def link example_ipv4_def)
  moreover have "udp_header_cut (\<lambda>_. None) DLT_RAW (take 20 example_ipv4)"
    by (simp add: udp_header_cut_def link process_ipv4_ipv6_def dump_reads example_ipv4_def Let_def)
  ultimately show ?thesis
    using dump_stays_inside [of "take 20 example_ipv4" DLT_RAW "\<lambda>_. None"] by (simp add: example_ipv4_def)
qed

section \<open>What the program gets wrong\<close>

text \<open>The length of an IPv4 packet is compared with the header length that the packet claims:
  a packet of one byte is read at its tenth.\<close>

lemma short_ipv4_packet_is_overread: "dump_packet inet_ntop DLT_RAW [0x40] = Inl UndefinedBehaviour"
  by (simp add: dump_packet_def link_header_def process_ipv4_ipv6_def byte_at_def Let_def DLT_RAW_def DLT_NULL_def
      DLT_EN10MB_def DLT_LINUX_SLL_def DLT_LINUX_SLL2_def)

text \<open>A UDP packet that ends before its UDP header does ends the program.\<close>

lemma cut_udp_packet_ends_the_program:
  assumes "length hdr = 20" "hdr ! 0 = 0x45" "hdr ! 9 = 0x11"
    and "pc_open_live P None = Inr DLT_RAW" "pc_compile P []" "pc_setfilter P []" "pc_next P = (1, hdr) # results"
  shows "udp_tcpdump inet_ntop P [''udp_tcpdump''] = Inl (Thrown ''length_error'')"
proof -
  have "process_ipv4_ipv6 inet_ntop 20 hdr = Inr (Inr (dotted_quad (word_rcat (take 4 (drop 12 hdr))),
      dotted_quad (word_rcat (take 4 (drop 16 hdr))), 28))"
    using assms by (simp add: process_ipv4_ipv6_def dump_reads Let_def)
  then have "dump_packet inet_ntop DLT_RAW hdr = Inl (Thrown ''length_error'')"
    using assms by (simp add: dump_packet_def link_header_def show_payload_inside DLT_RAW_def DLT_NULL_def
      DLT_EN10MB_def DLT_LINUX_SLL_def DLT_LINUX_SLL2_def)
  then show ?thesis using assms(4-7) by (simp add: udp_tcpdump_def supported_link_def)
qed

text \<open>A segment with a wrong checksum is not parsed: what is shown of it is an empty header.\<close>

lemma bad_checksum_shows_empty_header:
  assumes "off \<le> length pkt" "length pkt \<le> 65535" "ic_value (ic_add (drop off pkt) (ic_new 0)) \<noteq> 0"
  shows "show_payload src dst pkt off =
    Inr (Shown src dst tcp_header_new False 0 (size_of (drop off pkt)) (drop off pkt))"
  using assms by (subst show_payload_inside) (auto simp: tcp_segment_parse_def parse_result_index_def
    length_in_sequence_space_def tcp_segment_new_def tcp_header_new_def size_of_def)

text \<open>The family of a packet on the loopback link is in the order of the host; that of a
  little-endian machine is never recognized.\<close>

lemma loopback_packets_are_skipped:
  "dump_packet inet_ntop DLT_NULL ([2, 0, 0, 0] @ ip) = Inr (Skipped non_ip)"
  by (simp add: dump_packet_def link_header_def byte_at_def DLT_NULL_def)

text \<open>The usage text offers \<open>-F\<close>, which is taken for a part of the filter expression.\<close>

lemma file_option_is_filter_text: "parse_arguments [''-F'', file] 1 None = Inr (1, None)"
  by simp

text \<open>The reports of a capture, one for every packet, in order.\<close>

lemma capture_reports_every_packet:
  assumes "\<forall>(n, pkt)\<in>set results. 0 \<le> n \<and> (0 < n \<longrightarrow> dump_packet inet_ntop dlt pkt = Inr (f pkt))"
  shows "capture_loop inet_ntop dlt (results @ [(-2, [])]) shown =
    Inr (shown @ map (f \<circ> snd) (filter (\<lambda>(n, _). 0 < n) results), Some 0)"
  using assms by (induction results arbitrary: shown) auto

end
