(* ===== verification/Sockets.thy ===== *)
theory Sockets
  imports FileDescriptor Addresses
begin

text \<open>
  \<open>libsponge/util/socket.{hh,cc}\<close> (\<open>shutdown\<close> is in \<open>FileDescriptor\<close>), \<open>TunTapFD\<close> of
  \<open>util/tun.cc\<close> and \<open>FileDescriptor::set_blocking\<close>: the system calls that set up sockets and
  devices, and UDP datagrams. As for reading and writing, the answers of the operating
  system are a parameter and may depend on everything that has happened.
\<close>

unbundle bit_operations_syntax

section \<open>The operating system's answers\<close>

definition AF_UNIX :: int where "AF_UNIX = 1"
definition SOCK_STREAM :: int where "SOCK_STREAM = 1"
definition SOCK_DGRAM :: int where "SOCK_DGRAM = 2"
definition SOL_SOCKET :: int where "SOL_SOCKET = 1"
definition SO_REUSEADDR :: int where "SO_REUSEADDR = 2"
definition SO_TYPE :: int where "SO_TYPE = 3"
definition SO_DOMAIN :: int where "SO_DOMAIN = 39"
definition O_RDWR :: int where "O_RDWR = 2"
definition O_NONBLOCK :: u32 where "O_NONBLOCK = 0x800"
definition IFF_TUN :: u16 where "IFF_TUN = 1"
definition IFF_TAP :: u16 where "IFF_TAP = 2"
definition IFF_NO_PI :: u16 where "IFF_NO_PI = 0x1000"
definition IFNAMSIZ :: nat where "IFNAMSIZ = 16"

datatype sock_call = CallSocket int int | CallGetSockOpt int int int | CallSetSockOpt int int int int
  | CallGetSockName int | CallGetPeerName int | CallBind int address | CallConnect int address
  | CallListen int int | CallAccept int | CallRecvFrom int "byte list" | CallSendMsg int "address option" "byte list"
  | CallGetFlags int | CallSetFlags int u32 | CallOpen string int | CallTunSetIff int u16 "byte list"

record sock_os = os +
  so_calls :: "sock_call list"

type_synonym past = "sys_event list \<times> sock_call list"

definition past_of :: "'a sock_os_scheme \<Rightarrow> past" where
  "past_of w = (os_trace w, so_calls w)"

definition calls :: "sock_call \<Rightarrow> 'a sock_os_scheme \<Rightarrow> 'a sock_os_scheme" where
  "calls c w = w\<lparr>so_calls := so_calls w @ [c]\<rparr>"

text \<open>
  \<open>Inl\<close> is an \<open>errno\<close>. \<open>getsockopt\<close> gives a value and its length, \<open>recvfrom\<close> the source and the
  whole datagram that was waiting (with \<open>MSG_TRUNC\<close> it returns the length of that, however
  much of it fits the buffer).
\<close>

record sock_kernel =
  sk_socket :: "past \<Rightarrow> int \<Rightarrow> int \<Rightarrow> int + nat"
  sk_getsockopt :: "past \<Rightarrow> int \<Rightarrow> int \<Rightarrow> int \<Rightarrow> int + int \<times> nat"
  sk_setsockopt :: "past \<Rightarrow> int \<Rightarrow> int \<Rightarrow> int \<Rightarrow> int \<Rightarrow> int + nat"
  sk_getsockname :: "past \<Rightarrow> int \<Rightarrow> int + address"
  sk_getpeername :: "past \<Rightarrow> int \<Rightarrow> int + address"
  sk_bind :: "past \<Rightarrow> int \<Rightarrow> address \<Rightarrow> int + nat"
  sk_connect :: "past \<Rightarrow> int \<Rightarrow> address \<Rightarrow> int + nat"
  sk_listen :: "past \<Rightarrow> int \<Rightarrow> int \<Rightarrow> int + nat"
  sk_accept :: "past \<Rightarrow> int \<Rightarrow> int + nat"
  sk_recvfrom :: "past \<Rightarrow> int \<Rightarrow> int + address \<times> byte list"
  sk_sendmsg :: "past \<Rightarrow> int \<Rightarrow> address option \<Rightarrow> byte list list \<Rightarrow> int + nat"
  sk_getfl :: "past \<Rightarrow> int \<Rightarrow> int + nat"
  sk_setfl :: "past \<Rightarrow> int \<Rightarrow> u32 \<Rightarrow> int + nat"
  sk_open :: "past \<Rightarrow> string \<Rightarrow> int \<Rightarrow> int + nat"
  sk_tunsetiff :: "past \<Rightarrow> int \<Rightarrow> u16 \<Rightarrow> byte list \<Rightarrow> int + nat"

text \<open>A call whose result is only its success or a number.\<close>

definition invoke :: "string \<Rightarrow> int + nat \<Rightarrow> sock_call \<Rightarrow> 'a sock_os_scheme \<Rightarrow> failure + int \<times> 'a sock_os_scheme" where
  "invoke attempt answer c w =
     (case system_call attempt (returned answer) 0 of Inl e \<Rightarrow> Inl e | Inr n \<Rightarrow> Inr (n, calls c w))"

section \<open>FileDescriptor\<close>

text \<open>A new \<open>FileDescriptor\<close> keeps its \<open>FDWrapper\<close> in the place \<open>ref\<close> of the store.\<close>

definition fd_new :: "fd_ref \<Rightarrow> int \<Rightarrow> 'a sock_os_scheme \<Rightarrow> failure + 'a sock_os_scheme" where
  "fd_new ref fd w = (case fdw_new fd of Inl e \<Rightarrow> Inl e | Inr x \<Rightarrow> Inr (upd_fd ref (\<lambda>_. x) w))"

definition set_blocking :: "sock_kernel \<Rightarrow> fd_ref \<Rightarrow> bool \<Rightarrow> 'a sock_os_scheme \<Rightarrow> failure + 'a sock_os_scheme" where
  "set_blocking SK fd blocking_state w =
     (case invoke ''fcntl'' (sk_getfl SK (past_of w) (fd_num fd w)) (CallGetFlags (fd_num fd w)) w of
        Inl e \<Rightarrow> Inl e
      | Inr (n, w) \<Rightarrow>
          let flags = (of_int n :: u32);
              flags = (if blocking_state then flags XOR (flags AND O_NONBLOCK) else flags OR O_NONBLOCK)
          in case invoke ''fcntl'' (sk_setfl SK (past_of w) (fd_num fd w) flags) (CallSetFlags (fd_num fd w) flags) w of
               Inl e \<Rightarrow> Inl e
             | Inr (_, w) \<Rightarrow> Inr w)"

section \<open>Socket\<close>

definition socket_new :: "sock_kernel \<Rightarrow> fd_ref \<Rightarrow> int \<Rightarrow> int \<Rightarrow> 'a sock_os_scheme \<Rightarrow> failure + 'a sock_os_scheme" where
  "socket_new SK ref domain type w =
     (case invoke ''socket'' (sk_socket SK (past_of w) domain type) (CallSocket domain type) w of
        Inl e \<Rightarrow> Inl e
      | Inr (n, w) \<Rightarrow> fd_new ref n w)"

text \<open>One of the two checks of the constructor from a descriptor; an \<open>int\<close> has four bytes.\<close>

definition verify_option :: "sock_kernel \<Rightarrow> fd_ref \<Rightarrow> int \<Rightarrow> int \<Rightarrow> string \<Rightarrow> 'a sock_os_scheme \<Rightarrow>
    failure + 'a sock_os_scheme" where
  "verify_option SK fd option expected message w =
     (case sk_getsockopt SK (past_of w) (fd_num fd w) SOL_SOCKET option of
        Inl errno \<Rightarrow>
          (case invoke ''getsockopt'' (Inl errno) (CallGetSockOpt (fd_num fd w) SOL_SOCKET option) w of
             Inl e \<Rightarrow> Inl e | Inr _ \<Rightarrow> Inl UndefinedBehaviour)
      | Inr (actual_value, len) \<Rightarrow>
          if len \<noteq> 4 \<or> actual_value \<noteq> expected then Inl (Thrown message)
          else Inr (calls (CallGetSockOpt (fd_num fd w) SOL_SOCKET option) w))"

definition socket_from_fd :: "sock_kernel \<Rightarrow> fd_ref \<Rightarrow> int \<Rightarrow> int \<Rightarrow> 'a sock_os_scheme \<Rightarrow> failure + 'a sock_os_scheme" where
  "socket_from_fd SK fd domain type w =
     (case verify_option SK fd SO_DOMAIN domain ''socket domain mismatch'' w of
        Inl e \<Rightarrow> Inl e
      | Inr w \<Rightarrow> verify_option SK fd SO_TYPE type ''socket type mismatch'' w)"

definition get_address :: "string \<Rightarrow> int + address \<Rightarrow> sock_call \<Rightarrow> 'a sock_os_scheme \<Rightarrow>
    failure + address \<times> 'a sock_os_scheme" where
  "get_address name_of_function answer c w =
     (case answer of
        Inl errno \<Rightarrow>
          (case invoke name_of_function (Inl errno) c w of
             Inl e \<Rightarrow> Inl e | Inr _ \<Rightarrow> Inl UndefinedBehaviour)
      | Inr a \<Rightarrow> Inr (a, calls c w))"

definition local_address :: "sock_kernel \<Rightarrow> fd_ref \<Rightarrow> 'a sock_os_scheme \<Rightarrow> failure + address \<times> 'a sock_os_scheme" where
  "local_address SK fd w =
     get_address ''getsockname'' (sk_getsockname SK (past_of w) (fd_num fd w)) (CallGetSockName (fd_num fd w)) w"

definition peer_address :: "sock_kernel \<Rightarrow> fd_ref \<Rightarrow> 'a sock_os_scheme \<Rightarrow> failure + address \<times> 'a sock_os_scheme" where
  "peer_address SK fd w =
     get_address ''getpeername'' (sk_getpeername SK (past_of w) (fd_num fd w)) (CallGetPeerName (fd_num fd w)) w"

definition socket_bind :: "sock_kernel \<Rightarrow> fd_ref \<Rightarrow> address \<Rightarrow> 'a sock_os_scheme \<Rightarrow> failure + 'a sock_os_scheme" where
  "socket_bind SK fd a w =
     map_sum id snd (invoke ''bind'' (sk_bind SK (past_of w) (fd_num fd w) a) (CallBind (fd_num fd w) a) w)"

definition socket_connect :: "sock_kernel \<Rightarrow> fd_ref \<Rightarrow> address \<Rightarrow> 'a sock_os_scheme \<Rightarrow> failure + 'a sock_os_scheme" where
  "socket_connect SK fd a w =
     map_sum id snd (invoke ''connect'' (sk_connect SK (past_of w) (fd_num fd w) a) (CallConnect (fd_num fd w) a) w)"

definition socket_setsockopt :: "sock_kernel \<Rightarrow> fd_ref \<Rightarrow> int \<Rightarrow> int \<Rightarrow> int \<Rightarrow> 'a sock_os_scheme \<Rightarrow>
    failure + 'a sock_os_scheme" where
  "socket_setsockopt SK fd level option option_value w =
     map_sum id snd (invoke ''setsockopt'' (sk_setsockopt SK (past_of w) (fd_num fd w) level option option_value)
       (CallSetSockOpt (fd_num fd w) level option option_value) w)"

definition set_reuseaddr :: "sock_kernel \<Rightarrow> fd_ref \<Rightarrow> 'a sock_os_scheme \<Rightarrow> failure + 'a sock_os_scheme" where
  "set_reuseaddr SK fd w = socket_setsockopt SK fd SOL_SOCKET SO_REUSEADDR 1 w"

section \<open>UDPSocket\<close>

record received_datagram =
  rd_source_address :: address
  rd_payload :: "byte list"

text \<open>
  The payload is as long as \<open>mtu\<close> when the call is made: a longer datagram is cut to it, and
  thrown away; a shorter one makes the second \<open>resize\<close> drop the rest.
\<close>

definition udp_recv :: "sock_kernel \<Rightarrow> fd_ref \<Rightarrow> u64 \<Rightarrow> 'a sock_os_scheme \<Rightarrow>
    failure + received_datagram \<times> 'a sock_os_scheme" where
  "udp_recv SK fd mtu w =
     (let answer = sk_recvfrom SK (past_of w) (fd_num fd w);
          filled = (case answer of Inl _ \<Rightarrow> replicate (unat mtu) 0
                    | Inr (_, datagram) \<Rightarrow>
                        take (unat mtu) datagram @ replicate (unat mtu - length datagram) 0);
          call = CallRecvFrom (fd_num fd w) (case answer of Inl _ \<Rightarrow> [] | Inr (_, datagram) \<Rightarrow> datagram)
      in case invoke ''recvfrom'' (case answer of Inl errno \<Rightarrow> Inl errno | Inr (_, datagram) \<Rightarrow> Inr (length datagram)) call w of
           Inl e \<Rightarrow> Inl e
         | Inr (recv_len, w) \<Rightarrow>
             if sint mtu < recv_len then Inl (Thrown ''recvfrom (oversized datagram)'')
             else
               (case answer of
                  Inl _ \<Rightarrow> Inl UndefinedBehaviour
                | Inr (source_address, _) \<Rightarrow>
                    Inr (\<lparr>rd_source_address = source_address, rd_payload = take (nat recv_len) filled\<rparr>,
                         register_read fd w)))"

definition sendmsg_helper :: "sock_kernel \<Rightarrow> int \<Rightarrow> address option \<Rightarrow> byte list list \<Rightarrow> 'a sock_os_scheme \<Rightarrow>
    failure + 'a sock_os_scheme" where
  "sendmsg_helper SK num destination_address payload w =
     (case invoke ''sendmsg'' (sk_sendmsg SK (past_of w) num destination_address (map fst (bv_as_iovecs payload)))
        (CallSendMsg num destination_address (concat payload)) w of
        Inl e \<Rightarrow> Inl e
      | Inr (bytes_sent, w) \<Rightarrow>
          if of_int bytes_sent \<noteq> bv_size payload
          then Inl (Thrown ''datagram payload too big for sendmsg()'') else Inr w)"

definition udp_sendto :: "sock_kernel \<Rightarrow> fd_ref \<Rightarrow> address \<Rightarrow> byte list list \<Rightarrow> 'a sock_os_scheme \<Rightarrow>
    failure + 'a sock_os_scheme" where
  "udp_sendto SK fd destination_address payload w =
     (case sendmsg_helper SK (fd_num fd w) (Some destination_address) payload w of
        Inl e \<Rightarrow> Inl e | Inr w \<Rightarrow> Inr (register_write fd w))"

definition udp_send :: "sock_kernel \<Rightarrow> fd_ref \<Rightarrow> byte list list \<Rightarrow> 'a sock_os_scheme \<Rightarrow> failure + 'a sock_os_scheme" where
  "udp_send SK fd payload w =
     (case sendmsg_helper SK (fd_num fd w) None payload w of
        Inl e \<Rightarrow> Inl e | Inr w \<Rightarrow> Inr (register_write fd w))"

section \<open>TCPSocket\<close>

definition tcp_listen :: "sock_kernel \<Rightarrow> fd_ref \<Rightarrow> int \<Rightarrow> 'a sock_os_scheme \<Rightarrow> failure + 'a sock_os_scheme" where
  "tcp_listen SK fd backlog w =
     map_sum id snd (invoke ''listen'' (sk_listen SK (past_of w) (fd_num fd w) backlog)
       (CallListen (fd_num fd w) backlog) w)"

text \<open>The new socket lives at \<open>ref\<close>.\<close>

definition tcp_accept :: "sock_kernel \<Rightarrow> fd_ref \<Rightarrow> fd_ref \<Rightarrow> 'a sock_os_scheme \<Rightarrow> failure + 'a sock_os_scheme" where
  "tcp_accept SK fd ref w =
     (let w = register_read fd w
      in case invoke ''accept'' (sk_accept SK (past_of w) (fd_num fd w)) (CallAccept (fd_num fd w)) w of
           Inl e \<Rightarrow> Inl e
         | Inr (n, w) \<Rightarrow>
             (case fd_new ref n w of Inl e \<Rightarrow> Inl e
              | Inr w \<Rightarrow> socket_from_fd SK ref AF_INET SOCK_STREAM w))"

section \<open>TUN and TAP devices\<close>

text \<open>\<open>strncpy\<close> of at most 15 bytes into an array of 16, which ends with a zero byte.\<close>

definition ifr_name :: "string \<Rightarrow> byte list" where
  "ifr_name devname =
     (let name = take (IFNAMSIZ - 1) (takeWhile (\<lambda>b. b \<noteq> 0) (ascii devname))
      in name @ replicate (IFNAMSIZ - length name) 0)"

definition tun_tap_new :: "sock_kernel \<Rightarrow> fd_ref \<Rightarrow> string \<Rightarrow> bool \<Rightarrow> 'a sock_os_scheme \<Rightarrow> failure + 'a sock_os_scheme" where
  "tun_tap_new SK ref devname is_tun w =
     (case invoke ''open'' (sk_open SK (past_of w) ''/dev/net/tun'' O_RDWR) (CallOpen ''/dev/net/tun'' O_RDWR) w of
        Inl e \<Rightarrow> Inl e
      | Inr (n, w) \<Rightarrow>
          (case fd_new ref n w of Inl e \<Rightarrow> Inl e
           | Inr w \<Rightarrow>
               let flags = (if is_tun then IFF_TUN else IFF_TAP) OR IFF_NO_PI
               in map_sum id snd (invoke ''ioctl'' (sk_tunsetiff SK (past_of w) (fd_num ref w) flags (ifr_name devname))
                    (CallTunSetIff (fd_num ref w) flags (ifr_name devname)) w)))"

section \<open>What the operations do\<close>

named_theorems socket_defs
declare invoke_def [socket_defs] system_call_def [socket_defs] returned_def [socket_defs]

lemma fds_calls [simp]: "os_fds (calls c w) = os_fds w" "fd_num fd (calls c w) = fd_num fd w"
  by (simp_all add: calls_def fd_num_def)

lemma invoke_success: "invoke attempt (Inr n) c w = Inr (int n, calls c w)"
  by (simp add: socket_defs)

lemma invoke_failure: "errno \<noteq> 0 \<Longrightarrow> invoke attempt (Inl errno) c w = Inl (Thrown attempt)"
  by (simp add: socket_defs)

subsection \<open>Blocking\<close>

lemma bit_O_NONBLOCK: "bit O_NONBLOCK i \<longleftrightarrow> i = 11"
proof -
  have flag: "O_NONBLOCK = 2 ^ 11" by (simp add: O_NONBLOCK_def)
  have "bit (2 ^ 11 :: u32) i \<longleftrightarrow> i = 11" unfolding bit_exp_iff by auto
  then show ?thesis unfolding flag .
qed

text \<open>The flags that \<open>set_blocking\<close> writes differ from those it reads in one bit only, and that
  bit says whether the descriptor does not block.\<close>

lemma set_blocking_one_bit:
  assumes "sk_getfl SK (past_of w) (fd_num fd w) = Inr n"
    and "set_blocking SK fd b w = Inr w'"
  obtains flags where
    "so_calls w' = so_calls w @ [CallGetFlags (fd_num fd w), CallSetFlags (fd_num fd w) flags]"
    and "\<And>i. i < 32 \<Longrightarrow> bit flags i = (if i = 11 then \<not> b else bit n i)"
proof -
  define flags :: u32 where
    "flags = (if b then of_nat n XOR (of_nat n AND O_NONBLOCK) else of_nat n OR O_NONBLOCK)"
  define w1 where "w1 = calls (CallGetFlags (fd_num fd w)) w"
  have "set_blocking SK fd b w =
      map_sum id snd (invoke ''fcntl'' (sk_setfl SK (past_of w1) (fd_num fd w) flags) (CallSetFlags (fd_num fd w) flags) w1)"
    by (auto simp: set_blocking_def assms(1) invoke_success flags_def w1_def Let_def split: sum.split)
  then have "w' = calls (CallSetFlags (fd_num fd w) flags) w1"
    using assms(2) by (auto simp: invoke_def split: sum.splits)
  then have calls: "so_calls w' = so_calls w @ [CallGetFlags (fd_num fd w), CallSetFlags (fd_num fd w) flags]"
    by (simp add: w1_def calls_def)
  have bits: "bit flags i = (if i = 11 then \<not> b else bit n i)" if "i < 32" for i
    using that by (auto simp: flags_def bit_O_NONBLOCK bit_simps)
  show thesis using that [OF calls bits] .
qed

subsection \<open>Constructing from a descriptor\<close>

lemma verify_option_iff:
  assumes "sk_getsockopt SK (past_of w) (fd_num fd w) SOL_SOCKET option = Inr (value, 4)"
  shows "verify_option SK fd option expected message w =
    (if value = expected then Inr (calls (CallGetSockOpt (fd_num fd w) SOL_SOCKET option) w)
     else Inl (Thrown message))"
  by (simp add: verify_option_def assms)

subsection \<open>Datagrams\<close>

text \<open>A datagram is received whole, with its sender, or not at all.\<close>

lemma udp_recv_exact:
  assumes "sk_recvfrom SK (past_of w) (fd_num fd w) = Inr (sender, datagram)"
    and "unat mtu < 2 ^ 63"
  shows "udp_recv SK fd mtu w =
    (if length datagram \<le> unat mtu
     then Inr (\<lparr>rd_source_address = sender, rd_payload = datagram\<rparr>,
               register_read fd (calls (CallRecvFrom (fd_num fd w) datagram) w))
     else Inl (Thrown ''recvfrom (oversized datagram)''))"
proof -
  have "sint mtu = int (unat mtu)" using sint_of_nat_u64 [of "unat mtu"] assms(2) by simp
  then have "sint mtu < int (length datagram) \<longleftrightarrow> unat mtu < length datagram" by (simp only: of_nat_less_iff)
  then show ?thesis by (auto simp: udp_recv_def assms(1) invoke_success Let_def)
qed

text \<open>A payload is sent whole, in one call, or the caller is told.\<close>

lemma udp_sendto_exact:
  assumes "sk_sendmsg SK (past_of w) (fd_num fd w) (Some a) (map fst (bv_as_iovecs payload)) = Inr n"
    and "n < 2 ^ 63" "length (concat payload) < 2 ^ 63"
  shows "udp_sendto SK fd a payload w =
    (if n = length (concat payload)
     then Inr (register_write fd (calls (CallSendMsg (fd_num fd w) (Some a) (concat payload)) w))
     else Inl (Thrown ''datagram payload too big for sendmsg()''))"
proof -
  have "unat (of_nat n :: u64) = n" using assms(2) by (intro unat_of_nat_u64) simp
  moreover have "unat (of_nat (length (concat payload)) :: u64) = length (concat payload)"
    using assms(3) by (intro unat_of_nat_u64) simp
  ultimately have "of_nat n = (of_nat (length (concat payload)) :: u64) \<longleftrightarrow> n = length (concat payload)"
    by metis
  then show ?thesis
    by (auto simp: udp_sendto_def sendmsg_helper_def assms(1) invoke_success bv_size_eq size_of_def)
qed

subsection \<open>Device names\<close>

lemma ifr_name_terminated: "length (ifr_name s) = IFNAMSIZ" "last (ifr_name s) = 0"
  by (auto simp: ifr_name_def IFNAMSIZ_def Let_def last_append)

text \<open>A name that fits is what the kernel reads up to the zero byte.\<close>

lemma ifr_name_reads_back:
  assumes "length s < IFNAMSIZ" "0 \<notin> set (ascii s)"
  shows "takeWhile (\<lambda>b. b \<noteq> 0) (ifr_name s) = ascii s"
proof -
  have len: "length (ascii s) = length s" by (simp add: ascii_def)
  have whole: "takeWhile (\<lambda>b. b \<noteq> 0) (ascii s) = ascii s" using assms(2) by (auto simp: takeWhile_eq_all_conv)
  then have "ifr_name s = ascii s @ replicate (16 - length s) 0"
    using assms(1) unfolding ifr_name_def whole by (simp add: IFNAMSIZ_def Let_def len)
  moreover have "takeWhile (\<lambda>b. b \<noteq> 0) (ascii s @ replicate k 0) = ascii s" for k
    using assms(2) by (subst takeWhile_append2) auto
  ultimately show ?thesis by simp
qed

end
