(* ===== verification/Lab4.thy ===== *)
theory Lab4
  imports SpongeSocket NetworkSimulator Sockets
begin

text \<open>
  \<open>apps/lab4.cc\<close>: a host with its own TCP/IP stack behind a router. The host's socket runs on a
  \<open>NetworkInterface\<close> whose frames go through a socket pair to the router; the router's other
  interface sends its frames in UDP datagrams to a bouncer, which passes them to the router of
  the other program. The random generator is the sequence of numbers that it returns; what is
  printed is left out.
\<close>

section \<open>NetworkInterfaceAdapter\<close>

text \<open>The state is that of \<open>eth_adapter\<close>; \<open>DEVICE\<close> is the first socket of the pair.\<close>

definition nia_new :: "address \<Rightarrow> address \<Rightarrow> random \<Rightarrow> eth_adapter \<times> random" where
  "nia_new ip_address next_hop rd =
     (case random_host_ethernet_address rd of (eth, rd) \<Rightarrow>
        (\<lparr>ad_cfg = fd_adapter_config_new, ad_listen = False, ad_interface = ni_new eth ip_address,
          ad_next_hop = next_hop\<rparr>, rd))"

definition set_ad_interface :: "network_interface \<Rightarrow> eth_adapter sponge \<Rightarrow> eth_adapter sponge" where
  "set_ad_interface ni w = w\<lparr>sk_adapter := (sk_adapter w)\<lparr>ad_interface := ni\<rparr>\<rparr>"

text \<open>The loop over \<open>frames_out\<close>.\<close>

fun nia_write_frames :: "kernel \<Rightarrow> ethernet_frame list \<Rightarrow> eth_adapter sponge \<Rightarrow> failure + eth_adapter sponge" where
  "nia_write_frames K [] w = Inr w"
| "nia_write_frames K (frame # queue) w =
     (case fd_write K DEVICE (ethernet_frame_serialize frame) True w of
        Inl e \<Rightarrow> Inl e
      | Inr (_, w) \<Rightarrow>
          nia_write_frames K queue (set_ad_interface ((ad_interface (sk_adapter w))\<lparr>ni_frames_out := queue\<rparr>) w))"

definition nia_send_pending :: "kernel \<Rightarrow> eth_adapter sponge \<Rightarrow> failure + eth_adapter sponge" where
  "nia_send_pending K w = nia_write_frames K (ni_frames_out (ad_interface (sk_adapter w))) w"

definition nia_read :: "kernel \<Rightarrow> eth_adapter sponge \<Rightarrow> failure + tcp_segment option \<times> eth_adapter sponge" where
  "nia_read K w =
     (case fd_read K DEVICE (- 1) w of Inl e \<Rightarrow> Inl e | Inr (bytes, w) \<Rightarrow>
      case ethernet_frame_parse bytes ethernet_frame_new of (r, frame) \<Rightarrow>
        if r \<noteq> NoError then Inr (None, w)
        else
          case recv_frame frame (ad_interface (sk_adapter w)) of Inl e \<Rightarrow> Inl e | Inr (ip_dgram, ni) \<Rightarrow>
          case nia_send_pending K (set_ad_interface ni w) of Inl e \<Rightarrow> Inl e | Inr w \<Rightarrow>
          case ip_dgram of
            None \<Rightarrow> Inr (None, w)
          | Some d \<Rightarrow>
              (case unwrap_tcp_in_ip d (sk_adapter w) of
                 Inl e \<Rightarrow> Inl e | Inr (seg, ad) \<Rightarrow> Inr (seg, w\<lparr>sk_adapter := ad\<rparr>)))"

definition nia_write :: "kernel \<Rightarrow> tcp_segment \<Rightarrow> eth_adapter sponge \<Rightarrow> failure + eth_adapter sponge" where
  "nia_write K seg w =
     (case wrap_tcp_in_ip seg (sk_adapter w) of Inl e \<Rightarrow> Inl e | Inr (ip_dgram, _) \<Rightarrow>
      case send_datagram ip_dgram (ad_next_hop (sk_adapter w)) (ad_interface (sk_adapter w)) of
        Inl e \<Rightarrow> Inl e | Inr ni \<Rightarrow> nia_send_pending K (set_ad_interface ni w))"

definition nia_tick :: "kernel \<Rightarrow> u64 \<Rightarrow> eth_adapter sponge \<Rightarrow> failure + eth_adapter sponge" where
  "nia_tick K ms_since_last_tick w =
     nia_send_pending K (set_ad_interface (ni_tick ms_since_last_tick (ad_interface (sk_adapter w))) w)"

definition nia_adapt :: "eth_adapter adapt" where
  "nia_adapt = \<lparr>ao_read = nia_read, ao_write = nia_write, ao_tick = nia_tick\<rparr>"

section \<open>TCPSocketLab4\<close>

text \<open>The socket's \<open>_local_address\<close> is an argument, and the new one a result.\<close>

type_synonym connect_result = "(failure + eth_adapter sponge rule list \<times> eth_adapter sponge) option"

definition lab4_connect ::
    "kernel \<Rightarrow> nat \<Rightarrow> u16 \<Rightarrow> wrapping_int32 \<Rightarrow> address \<Rightarrow> address \<Rightarrow> eth_adapter sponge \<Rightarrow>
     failure + address \<times> connect_result" where
  "lab4_connect K fuel random_port random address own_address w =
     (case address_from_ip (address_ip own_address) random_port of Inl e \<Rightarrow> Inl e | Inr own_address \<Rightarrow>
        let multiplexer_config = fd_adapter_config_new\<lparr>fc_source := own_address, fc_destination := address\<rparr>
        in Inr (own_address, sponge_connect nia_adapt K fuel tcp_config_new multiplexer_config random w))"

definition lab4_bind :: "address \<Rightarrow> address \<Rightarrow> failure + address" where
  "lab4_bind address own_address =
     (if address_ip address \<noteq> address_ip own_address
      then Inl (Thrown (''Cannot bind to '' @ address_to_string address))
      else address_from_ip (address_ip own_address) (address_port address))"

definition lab4_listen_and_accept ::
    "kernel \<Rightarrow> nat \<Rightarrow> wrapping_int32 \<Rightarrow> address \<Rightarrow> eth_adapter sponge \<Rightarrow> connect_result" where
  "lab4_listen_and_accept K fuel random own_address w =
     (let multiplexer_config = fd_adapter_config_new\<lparr>fc_source := own_address\<rparr>
      in sponge_listen_and_accept nia_adapt K fuel tcp_config_new multiplexer_config random w)"

section \<open>The router\<close>

text \<open>The descriptors of the network thread: the second socket of the pair and the UDP socket.\<close>

abbreviation FRAMES :: fd_ref where "FRAMES \<equiv> 3"
abbreviation INTERNET :: fd_ref where "INTERNET \<equiv> 4"

record lab4 = sock_os +
  l4_router :: router

text \<open>An interface number passes through an \<open>unsigned int\<close>.\<close>

definition lab4_interface :: "string \<Rightarrow> random \<Rightarrow> router \<Rightarrow> failure + u64 \<times> random \<times> router" where
  "lab4_interface addr rd router =
     (case random_router_ethernet_address rd of (eth, rd) \<Rightarrow>
      case address_from_text addr of Inl e \<Rightarrow> Inl e | Inr a \<Rightarrow>
      case add_interface (ai_new (ni_new eth a)) router of (i, router) \<Rightarrow>
        Inr (ucast (ucast i :: u32), rd, router))"

definition lab4_route :: "string \<Rightarrow> u8 \<Rightarrow> address option \<Rightarrow> u64 \<Rightarrow> router \<Rightarrow> failure + router" where
  "lab4_route prefix len next_hop i router =
     (case address_from_text prefix of Inl e \<Rightarrow> Inl e
      | Inr a \<Rightarrow> Inr (add_route (ipv4_numeric a) len next_hop i router))"

text \<open>The two branches differ in the addresses only.\<close>

definition lab4_branch ::
    "string \<Rightarrow> string \<Rightarrow> string \<Rightarrow> u8 \<Rightarrow> string \<Rightarrow> u8 \<Rightarrow> string \<Rightarrow> random \<Rightarrow> failure + u64 \<times> u64 \<times> random \<times> router" where
  "lab4_branch host_ip internet_ip host_net host_len other_net other_len other_router rd =
     (case lab4_interface host_ip rd router_new of Inl e \<Rightarrow> Inl e | Inr (host_side, rd, router) \<Rightarrow>
      case lab4_interface internet_ip rd router of Inl e \<Rightarrow> Inl e | Inr (internet_side, rd, router) \<Rightarrow>
      case lab4_route host_net host_len None host_side router of Inl e \<Rightarrow> Inl e | Inr router \<Rightarrow>
      case lab4_route ''10.0.0.0'' 8 None internet_side router of Inl e \<Rightarrow> Inl e | Inr router \<Rightarrow>
      case address_from_text other_router of Inl e \<Rightarrow> Inl e | Inr next_hop \<Rightarrow>
      case lab4_route other_net other_len (Some next_hop) internet_side router of Inl e \<Rightarrow> Inl e | Inr router \<Rightarrow>
        Inr (host_side, internet_side, rd, router))"

definition lab4_router :: "bool \<Rightarrow> random \<Rightarrow> failure + u64 \<times> u64 \<times> random \<times> router" where
  "lab4_router is_client rd =
     (if is_client
      then lab4_branch ''192.168.0.1'' ''10.0.0.192'' ''192.168.0.0'' 16 ''172.16.0.0'' 12 ''10.0.0.172'' rd
      else lab4_branch ''172.16.0.1'' ''10.0.0.172'' ''172.16.0.0'' 12 ''192.168.0.0'' 16 ''10.0.0.192'' rd)"

text \<open>The beginning of \<open>program_body\<close>: the bouncer is told where the program is.\<close>

definition lab4_start ::
    "sock_kernel \<Rightarrow> resolver \<Rightarrow> bool \<Rightarrow> string \<Rightarrow> string \<Rightarrow> random \<Rightarrow> lab4 \<Rightarrow>
     failure + address \<times> u64 \<times> u64 \<times> eth_adapter \<times> address \<times> lab4" where
  "lab4_start SK getaddrinfo is_client bounce_host bounce_port rd w =
     (case socket_new SK INTERNET AF_INET SOCK_DGRAM w of Inl e \<Rightarrow> Inl e | Inr w \<Rightarrow>
      case address_from_host getaddrinfo bounce_host bounce_port of Inl e \<Rightarrow> Inl e | Inr bounce_address \<Rightarrow>
      case udp_sendto SK INTERNET bounce_address [[]] w of Inl e \<Rightarrow> Inl e | Inr w \<Rightarrow>
      case udp_sendto SK INTERNET bounce_address [[]] w of Inl e \<Rightarrow> Inl e | Inr w \<Rightarrow>
      case udp_sendto SK INTERNET bounce_address [[]] w of Inl e \<Rightarrow> Inl e | Inr w \<Rightarrow>
      case lab4_router is_client rd of Inl e \<Rightarrow> Inl e | Inr (host_side, internet_side, rd, router) \<Rightarrow>
      case address_from_text (if is_client then ''192.168.0.50'' else ''172.16.0.100'') of Inl e \<Rightarrow> Inl e | Inr ip_address \<Rightarrow>
      case address_from_text (if is_client then ''192.168.0.1'' else ''172.16.0.1'') of Inl e \<Rightarrow> Inl e | Inr next_hop \<Rightarrow>
        Inr (bounce_address, host_side, internet_side, fst (nia_new ip_address next_hop rd), ip_address,
             w\<lparr>l4_router := router\<rparr>))"

section \<open>The network thread\<close>

definition set_interface :: "u64 \<Rightarrow> async_network_interface \<Rightarrow> router \<Rightarrow> router" where
  "set_interface n ai r = r\<lparr>ro_interfaces := (ro_interfaces r)[unat n := ai]\<rparr>"

text \<open>What both callbacks for incoming frames do with the bytes.\<close>

definition take_frame :: "u64 \<Rightarrow> byte list \<Rightarrow> router \<Rightarrow> failure + router" where
  "take_frame n bytes r =
     (case ethernet_frame_parse bytes ethernet_frame_new of (result, frame) \<Rightarrow>
        if result \<noteq> NoError then Inr r
        else
          case router_interface n r of Inl e \<Rightarrow> Inl e | Inr ai \<Rightarrow>
          case ai_recv_frame frame ai of Inl e \<Rightarrow> Inl e | Inr ai \<Rightarrow> route (set_interface n ai r))"

definition host_frame_arrives :: "kernel \<Rightarrow> u64 \<Rightarrow> lab4 \<Rightarrow> failure + lab4" where
  "host_frame_arrives K host_side w =
     (case fd_read K FRAMES (- 1) w of Inl e \<Rightarrow> Inl e | Inr (bytes, w) \<Rightarrow>
      case take_frame host_side bytes (l4_router w) of Inl e \<Rightarrow> Inl e | Inr r \<Rightarrow> Inr (w\<lparr>l4_router := r\<rparr>))"

definition internet_frame_arrives :: "kernel \<Rightarrow> u64 \<Rightarrow> lab4 \<Rightarrow> failure + lab4" where
  "internet_frame_arrives K internet_side w =
     (case fd_read K INTERNET (- 1) w of Inl e \<Rightarrow> Inl e | Inr (bytes, w) \<Rightarrow>
      case take_frame internet_side bytes (l4_router w) of Inl e \<Rightarrow> Inl e | Inr r \<Rightarrow> Inr (w\<lparr>l4_router := r\<rparr>))"

text \<open>The callbacks for outgoing frames write \<open>front()\<close>, which must exist, and then \<open>pop()\<close> it.\<close>

definition first_frame :: "u64 \<Rightarrow> router \<Rightarrow> failure + ethernet_frame" where
  "first_frame n r =
     (case router_interface n r of Inl e \<Rightarrow> Inl e | Inr ai \<Rightarrow>
      case ni_frames_out (ai_interface ai) of [] \<Rightarrow> Inl UndefinedBehaviour | f # _ \<Rightarrow> Inr f)"

definition pop_frame :: "u64 \<Rightarrow> router \<Rightarrow> failure + router" where
  "pop_frame n r =
     (case router_interface n r of Inl e \<Rightarrow> Inl e | Inr ai \<Rightarrow>
      case ni_frames_out (ai_interface ai) of [] \<Rightarrow> Inl UndefinedBehaviour
      | _ # queue \<Rightarrow>
          Inr (set_interface n (ai\<lparr>ai_interface := (ai_interface ai)\<lparr>ni_frames_out := queue\<rparr>\<rparr>) r))"

definition frame_to_host :: "kernel \<Rightarrow> u64 \<Rightarrow> lab4 \<Rightarrow> failure + lab4" where
  "frame_to_host K host_side w =
     (case first_frame host_side (l4_router w) of Inl e \<Rightarrow> Inl e | Inr f \<Rightarrow>
      case fd_write K FRAMES (ethernet_frame_serialize f) True w of Inl e \<Rightarrow> Inl e | Inr (_, w) \<Rightarrow>
      case pop_frame host_side (l4_router w) of Inl e \<Rightarrow> Inl e | Inr r \<Rightarrow> Inr (w\<lparr>l4_router := r\<rparr>))"

definition frame_to_internet :: "sock_kernel \<Rightarrow> address \<Rightarrow> u64 \<Rightarrow> lab4 \<Rightarrow> failure + lab4" where
  "frame_to_internet SK bounce_address internet_side w =
     (case first_frame internet_side (l4_router w) of Inl e \<Rightarrow> Inl e | Inr f \<Rightarrow>
      case udp_sendto SK INTERNET bounce_address (ethernet_frame_serialize f) w of Inl e \<Rightarrow> Inl e | Inr w \<Rightarrow>
      case pop_frame internet_side (l4_router w) of Inl e \<Rightarrow> Inl e | Inr r \<Rightarrow> Inr (w\<lparr>l4_router := r\<rparr>))"

definition frames_wait :: "u64 \<Rightarrow> lab4 \<Rightarrow> failure + bool" where
  "frames_wait n w =
     (case router_interface n (l4_router w) of Inl e \<Rightarrow> Inl e
      | Inr ai \<Rightarrow> Inr (ni_frames_out (ai_interface ai) \<noteq> []))"

definition network_rules :: "kernel \<Rightarrow> sock_kernel \<Rightarrow> address \<Rightarrow> u64 \<Rightarrow> u64 \<Rightarrow> lab4 rule list" where
  "network_rules K SK bounce_address host_side internet_side =
     (let rules = add_rule FRAMES In (host_frame_arrives K host_side) (\<lambda>_. Inr True) Inr [];
          rules = add_rule FRAMES Out (frame_to_host K host_side) (frames_wait host_side) Inr rules;
          rules = add_rule INTERNET Out (frame_to_internet SK bounce_address internet_side) (frames_wait internet_side) Inr rules
      in add_rule INTERNET In (internet_frame_arrives K internet_side) (\<lambda>_. Inr True) Inr rules)"

definition tick_interface :: "u64 \<Rightarrow> router \<Rightarrow> failure + router" where
  "tick_interface n r =
     (case router_interface n r of Inl e \<Rightarrow> Inl e
      | Inr ai \<Rightarrow> Inr (set_interface n (ai\<lparr>ai_interface := ni_tick 50 (ai_interface ai)\<rparr>) r))"

definition tick_both :: "u64 \<Rightarrow> u64 \<Rightarrow> lab4 \<Rightarrow> failure + lab4" where
  "tick_both host_side internet_side w =
     (case tick_interface host_side (l4_router w) of Inl e \<Rightarrow> Inl e | Inr r \<Rightarrow>
      case tick_interface internet_side r of Inl e \<Rightarrow> Inl e | Inr r \<Rightarrow> Inr (w\<lparr>l4_router := r\<rparr>))"

text \<open>\<open>None\<close> when the loop is still running after \<open>fuel\<close> rounds; \<open>exit_flag\<close> is the kernel's.\<close>

fun network_loop :: "kernel \<Rightarrow> u64 \<Rightarrow> u64 \<Rightarrow> nat \<Rightarrow> lab4 rule list \<Rightarrow> lab4 \<Rightarrow> (failure + lab4) option" where
  "network_loop K host_side internet_side 0 rules w = None"
| "network_loop K host_side internet_side (Suc fuel) rules w =
     (case wait_next_event K 50 rules w of
        Inl e \<Rightarrow> Some (Inl e)
      | Inr (ret, rules, w) \<Rightarrow>
          if ret = Exit then Some (Inr w)
          else
            case tick_both host_side internet_side w of Inl e \<Rightarrow> Some (Inl e) | Inr w \<Rightarrow>
              if k_abort K (os_trace w) then Some (Inr w)
              else network_loop K host_side internet_side fuel rules w)"

text \<open>An exception ends the thread with a message; other failures are not caught. The result is
  the state, when the thread has returned from its loop.\<close>

definition network_thread ::
    "kernel \<Rightarrow> sock_kernel \<Rightarrow> nat \<Rightarrow> address \<Rightarrow> u64 \<Rightarrow> u64 \<Rightarrow> lab4 \<Rightarrow> (failure + lab4 option) option" where
  "network_thread K SK fuel bounce_address host_side internet_side w =
     (case network_loop K host_side internet_side fuel (network_rules K SK bounce_address host_side internet_side) w of
        None \<Rightarrow> None
      | Some (Inl (Thrown _)) \<Rightarrow> Some (Inr None)
      | Some (Inl e) \<Rightarrow> Some (Inl e)
      | Some (Inr w) \<Rightarrow> Some (Inr (Some w)))"

section \<open>What can be thrown\<close>

text \<open>An exception other than that of the busy wait.\<close>

definition thrown :: "failure \<Rightarrow> bool" where
  "thrown e \<longleftrightarrow> (\<exists>s. e = Thrown s \<and> s \<noteq> busy_wait_text)"

lemma thrown_Thrown [simp]:
  "thrown (Thrown s) \<longleftrightarrow> s \<noteq> ''EventLoop: busy wait detected: callback did not read/write fd and is still interested''"
  by (simp add: thrown_def busy_wait_text_def)

lemma ipv4_frame_thrown: "ipv4_frame eth d ni = Inl e \<Longrightarrow> thrown e"
  by (auto simp: ipv4_frame_def ipv4_datagram_serialize_def ipv4_header_serialize_def Let_def
      split: sum.splits if_splits)

lemma ni_flush_thrown: "ni_flush eth q ni = Inl e \<Longrightarrow> thrown e"
  by (induction eth q ni rule: ni_flush.induct) (auto split: sum.splits dest: ipv4_frame_thrown)

lemma arp_frame_sent:
  "\<exists>f. arp_frame dst (arp_request_for dst_ip ni) ni' = Inr f" "\<exists>f. arp_frame dst (arp_reply_to m ni) ni' = Inr f"
  using arp_frame_total [OF arp_supported_request] arp_frame_total [OF arp_supported_reply] by blast+

lemma send_datagram_thrown: "send_datagram d a ni = Inl e \<Longrightarrow> thrown e"
  using arp_frame_sent(1)
  by (auto simp: send_datagram_def Let_def split: option.splits sum.splits if_splits dest: ipv4_frame_thrown)
    (metis sum.distinct(1))

lemma recv_arp_thrown: "recv_arp m ni = Inl e \<Longrightarrow> thrown e"
  using arp_frame_sent(2)
  by (auto simp: recv_arp_def Let_def split: option.splits sum.splits if_splits dest: ni_flush_thrown)
    (metis sum.distinct(1))

lemma recv_frame_thrown: "recv_frame f ni = Inl e \<Longrightarrow> thrown e"
  by (auto simp: recv_frame_def Let_def payload_buffer_def split: sum.splits if_splits prod.splits list.splits
      dest: recv_arp_thrown)

section \<open>Queues only grow\<close>

abbreviation out_of :: "async_network_interface \<Rightarrow> ethernet_frame list" where
  "out_of ai \<equiv> ni_frames_out (ai_interface ai)"

definition longer :: "async_network_interface \<Rightarrow> async_network_interface \<Rightarrow> bool" where
  "longer ai ai' \<longleftrightarrow> (\<exists>fs. out_of ai' = out_of ai @ fs)"

lemma longer_refl [simp]: "longer ai ai"
  by (simp add: longer_def)

lemma longer_trans [trans]: "longer a b \<Longrightarrow> longer b c \<Longrightarrow> longer a c"
  by (auto simp: longer_def)

definition grows :: "router \<Rightarrow> router \<Rightarrow> bool" where
  "grows r r' \<longleftrightarrow> list_all2 longer (ro_interfaces r) (ro_interfaces r') \<and> ro_routing_table r' = ro_routing_table r"

lemma grows_refl [simp]: "grows r r"
  by (simp add: grows_def list.rel_refl)

lemma grows_trans [trans]: "grows a b \<Longrightarrow> grows b c \<Longrightarrow> grows a c"
  unfolding grows_def by (auto intro: list_all2_trans [of longer longer longer] longer_trans)

lemma grows_update:
  assumes "i < length (ro_interfaces r) \<Longrightarrow> longer (ro_interfaces r ! i) ai"
  shows "grows r (r\<lparr>ro_interfaces := (ro_interfaces r)[i := ai]\<rparr>)"
  using assms by (cases "i < length (ro_interfaces r)") (auto simp: grows_def list_all2_conv_all_nth nth_list_update)

lemma send_datagram_longer: "send_datagram d a ni = Inr ni' \<Longrightarrow> \<exists>fs. ni_frames_out ni' = ni_frames_out ni @ fs"
  by (erule send_datagram_cases) auto

lemma recv_arp_longer: "recv_arp m ni = Inr ni' \<Longrightarrow> \<exists>fs. ni_frames_out ni' = ni_frames_out ni @ fs"
  by (erule recv_arp_cases) auto

lemma recv_frame_longer: "recv_frame f ni = Inr (d, ni') \<Longrightarrow> \<exists>fs. ni_frames_out ni' = ni_frames_out ni @ fs"
  by (auto simp: recv_frame_def Let_def split: sum.splits if_splits prod.splits dest: recv_arp_longer)

text \<open>A router with two interfaces and routes that can be followed.\<close>

definition router_ok :: "router \<Rightarrow> bool" where
  "router_ok r \<longleftrightarrow> length (ro_interfaces r) = 2
     \<and> (\<forall>rt \<in> set (ro_routing_table r). rt_prefix_length rt \<le> 32 \<and> unat (rt_interface_num rt) < 2)"

lemma grows_ok: "grows r r' \<Longrightarrow> router_ok r \<Longrightarrow> router_ok r'"
  by (auto simp: grows_def router_ok_def list_all2_lengthD)

lemma ai_recv_frame_works:
  "case ai_recv_frame f ai of Inl e \<Rightarrow> thrown e | Inr ai' \<Rightarrow> longer ai ai'"
  by (auto simp: ai_recv_frame_def longer_def split: sum.splits dest: recv_frame_thrown recv_frame_longer)

lemma send_on_works:
  assumes "unat n < length (ro_interfaces r)"
  shows "case send_on n d a r of Inl e \<Rightarrow> thrown e | Inr r' \<Rightarrow> grows r r'"
proof (cases "send_datagram d a (ai_interface (ro_interfaces r ! unat n))")
  case (Inl e)
  then show ?thesis using assms send_datagram_thrown [OF Inl] by (simp add: send_on_def)
next
  case (Inr ni)
  then have "longer (ro_interfaces r ! unat n) ((ro_interfaces r ! unat n)\<lparr>ai_interface := ni\<rparr>)"
    using send_datagram_longer [OF Inr] by (simp add: longer_def)
  from grows_update [OF this] show ?thesis using assms Inr by (simp add: send_on_def)
qed

lemma route_one_works:
  assumes "router_ok r"
  shows "case route_one_datagram d r of Inl e \<Rightarrow> thrown e | Inr r' \<Rightarrow> grows r r'"
proof -
  have lens: "\<forall>rt \<in> set (ro_routing_table r). rt_prefix_length rt \<le> 32" and two: "length (ro_interfaces r) = 2"
    using assms by (auto simp: router_ok_def)
  from lpm_loop_best [OF lens, of "ih_dst (id_header d)"] obtain b where
    b: "lpm_loop (ih_dst (id_header d)) (ro_routing_table r) 0 0 (- 1) = Inr b"
      "b \<noteq> - 1 \<Longrightarrow> nat b < length (ro_routing_table r)"
    by (auto simp: best_route_def split: if_splits)
  have "unat (rt_interface_num (ro_routing_table r ! nat b)) < length (ro_interfaces r)" if "b \<noteq> - 1"
    using assms b(2) [OF that] by (simp add: router_ok_def)
  note out = send_on_works [OF this]
  show ?thesis
  proof (cases "ih_ttl (id_header d) \<le> 1 \<or> b = - 1")
    case False
    then show ?thesis using b(1) out by (simp add: route_one_datagram_def Let_def)
  qed (use b(1) in \<open>auto simp: route_one_datagram_def Let_def\<close>)
qed

lemma grows_pop: "grows r (pop_queue i r)"
  unfolding pop_queue_def by (rule grows_update) (simp add: longer_def)

lemma route_interface_works:
  "router_ok r \<Longrightarrow> case route_interface i r of Inl e \<Rightarrow> thrown e | Inr r' \<Rightarrow> grows r r'"
proof (induction i r rule: route_interface.induct)
  case (1 i r)
  show ?case
  proof (cases "queue_at i r")
    case Nil
    then show ?thesis by (simp add: route_interface.simps [of i r])
  next
    case (Cons d q)
    show ?thesis
    proof (cases "route_one_datagram d r")
      case (Inl e)
      then show ?thesis using route_one_works [OF 1(2), of d] Cons by (simp add: route_interface.simps [of i r])
    next
      case (Inr r1)
      then have r1: "grows r (pop_queue i r1)"
        using route_one_works [OF 1(2), of d] grows_trans grows_pop by fastforce
      have "case route_interface i (pop_queue i r1) of Inl e \<Rightarrow> thrown e | Inr r' \<Rightarrow> grows (pop_queue i r1) r'"
        by (rule 1(1) [OF Cons Inr grows_ok [OF r1 1(2)]])
      then show ?thesis
        using Cons Inr grows_trans [OF r1] by (auto simp: route_interface.simps [of i r] split: sum.splits)
    qed
  qed
qed

lemma route_works: "router_ok r \<Longrightarrow> case route r of Inl e \<Rightarrow> thrown e | Inr r' \<Rightarrow> grows r r'"
proof -
  have "router_ok r \<Longrightarrow> case route_from ins r of Inl e \<Rightarrow> thrown e | Inr r' \<Rightarrow> grows r r'" for ins
  proof (induction ins r rule: route_from.induct)
    case (2 i ins r)
    show ?case
    proof (cases "route_interface i r")
      case (Inl e)
      then show ?thesis using route_interface_works [OF 2(2), of i] by simp
    next
      case (Inr r1)
      then have r1: "grows r r1" using route_interface_works [OF 2(2), of i] by simp
      then show ?thesis
        using 2(1) [OF Inr grows_ok [OF r1 2(2)]] Inr grows_trans [OF r1] by (auto split: sum.splits)
    qed
  qed simp
  then show "router_ok r \<Longrightarrow> ?thesis" by (simp add: route_def)
qed

lemma router_interface_ok: "router_ok r \<Longrightarrow> unat n < 2 \<Longrightarrow> router_interface n r = Inr (ro_interfaces r ! unat n)"
  by (simp add: router_interface_def router_ok_def)

lemma take_frame_works:
  assumes "router_ok r" "unat n < 2"
  shows "case take_frame n bytes r of Inl e \<Rightarrow> thrown e | Inr r' \<Rightarrow> grows r r'"
proof (cases "ethernet_frame_parse bytes ethernet_frame_new")
  case (Pair result frame)
  let ?ai = "ro_interfaces r ! unat n"
  show ?thesis
  proof (cases "ai_recv_frame frame ?ai")
    case (Inl e)
    then show ?thesis using ai_recv_frame_works [where f = frame and ai = "?ai"] Pair
      by (simp add: take_frame_def router_interface_ok [OF assms])
  next
    case (Inr ai)
    have r1: "grows r (set_interface n ai r)"
      unfolding set_interface_def by (rule grows_update) (use ai_recv_frame_works [where f = frame and ai = "?ai"] Inr in simp)
    from route_works [OF grows_ok [OF this assms(1)]] show ?thesis
      using Pair Inr grows_trans [OF r1] by (auto simp: take_frame_def router_interface_ok [OF assms] split: sum.splits)
  qed
qed

section \<open>The thread is a router\<close>

text \<open>What happens to a router: bytes arrive at an interface, which takes the frame they are, if
  they are one, and the router routes; the oldest frame of an interface leaves it; 50
  milliseconds pass there.\<close>

datatype router_event = Arrive u64 "byte list" | Leave u64 "byte list" | Clock u64

definition at_interface ::
    "u64 \<Rightarrow> (async_network_interface \<Rightarrow> failure + async_network_interface) \<Rightarrow> router \<Rightarrow> failure + router" where
  "at_interface n g r =
     (if unat n < length (ro_interfaces r)
      then case g (ro_interfaces r ! unat n) of
             Inl e \<Rightarrow> Inl e | Inr ai \<Rightarrow> Inr (r\<lparr>ro_interfaces := (ro_interfaces r)[unat n := ai]\<rparr>)
      else Inl UndefinedBehaviour)"

definition depart :: "byte list \<Rightarrow> async_network_interface \<Rightarrow> failure + async_network_interface" where
  "depart bytes ai =
     (if out_of ai \<noteq> [] \<and> concat (ethernet_frame_serialize (hd (out_of ai))) = bytes
      then Inr (ai\<lparr>ai_interface := (ai_interface ai)\<lparr>ni_frames_out := tl (out_of ai)\<rparr>\<rparr>)
      else Inl UndefinedBehaviour)"

fun router_step :: "router_event \<Rightarrow> router \<Rightarrow> failure + router" where
  "router_step (Arrive n bytes) r =
     (case ethernet_frame_parse bytes ethernet_frame_new of (result, frame) \<Rightarrow>
        if result = NoError
        then case at_interface n (ai_recv_frame frame) r of Inl e \<Rightarrow> Inl e | Inr r \<Rightarrow> route r
        else Inr r)"
| "router_step (Leave n bytes) r = at_interface n (depart bytes) r"
| "router_step (Clock n) r =
     at_interface n (\<lambda>ai. Inr (ai\<lparr>ai_interface := ni_tick 50 (ai_interface ai)\<rparr>)) r"

declare router_step.simps [simp del]

text \<open>The thread's functions are these steps.\<close>

lemma take_frame_step: "router_ok r \<Longrightarrow> unat n < 2 \<Longrightarrow> router_step (Arrive n bytes) r = take_frame n bytes r"
  by (simp add: router_step.simps take_frame_def at_interface_def router_interface_ok set_interface_def
      router_ok_def split: prod.split sum.split)

lemma pop_frame_step:
  "router_ok r \<Longrightarrow> unat n < 2 \<Longrightarrow> first_frame n r = Inr f \<Longrightarrow>
     router_step (Leave n (concat (ethernet_frame_serialize f))) r = pop_frame n r"
  by (auto simp: router_step.simps first_frame_def pop_frame_def depart_def at_interface_def router_interface_ok
      set_interface_def router_ok_def split: list.splits)

lemma tick_interface_step: "router_ok r \<Longrightarrow> unat n < 2 \<Longrightarrow> router_step (Clock n) r = tick_interface n r"
  by (simp add: router_step.simps tick_interface_def at_interface_def router_interface_ok set_interface_def
      router_ok_def)

lemmas thread_steps = take_frame_step pop_frame_step tick_interface_step

fun router_run :: "router_event list \<Rightarrow> router \<Rightarrow> failure + router" where
  "router_run [] r = Inr r"
| "router_run (e # es) r = (case router_step e r of Inl f \<Rightarrow> Inl f | Inr r \<Rightarrow> router_run es r)"

lemma router_run_snoc: "router_run es r = Inr r' \<Longrightarrow> router_run (es @ [e]) r = router_step e r'"
  by (induction es arbitrary: r) (auto split: sum.splits)

definition arrivals :: "u64 \<Rightarrow> router_event list \<Rightarrow> byte list list" where
  "arrivals n es = concat (map (\<lambda>e. case e of Arrive m bs \<Rightarrow> if m = n then [bs] else [] | _ \<Rightarrow> []) es)"

definition leavings :: "u64 \<Rightarrow> router_event list \<Rightarrow> byte list list" where
  "leavings n es = concat (map (\<lambda>e. case e of Leave m bs \<Rightarrow> if m = n then [bs] else [] | _ \<Rightarrow> []) es)"

definition clocks :: "router_event list \<Rightarrow> u64 list" where
  "clocks es = concat (map (\<lambda>e. case e of Clock n \<Rightarrow> [n] | _ \<Rightarrow> []) es)"

text \<open>What the thread does: the datagrams that it reads from and writes to a descriptor, and those
  that it sends to an address.\<close>

definition datagrams_read :: "int \<Rightarrow> sys_event list \<Rightarrow> byte list list" where
  "datagrams_read fd tr = concat (map (\<lambda>e. case e of SysRead fd' bs \<Rightarrow> if fd' = fd then [bs] else [] | _ \<Rightarrow> []) tr)"

definition datagrams_written :: "int \<Rightarrow> sys_event list \<Rightarrow> byte list list" where
  "datagrams_written fd tr = concat (map (\<lambda>e. case e of SysWrite fd' bs \<Rightarrow> if fd' = fd then [bs] else [] | _ \<Rightarrow> []) tr)"

definition datagrams_sent :: "int \<Rightarrow> address \<Rightarrow> sock_call list \<Rightarrow> byte list list" where
  "datagrams_sent fd a cs = concat (map (\<lambda>c. case c of
     CallSendMsg fd' (Some a') bs \<Rightarrow> if fd' = fd \<and> a' = a then [bs] else [] | _ \<Rightarrow> []) cs)"

lemmas observed = arrivals_def leavings_def clocks_def datagrams_read_def datagrams_written_def datagrams_sent_def

lemma observed_append [simp]:
  "arrivals n (es @ es') = arrivals n es @ arrivals n es'" "leavings n (es @ es') = leavings n es @ leavings n es'"
  "clocks (es @ es') = clocks es @ clocks es'"
  "datagrams_read fd (tr @ tr') = datagrams_read fd tr @ datagrams_read fd tr'"
  "datagrams_written fd (tr @ tr') = datagrams_written fd tr @ datagrams_written fd tr'"
  "datagrams_sent fd a (cs @ cs') = datagrams_sent fd a cs @ datagrams_sent fd a cs'"
  by (simp_all add: observed)

section \<open>Reading and writing\<close>

text \<open>A datagram is written in one piece.\<close>

lemma fd_write_datagram:
  assumes K: "kernel_ok K" "whole_writes K (fd_num fd w)"
  shows "case fd_write K fd bufs True w of Inl e \<Rightarrow> thrown e
    | Inr (n, w') \<Rightarrow> \<exists>x. used (os_fds w fd) x \<and> fd_writes x = fd_writes (os_fds w fd) + 1
        \<and> w' = w\<lparr>os_fds := (os_fds w)(fd := x), os_trace := os_trace w @ [SysWrite (fd_num fd w) (concat bufs)]\<rparr>"
proof (cases "k_writev K (os_trace w) (fd_num fd w) (bv_as_iovecs bufs)")
  case (Inl e)
  then have "e \<noteq> 0" by (rule kernel_okD(3) [OF K(1)])
  then show ?thesis using Inl by (simp add: fd_write_def fd_write_loop.simps system_call_def returned_def)
next
  case (Inr m)
  let ?data = "concat bufs"
  have m: "m = length ?data"
    using K(2) Inr unfolding whole_writes_def by (fastforce simp: bv_as_iovecs_def comp_def)
  have call: "system_call ''writev'' (returned (k_writev K (os_trace w) (fd_num fd w) (bv_as_iovecs bufs))) 0 = Inr (int m)"
    using Inr by (simp add: returned_def system_call_def)
  show ?thesis
  proof (cases "sint (bv_size bufs) < int m")
    case True
    then show ?thesis by (simp add: fd_write_def fd_write_loop.simps call)
  next
    case False
    then have small: "m < 2 ^ 63" using sint_less [of "bv_size bufs"] by simp
    have no: "\<not> (int m = 0 \<and> bv_size bufs \<noteq> 0)"
    proof
      assume zero: "int m = 0 \<and> bv_size bufs \<noteq> 0"
      then have "?data = []" using m by simp
      then have "bv_size bufs = 0" by (simp only: bv_size_eq size_of_Nil)
      then show False using zero by simp
    qed
    have um: "unat (of_nat m :: u64) = m" using small by (intro unat_of_nat_u64) simp
    have "\<forall>v \<in> set bufs. length v < 2 ^ 64"
      using length_in_concat [of _ bufs] small m by force
    from bv_remove_prefix_eq [OF this, of "of_nat m"] m um obtain rest where
      rest: "bv_remove_prefix (of_nat m) bufs = Inr rest" "concat rest = []" by auto
    have finished: "bv_size rest = 0" by (simp only: bv_size_eq rest(2) size_of_Nil)
    let ?x = "(os_fds w fd)\<lparr>fd_writes := fd_writes (os_fds w fd) + 1\<rparr>"
    have "fd_write K fd bufs True w =
        Inr (of_nat m, register_write fd (happens (SysWrite (fd_num fd w) (take (nat (int m)) ?data)) w))"
      unfolding fd_write_def
      by (subst fd_write_loop.simps) (simp only: call sum.case if_not_P [OF no] if_not_P [OF False] Let_def
          of_int_of_nat_eq rest(1) finished simp_thms if_False add_0)
    moreover have "register_write fd (happens (SysWrite (fd_num fd w) (take (nat (int m)) ?data)) w) =
        w\<lparr>os_fds := (os_fds w)(fd := ?x), os_trace := os_trace w @ [SysWrite (fd_num fd w) ?data]\<rparr>"
      by (simp add: m register_write_def happens_def upd_fd_def)
    moreover have "used (os_fds w fd) ?x" by (simp add: used_def)
    ultimately show ?thesis by fastforce
  qed
qed

lemma udp_sendto_works:
  "case udp_sendto SK fd a bufs w of Inl e \<Rightarrow> thrown e
   | Inr w' \<Rightarrow> w' = w\<lparr>os_fds := (os_fds w)(fd := (os_fds w fd)\<lparr>fd_writes := fd_writes (os_fds w fd) + 1\<rparr>),
       so_calls := so_calls w @ [CallSendMsg (fd_num fd w) (Some a) (concat bufs)]\<rparr>"
  by (auto simp: udp_sendto_def sendmsg_helper_def invoke_def system_call_def register_write_def upd_fd_def calls_def
      split: sum.splits prod.splits if_splits)

section \<open>The rules\<close>

definition waiting :: "u64 \<Rightarrow> router \<Rightarrow> bool" where
  "waiting n r \<longleftrightarrow> out_of (ro_interfaces r ! unat n) \<noteq> []"

lemma grows_waiting: "grows r r' \<Longrightarrow> router_ok r \<Longrightarrow> unat n < 2 \<Longrightarrow> waiting n r \<Longrightarrow> waiting n r'"
  by (auto simp: grows_def router_ok_def waiting_def longer_def dest: list_all2_nthD)

lemma frames_wait_eq: "router_ok (l4_router w) \<Longrightarrow> unat n < 2 \<Longrightarrow> frames_wait n w = Inr (waiting n (l4_router w))"
  by (simp add: frames_wait_def waiting_def router_interface_ok)

lemma pop_frame_works:
  assumes "router_ok r" "unat n < 2" "waiting n r"
  shows "\<exists>f r'. first_frame n r = Inr f \<and> pop_frame n r = Inr r' \<and> router_ok r'
    \<and> (\<forall>m. m \<noteq> n \<longrightarrow> waiting m r \<longrightarrow> waiting m r')"
proof -
  obtain f queue where "out_of (ro_interfaces r ! unat n) = f # queue"
    using assms(3) by (cases "out_of (ro_interfaces r ! unat n)") (auto simp: waiting_def)
  moreover have "unat n \<noteq> unat m" if "m \<noteq> n" for m using that by (simp add: word_unat_eq_iff)
  ultimately show ?thesis
    using assms(1) by (auto simp: first_frame_def pop_frame_def router_interface_ok [OF assms(1,2)] set_interface_def
      router_ok_def waiting_def)
qed

lemma tick_interface_works:
  assumes "router_ok r" "unat n < 2"
  shows "\<exists>r'. tick_interface n r = Inr r' \<and> grows r r'"
  unfolding tick_interface_def router_interface_ok [OF assms] set_interface_def
  using grows_update [of "unat n" r] by (auto simp: longer_def ni_tick_def)

text \<open>The run of the router that explains what the thread has done since the state \<open>w0\<close>.\<close>

definition explains :: "u64 \<Rightarrow> u64 \<Rightarrow> address \<Rightarrow> lab4 \<Rightarrow> router_event list \<Rightarrow> lab4 \<Rightarrow> bool" where
  "explains hs ins bounce w0 es w \<longleftrightarrow>
     router_run es (l4_router w0) = Inr (l4_router w)
     \<and> datagrams_read (fd_num FRAMES w0) (os_trace w) = datagrams_read (fd_num FRAMES w0) (os_trace w0) @ arrivals hs es
     \<and> datagrams_read (fd_num INTERNET w0) (os_trace w) = datagrams_read (fd_num INTERNET w0) (os_trace w0) @ arrivals ins es
     \<and> datagrams_written (fd_num FRAMES w0) (os_trace w) = datagrams_written (fd_num FRAMES w0) (os_trace w0) @ leavings hs es
     \<and> datagrams_sent (fd_num INTERNET w0) bounce (so_calls w) = datagrams_sent (fd_num INTERNET w0) bounce (so_calls w0) @ leavings ins es"

definition l4_inv :: "kernel \<Rightarrow> u64 \<Rightarrow> u64 \<Rightarrow> address \<Rightarrow> lab4 \<Rightarrow> lab4 \<Rightarrow> bool" where
  "l4_inv K hs ins bounce w0 w \<longleftrightarrow>
     kernel_ok K \<and> whole_writes K (fd_num FRAMES w0) \<and> unat hs < 2 \<and> unat ins < 2 \<and> hs \<noteq> ins
     \<and> fd_num FRAMES w = fd_num FRAMES w0 \<and> fd_num INTERNET w = fd_num INTERNET w0 \<and> fd_num FRAMES w0 \<noteq> fd_num INTERNET w0
     \<and> router_ok (l4_router w) \<and> (\<exists>es rounds. explains hs ins bounce w0 es w \<and> clocks es = concat (replicate rounds [hs, ins]))"

definition l4_ready :: "u64 \<Rightarrow> u64 \<Rightarrow> fd_ref \<times> direction \<Rightarrow> lab4 \<Rightarrow> bool" where
  "l4_ready hs ins k w \<longleftrightarrow> (k = (FRAMES, Out) \<longrightarrow> waiting hs (l4_router w)) \<and> (k = (INTERNET, Out) \<longrightarrow> waiting ins (l4_router w))"

lemma explains_step:
  assumes "explains hs ins bounce w0 es w" "router_step e (l4_router w) = Inr (l4_router w')"
    and "datagrams_read (fd_num FRAMES w0) (os_trace w') = datagrams_read (fd_num FRAMES w0) (os_trace w) @ arrivals hs [e]"
    and "datagrams_read (fd_num INTERNET w0) (os_trace w') = datagrams_read (fd_num INTERNET w0) (os_trace w) @ arrivals ins [e]"
    and "datagrams_written (fd_num FRAMES w0) (os_trace w') = datagrams_written (fd_num FRAMES w0) (os_trace w) @ leavings hs [e]"
    and "datagrams_sent (fd_num INTERNET w0) bounce (so_calls w') = datagrams_sent (fd_num INTERNET w0) bounce (so_calls w) @ leavings ins [e]"
  shows "explains hs ins bounce w0 (es @ [e]) w'"
  using assms router_run_snoc by (simp add: explains_def)

lemma l4_inv_step:
  assumes "l4_inv K hs ins bounce w0 w" "explains hs ins bounce w0 es w'" "clocks es = concat (replicate rounds [hs, ins])"
    and "router_ok (l4_router w')" "fd_num FRAMES w' = fd_num FRAMES w" "fd_num INTERNET w' = fd_num INTERNET w"
  shows "l4_inv K hs ins bounce w0 w'"
  unfolding l4_inv_def using assms(1,4-6) assms(2,3) by (simp add: l4_inv_def) blast

text \<open>A callback for an incoming frame, at either descriptor.\<close>

lemma frame_arrives_works:
  assumes inv: "l4_inv K hs ins bounce w0 w" and fd: "fd = FRAMES \<and> n = hs \<or> fd = INTERNET \<and> n = ins"
  shows "case (case fd_read K fd (- 1) w of Inl e \<Rightarrow> Inl e | Inr (bytes, w) \<Rightarrow>
      case take_frame n bytes (l4_router w) of Inl e \<Rightarrow> Inl e | Inr r \<Rightarrow> Inr (w\<lparr>l4_router := r\<rparr>)) of
    Inl e \<Rightarrow> thrown e
  | Inr w' \<Rightarrow> l4_inv K hs ins bounce w0 w' \<and> (\<forall>k. l4_ready hs ins k w \<longrightarrow> l4_ready hs ins k w')
      \<and> read_count fd w' = read_count fd w + 1"
proof (cases "fd_read K fd (- 1) w")
  case (Inl e)
  have "kernel_ok K" using inv by (simp add: l4_inv_def)
  then show ?thesis using fd_read_works [where K = K and fd = fd and limit = "- 1" and w = w] Inl by simp
next
  case (Inr res)
  obtain bytes w1 where res: "res = (bytes, w1)" by (cases res)
  have h: "kernel_ok K" "unat n < 2" "unat hs < 2" "unat ins < 2" "hs \<noteq> ins" "router_ok (l4_router w)"
    and nums: "fd_num FRAMES w = fd_num FRAMES w0" "fd_num INTERNET w = fd_num INTERNET w0"
      "fd_num FRAMES w0 \<noteq> fd_num INTERNET w0"
    using inv fd by (auto simp: l4_inv_def)
  obtain es rounds where es: "explains hs ins bounce w0 es w" and ck: "clocks es = concat (replicate rounds [hs, ins])" using inv by (auto simp: l4_inv_def)
  from fd_read_works [OF h(1), where fd = fd and limit = "- 1" and w = w, unfolded Inr res sum.case prod.case] obtain x where
    x: "used (os_fds w fd) x" "fd_reads x = fd_reads (os_fds w fd) + 1"
    and w1: "w1 = w\<lparr>os_fds := (os_fds w)(fd := x), os_trace := os_trace w @ [SysRead (fd_num fd w) bytes]\<rparr>" by blast
  show ?thesis
  proof (cases "take_frame n bytes (l4_router w)")
    case (Inl e)
    then show ?thesis using take_frame_works [OF h(6,2), of bytes] Inr by (simp add: res w1)
  next
    case r: (Inr r)
    have g: "grows (l4_router w) r" using take_frame_works [OF h(6,2), of bytes] r by simp
    let ?w' = "w1\<lparr>l4_router := r\<rparr>"
    have "explains hs ins bounce w0 (es @ [Arrive n bytes]) ?w'"
      by (rule explains_step [OF es]) (use fd r nums h(5) in \<open>auto simp: w1 observed thread_steps [OF h(6,2)]\<close>)
    moreover have "clocks (es @ [Arrive n bytes]) = concat (replicate rounds [hs, ins])" using ck by (simp add: observed)
    ultimately have "l4_inv K hs ins bounce w0 ?w'"
      by (rule l4_inv_step [OF inv]) (use grows_ok [OF g h(6)] x(1) in \<open>simp_all add: w1 fd_num_def used_def\<close>)
    moreover have "\<forall>k. l4_ready hs ins k w \<longrightarrow> l4_ready hs ins k ?w'"
      using grows_waiting [OF g h(6) h(3)] grows_waiting [OF g h(6) h(4)] by (simp add: l4_ready_def w1)
    ultimately show ?thesis using Inr r x(2) by (simp add: res w1 read_count_def)
  qed
qed

lemma frame_to_host_works:
  assumes inv: "l4_inv K hs ins bounce w0 w" and ready: "l4_ready hs ins (FRAMES, Out) w"
  shows "case frame_to_host K hs w of Inl e \<Rightarrow> thrown e
    | Inr w' \<Rightarrow> l4_inv K hs ins bounce w0 w' \<and> (\<forall>k. k \<noteq> (FRAMES, Out) \<longrightarrow> l4_ready hs ins k w \<longrightarrow> l4_ready hs ins k w')
        \<and> write_count FRAMES w' = write_count FRAMES w + 1"
proof -
  have h: "kernel_ok K" "whole_writes K (fd_num FRAMES w)" "unat hs < 2" "hs \<noteq> ins" "router_ok (l4_router w)"
    and nums: "fd_num FRAMES w = fd_num FRAMES w0" "fd_num INTERNET w = fd_num INTERNET w0"
      "fd_num FRAMES w0 \<noteq> fd_num INTERNET w0"
    using inv by (auto simp: l4_inv_def)
  obtain es rounds where es: "explains hs ins bounce w0 es w" and ck: "clocks es = concat (replicate rounds [hs, ins])" using inv by (auto simp: l4_inv_def)
  have "waiting hs (l4_router w)" using ready by (simp add: l4_ready_def)
  from pop_frame_works [OF h(5,3) this] obtain f r where
    f: "first_frame hs (l4_router w) = Inr f" and r: "pop_frame hs (l4_router w) = Inr r" "router_ok r"
      "\<forall>m. m \<noteq> hs \<longrightarrow> waiting m (l4_router w) \<longrightarrow> waiting m r" by blast
  note wr = fd_write_datagram [OF h(1,2), of "ethernet_frame_serialize f"]
  show ?thesis
  proof (cases "fd_write K FRAMES (ethernet_frame_serialize f) True w")
    case (Inl e)
    then show ?thesis using wr f by (simp add: frame_to_host_def)
  next
    case (Inr res)
    obtain n w1 where res: "res = (n, w1)" by (cases res)
    from wr [unfolded Inr res sum.case prod.case] obtain x where
      x: "used (os_fds w FRAMES) x" "fd_writes x = fd_writes (os_fds w FRAMES) + 1"
      and w1: "w1 = w\<lparr>os_fds := (os_fds w)(FRAMES := x),
        os_trace := os_trace w @ [SysWrite (fd_num FRAMES w) (concat (ethernet_frame_serialize f))]\<rparr>" by blast
    let ?w' = "w1\<lparr>l4_router := r\<rparr>"
    have w': "frame_to_host K hs w = Inr ?w'" by (simp add: frame_to_host_def f Inr res) (simp add: w1 r(1))
    have "explains hs ins bounce w0 (es @ [Leave hs (concat (ethernet_frame_serialize f))]) ?w'"
      by (rule explains_step [OF es]) (use f r(1) nums h(4) in \<open>auto simp: w1 observed thread_steps [OF h(5,3)]\<close>)
    moreover have "clocks (es @ [Leave hs (concat (ethernet_frame_serialize f))]) = concat (replicate rounds [hs, ins])"
      using ck by (simp add: observed)
    ultimately have "l4_inv K hs ins bounce w0 ?w'"
      by (rule l4_inv_step [OF inv]) (use r(2) x(1) in \<open>simp_all add: w1 fd_num_def used_def\<close>)
    moreover have "\<forall>k. k \<noteq> (FRAMES, Out) \<longrightarrow> l4_ready hs ins k w \<longrightarrow> l4_ready hs ins k ?w'"
      using r(3) h(4) by (simp add: l4_ready_def w1)
    ultimately show ?thesis using w' x(2) by (simp add: w1 write_count_def)
  qed
qed

lemma frame_to_internet_works:
  assumes inv: "l4_inv K hs ins bounce w0 w" and ready: "l4_ready hs ins (INTERNET, Out) w"
  shows "case frame_to_internet SK bounce ins w of Inl e \<Rightarrow> thrown e
    | Inr w' \<Rightarrow> l4_inv K hs ins bounce w0 w' \<and> (\<forall>k. k \<noteq> (INTERNET, Out) \<longrightarrow> l4_ready hs ins k w \<longrightarrow> l4_ready hs ins k w')
        \<and> write_count INTERNET w' = write_count INTERNET w + 1"
proof -
  have h: "unat ins < 2" "hs \<noteq> ins" "router_ok (l4_router w)"
    and nums: "fd_num FRAMES w = fd_num FRAMES w0" "fd_num INTERNET w = fd_num INTERNET w0"
    using inv by (auto simp: l4_inv_def)
  obtain es rounds where es: "explains hs ins bounce w0 es w" and ck: "clocks es = concat (replicate rounds [hs, ins])" using inv by (auto simp: l4_inv_def)
  have "waiting ins (l4_router w)" using ready by (simp add: l4_ready_def)
  from pop_frame_works [OF h(3,1) this] obtain f r where
    f: "first_frame ins (l4_router w) = Inr f" and r: "pop_frame ins (l4_router w) = Inr r" "router_ok r"
      "\<forall>m. m \<noteq> ins \<longrightarrow> waiting m (l4_router w) \<longrightarrow> waiting m r" by blast
  note sent = udp_sendto_works [where SK = SK and fd = INTERNET and a = bounce and bufs = "ethernet_frame_serialize f" and w = w]
  show ?thesis
  proof (cases "udp_sendto SK INTERNET bounce (ethernet_frame_serialize f) w")
    case (Inl e)
    then show ?thesis using sent f by (simp add: frame_to_internet_def)
  next
    case (Inr w1)
    let ?x = "(os_fds w INTERNET)\<lparr>fd_writes := fd_writes (os_fds w INTERNET) + 1\<rparr>"
    have w1: "w1 = w\<lparr>os_fds := (os_fds w)(INTERNET := ?x),
        so_calls := so_calls w @ [CallSendMsg (fd_num INTERNET w) (Some bounce) (concat (ethernet_frame_serialize f))]\<rparr>"
      using sent Inr by simp
    let ?w' = "w1\<lparr>l4_router := r\<rparr>"
    have w': "frame_to_internet SK bounce ins w = Inr ?w'" by (simp add: frame_to_internet_def f Inr) (simp add: w1 r(1))
    have "explains hs ins bounce w0 (es @ [Leave ins (concat (ethernet_frame_serialize f))]) ?w'"
      by (rule explains_step [OF es]) (use f r(1) nums h(2) in \<open>auto simp: w1 observed thread_steps [OF h(3,1)]\<close>)
    moreover have "clocks (es @ [Leave ins (concat (ethernet_frame_serialize f))]) = concat (replicate rounds [hs, ins])"
      using ck by (simp add: observed)
    ultimately have "l4_inv K hs ins bounce w0 ?w'"
      by (rule l4_inv_step [OF inv]) (use r(2) in \<open>simp_all add: w1 fd_num_def\<close>)
    moreover have "\<forall>k. k \<noteq> (INTERNET, Out) \<longrightarrow> l4_ready hs ins k w \<longrightarrow> l4_ready hs ins k ?w'"
      using r(3) h(2) by (simp add: l4_ready_def w1)
    ultimately show ?thesis using w' by (simp add: w1 write_count_def)
  qed
qed

lemma tick_both_works:
  assumes inv: "l4_inv K hs ins bounce w0 w"
  shows "\<exists>w'. tick_both hs ins w = Inr w' \<and> l4_inv K hs ins bounce w0 w'"
proof -
  have h: "unat hs < 2" "unat ins < 2" "router_ok (l4_router w)" using inv by (auto simp: l4_inv_def)
  obtain es rounds where es: "explains hs ins bounce w0 es w" and ck: "clocks es = concat (replicate rounds [hs, ins])" using inv by (auto simp: l4_inv_def)
  obtain r1 where r1: "tick_interface hs (l4_router w) = Inr r1" "grows (l4_router w) r1"
    using tick_interface_works [OF h(3,1)] by blast
  have ok1: "router_ok r1" by (rule grows_ok [OF r1(2) h(3)])
  obtain r2 where r2: "tick_interface ins r1 = Inr r2" "grows r1 r2"
    using tick_interface_works [OF ok1 h(2)] by blast
  have "explains hs ins bounce w0 (es @ [Clock hs]) (w\<lparr>l4_router := r1\<rparr>)"
    by (rule explains_step [OF es]) (use r1(1) in \<open>simp_all add: observed thread_steps [OF h(3,1)]\<close>)
  from explains_step [OF this, of "Clock ins" "w\<lparr>l4_router := r2\<rparr>"]
  have "explains hs ins bounce w0 ((es @ [Clock hs]) @ [Clock ins]) (w\<lparr>l4_router := r2\<rparr>)"
    using r2(1) by (simp add: observed thread_steps [OF ok1 h(2)])
  moreover have "clocks ((es @ [Clock hs]) @ [Clock ins]) = concat (replicate (rounds + 1) [hs, ins])"
    using ck by (simp add: replicate_append_same [symmetric]) (simp add: observed)
  ultimately have "l4_inv K hs ins bounce w0 (w\<lparr>l4_router := r2\<rparr>)"
    by (rule l4_inv_step [OF inv]) (use grows_ok [OF r2(2) ok1] in \<open>simp_all add: fd_num_def\<close>)
  then show ?thesis using r1(1) r2(1) by (simp add: tick_both_def)
qed

lemma network_rules_eq:
  "network_rules K SK bounce hs ins =
     [\<lparr>ru_fd = FRAMES, ru_direction = In, ru_callback = host_frame_arrives K hs, ru_interest = \<lambda>_. Inr True, ru_cancel = Inr\<rparr>,
      \<lparr>ru_fd = FRAMES, ru_direction = Out, ru_callback = frame_to_host K hs, ru_interest = frames_wait hs, ru_cancel = Inr\<rparr>,
      \<lparr>ru_fd = INTERNET, ru_direction = Out, ru_callback = frame_to_internet SK bounce ins, ru_interest = frames_wait ins, ru_cancel = Inr\<rparr>,
      \<lparr>ru_fd = INTERNET, ru_direction = In, ru_callback = internet_frame_arrives K ins, ru_interest = \<lambda>_. Inr True, ru_cancel = Inr\<rparr>]"
  by (simp add: network_rules_def add_rule_def)

interpretation forwarding: event_loop "set (network_rules K SK bounce hs ins)" "l4_inv K hs ins bounce w0" "l4_ready hs ins" thrown
  for K SK bounce hs ins w0
proof
  fix r and w :: lab4
  assume r: "r \<in> set (network_rules K SK bounce hs ins)" and inv: "l4_inv K hs ins bounce w0 w"
  have h: "unat hs < 2" "unat ins < 2" "router_ok (l4_router w)" using inv by (auto simp: l4_inv_def)
  show "\<exists>b. ru_interest r w = Inr b \<and> (b \<longrightarrow> l4_ready hs ins (key r) w)"
    using r by (auto simp: network_rules_eq l4_ready_def frames_wait_eq [OF h(3,1)] frames_wait_eq [OF h(3,2)])
  show "case ru_cancel r w of Inl e \<Rightarrow> thrown e
    | Inr w' \<Rightarrow> l4_inv K hs ins bounce w0 w' \<and> (\<forall>k. k \<noteq> key r \<longrightarrow> l4_ready hs ins k w \<longrightarrow> l4_ready hs ins k w')"
    using r inv by (auto simp: network_rules_eq)
  assume ready: "l4_ready hs ins (key r) w"
  show "case ru_callback r w of Inl e \<Rightarrow> thrown e
    | Inr w' \<Rightarrow> l4_inv K hs ins bounce w0 w' \<and> (\<forall>k. k \<noteq> key r \<longrightarrow> l4_ready hs ins k w \<longrightarrow> l4_ready hs ins k w')
        \<and> (service_count r w = service_count r w' \<longrightarrow> ru_interest r w' = Inr False)"
    using r ready frame_arrives_works [OF inv, of FRAMES hs] frame_arrives_works [OF inv, of INTERNET ins]
      frame_to_host_works [OF inv] frame_to_internet_works [OF inv, where SK = SK]
    unfolding network_rules_eq
    by (auto simp: service_count_def host_frame_arrives_def [symmetric] internet_frame_arrives_def [symmetric] split: sum.splits)
next
  fix w :: lab4 and p
  assume "l4_inv K hs ins bounce w0 w"
  then show "l4_inv K hs ins bounce w0 (happens (SysPoll p) w)
      \<and> (\<forall>k. l4_ready hs ins k w \<longrightarrow> l4_ready hs ins k (happens (SysPoll p) w))"
    by (simp add: l4_inv_def l4_ready_def explains_def happens_def fd_num_def) (simp add: observed)
next
  show "thrown (Thrown ''EventLoop: error on polled file descriptor'')" by simp
qed

lemma network_loop_keeps:
  assumes "l4_inv K hs ins bounce w0 w" "event_loop.admissible (set (network_rules K SK bounce hs ins)) rs"
  shows "case network_loop K hs ins fuel rs w of None \<Rightarrow> True | Some (Inl e) \<Rightarrow> thrown e
    | Some (Inr w') \<Rightarrow> l4_inv K hs ins bounce w0 w'"
  using assms
proof (induction fuel arbitrary: rs w)
  case (Suc fuel)
  note round = forwarding.wait_next_event_keeps [OF Suc.prems(2,1), of K 50]
  show ?case
  proof (cases "wait_next_event K 50 rs w")
    case (Inl e)
    then show ?thesis using round by simp
  next
    case (Inr r)
    obtain ret rs1 w1 where r: "r = (ret, rs1, w1)" by (cases r)
    have w1: "l4_inv K hs ins bounce w0 w1" "event_loop.admissible (set (network_rules K SK bounce hs ins)) rs1"
      using round by (simp_all add: Inr r)
    obtain w2 where w2: "tick_both hs ins w1 = Inr w2" "l4_inv K hs ins bounce w0 w2"
      using tick_both_works [OF w1(1)] by blast
    show ?thesis using Suc.IH [OF w2(2) w1(2)] w1(1) w2 by (simp add: Inr r)
  qed
qed simp

section \<open>The routers of the two programs\<close>

lemma lab4_interface_eq:
  "address_from_text s = Inr a \<Longrightarrow> length (ro_interfaces r) < 2 ^ 32 - 1 \<Longrightarrow>
   lab4_interface s rd r = Inr (of_nat (length (ro_interfaces r)), drawn 6 rd,
     r\<lparr>ro_interfaces := ro_interfaces r @ [ai_new (ni_new (fst (random_router_ethernet_address rd)) a)]\<rparr>)"
proof -
  assume a: "address_from_text s = Inr a" and small: "length (ro_interfaces r) < 2 ^ 32 - 1"
  have "ucast (ucast (of_nat n :: u64) :: u32) = (of_nat n :: u64)" if "n < 2 ^ 32" for n
    using that by (intro word_unat_eq_iff [THEN iffD2]) (simp add: unsigned_ucast_eq unsigned_take_bit_eq unat_of_nat take_bit_nat_eq_self)
  from this [of "length (ro_interfaces r)"] show ?thesis
    using a small by (simp add: lab4_interface_def random_router_ethernet_address_def add_interface_def size_of_def)
qed

definition lab4_table :: "u32 \<Rightarrow> u8 \<Rightarrow> u32 \<Rightarrow> u8 \<Rightarrow> u32 \<Rightarrow> route_entry list" where
  "lab4_table host_net host_len other_net other_len other_router =
     [\<lparr>rt_route_prefix = host_net, rt_prefix_length = host_len, rt_next_hop = None, rt_interface_num = 0\<rparr>,
      \<lparr>rt_route_prefix = 0x0A000000, rt_prefix_length = 8, rt_next_hop = None, rt_interface_num = 1\<rparr>,
      \<lparr>rt_route_prefix = other_net, rt_prefix_length = other_len, rt_next_hop = Some (Address other_router 0),
       rt_interface_num = 1\<rparr>]"

definition lab4_interfaces :: "u32 \<Rightarrow> u32 \<Rightarrow> random \<Rightarrow> async_network_interface list" where
  "lab4_interfaces host_ip internet_ip rd =
     [ai_new (ni_new (fst (random_router_ethernet_address rd)) (Address host_ip 0)),
      ai_new (ni_new (fst (random_router_ethernet_address (drawn 6 rd))) (Address internet_ip 0))]"

lemma lab4_router_eq:
  "lab4_router is_client rd = Inr (0, 1, drawn 6 (drawn 6 rd),
     if is_client
     then \<lparr>ro_interfaces = lab4_interfaces 0xC0A80001 0x0A0000C0 rd,
           ro_routing_table = lab4_table 0xC0A80000 16 0xAC100000 12 0x0A0000AC\<rparr>
     else \<lparr>ro_interfaces = lab4_interfaces 0xAC100001 0x0A0000AC rd,
           ro_routing_table = lab4_table 0xAC100000 12 0xC0A80000 16 0x0A0000C0\<rparr>)"
proof -
  have texts: "address_from_text ''192.168.0.1'' = Inr (Address 0xC0A80001 0)"
    "address_from_text ''10.0.0.192'' = Inr (Address 0x0A0000C0 0)" "address_from_text ''192.168.0.0'' = Inr (Address 0xC0A80000 0)"
    "address_from_text ''10.0.0.0'' = Inr (Address 0x0A000000 0)" "address_from_text ''172.16.0.0'' = Inr (Address 0xAC100000 0)"
    "address_from_text ''10.0.0.172'' = Inr (Address 0x0A0000AC 0)" "address_from_text ''172.16.0.1'' = Inr (Address 0xAC100001 0)"
    by (simp_all add: address_from_text_numeric numeric_text)
  show ?thesis
    by (cases is_client) (simp_all add: lab4_router_def lab4_branch_def lab4_interface_eq texts lab4_route_def add_route_def
      router_new_def lab4_table_def lab4_interfaces_def)
qed

lemma lab4_router_ok: "lab4_router is_client rd = Inr (hs, ins, rd', r) \<Longrightarrow> hs = 0 \<and> ins = 1 \<and> router_ok r"
  by (auto simp: lab4_router_eq router_ok_def lab4_table_def lab4_interfaces_def split: if_splits)

text \<open>Traffic for the host of the other program leaves towards its router; traffic for the own
  host's network goes straight to its destination.\<close>

lemma masks: "prefix_mask 16 = Inr 0xFFFF0000" "prefix_mask 12 = Inr 0xFFF00000" "prefix_mask 8 = Inr 0xFF000000"
  by (simp_all add: prefix_mask_def)

lemma lookup_192_168:
  assumes "dst AND 0xFFFF0000 = 0xC0A80000"
  shows "lpm_loop dst (lab4_table 0xC0A80000 16 0xAC100000 12 a) 0 0 (- 1) = Inr 0"
    and "lpm_loop dst (lab4_table 0xAC100000 12 0xC0A80000 16 a) 0 0 (- 1) = Inr 2"
proof -
  have "dst AND 0xFFF00000 = (dst AND 0xFFFF0000) AND 0xFFF00000" "dst AND 0xFF000000 = (dst AND 0xFFFF0000) AND 0xFF000000"
    by (simp_all add: and.assoc)
  then have "dst AND 0xFFF00000 = 0xC0A00000" "dst AND 0xFF000000 = 0xC0000000" by (simp_all add: assms)
  then show "lpm_loop dst (lab4_table 0xC0A80000 16 0xAC100000 12 a) 0 0 (- 1) = Inr 0"
    and "lpm_loop dst (lab4_table 0xAC100000 12 0xC0A80000 16 a) 0 0 (- 1) = Inr 2"
    by (simp_all add: lab4_table_def masks assms)
qed

lemma lookup_172_16:
  assumes "dst AND 0xFFF00000 = 0xAC100000"
  shows "lpm_loop dst (lab4_table 0xC0A80000 16 0xAC100000 12 a) 0 0 (- 1) = Inr 2"
    and "lpm_loop dst (lab4_table 0xAC100000 12 0xC0A80000 16 a) 0 0 (- 1) = Inr 0"
proof -
  have "dst AND 0xFFF00000 = (dst AND 0xFFFF0000) AND 0xFFF00000" "dst AND 0xFF000000 = (dst AND 0xFFF00000) AND 0xFF000000"
    by (simp_all add: and.assoc)
  then have "dst AND 0xFFFF0000 \<noteq> 0xC0A80000" "dst AND 0xFF000000 = 0xAC000000" using assms by auto
  then show "lpm_loop dst (lab4_table 0xC0A80000 16 0xAC100000 12 a) 0 0 (- 1) = Inr 2"
    and "lpm_loop dst (lab4_table 0xAC100000 12 0xC0A80000 16 a) 0 0 (- 1) = Inr 0"
    by (simp_all add: lab4_table_def masks assms)
qed

text \<open>A datagram for the client's network that has hops left goes to the client's router from the
  server's, and to its destination from the client's; the other way round for the server's.\<close>

lemma lab4_routers_agree:
  assumes "lab4_router is_client rd = Inr (hs, ins, rd', r)" "\<not> ih_ttl (id_header d) \<le> 1"
  shows "ih_dst (id_header d) AND 0xFFFF0000 = 0xC0A80000 \<Longrightarrow> route_one_datagram d r =
      (if is_client then send_on hs (hop d) (Address (ih_dst (id_header d)) 0) r
       else send_on ins (hop d) (Address 0x0A0000C0 0) r)"
    and "ih_dst (id_header d) AND 0xFFF00000 = 0xAC100000 \<Longrightarrow> route_one_datagram d r =
      (if is_client then send_on ins (hop d) (Address 0x0A0000AC 0) r
       else send_on hs (hop d) (Address (ih_dst (id_header d)) 0) r)"
  using assms
  by (auto simp: route_one_datagram_def lab4_router_eq Let_def lookup_192_168 lookup_172_16 hop_def from_ipv4_numeric_def)
    (simp_all add: lab4_table_def from_ipv4_numeric_def)

section \<open>The property\<close>

text \<open>Nothing but an exception can stop the thread from outside, and it is caught.\<close>

lemma network_thread_catches:
  assumes "\<And>e. network_loop K hs ins fuel (network_rules K SK bounce hs ins) w = Some (Inl e) \<Longrightarrow> thrown e"
  shows "\<nexists>e. network_thread K SK fuel bounce hs ins w = Some (Inl e)"
  using assms by (auto simp: network_thread_def thrown_def split: option.splits sum.splits failure.splits)

text \<open>C28: The network thread of \<open>lab4\<close> is a router. Whatever the kernel answers, it fails only by an
  exception, which ends the thread, and is never caught busy waiting; and when it returns,
  what it has done is one run of the router: the frames read from the host and from the
  Internet socket are those that arrived at the two interfaces, each once and in order, what
  was written to the host and sent to the bouncer are the frames that left them, and 50
  milliseconds pass at both interfaces in every round.\<close>

theorem network_thread_is_router:
  assumes "kernel_ok K" "whole_writes K (fd_num FRAMES w0)" "fd_num FRAMES w0 \<noteq> fd_num INTERNET w0"
    and "lab4_router is_client rd = Inr (hs, ins, rd', l4_router w0)"
  shows "case network_loop K hs ins fuel (network_rules K SK bounce hs ins) w0 of
      None \<Rightarrow> True
    | Some (Inl e) \<Rightarrow> (\<exists>s. e = Thrown s \<and> s \<noteq> busy_wait_text)
    | Some (Inr w) \<Rightarrow> \<exists>es rounds. router_run es (l4_router w0) = Inr (l4_router w)
        \<and> clocks es = concat (replicate rounds [hs, ins])
        \<and> datagrams_read (fd_num FRAMES w0) (os_trace w) = datagrams_read (fd_num FRAMES w0) (os_trace w0) @ arrivals hs es
        \<and> datagrams_read (fd_num INTERNET w0) (os_trace w) = datagrams_read (fd_num INTERNET w0) (os_trace w0) @ arrivals ins es
        \<and> datagrams_written (fd_num FRAMES w0) (os_trace w) = datagrams_written (fd_num FRAMES w0) (os_trace w0) @ leavings hs es
        \<and> datagrams_sent (fd_num INTERNET w0) bounce (so_calls w) = datagrams_sent (fd_num INTERNET w0) bounce (so_calls w0) @ leavings ins es"
proof -
  have sides: "hs = 0" "ins = 1" "router_ok (l4_router w0)" using lab4_router_ok [OF assms(4)] by simp_all
  have "explains hs ins bounce w0 [] w0" by (simp add: explains_def observed)
  moreover have "clocks [] = concat (replicate 0 [hs, ins])" by (simp add: observed)
  ultimately have inv: "l4_inv K hs ins bounce w0 w0"
    unfolding l4_inv_def using assms(1-3) sides by (simp del: replicate_0) blast
  have "event_loop.admissible (set (network_rules K SK bounce hs ins)) (network_rules K SK bounce hs ins)"
    unfolding forwarding.admissible_def by (simp add: network_rules_eq)
  from network_loop_keeps [OF inv this, of fuel] show ?thesis
    by (auto simp: thrown_def l4_inv_def explains_def split: option.splits sum.splits)
qed

text \<open>The host asks for the address of its gateway, and is answered.\<close>

definition arp_question :: "byte list" where
  "arp_question = [255, 255, 255, 255, 255, 255, 2, 0, 0, 0, 0, 170, 8, 6, 0, 1, 8, 0, 6, 4, 0, 1,
     2, 0, 0, 0, 0, 170, 192, 168, 0, 50, 0, 0, 0, 0, 0, 0, 192, 168, 0, 1]"

definition arp_answer :: "byte list" where
  "arp_answer = [2, 0, 0, 0, 0, 170, 2, 0, 0, 0, 0, 0, 8, 6, 0, 1, 8, 0, 6, 4, 0, 2,
     2, 0, 0, 0, 0, 0, 192, 168, 0, 1, 2, 0, 0, 0, 0, 170, 192, 168, 0, 50]"

definition asking_kernel :: kernel where
  "asking_kernel = \<lparr>
     k_read = (\<lambda>tr fd n. if read_from 3 tr = [] then Inr (if 42 \<le> n then arp_question else []) else Inl 11),
     k_writev = (\<lambda>tr fd vs. let n = length (concat (map fst vs))
       in if int (length (written fd tr) + n) < 2 ^ 61 then Inr n else Inl 28),
     k_poll = (\<lambda>tr ps t. if written 3 tr \<noteq> [] then Inl EINTR
       else Inr (1, \<lambda>i. if i = 0 \<and> read_from 3 tr = [] then POLLIN else if i = 1 then POLLOUT else 0)),
     k_shutdown = (\<lambda>tr fd how. Inr 0), k_close = (\<lambda>tr fd. Inr 0), k_clock = (\<lambda>tr. 0), k_abort = (\<lambda>tr. False)\<rparr>"

definition silent_sockets :: sock_kernel where
  "silent_sockets = \<lparr>sk_socket = (\<lambda>_ _ _. Inl 1), sk_getsockopt = (\<lambda>_ _ _ _. Inl 1), sk_setsockopt = (\<lambda>_ _ _ _ _. Inl 1),
     sk_getsockname = (\<lambda>_ _. Inl 1), sk_getpeername = (\<lambda>_ _. Inl 1), sk_bind = (\<lambda>_ _ _. Inl 1),
     sk_connect = (\<lambda>_ _ _. Inl 1), sk_listen = (\<lambda>_ _ _. Inl 1), sk_accept = (\<lambda>_ _. Inl 1),
     sk_recvfrom = (\<lambda>_ _. Inl 1), sk_sendmsg = (\<lambda>_ _ _ _. Inl 1), sk_getfl = (\<lambda>_ _. Inl 1),
     sk_setfl = (\<lambda>_ _ _. Inl 1), sk_open = (\<lambda>_ _ _. Inl 1), sk_tunsetiff = (\<lambda>_ _ _ _. Inl 1)\<rparr>"

definition example_router :: router where
  "example_router = \<lparr>ro_interfaces = lab4_interfaces 0xC0A80001 0x0A0000C0 (\<lambda>_. 0),
     ro_routing_table = lab4_table 0xC0A80000 16 0xAC100000 12 0x0A0000AC\<rparr>"

definition example_lab4 :: lab4 where
  "example_lab4 = \<lparr>os_fds = (\<lambda>fd. \<lparr>fd_fd = fd, fd_is_eof = False, fd_is_closed = False, fd_reads = 0, fd_writes = 0\<rparr>),
     os_trace = [], so_calls = [], l4_router = example_router\<rparr>"

lemma example_lab4_runs:
  "case network_loop asking_kernel 0 1 10 (network_rules asking_kernel silent_sockets (Address 1 2) 0 1) example_lab4 of
     Some (Inr w) \<Rightarrow> datagrams_read 3 (os_trace w) = [arp_question] \<and> datagrams_written 3 (os_trace w) = [arp_answer] | _ \<Rightarrow> False"
  by code_simp

theorem network_thread_is_router_witness:
  "\<exists>w es. network_loop asking_kernel 0 1 10 (network_rules asking_kernel silent_sockets (Address 1 2) 0 1) example_lab4 = Some (Inr w)
     \<and> router_run es example_router = Inr (l4_router w) \<and> arrivals 0 es = [arp_question] \<and> leavings 0 es = [arp_answer]"
proof -
  obtain w where w: "network_loop asking_kernel 0 1 10 (network_rules asking_kernel silent_sockets (Address 1 2) 0 1) example_lab4 = Some (Inr w)"
    "datagrams_read 3 (os_trace w) = [arp_question]" "datagrams_written 3 (os_trace w) = [arp_answer]"
    using example_lab4_runs by (auto split: option.split_asm sum.split_asm)
  have "kernel_ok asking_kernel" "whole_writes asking_kernel (fd_num FRAMES example_lab4)"
    by (auto simp: kernel_ok_def whole_writes_def asking_kernel_def arp_question_def word_le_nat_alt Let_def EINTR_def split: if_splits)
  moreover have "fd_num FRAMES example_lab4 = 3" "fd_num INTERNET example_lab4 = 4"
    "l4_router example_lab4 = example_router" "os_trace example_lab4 = []"
    by (simp_all add: example_lab4_def fd_num_def)
  moreover have "lab4_router True (\<lambda>_. 0) = Inr (0, 1, drawn 6 (drawn 6 (\<lambda>_. 0)), example_router)"
    by (simp add: lab4_router_eq example_router_def)
  ultimately show ?thesis
    using network_thread_is_router [where K = asking_kernel and SK = silent_sockets and ?w0.0 = example_lab4 and is_client = True
      and rd = "\<lambda>_. 0" and hs = 0 and ins = 1 and fuel = 10 and bounce = "Address 1 2"] w
    by (auto simp: datagrams_read_def datagrams_written_def)
qed

text \<open>The exception that ends the thread is the work of one frame: a datagram whose version is not 4
  is taken, and cannot be serialized when it is forwarded.\<close>

lemma version_five_ends_the_thread:
  "take_frame 0 ([2, 0, 0, 0, 0, 0, 2, 0, 0, 0, 0, 170, 8, 0] @
     [0x55, 0, 0, 20, 0, 0, 0x40, 0, 64, 17, 0, 0, 192, 168, 0, 50, 172, 16, 0, 100])
     (set_interface 1 (ai_new ((ni_new (EthernetAddress 2 0 0 0 0 0) (Address 0x0A0000C0 0))
        \<lparr>ni_arp_cache := [(0x0A0000AC, (EthernetAddress 2 0 0 0 0 1, 30000))]\<rparr>)) example_router)
   = Inl (Thrown ''wrong IP version'')"
  by code_simp

end
