(* ===== verification/Spec2Isabelle.thy ===== *)
theory Spec2Isabelle
  imports TcpLifecycle SocketPair StreamCopy ChatClient NetworkTests UdpTcpdump Lab4 Buffers
begin

text \<open>
  A verification library for this repository: the user-space TCP/IP stack in
  \<open>src/zju-comnet-labs/libsponge\<close>, from the byte stream up to the socket that applications use,
  four of the programs in \<open>src/zju-comnet-labs/apps\<close> (the stream copy, the network simulator,
  \<open>udp_tcpdump\<close> and \<open>lab4\<close>) and the chat program in \<open>src/lab6/code\<close>.

  \<^bold>\<open>The program.\<close> An application writes to and reads from a \<open>TCPSpongeSocket\<close>. Behind it a
  thread runs an \<open>EventLoop\<close> whose four rules move bytes between the application's socket, a
  \<open>TCPConnection\<close> and a device. A connection is a \<open>TCPSender\<close>, which cuts a \<open>ByteStream\<close> into
  segments and retransmits them, and a \<open>TCPReceiver\<close>, which puts the peer's segments together
  with a \<open>StreamReassembler\<close>; each segment that leaves carries the receiver's acknowledgment.
  An adapter wraps segments in Internet datagrams and, for a TAP device, in Ethernet frames,
  with a \<open>NetworkInterface\<close> that resolves addresses by ARP. A \<open>Router\<close> forwards datagrams
  between such interfaces.

  \<^bold>\<open>The theories\<close>, bottom up, with the source files (under \<open>libsponge\<close>) that they model; every
  class is a record with its members, every method a function on it, every exception, failed
  assertion or undefined operation a value of \<open>failure\<close>, and machine integers are words of
  their width, so that wrap-around is the code's.

  \<^item> \<open>Prelude\<close>: integers, byte strings, failures; the locales \<open>machine\<close> (operations that keep an
    invariant) and \<open>codec\<close> (a decoder that undoes an encoder) with their consequences.
    \<open>StdMap\<close>: \<open>std::map\<close> as an ordered list with iterators, locale \<open>ordered_map\<close>.
    \<open>Text\<close>: strings as bytes, numbers written and read in decimal.
    \<open>Addresses\<close> (\<open>util/address\<close>): addresses, their numeric texts, and the resolver.
  \<^item> \<open>ByteStream\<close> (\<open>byte_stream\<close>), \<open>StreamReassembler\<close> (\<open>stream_reassembler\<close>), \<open>WrappingInt\<close>
    (\<open>wrapping_integers\<close>), \<open>TcpReceiver\<close> (\<open>tcp_receiver\<close>), \<open>TcpSender\<close> and \<open>TcpSending\<close>
    (\<open>tcp_sender\<close>), \<open>TcpState\<close> (\<open>tcp_helpers/tcp_state\<close>), \<open>TcpConnection\<close> (\<open>tcp_connection\<close>).
  \<^item> \<open>Buffers\<close> (\<open>util/buffer\<close>), \<open>Wire\<close> (\<open>util/parser\<close>), \<open>Checksum\<close> (\<open>util/util\<close>), \<open>TcpSegment\<close>,
    \<open>Ipv4\<close> and \<open>EthernetArp\<close> (headers, segments, datagrams, frames and ARP messages of
    \<open>tcp_helpers\<close>), \<open>NetworkInterface\<close> (\<open>network_interface\<close>), \<open>Router\<close> (\<open>router\<close>), \<open>Adapters\<close>
    (\<open>tcp_helpers/{fd_adapter,tcp_over_ip,tuntap_adapter,lossy_fd_adapter}\<close>).
  \<^item> \<open>FileDescriptor\<close> (\<open>util/file_descriptor\<close>, \<open>SystemCall\<close> and \<open>timestamp_ms\<close> of \<open>util/util.cc\<close>,
    \<open>Socket::shutdown\<close> of \<open>util/socket.cc\<close>), \<open>Sockets\<close> (the rest of \<open>util/socket\<close>, \<open>util/tun\<close>),
    \<open>EventLoop\<close> (\<open>util/eventloop\<close>), \<open>SpongeSocket\<close> (\<open>tcp_helpers/tcp_sponge_socket\<close>).
  \<^item> \<open>StreamCopy\<close> (\<open>apps/bidirectional_stream_copy.cc\<close>), on \<open>LoopHistory\<close> (what the rules of a loop have
    done when they have left it); \<open>NetworkSimulator\<close>
    (\<open>apps/network_simulator.cc\<close>: hosts, cables, the tests), with \<open>NetworkJourney\<close> (a datagram's way
    through the network) and \<open>NetworkTests\<close> (the tests); \<open>UdpTcpdump\<close> (\<open>apps/udp_tcpdump.cc\<close>, and
    \<open>hexdump\<close> of \<open>util/util.cc\<close>); \<open>Lab4\<close> (\<open>apps/lab4.cc\<close>: a host's stack behind a router).
  \<^item> \<open>ChatWire\<close>, \<open>ChatServer\<close> and \<open>ChatClient\<close> (\<open>src/lab6/code\<close>). The server's threads are modelled
    as interleaved steps, each of them one critical section or one call of \<open>send\<close>, \<open>close\<close>, \<open>recv\<close>
    or \<open>accept\<close>.

  \<^bold>\<open>What is proved\<close>, by layers.

  \<^item> One direction of TCP. The reassembler's output is a prefix of the stream whatever pieces
    arrive; the receiver acknowledges exactly what has been assembled; the sender emits pieces
    of its stream within the window, takes acknowledgments and resends what is not acknowledged,
    with growing timeouts unless the window is closed. \<open>TcpTransfer\<close> joins a
    sender and a receiver by a network that loses, repeats and reorders.
  \<^item> Connections. \<open>TcpPair\<close> joins two endpoints by such a network and shows that they do
    nothing but two one-way transfers (a simulation), hence that each application receives a
    prefix of what the other wrote, and everything once a connection has closed without an
    error. \<open>TcpLifecycle\<close> has the handshake, the answers to segments, resets, giving up and
    the two ways of closing; \<open>ConnectionSafety\<close> shows that forged segments cannot break the
    well-formedness of a connection.
  \<^item> The wire. Serializing and parsing segments, datagrams, frames and ARP messages are round
    trips, the IPv4 header parser accepts exactly what it should, a corrupt byte is detected; the
    adapters carry segments to the peer and accept only the peer's.
  \<^item> The network. A network interface conserves datagrams, resolves addresses and limits its
    requests; the router forwards along the longest matching prefix and empties its queues.
  \<^item> The operating system and the applications. \<open>EventLoop\<close> has the locale \<open>event_loop\<close>: what
    rules must guarantee so that rounds of the loop keep an invariant, fail only as allowed and
    are never caught busy waiting. It is interpreted for the socket (\<open>SpongeRuns\<close>) and for
    the stream copy (\<open>StreamCopy\<close>) and the network thread of \<open>lab4\<close> (\<open>Lab4\<close>). The locale \<open>loop_history\<close>
    of \<open>LoopHistory\<close> tells why a rule has left the loop; with it, the copy has relayed everything
    when the loop returns, except to a sink that has hung up.
    \<open>SpongeStory\<close> and \<open>SpongeRuns\<close> explain every trace of system calls of a socket's thread by a run of an endpoint of \<open>TcpPair\<close>; \<open>SocketPair\<close> puts two
    sockets together: what one application is given is a prefix of what the other handed to
    its socket, through the event loops, connections, adapters and datagrams. The traces of
    the network thread of \<open>lab4\<close> are explained by runs of its router in the same way.
  \<^item> The other programs. The simulated network delivers every datagram to the host that the
    routing table leads to, and the simulator's tests succeed; a host's check is exact.
    \<open>udp_tcpdump\<close> shows the segments that were sent and reads only what was captured.
  \<^item> The chat program: the server's table stays consistent however the threads are interleaved,
    messages reach the client they are addressed to as long as it stays registered, the client
    shows the packets sent to it however the bytes are cut. A recipient that leaves between the
    search and the send shows what can go wrong (\<open>chat_race\<close>).

  \<^bold>\<open>Parameters.\<close> The operating system is not part of the repository: a \<open>kernel\<close> answers each
  system call by a function of everything that has happened before (the trace that the state
  keeps) and of the arguments, so that it may behave in any way; \<open>kernel_ok\<close> and \<open>whole_writes\<close>
  name the documented behaviour that the properties need. A \<open>sock_kernel\<close> does the same for
  the calls that set up sockets and devices and move UDP datagrams, a \<open>resolver\<close> for
  \<open>getaddrinfo\<close>; the capture library and \<open>inet_ntop\<close> are parameters of \<open>UdpTcpdump\<close>.
  Random numbers (initial sequence
  numbers, ports, Ethernet addresses), the current time and the input of the chat user are
  arguments, and so is the order in which an unordered map is traversed.

  \<^bold>\<open>Bounds.\<close> The receiving capacity is below \<open>2 ^ 61\<close> bytes, so that the reassembler's 64-bit
  indices do not wrap; a direction carries at most \<open>2 ^ 31 - 3\<close> bytes, so that \<open>unwrap\<close> is never
  ambiguous between the sender's and the receiver's checkpoints. Within them every function
  of the stack is total; the loops of the sender, of the writes and of the parsers terminate
  by measures. The event loops of the socket and of the copy need not end: their \<open>fuel\<close> is the
  number of rounds, \<open>None\<close> means that it is used up, and the properties hold for every fuel,
  that is at every round; so it is for the network thread of \<open>lab4\<close>. The simulator carries
  frames for 256 rounds per test, as the code does; a datagram crosses a cable in at most three
  rounds, and six are enough for any test.

  \<^bold>\<open>Not modelled.\<close> Debug output and the human-readable summaries of headers; the seeding of the
  random generator; addresses of families other than IPv4; making the descriptors of the
  stream copy and of the socket pairs non-blocking; creating and joining threads: the owner of
  a socket and its thread meet only in the system calls and in the flag \<open>_abort\<close> (\<open>exit_flag\<close>
  in \<open>lab4\<close>), which is part of the kernel; the main threads and command-line options of the
  applications; the applications that are command lines or plain sockets around the library
  (\<open>bouncer\<close>, \<open>webget\<close>, \<open>tun\<close>, \<open>tcp_benchmark\<close> and the \<open>tcp_\<close> programs); the tests.
\<close>

end
